(* ===== verification/Kernel_Prelude.thy ===== *)
theory Kernel_Prelude
  imports Main "HOL-Library.Word" "HOL-Library.Monad_Syntax"
begin

text \<open>
  The base of the development: the machine integers and pointers of the C code, access to a partial
  heap, and the generic lemmas that the components share.
\<close>

text \<open>The unsigned integers of src/kernel.h at their width.\<close>

type_synonym u8 = "8 word"
type_synonym u32 = "32 word"
type_synonym u64 = "64 word"

text \<open>A C pointer into a typed heap: \<open>None\<close> is \<open>NULL\<close>.\<close>

type_synonym 'p ptr = "'p option"

abbreviation (input) NULL :: "'p ptr" where
  "NULL \<equiv> None"

text \<open>Reading and updating a cell of a typed heap; both are undefined (\<open>None\<close>) at the null pointer and
  outside the heap.\<close>

definition fetch :: "('p \<rightharpoonup> 'n) \<Rightarrow> 'p ptr \<Rightarrow> 'n option" where
  "fetch h p = (case p of None \<Rightarrow> None | Some a \<Rightarrow> h a)"

definition modify :: "'p ptr \<Rightarrow> ('n \<Rightarrow> 'n) \<Rightarrow> ('p \<rightharpoonup> 'n) \<Rightarrow> ('p \<rightharpoonup> 'n) option" where
  "modify p f h = (case p of None \<Rightarrow> None | Some a \<Rightarrow>
     (case h a of None \<Rightarrow> None | Some n \<Rightarrow> Some (h(a \<mapsto> f n))))"

lemma fetch_simps [simp]:
  "fetch h None = None"
  "fetch h (Some a) = h a"
  by (simp_all add: fetch_def)

lemma modify_None [simp]: "modify None f h = None"
  by (simp add: modify_def)

lemma modify_Some [simp]: "h a = Some n \<Longrightarrow> modify (Some a) f h = Some (h(a \<mapsto> f n))"
  by (simp add: modify_def)

section \<open>Generic lemmas\<close>

lemma sum_list_filter_split:
  fixes f :: "'a \<Rightarrow> 'b::comm_monoid_add"
  shows "(\<Sum>x\<leftarrow>filter P xs. f x) + (\<Sum>x\<leftarrow>filter (\<lambda>x. \<not> P x) xs. f x) = (\<Sum>x\<leftarrow>xs. f x)"
  by (induction xs) (auto simp: algebra_simps)

lemma sorted_wrt_remove1: "sorted_wrt P xs \<Longrightarrow> sorted_wrt P (remove1 x xs)"
  by (induction xs) (auto dest: notin_set_remove1)

lemma unat_ucast_small: "unat x < 2 ^ LENGTH('b) \<Longrightarrow> unat (ucast x :: 'b::len word) = unat (x :: 'a::len word)"
  by (simp add: unsigned_ucast_eq take_bit_nat_eq_self)

end
