(* ===== verification/Rbtree.thy ===== *)
theory Rbtree
  imports Kernel_Prelude
begin

text \<open>
  The red-black tree of src/rbtree.c and src/rbtree.h, one definition per C function.  A node
  address is a value of a type \<open>'p\<close> that the client chooses (a process slot for the CFS scheduler, a
  heap address for epoll), a memory maps addresses to nodes, and every function returns \<open>None\<close> where
  the C code would read or write through a null or dangling pointer or never return.
\<close>

section \<open>Nodes, roots and memory\<close>

datatype rb_colour = RB_RED | RB_BLACK

record 'p rb_node =
  parent :: "'p ptr"
  left :: "'p ptr"
  right :: "'p ptr"
  color :: rb_colour

text \<open>The memory of one tree: the nodes by address and the field \<open>rb_node\<close> of its \<open>struct rb_root\<close>.\<close>

record 'p rb_mem =
  nodes :: "'p \<rightharpoonup> 'p rb_node"
  root :: "'p ptr"

section \<open>Field accesses\<close>

definition rd :: "'p rb_mem \<Rightarrow> 'p ptr \<Rightarrow> 'p rb_node option" where
  "rd s p = fetch (nodes s) p"

definition wr :: "'p ptr \<Rightarrow> ('p rb_node \<Rightarrow> 'p rb_node) \<Rightarrow> 'p rb_mem \<Rightarrow> 'p rb_mem option" where
  "wr p f s = do { h \<leftarrow> modify p f (nodes s); Some (s\<lparr>nodes := h\<rparr>) }"

definition rb_set_parent :: "'p ptr \<Rightarrow> 'p ptr \<Rightarrow> 'p rb_mem \<Rightarrow> 'p rb_mem option" where
  "rb_set_parent node par = wr node (parent_update (\<lambda>_. par))"

definition rb_set_color :: "'p ptr \<Rightarrow> rb_colour \<Rightarrow> 'p rb_mem \<Rightarrow> 'p rb_mem option" where
  "rb_set_color node c = wr node (color_update (\<lambda>_. c))"

definition rb_parent :: "'p ptr \<Rightarrow> 'p rb_mem \<Rightarrow> 'p ptr option" where
  "rb_parent node s = do { n \<leftarrow> rd s node; Some (parent n) }"

definition rb_left :: "'p ptr \<Rightarrow> 'p rb_mem \<Rightarrow> 'p ptr option" where
  "rb_left node s = do { n \<leftarrow> rd s node; Some (left n) }"

definition rb_right :: "'p ptr \<Rightarrow> 'p rb_mem \<Rightarrow> 'p ptr option" where
  "rb_right node s = do { n \<leftarrow> rd s node; Some (right n) }"

definition rb_set_left :: "'p ptr \<Rightarrow> 'p ptr \<Rightarrow> 'p rb_mem \<Rightarrow> 'p rb_mem option" where
  "rb_set_left node v = wr node (left_update (\<lambda>_. v))"

definition rb_set_right :: "'p ptr \<Rightarrow> 'p ptr \<Rightarrow> 'p rb_mem \<Rightarrow> 'p rb_mem option" where
  "rb_set_right node v = wr node (right_update (\<lambda>_. v))"

definition rb_color :: "'p ptr \<Rightarrow> 'p rb_mem \<Rightarrow> rb_colour option" where
  "rb_color node s =
     (if node = NULL then Some RB_BLACK else do { n \<leftarrow> rd s node; Some (color n) })"

definition rb_is_red :: "'p ptr \<Rightarrow> 'p rb_mem \<Rightarrow> bool option" where
  "rb_is_red node s =
     (if node = NULL then Some False else do { n \<leftarrow> rd s node; Some (color n = RB_RED) })"

definition rb_is_black :: "'p ptr \<Rightarrow> 'p rb_mem \<Rightarrow> bool option" where
  "rb_is_black node s =
     (if node = NULL then Some True else do { n \<leftarrow> rd s node; Some (color n = RB_BLACK) })"

section \<open>Rotations\<close>

text \<open>The statement ``if (parent) ... else root->rb\_node = ...'' that both rotations, \<open>rb_erase\<close> and its
  successor branch contain; \<open>rb_rotate_right\<close> tests the right child first.\<close>

definition rb_relink :: "'p ptr \<Rightarrow> 'p ptr \<Rightarrow> 'p ptr \<Rightarrow> 'p rb_mem \<Rightarrow> 'p rb_mem option" where
  "rb_relink parentp old new s =
     (if parentp \<noteq> NULL then do {
        pl \<leftarrow> rb_left parentp s;
        if pl = old then rb_set_left parentp new s else rb_set_right parentp new s }
      else Some (s\<lparr>root := new\<rparr>))"

definition rb_relink_r :: "'p ptr \<Rightarrow> 'p ptr \<Rightarrow> 'p ptr \<Rightarrow> 'p rb_mem \<Rightarrow> 'p rb_mem option" where
  "rb_relink_r parentp old new s =
     (if parentp \<noteq> NULL then do {
        pr \<leftarrow> rb_right parentp s;
        if pr = old then rb_set_right parentp new s else rb_set_left parentp new s }
      else Some (s\<lparr>root := new\<rparr>))"

definition rb_reparent :: "'p ptr \<Rightarrow> 'p ptr \<Rightarrow> 'p rb_mem \<Rightarrow> 'p rb_mem option" where
  "rb_reparent child par s = (if child \<noteq> NULL then rb_set_parent child par s else Some s)"

definition rb_rotate_left :: "'p ptr \<Rightarrow> 'p rb_mem \<Rightarrow> 'p rb_mem option" where
  "rb_rotate_left node s = do {
     rightp \<leftarrow> rb_right node s;
     parentp \<leftarrow> rb_parent node s;
     rl \<leftarrow> rb_left rightp s;
     s \<leftarrow> rb_set_right node rl s;
     rl \<leftarrow> rb_left rightp s;
     s \<leftarrow> rb_reparent rl node s;
     s \<leftarrow> rb_set_left rightp node s;
     s \<leftarrow> rb_set_parent rightp parentp s;
     s \<leftarrow> rb_relink parentp node rightp s;
     rb_set_parent node rightp s }"

definition rb_rotate_right :: "'p ptr \<Rightarrow> 'p rb_mem \<Rightarrow> 'p rb_mem option" where
  "rb_rotate_right node s = do {
     leftp \<leftarrow> rb_left node s;
     parentp \<leftarrow> rb_parent node s;
     lr \<leftarrow> rb_right leftp s;
     s \<leftarrow> rb_set_left node lr s;
     lr \<leftarrow> rb_right leftp s;
     s \<leftarrow> rb_reparent lr node s;
     s \<leftarrow> rb_set_right leftp node s;
     s \<leftarrow> rb_set_parent leftp parentp s;
     s \<leftarrow> rb_relink_r parentp node leftp s;
     rb_set_parent node leftp s }"

section \<open>Insertion\<close>

text \<open>One iteration of the loop of \<open>rb_insert_color\<close>; the result is the node the loop goes on with.\<close>

definition rb_insert_iter ::
  "'p ptr \<Rightarrow> 'p ptr \<Rightarrow> 'p rb_mem \<Rightarrow> ('p ptr \<times> 'p rb_mem) option" where
  "rb_insert_iter node parentp s = do {
     gparent \<leftarrow> rb_parent parentp s;
     gl \<leftarrow> rb_left gparent s;
     if parentp = gl then do {
       uncle \<leftarrow> rb_right gparent s;
       ured \<leftarrow> rb_is_red uncle s;
       if uncle \<noteq> NULL \<and> ured then do {
         s \<leftarrow> rb_set_color uncle RB_BLACK s;
         s \<leftarrow> rb_set_color parentp RB_BLACK s;
         s \<leftarrow> rb_set_color gparent RB_RED s;
         Some (gparent, s) }
       else do {
         pr \<leftarrow> rb_right parentp s;
         (node, parentp, s) \<leftarrow> (if pr = node then do {
             s \<leftarrow> rb_rotate_left parentp s;
             Some (parentp, node, s) }
           else Some (node, parentp, s));
         s \<leftarrow> rb_set_color parentp RB_BLACK s;
         s \<leftarrow> rb_set_color gparent RB_RED s;
         s \<leftarrow> rb_rotate_right gparent s;
         Some (node, s) } }
     else do {
       uncle \<leftarrow> rb_left gparent s;
       ured \<leftarrow> rb_is_red uncle s;
       if uncle \<noteq> NULL \<and> ured then do {
         s \<leftarrow> rb_set_color uncle RB_BLACK s;
         s \<leftarrow> rb_set_color parentp RB_BLACK s;
         s \<leftarrow> rb_set_color gparent RB_RED s;
         Some (gparent, s) }
       else do {
         pl \<leftarrow> rb_left parentp s;
         (node, parentp, s) \<leftarrow> (if pl = node then do {
             s \<leftarrow> rb_rotate_right parentp s;
             Some (parentp, node, s) }
           else Some (node, parentp, s));
         s \<leftarrow> rb_set_color parentp RB_BLACK s;
         s \<leftarrow> rb_set_color gparent RB_RED s;
         s \<leftarrow> rb_rotate_left gparent s;
         Some (node, s) } } }"

partial_function (option) rb_insert_loop :: "'p ptr \<Rightarrow> 'p rb_mem \<Rightarrow> 'p rb_mem option" where
  "rb_insert_loop node s = do {
     parentp \<leftarrow> rb_parent node s;
     pred \<leftarrow> rb_is_red parentp s;
     if parentp \<noteq> NULL \<and> pred then do {
       (node, s) \<leftarrow> rb_insert_iter node parentp s;
       rb_insert_loop node s }
     else Some s }"

declare rb_insert_loop.simps [code]

definition rb_insert_color :: "'p ptr \<Rightarrow> 'p rb_mem \<Rightarrow> 'p rb_mem option" where
  "rb_insert_color node s = do {
     s \<leftarrow> rb_insert_loop node s;
     rb_set_color (root s) RB_BLACK s }"

section \<open>In-order traversal\<close>

partial_function (option) rb_leftmost_from :: "'p ptr \<Rightarrow> 'p rb_mem \<Rightarrow> 'p ptr option" where
  "rb_leftmost_from node s = do {
     l \<leftarrow> rb_left node s;
     if l \<noteq> NULL then rb_leftmost_from l s else Some node }"

declare rb_leftmost_from.simps [code]

definition rb_first :: "'p rb_mem \<Rightarrow> 'p ptr option" where
  "rb_first s = (if root s = NULL then Some NULL else rb_leftmost_from (root s) s)"

partial_function (option) rb_climb :: "'p ptr \<Rightarrow> 'p rb_mem \<Rightarrow> 'p ptr option" where
  "rb_climb node s = do {
     parentp \<leftarrow> rb_parent node s;
     if parentp = NULL then Some parentp
     else do {
       pr \<leftarrow> rb_right parentp s;
       if node = pr then rb_climb parentp s else Some parentp } }"

declare rb_climb.simps [code]

definition rb_next :: "'p ptr \<Rightarrow> 'p rb_mem \<Rightarrow> 'p ptr option" where
  "rb_next node s =
     (if node = NULL then Some NULL
      else do {
        r \<leftarrow> rb_right node s;
        if r \<noteq> NULL then rb_leftmost_from r s else rb_climb node s })"

section \<open>Removal\<close>

text \<open>The two halves of the loop body of \<open>rb_erase_color\<close> after the red-sibling case.  The first
  component of the result tells whether the loop goes on (\<open>break\<close> is \<open>False\<close>).\<close>

definition both_black :: "'p ptr \<Rightarrow> 'p rb_mem \<Rightarrow> bool option" where
  "both_black sibling s = do {
     sl \<leftarrow> rb_left sibling s;
     lb \<leftarrow> rb_is_black sl s;
     if lb then do { sr \<leftarrow> rb_right sibling s; rb_is_black sr s } else Some False }"

definition rb_erase_black_left ::
  "'p ptr \<Rightarrow> 'p ptr \<Rightarrow> 'p rb_mem \<Rightarrow> (bool \<times> 'p ptr \<times> 'p ptr \<times> 'p rb_mem) option" where
  "rb_erase_black_left parentp sibling s = do {
     bb \<leftarrow> both_black sibling s;
     if bb then do {
       s \<leftarrow> rb_set_color sibling RB_RED s;
       pp \<leftarrow> rb_parent parentp s;
       Some (True, parentp, pp, s) }
     else do {
       sr \<leftarrow> rb_right sibling s;
       srb \<leftarrow> rb_is_black sr s;
       (sibling, s) \<leftarrow> (if srb then do {
           sl \<leftarrow> rb_left sibling s;
           s \<leftarrow> rb_set_color sl RB_BLACK s;
           s \<leftarrow> rb_set_color sibling RB_RED s;
           s \<leftarrow> rb_rotate_right sibling s;
           sibling \<leftarrow> rb_right parentp s;
           Some (sibling, s) }
         else Some (sibling, s));
       pc \<leftarrow> rb_color parentp s;
       s \<leftarrow> rb_set_color sibling pc s;
       s \<leftarrow> rb_set_color parentp RB_BLACK s;
       sr \<leftarrow> rb_right sibling s;
       s \<leftarrow> rb_set_color sr RB_BLACK s;
       s \<leftarrow> rb_rotate_left parentp s;
       Some (False, root s, parentp, s) } }"

definition rb_erase_black_right ::
  "'p ptr \<Rightarrow> 'p ptr \<Rightarrow> 'p rb_mem \<Rightarrow> (bool \<times> 'p ptr \<times> 'p ptr \<times> 'p rb_mem) option" where
  "rb_erase_black_right parentp sibling s = do {
     bb \<leftarrow> both_black sibling s;
     if bb then do {
       s \<leftarrow> rb_set_color sibling RB_RED s;
       pp \<leftarrow> rb_parent parentp s;
       Some (True, parentp, pp, s) }
     else do {
       sl \<leftarrow> rb_left sibling s;
       slb \<leftarrow> rb_is_black sl s;
       (sibling, s) \<leftarrow> (if slb then do {
           sr \<leftarrow> rb_right sibling s;
           s \<leftarrow> rb_set_color sr RB_BLACK s;
           s \<leftarrow> rb_set_color sibling RB_RED s;
           s \<leftarrow> rb_rotate_left sibling s;
           sibling \<leftarrow> rb_left parentp s;
           Some (sibling, s) }
         else Some (sibling, s));
       pc \<leftarrow> rb_color parentp s;
       s \<leftarrow> rb_set_color sibling pc s;
       s \<leftarrow> rb_set_color parentp RB_BLACK s;
       sl \<leftarrow> rb_left sibling s;
       s \<leftarrow> rb_set_color sl RB_BLACK s;
       s \<leftarrow> rb_rotate_right parentp s;
       Some (False, root s, parentp, s) } }"

definition rb_erase_iter ::
  "'p ptr \<Rightarrow> 'p ptr \<Rightarrow> 'p rb_mem \<Rightarrow> (bool \<times> 'p ptr \<times> 'p ptr \<times> 'p rb_mem) option" where
  "rb_erase_iter node parentp s = do {
     pl \<leftarrow> rb_left parentp s;
     if pl = node then do {
       sibling \<leftarrow> rb_right parentp s;
       sred \<leftarrow> rb_is_red sibling s;
       (sibling, s) \<leftarrow> (if sred then do {
           s \<leftarrow> rb_set_color sibling RB_BLACK s;
           s \<leftarrow> rb_set_color parentp RB_RED s;
           s \<leftarrow> rb_rotate_left parentp s;
           sibling \<leftarrow> rb_right parentp s;
           Some (sibling, s) }
         else Some (sibling, s));
       rb_erase_black_left parentp sibling s }
     else do {
       sibling \<leftarrow> rb_left parentp s;
       sred \<leftarrow> rb_is_red sibling s;
       (sibling, s) \<leftarrow> (if sred then do {
           s \<leftarrow> rb_set_color sibling RB_BLACK s;
           s \<leftarrow> rb_set_color parentp RB_RED s;
           s \<leftarrow> rb_rotate_right parentp s;
           sibling \<leftarrow> rb_left parentp s;
           Some (sibling, s) }
         else Some (sibling, s));
       rb_erase_black_right parentp sibling s } }"

partial_function (option) rb_erase_loop ::
  "'p ptr \<Rightarrow> 'p ptr \<Rightarrow> 'p rb_mem \<Rightarrow> ('p ptr \<times> 'p rb_mem) option" where
  "rb_erase_loop node parentp s = do {
     nb \<leftarrow> rb_is_black node s;
     if nb \<and> node \<noteq> root s then do {
       (go, node, parentp, s) \<leftarrow> rb_erase_iter node parentp s;
       if go then rb_erase_loop node parentp s else Some (node, s) }
     else Some (node, s) }"

declare rb_erase_loop.simps [code]

definition rb_erase_color :: "'p ptr \<Rightarrow> 'p ptr \<Rightarrow> 'p rb_mem \<Rightarrow> 'p rb_mem option" where
  "rb_erase_color node parentp s = do {
     (node, s) \<leftarrow> rb_erase_loop node parentp s;
     if node \<noteq> NULL then rb_set_color node RB_BLACK s else Some s }"

text \<open>The part of the two-children branch of \<open>rb_erase\<close> in which the successor \<open>node\<close> takes the place
  of \<open>old\<close>.\<close>

definition rb_take_place :: "'p ptr \<Rightarrow> 'p ptr \<Rightarrow> 'p rb_mem \<Rightarrow> 'p rb_mem option" where
  "rb_take_place node old s = do {
     o' \<leftarrow> rd s old;
     s \<leftarrow> wr node (\<lambda>_. o') s;
     op \<leftarrow> rb_parent old s;
     s \<leftarrow> rb_relink op old node s;
     ol \<leftarrow> rb_left old s;
     s \<leftarrow> rb_set_parent ol node s;
     or \<leftarrow> rb_right old s;
     rb_reparent or node s }"

definition rb_erase :: "'p ptr \<Rightarrow> 'p rb_mem \<Rightarrow> 'p rb_mem option" where
  "rb_erase node s = do {
     nl \<leftarrow> rb_left node s;
     nr \<leftarrow> rb_right node s;
     (child, parentp, c, s) \<leftarrow>
       (if nl = NULL \<or> nr = NULL then do {
          let child = (if nl = NULL then nr else nl);
          parentp \<leftarrow> rb_parent node s;
          c \<leftarrow> rb_color node s;
          s \<leftarrow> rb_reparent child parentp s;
          s \<leftarrow> rb_relink parentp node child s;
          Some (child, parentp, c, s) }
        else do {
          let old = node;
          node \<leftarrow> rb_leftmost_from nr s;
          child \<leftarrow> rb_right node s;
          parentp \<leftarrow> rb_parent node s;
          c \<leftarrow> rb_color node s;
          s \<leftarrow> rb_reparent child parentp s;
          s \<leftarrow> rb_relink parentp node child s;
          np \<leftarrow> rb_parent node s;
          let parentp = (if np = old then node else parentp);
          s \<leftarrow> rb_take_place node old s;
          Some (child, parentp, c, s) });
     if c = RB_BLACK then rb_erase_color child parentp s else Some s }"

section \<open>The header's macros and the linking of a new node\<close>

definition RB_ROOT :: "'p ptr" where
  "RB_ROOT = NULL"

definition rb_empty_root :: "'p rb_mem \<Rightarrow> bool" where
  "rb_empty_root s \<longleftrightarrow> root s = NULL"

definition RB_CLEAR_NODE :: "'p ptr \<Rightarrow> 'p rb_mem \<Rightarrow> 'p rb_mem option" where
  "RB_CLEAR_NODE node s = rb_set_parent node node s"

definition RB_EMPTY_NODE :: "'p ptr \<Rightarrow> 'p rb_mem \<Rightarrow> bool option" where
  "RB_EMPTY_NODE node s = do { p \<leftarrow> rb_parent node s; Some (p = node) }"

text \<open>The statements with which both clients, \<open>cfs_enqueue_task\<close> and \<open>epoll_insert_item\<close>, attach a new
  red leaf once the place is found.  The flag \<open>went_left\<close> is the test \<open>link == &parent->left\<close>.\<close>

definition rb_link_node :: "'p ptr \<Rightarrow> 'p ptr \<Rightarrow> bool \<Rightarrow> 'p rb_mem \<Rightarrow> 'p rb_mem option" where
  "rb_link_node node parentp went_left s = do {
     s \<leftarrow> rb_set_parent node parentp s;
     s \<leftarrow> rb_set_left node NULL s;
     s \<leftarrow> rb_set_right node NULL s;
     s \<leftarrow> rb_set_color node RB_RED s;
     if parentp \<noteq> NULL then
       (if went_left then rb_set_left parentp node s else rb_set_right parentp node s)
     else Some (s\<lparr>root := node\<rparr>) }"

end
