(* ===== verification/Rbtree_Shape.thy ===== *)
theory Rbtree_Shape
  imports Rbtree
begin

text \<open>
  The trees that a red-black memory holds.  A value of type \<open>rbt\<close> is the inductive reading of the
  linked structure, with the node addresses in it; \<open>store t h\<close> is the memory in which exactly the
  cells of \<open>t\<close> hold \<open>t\<close> and every other cell is as in \<open>h\<close>.  A list of frames is the path from a
  subtree to the root, so \<open>plug k t\<close> names the place in the tree at which a C pointer stands.  The
  lemmas translate the pointer surgery of src/rbtree.c (rotations, recolouring, relinking) into
  equations between stored trees.
\<close>

datatype 'p rbt = Leaf | Node rb_colour "'p rbt" 'p "'p rbt"

fun root_of :: "'p rbt \<Rightarrow> 'p ptr" where
  "root_of Leaf = NULL"
| "root_of (Node c l x r) = Some x"

fun inorder :: "'p rbt \<Rightarrow> 'p list" where
  "inorder Leaf = []"
| "inorder (Node c l x r) = inorder l @ x # inorder r"

abbreviation addrs :: "'p rbt \<Rightarrow> 'p set" where
  "addrs t \<equiv> set (inorder t)"

fun cells :: "'p ptr \<Rightarrow> 'p rbt \<Rightarrow> 'p \<rightharpoonup> 'p rb_node" where
  "cells p Leaf = Map.empty"
| "cells p (Node c l x r) =
     (cells (Some x) l ++ cells (Some x) r)
       (x \<mapsto> \<lparr>parent = p, left = root_of l, right = root_of r, color = c\<rparr>)"

definition store :: "'p rbt \<Rightarrow> ('p \<rightharpoonup> 'p rb_node) \<Rightarrow> 'p rb_mem" where
  "store t h = \<lparr>nodes = h ++ cells NULL t, root = root_of t\<rparr>"

datatype 'p frame = InL rb_colour 'p "'p rbt" | InR rb_colour "'p rbt" 'p

fun plug :: "'p frame list \<Rightarrow> 'p rbt \<Rightarrow> 'p rbt" where
  "plug [] t = t"
| "plug (InL c x r # k) t = plug k (Node c t x r)"
| "plug (InR c l x # k) t = plug k (Node c l x t)"

fun above :: "'p frame list \<Rightarrow> 'p ptr" where
  "above [] = NULL"
| "above (InL c x r # k) = Some x"
| "above (InR c l x # k) = Some x"

fun frame_cells :: "'p frame list \<Rightarrow> 'p ptr \<Rightarrow> 'p \<rightharpoonup> 'p rb_node" where
  "frame_cells [] q = Map.empty"
| "frame_cells (InL c x r # k) q =
     (frame_cells k (Some x) ++ cells (Some x) r)
       (x \<mapsto> \<lparr>parent = above k, left = q, right = root_of r, color = c\<rparr>)"
| "frame_cells (InR c l x # k) q =
     (frame_cells k (Some x) ++ cells (Some x) l)
       (x \<mapsto> \<lparr>parent = above k, left = root_of l, right = q, color = c\<rparr>)"

fun frame_order_l :: "'p frame list \<Rightarrow> 'p list" where
  "frame_order_l [] = []"
| "frame_order_l (InL c x r # k) = frame_order_l k"
| "frame_order_l (InR c l x # k) = frame_order_l k @ inorder l @ [x]"

fun frame_order_r :: "'p frame list \<Rightarrow> 'p list" where
  "frame_order_r [] = []"
| "frame_order_r (InL c x r # k) = x # inorder r @ frame_order_r k"
| "frame_order_r (InR c l x # k) = frame_order_r k"

abbreviation frame_addrs :: "'p frame list \<Rightarrow> 'p set" where
  "frame_addrs k \<equiv> set (frame_order_l k) \<union> set (frame_order_r k)"

lemma inorder_plug [simp]: "inorder (plug k t) = frame_order_l k @ inorder t @ frame_order_r k"
  by (induction k t rule: plug.induct) auto

lemma cells_None [simp]: "cells p t x = None \<longleftrightarrow> x \<notin> addrs t"
  by (induction t arbitrary: p) auto

lemma frame_cells_None [simp]: "frame_cells k q x = None \<longleftrightarrow> x \<notin> frame_addrs k"
  by (induction k q rule: frame_cells.induct) auto

lemma dom_cells: "dom (cells p t) = addrs t"
  by (simp add: set_eq_iff domIff)

lemma dom_frame_cells: "dom (frame_cells k q) = frame_addrs k"
  by (simp add: set_eq_iff domIff)

lemma cells_Node:
  "cells p (Node c l x r) z =
     (if z = x then Some \<lparr>parent = p, left = root_of l, right = root_of r, color = c\<rparr>
      else if z \<in> addrs r then cells (Some x) r z else cells (Some x) l z)"
  by (simp add: map_add_dom_app_simps dom_cells)

lemma frame_cells_InL:
  "frame_cells (InL c x r # k) q z =
     (if z = x then Some \<lparr>parent = above k, left = q, right = root_of r, color = c\<rparr>
      else if z \<in> addrs r then cells (Some x) r z else frame_cells k (Some x) z)"
  by (simp add: map_add_dom_app_simps dom_cells)

lemma frame_cells_InR:
  "frame_cells (InR c l x # k) q z =
     (if z = x then Some \<lparr>parent = above k, left = root_of l, right = q, color = c\<rparr>
      else if z \<in> addrs l then cells (Some x) l z else frame_cells k (Some x) z)"
  by (simp add: map_add_dom_app_simps dom_cells)

lemmas cells_at = cells_Node frame_cells_InL frame_cells_InR

declare cells.simps(2) [simp del] frame_cells.simps(2,3) [simp del]

lemma root_of_plug: "root_of t = root_of u \<Longrightarrow> root_of (plug k t) = root_of (plug k u)"
  by (induction k t arbitrary: u rule: plug.induct) auto

text \<open>The store of a plugged tree\<close>

lemma cells_plug:
  "distinct (inorder (plug k t)) \<Longrightarrow>
   cells NULL (plug k t) x =
     (if x \<in> addrs t then cells (above k) t x else frame_cells k (root_of t) x)"
  by (induction k t rule: plug.induct) (auto simp: cells_at)

definition mem_of :: "'p frame list \<Rightarrow> 'p rbt \<Rightarrow> ('p \<rightharpoonup> 'p rb_node) \<Rightarrow> 'p \<rightharpoonup> 'p rb_node" where
  "mem_of k t h x = (if x \<in> addrs t then cells (above k) t x
     else if x \<in> frame_addrs k then frame_cells k (root_of t) x else h x)"

lemma nodes_store_plug:
  "distinct (inorder (plug k t)) \<Longrightarrow> nodes (store (plug k t) h) = mem_of k t h"
  by (rule ext) (auto simp: store_def cells_plug mem_of_def map_add_dom_app_simps dom_cells)

lemmas rb_access = rb_set_parent_def rb_set_color_def rb_parent_def rb_left_def rb_right_def
  rb_set_left_def rb_set_right_def rb_color_def rb_is_red_def rb_is_black_def rd_def wr_def

lemma root_store [simp]: "root (store t h) = root_of t"
  by (simp add: store_def)

lemma store_eqI:
  "distinct (inorder (plug k t)) \<Longrightarrow> root s = root_of (plug k t) \<Longrightarrow> nodes s = mem_of k t h
    \<Longrightarrow> s = store (plug k t) h"
  by (metis nodes_store_plug root_store rb_mem.surjective old.unit.exhaust)

lemma root_of_mem: "root_of t = Some x \<Longrightarrow> x \<in> addrs t"
  by (cases t) auto

lemma map_add_cells [simp]:
  "x \<notin> addrs t \<Longrightarrow> (m ++ cells p t) x = m x"
  "x \<in> addrs t \<Longrightarrow> (m ++ cells p t) x = cells p t x"
  by (simp_all add: map_add_dom_app_simps dom_cells)

lemma map_add_frame_cells [simp]:
  "x \<notin> frame_addrs k \<Longrightarrow> (m ++ frame_cells k q) x = m x"
  "x \<in> frame_addrs k \<Longrightarrow> (m ++ frame_cells k q) x = frame_cells k q x"
  by (simp_all add: map_add_dom_app_simps dom_frame_cells)

lemma map_add_at:
  "(m ++ cells p t) x = (if x \<in> addrs t then cells p t x else m x)"
  "(m ++ frame_cells k q) x = (if x \<in> frame_addrs k then frame_cells k q x else m x)"
  by auto

lemma upd_map_add [simp]:
  "x \<notin> addrs t \<Longrightarrow> m(x \<mapsto> n) ++ cells p t = (m ++ cells p t)(x \<mapsto> n)"
  "x \<notin> frame_addrs k \<Longrightarrow> m(x \<mapsto> n) ++ frame_cells k q = (m ++ frame_cells k q)(x \<mapsto> n)"
  by (simp_all add: map_add_upd_left dom_cells dom_frame_cells)

definition has :: "('p \<rightharpoonup> 'p rb_node) \<Rightarrow> ('p \<rightharpoonup> 'p rb_node) \<Rightarrow> bool" where
  "has m h \<longleftrightarrow> (\<forall>x \<in> dom m. h x = m x)"

lemma has_cellsD: "has (cells p t) h \<Longrightarrow> x \<in> addrs t \<Longrightarrow> h x = cells p t x"
  by (simp add: has_def dom_cells)

lemma has_framesD: "has (frame_cells k q) h \<Longrightarrow> x \<in> frame_addrs k \<Longrightarrow> h x = frame_cells k q x"
  by (simp add: has_def dom_frame_cells)

lemma reparent_has:
  assumes "has (cells p t) (nodes s)"  "distinct (inorder t)"
  shows "rb_reparent (root_of t) q s = Some (s\<lparr>nodes := nodes s ++ cells q t\<rparr>)"
proof (cases t)
  case Leaf
  then show ?thesis by (simp add: rb_reparent_def)
next
  case (Node c l x r)
  have "nodes s x = cells p t x"
    using assms(1) Node by (intro has_cellsD) auto
  moreover have "((nodes s)(x \<mapsto> \<lparr>parent = q, left = root_of l, right = root_of r, color = c\<rparr>)) z = (nodes s ++ cells q t) z" for z
    using assms Node by (cases "z \<in> addrs t") (auto simp: cells_at dest!: has_cellsD)
  ultimately show ?thesis
    by (simp add: Node rb_reparent_def rb_access cells_at fun_eq_iff)
qed

lemma relink_has:
  assumes "has (frame_cells k (Some x)) (nodes s)" "distinct (frame_order_l k @ x # frame_order_r k)"
  shows "rb_relink (above k) (Some x) q s =
    Some (if k = [] then s\<lparr>root := q\<rparr> else s\<lparr>nodes := nodes s ++ frame_cells k q\<rparr>)"
proof (cases k rule: above.cases)
  case 1
  then show ?thesis by (simp add: rb_relink_def)
next
  case (2 c y r k')
  have "nodes s y = frame_cells k (Some x) y"
    using assms(1) 2 by (intro has_framesD) auto
  moreover have "((nodes s)(y \<mapsto> \<lparr>parent = above k', left = q, right = root_of r, color = c\<rparr>)) z = (nodes s ++ frame_cells k q) z" for z
    using assms 2 by (cases "z \<in> frame_addrs k") (auto simp: cells_at dest!: has_framesD)
  ultimately show ?thesis
    using 2 by (simp add: rb_relink_def rb_access cells_at fun_eq_iff)
next
  case (3 c l y k')
  have "nodes s y = frame_cells k (Some x) y"
    using assms(1) 3 by (intro has_framesD) auto
  moreover have "((nodes s)(y \<mapsto> \<lparr>parent = above k', left = root_of l, right = q, color = c\<rparr>)) z = (nodes s ++ frame_cells k q) z" for z
    using assms 3 by (cases "z \<in> frame_addrs k") (auto simp: cells_at dest!: has_framesD)
  moreover have "root_of l \<noteq> Some x"
    using assms(2) 3 by (auto dest: root_of_mem)
  ultimately show ?thesis
    using 3 by (simp add: rb_relink_def rb_access cells_at fun_eq_iff)
qed

lemma relink_r_has:
  assumes "has (frame_cells k (Some x)) (nodes s)" "distinct (frame_order_l k @ x # frame_order_r k)"
  shows "rb_relink_r (above k) (Some x) q s =
    Some (if k = [] then s\<lparr>root := q\<rparr> else s\<lparr>nodes := nodes s ++ frame_cells k q\<rparr>)"
proof (cases k rule: above.cases)
  case 1
  then show ?thesis by (simp add: rb_relink_r_def)
next
  case (2 c y r k')
  have "nodes s y = frame_cells k (Some x) y"
    using assms(1) 2 by (intro has_framesD) auto
  moreover have "((nodes s)(y \<mapsto> \<lparr>parent = above k', left = q, right = root_of r, color = c\<rparr>)) z = (nodes s ++ frame_cells k q) z" for z
    using assms 2 by (cases "z \<in> frame_addrs k") (auto simp: cells_at dest!: has_framesD)
  moreover have "root_of r \<noteq> Some x"
    using assms(2) 2 by (auto dest: root_of_mem)
  ultimately show ?thesis
    using 2 by (simp add: rb_relink_r_def rb_access cells_at fun_eq_iff)
next
  case (3 c l y k')
  have "nodes s y = frame_cells k (Some x) y"
    using assms(1) 3 by (intro has_framesD) auto
  moreover have "((nodes s)(y \<mapsto> \<lparr>parent = above k', left = root_of l, right = q, color = c\<rparr>)) z = (nodes s ++ frame_cells k q) z" for z
    using assms 3 by (cases "z \<in> frame_addrs k") (auto simp: cells_at dest!: has_framesD)
  ultimately show ?thesis
    using 3 by (simp add: rb_relink_r_def rb_access cells_at fun_eq_iff)
qed

lemma has_upd [simp]:
  "x \<notin> addrs t \<Longrightarrow> has (cells p t) (m(x := n)) = has (cells p t) m"
  "x \<notin> frame_addrs k \<Longrightarrow> has (frame_cells k q) (m(x := n)) = has (frame_cells k q) m"
  by (auto simp: has_def dom_cells dom_frame_cells)

lemma has_add_disjoint: "dom m \<inter> dom m' = {} \<Longrightarrow> has m (h ++ m') = has m h"
  unfolding has_def by (metis disjoint_iff map_add_dom_app_simps(3))

lemma has_add [simp]:
  "addrs t \<inter> addrs u = {} \<Longrightarrow> has (cells p t) (m ++ cells q u) = has (cells p t) m"
  "frame_addrs k \<inter> addrs u = {} \<Longrightarrow> has (frame_cells k q) (m ++ cells p u) = has (frame_cells k q) m"
  "frame_addrs k \<inter> addrs u = {} \<Longrightarrow> has (cells p u) (m ++ frame_cells k q) = has (cells p u) m"
  by (rule has_add_disjoint; auto simp: dom_cells dom_frame_cells)+

lemma has_mem_of:
  "has (cells (above k) t) (mem_of k t h)"
  "frame_addrs k \<inter> addrs t = {} \<Longrightarrow> has (frame_cells k (root_of t)) (mem_of k t h)"
  by (auto simp: has_def dom_cells dom_frame_cells mem_of_def disjoint_iff)

lemma root_of_plug_frame: "k \<noteq> [] \<Longrightarrow> root_of (plug k t) = root_of (plug k u)"
  by (cases k rule: above.cases) (auto intro!: root_of_plug)

lemma nodes_store_at [simp]:
  "distinct (inorder (plug k t)) \<Longrightarrow> x \<in> addrs t \<Longrightarrow> nodes (store (plug k t) h) x = cells (above k) t x"
  by (simp add: nodes_store_plug mem_of_def del: inorder_plug)

lemma store_has:
  assumes "distinct (inorder (plug k t))"
  shows "has (cells (above k) t) (nodes (store (plug k t) h))"
    and "has (frame_cells k (root_of t)) (nodes (store (plug k t) h))"
  using assms has_mem_of [of k t h] by (auto simp: nodes_store_plug simp del: inorder_plug) auto

lemma rotate_left_raw:
  assumes "nodes s x = Some \<lparr>parent = above k, left = p, right = Some y, color = c\<rparr>"
    and "nodes s y = Some \<lparr>parent = Some x, left = root_of b, right = q, color = d\<rparr>"
    and "has (cells (Some y) b) (nodes s)" "has (frame_cells k (Some x)) (nodes s)"
    and "distinct (inorder b)" "distinct (frame_order_l k @ x # y # frame_order_r k)"
    and "x \<notin> addrs b" "y \<notin> addrs b" "frame_addrs k \<inter> addrs b = {}"
  shows "rb_rotate_left (Some x) s = Some (s\<lparr>
     nodes := ((nodes s ++ cells (Some x) b) ++ frame_cells k (Some y))
       (x \<mapsto> \<lparr>parent = Some y, left = p, right = root_of b, color = c\<rparr>,
        y \<mapsto> \<lparr>parent = above k, left = Some x, right = q, color = d\<rparr>),
     root := (if k = [] then Some y else root s)\<rparr>)"
  using assms
  by (auto simp: rb_rotate_left_def rb_access reparent_has [where p = "Some y"] relink_has
      fun_upd_twist intro!: rb_mem.equality)

lemma rotate_right_raw:
  assumes "nodes s x = Some \<lparr>parent = above k, left = Some y, right = p, color = c\<rparr>"
    and "nodes s y = Some \<lparr>parent = Some x, left = q, right = root_of b, color = d\<rparr>"
    and "has (cells (Some y) b) (nodes s)" "has (frame_cells k (Some x)) (nodes s)"
    and "distinct (inorder b)" "distinct (frame_order_l k @ x # y # frame_order_r k)"
    and "x \<notin> addrs b" "y \<notin> addrs b" "frame_addrs k \<inter> addrs b = {}"
  shows "rb_rotate_right (Some x) s = Some (s\<lparr>
     nodes := ((nodes s ++ cells (Some x) b) ++ frame_cells k (Some y))
       (x \<mapsto> \<lparr>parent = Some y, left = root_of b, right = p, color = c\<rparr>,
        y \<mapsto> \<lparr>parent = above k, left = q, right = Some x, color = d\<rparr>),
     root := (if k = [] then Some y else root s)\<rparr>)"
  using assms
  by (auto simp: rb_rotate_right_def rb_access reparent_has [where p = "Some y"] relink_r_has
      fun_upd_twist intro!: rb_mem.equality)

lemma rotate_left_store:
  assumes D: "distinct (inorder (plug k (Node c a x (Node d b y e))))"
  shows "rb_rotate_left (Some x) (store (plug k (Node c a x (Node d b y e))) h) =
     Some (store (plug k (Node d (Node c a x b) y e)) h)"
proof -
  let ?t = "Node c a x (Node d b y e)" and ?t' = "Node d (Node c a x b) y e"
  let ?s = "store (plug k ?t) h"
  have r: "rb_rotate_left (Some x) ?s = Some (?s\<lparr>
     nodes := ((nodes ?s ++ cells (Some x) b) ++ frame_cells k (Some y))
       (x \<mapsto> \<lparr>parent = Some y, left = root_of a, right = root_of b, color = c\<rparr>,
        y \<mapsto> \<lparr>parent = above k, left = Some x, right = root_of e, color = d\<rparr>),
     root := (if k = [] then Some y else root ?s)\<rparr>)"
    using D store_has(1) [of "InL d y e # InR c a x # k" b h] store_has(2) [OF D]
    by (intro rotate_left_raw) (auto simp: cells_at Int_Un_distrib)
  have "(if k = [] then Some y else root ?s) = root_of (plug k ?t')"
    using root_of_plug_frame by auto
  then show ?thesis unfolding r using D
    by (intro arg_cong [of _ _ Some] store_eqI)
      (simp, simp, auto simp: nodes_store_plug mem_of_def fun_eq_iff cells_at map_add_at disjoint_iff)
qed

lemma rotate_right_store:
  assumes D: "distinct (inorder (plug k (Node c (Node d e y b) x a)))"
  shows "rb_rotate_right (Some x) (store (plug k (Node c (Node d e y b) x a)) h) =
     Some (store (plug k (Node d e y (Node c b x a))) h)"
proof -
  let ?t = "Node c (Node d e y b) x a" and ?t' = "Node d e y (Node c b x a)"
  let ?s = "store (plug k ?t) h"
  have r: "rb_rotate_right (Some x) ?s = Some (?s\<lparr>
     nodes := ((nodes ?s ++ cells (Some x) b) ++ frame_cells k (Some y))
       (x \<mapsto> \<lparr>parent = Some y, left = root_of b, right = root_of a, color = c\<rparr>,
        y \<mapsto> \<lparr>parent = above k, left = root_of e, right = Some x, color = d\<rparr>),
     root := (if k = [] then Some y else root ?s)\<rparr>)"
    using D store_has(1) [of "InR d e y # InL c x a # k" b h] store_has(2) [OF D]
    by (intro rotate_right_raw) (auto simp: cells_at Int_Un_distrib)
  have "(if k = [] then Some y else root ?s) = root_of (plug k ?t')"
    using root_of_plug_frame by auto
  then show ?thesis unfolding r using D
    by (intro arg_cong [of _ _ Some] store_eqI)
      (simp, simp, auto simp: nodes_store_plug mem_of_def fun_eq_iff cells_at map_add_at disjoint_iff)
qed

lemma set_color_store:
  assumes D: "distinct (inorder (plug k (Node c l x r)))"
  shows "rb_set_color (Some x) d (store (plug k (Node c l x r)) h) =
     Some (store (plug k (Node d l x r)) h)"
proof -
  let ?s = "store (plug k (Node c l x r)) h"
  have r: "rb_set_color (Some x) d ?s = Some (?s\<lparr>nodes := (nodes ?s)(x \<mapsto>
     \<lparr>parent = above k, left = root_of l, right = root_of r, color = d\<rparr>)\<rparr>)"
    using D by (simp add: rb_access cells_at)
  have "root ?s = root_of (plug k (Node d l x r))"
    by (simp add: root_of_plug [of "Node c l x r" "Node d l x r"])
  then show ?thesis unfolding r using D
    by (intro arg_cong [of _ _ Some] store_eqI)
      (simp, simp, auto simp: nodes_store_plug mem_of_def fun_eq_iff cells_at map_add_at disjoint_iff)
qed

end
