(* ===== verification/Rbtree_Insert.thy ===== *)
theory Rbtree_Insert
  imports Rbtree_Shape
begin

text \<open>
  The red-black invariant and the correctness of \<open>rb_insert_color\<close> (src/rbtree.c:76): started on a
  red-black tree with a fresh red leaf it terminates in a red-black tree with the same in-order
  sequence, and it changes no cell outside the tree.
\<close>

fun col :: "'p rbt \<Rightarrow> rb_colour" where
  "col Leaf = RB_BLACK"
| "col (Node c l x r) = c"

fun paint :: "rb_colour \<Rightarrow> 'p rbt \<Rightarrow> 'p rbt" where
  "paint d Leaf = Leaf"
| "paint d (Node c l x r) = Node d l x r"

fun bh :: "'p rbt \<Rightarrow> nat" where
  "bh Leaf = 0"
| "bh (Node c l x r) = bh l + (if c = RB_BLACK then 1 else 0)"

fun same_bh :: "'p rbt \<Rightarrow> bool" where
  "same_bh Leaf = True"
| "same_bh (Node c l x r) = (bh l = bh r \<and> same_bh l \<and> same_bh r)"

fun no_red_red :: "'p rbt \<Rightarrow> bool" where
  "no_red_red Leaf = True"
| "no_red_red (Node c l x r) =
     ((c = RB_RED \<longrightarrow> col l = RB_BLACK \<and> col r = RB_BLACK) \<and> no_red_red l \<and> no_red_red r)"

definition is_rbt :: "'p rbt \<Rightarrow> bool" where
  "is_rbt t \<longleftrightarrow> distinct (inorder t) \<and> same_bh t \<and> no_red_red t \<and> col t = RB_BLACK"

fun fits_bh :: "'p frame list \<Rightarrow> nat \<Rightarrow> bool" where
  "fits_bh [] n = True"
| "fits_bh (InL c x r # k) n =
     (same_bh r \<and> bh r = n \<and> fits_bh k (n + (if c = RB_BLACK then 1 else 0)))"
| "fits_bh (InR c l x # k) n =
     (same_bh l \<and> bh l = n \<and> fits_bh k (n + (if c = RB_BLACK then 1 else 0)))"

fun fits_col :: "'p frame list \<Rightarrow> rb_colour \<Rightarrow> bool" where
  "fits_col [] d = True"
| "fits_col (InL c x r # k) d =
     (no_red_red r \<and> (c = RB_RED \<longrightarrow> d = RB_BLACK \<and> col r = RB_BLACK \<and> k \<noteq> []) \<and> fits_col k c)"
| "fits_col (InR c l x # k) d =
     (no_red_red l \<and> (c = RB_RED \<longrightarrow> d = RB_BLACK \<and> col l = RB_BLACK \<and> k \<noteq> []) \<and> fits_col k c)"

lemma color_cases [simp]: "c \<noteq> RB_BLACK \<longleftrightarrow> c = RB_RED" "c \<noteq> RB_RED \<longleftrightarrow> c = RB_BLACK"
  by (cases c; simp)+

lemma same_bh_plug: "same_bh (plug k t) \<longleftrightarrow> same_bh t \<and> fits_bh k (bh t)"
  by (induction k t rule: plug.induct) auto

lemma no_red_red_plug:
  "no_red_red (plug k t) \<and> col (plug k t) = RB_BLACK \<longleftrightarrow>
   no_red_red t \<and> fits_col k (col t) \<and> (k = [] \<longrightarrow> col t = RB_BLACK)"
proof (induction k t rule: plug.induct)
  case (2 c x r k t) then show ?case by (cases k) auto
next
  case (3 c l x k t) then show ?case by (cases k) auto
qed auto

lemma is_rbt_plug:
  "is_rbt (plug k t) \<longleftrightarrow> distinct (inorder (plug k t)) \<and> same_bh t \<and> no_red_red t \<and>
     fits_bh k (bh t) \<and> fits_col k (col t) \<and> (k = [] \<longrightarrow> col t = RB_BLACK)"
  using no_red_red_plug [of k t] same_bh_plug [of k t] by (auto simp: is_rbt_def)

lemma fits_col_black: "fits_col k c \<Longrightarrow> fits_col k RB_BLACK"
  by (induction k c rule: fits_col.induct) auto

lemma col_root: "col t = RB_RED \<Longrightarrow> \<exists>l x r. t = Node RB_RED l x r"
  by (cases t) auto

lemma inorder_paint [simp]: "inorder (paint c t) = inorder t"
  by (cases t) auto

lemma root_of_paint [simp]: "root_of (paint c t) = root_of t"
  by (cases t) auto

lemma is_red_store [simp]:
  "distinct (inorder (plug k t)) \<Longrightarrow>
    rb_is_red (root_of t) (store (plug k t) h) = Some (col t = RB_RED)"
  by (cases t) (simp_all add: rb_access cells_at)

lemma is_black_store [simp]:
  "distinct (inorder (plug k t)) \<Longrightarrow>
    rb_is_black (root_of t) (store (plug k t) h) = Some (col t = RB_BLACK)"
  by (cases t) (simp_all add: rb_access cells_at)

text \<open>Execution rules\<close>
lemma set_color_L:
  "distinct (inorder (plug k (Node b (Node c l x r) y u))) \<Longrightarrow>
   rb_set_color (Some x) d (store (plug k (Node b (Node c l x r) y u)) h) =
     Some (store (plug k (Node b (Node d l x r) y u)) h)"
  using set_color_store [of "InL b y u # k"] by simp

lemma set_color_R:
  "distinct (inorder (plug k (Node b u y (Node c l x r)))) \<Longrightarrow>
   rb_set_color (Some x) d (store (plug k (Node b u y (Node c l x r))) h) =
     Some (store (plug k (Node b u y (Node d l x r))) h)"
  using set_color_store [of "InR b u y # k"] by simp

lemma rotate_left_L:
  "distinct (inorder (plug k (Node b (Node c a x (Node d e y f)) z u))) \<Longrightarrow>
   rb_rotate_left (Some x) (store (plug k (Node b (Node c a x (Node d e y f)) z u)) h) =
     Some (store (plug k (Node b (Node d (Node c a x e) y f) z u)) h)"
  using rotate_left_store [of "InL b z u # k"] by simp

lemma rotate_right_R:
  "distinct (inorder (plug k (Node b u z (Node c (Node d e y f) x a)))) \<Longrightarrow>
   rb_rotate_right (Some x) (store (plug k (Node b u z (Node c (Node d e y f) x a))) h) =
     Some (store (plug k (Node b u z (Node d e y (Node c f x a)))) h)"
  using rotate_right_store [of "InR b u z # k"] by simp

lemma is_red_L [simp]:
  "distinct (inorder (plug k (Node b t y u))) \<Longrightarrow>
    rb_is_red (root_of t) (store (plug k (Node b t y u)) h) = Some (col t = RB_RED)"
  using is_red_store [of "InL b y u # k"] by simp

lemma is_red_R [simp]:
  "distinct (inorder (plug k (Node b u y t))) \<Longrightarrow>
    rb_is_red (root_of t) (store (plug k (Node b u y t)) h) = Some (col t = RB_RED)"
  using is_red_store [of "InR b u y # k"] by simp

lemmas rb_exec = set_color_store set_color_L set_color_R rotate_left_store rotate_right_store
  rotate_left_L rotate_right_R

lemma rb_at:
  "rb_left (Some x) s = map_option left (nodes s x)"
  "rb_right (Some x) s = map_option right (nodes s x)"
  "rb_parent (Some x) s = map_option parent (nodes s x)"
  "rb_color (Some x) s = map_option color (nodes s x)"
  "rb_is_red (Some x) s = map_option (\<lambda>n. color n = RB_RED) (nodes s x)"
  "rb_is_black (Some x) s = map_option (\<lambda>n. color n = RB_BLACK) (nodes s x)"
  by (cases "nodes s x"; simp add: rb_access)+

lemma insert_iter_red_L:
  assumes "distinct (inorder (plug k (Node g (Node p l y r) z (Node RB_RED a u b))))"
  shows "rb_insert_iter x (Some y) (store (plug k (Node g (Node p l y r) z (Node RB_RED a u b))) h) =
   Some (Some z, store (plug k (Node RB_RED (Node RB_BLACK l y r) z (Node RB_BLACK a u b))) h)"
  using assms by (auto simp: rb_insert_iter_def rb_at cells_at rb_exec)

lemma insert_iter_red_R:
  assumes "distinct (inorder (plug k (Node g (Node RB_RED a u b) z (Node p l y r))))"
  shows "rb_insert_iter x (Some y) (store (plug k (Node g (Node RB_RED a u b) z (Node p l y r))) h) =
   Some (Some z, store (plug k (Node RB_RED (Node RB_BLACK a u b) z (Node RB_BLACK l y r))) h)"
  using assms by (auto simp: rb_insert_iter_def rb_at cells_at rb_exec)

lemma insert_iter_LL:
  assumes "distinct (inorder (plug k (Node g (Node p (Node c a x b) y r) z u)))" "col u = RB_BLACK"
  shows "rb_insert_iter (Some x) (Some y)
      (store (plug k (Node g (Node p (Node c a x b) y r) z u)) h) =
    Some (Some x, store (plug k (Node RB_BLACK (Node c a x b) y (Node RB_RED r z u))) h)"
  using assms root_of_mem [of r x] by (auto simp: rb_insert_iter_def rb_at cells_at rb_exec)

lemma insert_iter_LR:
  assumes "distinct (inorder (plug k (Node g (Node p l y (Node c a x b)) z u)))" "col u = RB_BLACK"
  shows "rb_insert_iter (Some x) (Some y)
      (store (plug k (Node g (Node p l y (Node c a x b)) z u)) h) =
    Some (Some y, store (plug k (Node RB_BLACK (Node p l y a) x (Node RB_RED b z u))) h)"
  using assms by (auto simp: rb_insert_iter_def rb_at cells_at rb_exec)

lemma insert_iter_RR:
  assumes "distinct (inorder (plug k (Node g u z (Node p l y (Node c a x b)))))" "col u = RB_BLACK"
  shows "rb_insert_iter (Some x) (Some y)
      (store (plug k (Node g u z (Node p l y (Node c a x b)))) h) =
    Some (Some x, store (plug k (Node RB_BLACK (Node RB_RED u z l) y (Node c a x b))) h)"
  using assms root_of_mem [of l x] root_of_mem [of u y] by (auto simp: rb_insert_iter_def rb_at cells_at rb_exec)

lemma insert_iter_RL:
  assumes "distinct (inorder (plug k (Node g u z (Node p (Node c a x b) y r))))" "col u = RB_BLACK"
  shows "rb_insert_iter (Some x) (Some y)
      (store (plug k (Node g u z (Node p (Node c a x b) y r))) h) =
    Some (Some y, store (plug k (Node RB_BLACK (Node RB_RED u z a) x (Node p b y r))) h)"
  using assms root_of_mem [of u y] by (auto simp: rb_insert_iter_def rb_at cells_at rb_exec)

lemma parent_store [simp]:
  "distinct (inorder (plug k (Node c l x r))) \<Longrightarrow>
   rb_parent (Some x) (store (plug k (Node c l x r)) h) = Some (above k)"
  by (simp add: rb_at cells_at)

fun head_col :: "'p frame list \<Rightarrow> rb_colour" where
  "head_col [] = RB_BLACK"
| "head_col (InL c x r # k) = c"
| "head_col (InR c l x # k) = c"

lemma above_red_store [simp]:
  "distinct (inorder (plug k t)) \<Longrightarrow>
   rb_is_red (above k) (store (plug k t) h) = Some (head_col k = RB_RED)"
proof (cases k rule: above.cases)
  case 1 then show ?thesis by (simp add: rb_is_red_def)
next
  case (2 c x r k')
  moreover assume "distinct (inorder (plug k t))"
  ultimately show ?thesis by (simp add: rb_at cells_at)
next
  case (3 c l x k')
  moreover assume "distinct (inorder (plug k t))"
  ultimately show ?thesis by (simp add: rb_at cells_at)
qed

lemma insert_loop_done:
  assumes "distinct (inorder (plug k (Node c l x r)))" "head_col k = RB_BLACK"
  shows "rb_insert_loop (Some x) (store (plug k (Node c l x r)) h) =
    Some (store (plug k (Node c l x r)) h)"
  using assms by (subst rb_insert_loop.simps) simp

lemma paint_black_id: "col t = RB_BLACK \<Longrightarrow> paint RB_BLACK t = t"
  by (cases t) auto

lemma rbt_painted: "is_rbt t \<Longrightarrow> is_rbt (paint RB_BLACK t)"
  by (simp add: is_rbt_def paint_black_id)

lemma insert_loop_step:
  assumes "distinct (inorder (plug k (Node c l x r)))" "head_col k = RB_RED"
    and "rb_insert_iter (Some x) (above k) (store (plug k (Node c l x r)) h) = Some (y, s)"
  shows "rb_insert_loop (Some x) (store (plug k (Node c l x r)) h) = rb_insert_loop y s"
proof -
  have "above k \<noteq> NULL"
    using assms(2) by (cases k rule: above.cases) auto
  then show ?thesis
    using assms by (subst rb_insert_loop.simps) (simp del: inorder_plug)
qed

lemma red_frames:
  assumes "head_col k = RB_RED" "fits_col k d"
  obtains y r z u k' where "k = InL RB_RED y r # InL RB_BLACK z u # k'"
  | y l z u k' where "k = InR RB_RED l y # InL RB_BLACK z u # k'"
  | y l z u k' where "k = InR RB_RED l y # InR RB_BLACK u z # k'"
  | y r z u k' where "k = InL RB_RED y r # InR RB_BLACK u z # k'"
  using assms
  by (cases k rule: above.cases; cases "tl k" rule: above.cases) auto

text \<open>The state in which the loop may be entered: a red node whose subtrees are fine and whose
  parent is the only possible offender.\<close>

definition red_hole :: "'p frame list \<Rightarrow> 'p rbt \<Rightarrow> bool" where
  "red_hole k t \<longleftrightarrow> distinct (inorder (plug k t)) \<and> same_bh t \<and> no_red_red t \<and> col t = RB_RED \<and>
     fits_bh k (bh t) \<and> fits_col k RB_BLACK"

text \<open>What one iteration may end in: the same situation two frames higher (the uncle was red), or
  a red-black tree whose loop condition fails at the current node (a rotation).\<close>

definition iter_result :: "'p frame list \<Rightarrow> 'p list \<Rightarrow> ('p \<rightharpoonup> 'p rb_node) \<Rightarrow> 'p ptr \<times> 'p rb_mem \<Rightarrow> bool" where
  "iter_result k xs h res \<longleftrightarrow> (\<exists>k' t. res = (root_of t, store (plug k' t) h) \<and> inorder (plug k' t) = xs \<and>
     (length k' < length k \<and> red_hole k' t \<or> head_col k' = RB_BLACK \<and> t \<noteq> Leaf \<and> is_rbt (plug k' t)))"

lemma iter_result_up:
  "red_hole k' (Node c l x r) \<Longrightarrow> length k' < length k \<Longrightarrow> inorder (plug k' (Node c l x r)) = xs \<Longrightarrow>
   iter_result k xs h (Some x, store (plug k' (Node c l x r)) h)"
  unfolding iter_result_def by (intro exI [of _ k'] exI [of _ "Node c l x r"]) simp

lemma iter_result_done:
  "is_rbt (plug k' (Node c l x r)) \<Longrightarrow> head_col k' = RB_BLACK \<Longrightarrow> inorder (plug k' (Node c l x r)) = xs \<Longrightarrow>
   iter_result k xs h (Some x, store (plug k' (Node c l x r)) h)"
  unfolding iter_result_def by (intro exI [of _ k'] exI [of _ "Node c l x r"]) simp

lemma insert_iter_case_LL:
  assumes "k = InL RB_RED y w # InL RB_BLACK z u # k'" "t = Node RB_RED l x r" "red_hole k t"
  shows "\<exists>res. rb_insert_iter (Some x) (above k) (store (plug k t) h) = Some res \<and>
    iter_result k (inorder (plug k t)) h res"
proof (cases "col u")
  case RB_RED
  then obtain a v b where u: "u = Node RB_RED a v b" using col_root by blast
  have "iter_result k (inorder (plug k t)) h (Some z, store (plug k' (Node RB_RED (Node RB_BLACK (Node RB_RED l x r) y w) z (Node RB_BLACK a v b))) h)"
    using assms u by (intro iter_result_up) (auto simp: red_hole_def)
  then show ?thesis using assms u by (simp add: red_hole_def insert_iter_red_L del: inorder_plug)
next
  case RB_BLACK
  have "iter_result k (inorder (plug k t)) h
      (Some x, store (plug (InL RB_BLACK y (Node RB_RED w z u) # k') (Node RB_RED l x r)) h)"
    using assms RB_BLACK by (intro iter_result_done) (auto simp: red_hole_def is_rbt_plug simp del: plug.simps)
  then show ?thesis using assms RB_BLACK by (simp add: red_hole_def insert_iter_LL del: inorder_plug)
qed

lemma insert_iter_case_LR:
  assumes "k = InR RB_RED w y # InL RB_BLACK z u # k'" "t = Node RB_RED l x r" "red_hole k t"
  shows "\<exists>res. rb_insert_iter (Some x) (above k) (store (plug k t) h) = Some res \<and>
    iter_result k (inorder (plug k t)) h res"
proof (cases "col u")
  case RB_RED
  then obtain a v b where u: "u = Node RB_RED a v b" using col_root by blast
  have "iter_result k (inorder (plug k t)) h (Some z, store (plug k' (Node RB_RED (Node RB_BLACK w y (Node RB_RED l x r)) z (Node RB_BLACK a v b))) h)"
    using assms u by (intro iter_result_up) (auto simp: red_hole_def)
  then show ?thesis using assms u by (simp add: red_hole_def insert_iter_red_L del: inorder_plug)
next
  case RB_BLACK
  have "iter_result k (inorder (plug k t)) h
      (Some y, store (plug (InL RB_BLACK x (Node RB_RED r z u) # k') (Node RB_RED w y l)) h)"
    using assms RB_BLACK by (intro iter_result_done) (auto simp: red_hole_def is_rbt_plug simp del: plug.simps)
  then show ?thesis using assms RB_BLACK by (simp add: red_hole_def insert_iter_LR del: inorder_plug)
qed

lemma insert_iter_case_RR:
  assumes "k = InR RB_RED w y # InR RB_BLACK u z # k'" "t = Node RB_RED l x r" "red_hole k t"
  shows "\<exists>res. rb_insert_iter (Some x) (above k) (store (plug k t) h) = Some res \<and>
    iter_result k (inorder (plug k t)) h res"
proof (cases "col u")
  case RB_RED
  then obtain a v b where u: "u = Node RB_RED a v b" using col_root by blast
  have "iter_result k (inorder (plug k t)) h (Some z, store (plug k' (Node RB_RED (Node RB_BLACK a v b) z (Node RB_BLACK w y (Node RB_RED l x r)))) h)"
    using assms u by (intro iter_result_up) (auto simp: red_hole_def)
  then show ?thesis using assms u by (simp add: red_hole_def insert_iter_red_R del: inorder_plug)
next
  case RB_BLACK
  have "iter_result k (inorder (plug k t)) h
      (Some x, store (plug (InR RB_BLACK (Node RB_RED u z w) y # k') (Node RB_RED l x r)) h)"
    using assms RB_BLACK by (intro iter_result_done) (auto simp: red_hole_def is_rbt_plug simp del: plug.simps)
  then show ?thesis using assms RB_BLACK by (simp add: red_hole_def insert_iter_RR del: inorder_plug)
qed

lemma insert_iter_case_RL:
  assumes "k = InL RB_RED y w # InR RB_BLACK u z # k'" "t = Node RB_RED l x r" "red_hole k t"
  shows "\<exists>res. rb_insert_iter (Some x) (above k) (store (plug k t) h) = Some res \<and>
    iter_result k (inorder (plug k t)) h res"
proof (cases "col u")
  case RB_RED
  then obtain a v b where u: "u = Node RB_RED a v b" using col_root by blast
  have "iter_result k (inorder (plug k t)) h (Some z, store (plug k' (Node RB_RED (Node RB_BLACK a v b) z (Node RB_BLACK (Node RB_RED l x r) y w))) h)"
    using assms u by (intro iter_result_up) (auto simp: red_hole_def)
  then show ?thesis using assms u by (simp add: red_hole_def insert_iter_red_R del: inorder_plug)
next
  case RB_BLACK
  have "iter_result k (inorder (plug k t)) h
      (Some y, store (plug (InR RB_BLACK (Node RB_RED u z l) x # k') (Node RB_RED r y w)) h)"
    using assms RB_BLACK by (intro iter_result_done) (auto simp: red_hole_def is_rbt_plug simp del: plug.simps)
  then show ?thesis using assms RB_BLACK by (simp add: red_hole_def insert_iter_RL del: inorder_plug)
qed

lemma insert_iter_ok:
  assumes "red_hole k t" "head_col k = RB_RED"
  shows "\<exists>res. rb_insert_iter (root_of t) (above k) (store (plug k t) h) = Some res \<and>
    iter_result k (inorder (plug k t)) h res"
proof -
  from assms(1) obtain l x r where t: "t = Node RB_RED l x r"
    using col_root unfolding red_hole_def by blast
  have "fits_col k RB_BLACK" using assms(1) by (simp add: red_hole_def)
  with assms(2) show ?thesis
    by (cases rule: red_frames)
      (use t assms(1) in \<open>simp only: root_of.simps,
        metis insert_iter_case_LL insert_iter_case_LR insert_iter_case_RR insert_iter_case_RL\<close>)+
qed

lemma insert_loop_ok:
  assumes "red_hole k t"
  shows "\<exists>t'. rb_insert_loop (root_of t) (store (plug k t) h) = Some (store t' h) \<and>
     is_rbt (paint RB_BLACK t') \<and> inorder t' = inorder (plug k t)"
  using assms
proof (induction k arbitrary: t rule: length_induct)
  case (1 k)
  obtain l x r where t: "t = Node RB_RED l x r" using 1(2) col_root unfolding red_hole_def by blast
  have D: "distinct (inorder (plug k t))" using 1(2) by (simp add: red_hole_def)
  show ?case
  proof (cases "head_col k")
    case RB_BLACK
    have "is_rbt (paint RB_BLACK (plug k t))"
      using 1(2) RB_BLACK t by (cases k rule: above.cases)
        (auto simp: red_hole_def is_rbt_plug is_rbt_def [of "Node _ _ _ _"] simp del: plug.simps(2,3) intro!: rbt_painted)
    then show ?thesis using insert_loop_done [OF D [unfolded t] RB_BLACK] t by auto
  next
    case RB_RED
    obtain k' u where it: "rb_insert_iter (root_of t) (above k) (store (plug k t) h) = Some (root_of u, store (plug k' u) h)"
      and same: "inorder (plug k' u) = inorder (plug k t)"
      and u: "length k' < length k \<and> red_hole k' u \<or> head_col k' = RB_BLACK \<and> u \<noteq> Leaf \<and> is_rbt (plug k' u)"
      using insert_iter_ok [OF 1(2) RB_RED, of h] unfolding iter_result_def by blast
    have step: "rb_insert_loop (root_of t) (store (plug k t) h) = rb_insert_loop (root_of u) (store (plug k' u) h)"
      using insert_loop_step [of k RB_RED l x r h] D RB_RED it t by simp
    from u show ?thesis
    proof
      assume "length k' < length k \<and> red_hole k' u"
      then show ?thesis using 1(1) unfolding step same [symmetric] by blast
    next
      assume u: "head_col k' = RB_BLACK \<and> u \<noteq> Leaf \<and> is_rbt (plug k' u)"
      then have "distinct (inorder (plug k' u))" unfolding is_rbt_def by blast
      with u have "rb_insert_loop (root_of u) (store (plug k' u) h) = Some (store (plug k' u) h)"
        using insert_loop_done by (cases u) (auto simp del: inorder_plug)
      then show ?thesis using u rbt_painted unfolding step same [symmetric] by blast
    qed
  qed
qed

lemma set_root_black: "t \<noteq> Leaf \<Longrightarrow> distinct (inorder t) \<Longrightarrow>
  rb_set_color (root_of t) c (store t h) = Some (store (paint c t) h)"
  using set_color_store [where k = "[]"] by (cases t) (simp_all del: inorder.simps)

lemma insert_color_ok:
  assumes "is_rbt (plug k Leaf)" "x \<notin> addrs (plug k Leaf)"
  shows "\<exists>t. rb_insert_color (Some x) (store (plug k (Node RB_RED Leaf x Leaf)) h) = Some (store t h) \<and>
     is_rbt t \<and> inorder t = frame_order_l k @ x # frame_order_r k"
proof -
  obtain t where t: "rb_insert_loop (Some x) (store (plug k (Node RB_RED Leaf x Leaf)) h) = Some (store t h)"
    "is_rbt (paint RB_BLACK t)" "inorder t = inorder (plug k (Node RB_RED Leaf x Leaf))"
    using insert_loop_ok [of k "Node RB_RED Leaf x Leaf" h] assms by (auto simp: is_rbt_plug red_hole_def)
  moreover from t(3) have "t \<noteq> Leaf" by auto
  moreover from t(2) have "distinct (inorder t)" by (simp add: is_rbt_def)
  ultimately show ?thesis
    by (auto simp: rb_insert_color_def set_root_black)
qed

end
