(* ===== verification/Rbtree_Fixup.thy ===== *)
theory Rbtree_Fixup
  imports Rbtree_Insert
begin

text \<open>
  The correctness of \<open>rb_erase_color\<close> (src/rbtree.c:174): started at a subtree that is one black
  node short, it terminates in a red-black tree with the same in-order sequence.
\<close>

lemma set_color_RL:
  "distinct (inorder (plug k (Node b u y (Node e (Node c l x r) z v)))) \<Longrightarrow>
   rb_set_color (Some x) d (store (plug k (Node b u y (Node e (Node c l x r) z v))) h) =
     Some (store (plug k (Node b u y (Node e (Node d l x r) z v))) h)"
  using set_color_L [of "InR b u y # k"] by simp

lemma set_color_RR:
  "distinct (inorder (plug k (Node b u y (Node e v z (Node c l x r))))) \<Longrightarrow>
   rb_set_color (Some x) d (store (plug k (Node b u y (Node e v z (Node c l x r)))) h) =
     Some (store (plug k (Node b u y (Node e v z (Node d l x r)))) h)"
  using set_color_R [of "InR b u y # k"] by simp

lemma set_color_LL:
  "distinct (inorder (plug k (Node b (Node e (Node c l x r) z v) y u))) \<Longrightarrow>
   rb_set_color (Some x) d (store (plug k (Node b (Node e (Node c l x r) z v) y u)) h) =
     Some (store (plug k (Node b (Node e (Node d l x r) z v) y u)) h)"
  using set_color_L [of "InL b y u # k"] by simp

lemma set_color_LR:
  "distinct (inorder (plug k (Node b (Node e v z (Node c l x r)) y u))) \<Longrightarrow>
   rb_set_color (Some x) d (store (plug k (Node b (Node e v z (Node c l x r)) y u)) h) =
     Some (store (plug k (Node b (Node e v z (Node d l x r)) y u)) h)"
  using set_color_R [of "InL b y u # k"] by simp

lemma is_black_RL [simp]:
  "distinct (inorder (plug k (Node b u y (Node e t z v)))) \<Longrightarrow>
    rb_is_black (root_of t) (store (plug k (Node b u y (Node e t z v))) h) = Some (col t = RB_BLACK)"
  using is_black_store [of "InL e z v # InR b u y # k"] by simp

lemma is_black_RR [simp]:
  "distinct (inorder (plug k (Node b u y (Node e v z t)))) \<Longrightarrow>
    rb_is_black (root_of t) (store (plug k (Node b u y (Node e v z t))) h) = Some (col t = RB_BLACK)"
  using is_black_store [of "InR e v z # InR b u y # k"] by simp

lemma is_black_LL [simp]:
  "distinct (inorder (plug k (Node b (Node e t z v) y u))) \<Longrightarrow>
    rb_is_black (root_of t) (store (plug k (Node b (Node e t z v) y u)) h) = Some (col t = RB_BLACK)"
  using is_black_store [of "InL e z v # InL b y u # k"] by simp

lemma is_black_LR [simp]:
  "distinct (inorder (plug k (Node b (Node e v z t) y u))) \<Longrightarrow>
    rb_is_black (root_of t) (store (plug k (Node b (Node e v z t) y u)) h) = Some (col t = RB_BLACK)"
  using is_black_store [of "InR e v z # InL b y u # k"] by simp

lemmas rb_exec2 = rb_exec set_color_RL set_color_RR set_color_LL set_color_LR

lemma black_left_up:
  assumes "distinct (inorder (plug k (Node pc t p (Node c sl s sr))))"
    and "col sl = RB_BLACK" "col sr = RB_BLACK"
  shows "rb_erase_black_left (Some p) (Some s) (store (plug k (Node pc t p (Node c sl s sr))) h) =
    Some (True, Some p, above k, store (plug k (Node pc t p (Node RB_RED sl s sr))) h)"
  using assms by (auto simp: rb_erase_black_left_def both_black_def rb_at cells_at rb_exec2 Let_def)

lemma black_left_far:
  assumes "distinct (inorder (plug k (Node pc t p (Node c sl s (Node RB_RED a q b)))))"
  shows "rb_erase_black_left (Some p) (Some s)
     (store (plug k (Node pc t p (Node c sl s (Node RB_RED a q b)))) h) =
    (let t' = plug k (Node pc (Node RB_BLACK t p sl) s (Node RB_BLACK a q b))
     in Some (False, root_of t', Some p, store t' h))"
  using assms by (auto simp: rb_erase_black_left_def both_black_def rb_at cells_at rb_exec2 Let_def)

lemma black_left_near:
  assumes "distinct (inorder (plug k (Node pc t p (Node c (Node RB_RED a q b) s sr))))"
    and "col sr = RB_BLACK"
  shows "rb_erase_black_left (Some p) (Some s)
     (store (plug k (Node pc t p (Node c (Node RB_RED a q b) s sr))) h) =
    (let t' = plug k (Node pc (Node RB_BLACK t p a) q (Node RB_BLACK b s sr))
     in Some (False, root_of t', Some p, store t' h))"
  using assms by (auto simp: rb_erase_black_left_def both_black_def rb_at cells_at rb_exec2 Let_def)

lemma black_right_up:
  assumes "distinct (inorder (plug k (Node pc (Node c sl s sr) p t)))"
    and "col sl = RB_BLACK" "col sr = RB_BLACK"
  shows "rb_erase_black_right (Some p) (Some s) (store (plug k (Node pc (Node c sl s sr) p t)) h) =
    Some (True, Some p, above k, store (plug k (Node pc (Node RB_RED sl s sr) p t)) h)"
  using assms by (auto simp: rb_erase_black_right_def both_black_def rb_at cells_at rb_exec2 Let_def)

lemma black_right_far:
  assumes "distinct (inorder (plug k (Node pc (Node c (Node RB_RED a q b) s sr) p t)))"
  shows "rb_erase_black_right (Some p) (Some s)
     (store (plug k (Node pc (Node c (Node RB_RED a q b) s sr) p t)) h) =
    (let t' = plug k (Node pc (Node RB_BLACK a q b) s (Node RB_BLACK sr p t))
     in Some (False, root_of t', Some p, store t' h))"
  using assms by (auto simp: rb_erase_black_right_def both_black_def rb_at cells_at rb_exec2 Let_def)

lemma black_right_near:
  assumes "distinct (inorder (plug k (Node pc (Node c sl s (Node RB_RED a q b)) p t)))"
    and "col sl = RB_BLACK"
  shows "rb_erase_black_right (Some p) (Some s)
     (store (plug k (Node pc (Node c sl s (Node RB_RED a q b)) p t)) h) =
    (let t' = plug k (Node pc (Node RB_BLACK sl s a) q (Node RB_BLACK b p t))
     in Some (False, root_of t', Some p, store t' h))"
  using assms by (auto simp: rb_erase_black_right_def both_black_def rb_at cells_at rb_exec2 Let_def)

lemma erase_iter_red_L:
  assumes "distinct (inorder (plug k (Node pc t p (Node RB_RED sl s sr))))"
  shows "rb_erase_iter (root_of t) (Some p) (store (plug k (Node pc t p (Node RB_RED sl s sr))) h) =
    rb_erase_black_left (Some p) (root_of sl) (store (plug k (Node RB_BLACK (Node RB_RED t p sl) s sr)) h)"
  using assms by (auto simp: rb_erase_iter_def rb_at cells_at rb_exec2)

lemma erase_iter_black_L:
  assumes "distinct (inorder (plug k (Node pc t p (Node RB_BLACK sl s sr))))"
  shows "rb_erase_iter (root_of t) (Some p) (store (plug k (Node pc t p (Node RB_BLACK sl s sr))) h) =
    rb_erase_black_left (Some p) (Some s) (store (plug k (Node pc t p (Node RB_BLACK sl s sr))) h)"
  using assms by (auto simp: rb_erase_iter_def rb_at cells_at rb_exec2)

lemma erase_iter_red_R:
  assumes "distinct (inorder (plug k (Node pc (Node RB_RED sl s sr) p t)))"
  shows "rb_erase_iter (root_of t) (Some p) (store (plug k (Node pc (Node RB_RED sl s sr) p t)) h) =
    rb_erase_black_right (Some p) (root_of sr) (store (plug k (Node RB_BLACK sl s (Node RB_RED sr p t))) h)"
proof -
  have "root_of t \<noteq> Some s" using assms by (auto dest: root_of_mem)
  then show ?thesis using assms by (auto simp: rb_erase_iter_def rb_at cells_at rb_exec2)
qed

lemma erase_iter_black_R:
  assumes "distinct (inorder (plug k (Node pc (Node RB_BLACK sl s sr) p t)))"
  shows "rb_erase_iter (root_of t) (Some p) (store (plug k (Node pc (Node RB_BLACK sl s sr) p t)) h) =
    rb_erase_black_right (Some p) (Some s) (store (plug k (Node pc (Node RB_BLACK sl s sr) p t)) h)"
proof -
  have "root_of t \<noteq> Some s" using assms by (auto dest: root_of_mem)
  then show ?thesis using assms by (auto simp: rb_erase_iter_def rb_at cells_at rb_exec2)
qed

lemma erase_color_unfold:
  "rb_erase_color node parentp s = do {
     nb \<leftarrow> rb_is_black node s;
     if nb \<and> node \<noteq> root s then do {
       (go, node, parentp, s) \<leftarrow> rb_erase_iter node parentp s;
       if go then rb_erase_color node parentp s
       else if node \<noteq> NULL then rb_set_color node RB_BLACK s else Some s }
     else if node \<noteq> NULL then rb_set_color node RB_BLACK s else Some s }"
  unfolding rb_erase_color_def
  by (subst rb_erase_loop.simps)
    (cases "rb_is_black node s"; cases "rb_erase_iter node parentp s"; auto split: prod.splits)

lemma root_in_frames: "k \<noteq> [] \<Longrightarrow> \<exists>x \<in> frame_addrs k. root_of (plug k t) = Some x"
proof (induction k t rule: plug.induct)
  case (2 c x r k t) then show ?case by (cases "k = []") auto
next
  case (3 c l x k t) then show ?case by (cases "k = []") auto
qed simp

lemma root_not_hole:
  assumes "distinct (inorder (plug k t))" "k \<noteq> []"
  shows "root_of t \<noteq> root_of (plug k t)"
proof
  assume eq: "root_of t = root_of (plug k t)"
  obtain x where x: "x \<in> frame_addrs k" "root_of (plug k t) = Some x"
    using root_in_frames [OF assms(2)] by blast
  then have "x \<in> addrs t" using eq root_of_mem by metis
  with assms(1) x(1) show False by auto
qed

lemma erase_color_red:
  assumes "distinct (inorder (plug k (Node RB_RED l x r)))"
  shows "rb_erase_color (Some x) q (store (plug k (Node RB_RED l x r)) h) =
    Some (store (plug k (Node RB_BLACK l x r)) h)"
  using assms is_black_store [OF assms, of h]
  by (subst erase_color_unfold) (simp add: set_color_store del: inorder_plug)

lemma erase_color_top:
  assumes "distinct (inorder t)"
  shows "rb_erase_color (root_of t) q (store t h) = Some (store (paint RB_BLACK t) h)"
  using assms is_black_store [of "[]" t h] set_root_black [of t RB_BLACK h]
  by (subst erase_color_unfold) (cases t, auto)

lemma erase_color_go:
  assumes "distinct (inorder (plug k t))" "col t = RB_BLACK" "k \<noteq> []"
    and "rb_erase_iter (root_of t) (above k) (store (plug k t) h) = Some (True, n, p, s)"
  shows "rb_erase_color (root_of t) (above k) (store (plug k t) h) = rb_erase_color n p s"
  using assms root_not_hole [OF assms(1,3)]
  by (subst erase_color_unfold) (simp del: inorder_plug)

lemma erase_color_break:
  assumes "distinct (inorder (plug k t))" "col t = RB_BLACK" "k \<noteq> []"
    and "rb_erase_iter (root_of t) (above k) (store (plug k t) h) =
      (let t' = plug k' u in Some (False, root_of t', p, store t' h))"
    and "is_rbt (plug k' u)" "inorder (plug k' u) = inorder (plug k t)"
  shows "\<exists>t'. rb_erase_color (root_of t) (above k) (store (plug k t) h) = Some (store t' h) \<and>
    is_rbt t' \<and> inorder t' = inorder (plug k t)"
proof (cases "plug k' u = Leaf")
  case True
  with assms(6) have "inorder (plug k t) = []" by simp
  with assms(3) show ?thesis by (cases k rule: above.cases) auto
next
  case False
  then have "root_of (plug k' u) \<noteq> None" by (cases "plug k' u") auto
  moreover have "rb_set_color (root_of (plug k' u)) RB_BLACK (store (plug k' u) h) = Some (store (plug k' u) h)"
    using assms(5) False set_root_black [of "plug k' u" RB_BLACK h]
    by (simp add: is_rbt_def paint_black_id del: inorder_plug)
  ultimately have "rb_erase_color (root_of t) (above k) (store (plug k t) h) = Some (store (plug k' u) h)"
    using assms root_not_hole [OF assms(1,3)]
    by (subst erase_color_unfold) (simp add: Let_def del: inorder_plug)
  then show ?thesis using assms(5,6) by blast
qed

lemma col_black_bh: "bh t = Suc n \<Longrightarrow> same_bh t \<Longrightarrow> \<exists>c l x r. t = Node c l x r"
  by (cases t) auto

text \<open>The situation in which the fix-up runs: the hole is one black node short, its root may be red
  under a red parent, and everything else is fine; and what the fix-up has to reach from there.\<close>

definition short_hole :: "'p frame list \<Rightarrow> 'p rbt \<Rightarrow> bool" where
  "short_hole k t \<longleftrightarrow> distinct (inorder (plug k t)) \<and> same_bh t \<and> no_red_red (paint RB_BLACK t) \<and>
     fits_bh k (Suc (bh t)) \<and> fits_col k RB_BLACK"

definition mended :: "'p frame list \<Rightarrow> 'p rbt \<Rightarrow> ('p \<rightharpoonup> 'p rb_node) \<Rightarrow> bool" where
  "mended k t h \<longleftrightarrow> (\<exists>t'. rb_erase_color (root_of t) (above k) (store (plug k t) h) = Some (store t' h) \<and>
    is_rbt t' \<and> inorder t' = inorder (plug k t))"

lemma erase_red_ok:
  assumes "short_hole k t" "col t = RB_RED"
  shows "mended k t h"
proof -
  obtain l x r where t: "t = Node RB_RED l x r" using assms(2) col_root by blast
  have "is_rbt (plug k (Node RB_BLACK l x r))"
    using assms t by (auto simp: short_hole_def is_rbt_plug)
  then show ?thesis using erase_color_red [of k l x r] assms(1) t by (auto simp: short_hole_def mended_def)
qed

lemma erase_top_ok:
  assumes "short_hole [] t" shows "mended [] t h"
  using assms erase_color_top [of t None h]
  by (cases t) (auto simp: short_hole_def mended_def is_rbt_def)

lemma erase_black_L:
  assumes IH: "\<And>u. short_hole k u \<Longrightarrow> col u = pc \<Longrightarrow> mended k u h"
    and D: "distinct (inorder (plug k (Node pc t p (Node RB_BLACK sl s sr))))"
    and t: "same_bh t" "no_red_red t" "col t = RB_BLACK"
    and k: "fits_bh (InL pc p (Node RB_BLACK sl s sr) # k) (Suc (bh t))"
      "fits_col (InL pc p (Node RB_BLACK sl s sr) # k) RB_BLACK"
    and it: "rb_erase_iter (root_of t) (Some p) (store T h) =
       rb_erase_black_left (Some p) (Some s) (store (plug k (Node pc t p (Node RB_BLACK sl s sr))) h)"
    and T: "T = plug k0 t" "k0 \<noteq> []" "above k0 = Some p" "distinct (inorder (plug k0 t))"
      "inorder T = inorder (plug k (Node pc t p (Node RB_BLACK sl s sr)))"
  shows "\<exists>t'. rb_erase_color (root_of t) (Some p) (store T h) = Some (store t' h) \<and>
        is_rbt t' \<and> inorder t' = inorder T"
proof -
  note break = erase_color_break [OF T(4) t(3) T(2), unfolded T(3) T(1) [symmetric], OF trans [OF it]]
   and go = erase_color_go [OF T(4) t(3) T(2), unfolded T(3) T(1) [symmetric], OF trans [OF it]]
  show ?thesis
  proof (cases "col sr")
    case RB_RED
    then obtain a q b where sr: "sr = Node RB_RED a q b" using col_root by blast
    show ?thesis
      by (rule break [OF black_left_far [OF D [unfolded sr], folded sr]])
        (use D t k T(5) sr in \<open>auto simp: is_rbt_plug\<close>)
  next
    case srb: RB_BLACK
    show ?thesis
    proof (cases "col sl")
      case RB_RED
      then obtain a q b where sl: "sl = Node RB_RED a q b" using col_root by blast
      show ?thesis
        by (rule break [OF black_left_near [OF D [unfolded sl] srb, folded sl]])
          (use D t k T(5) sl srb in \<open>auto simp: is_rbt_plug\<close>)
    next
      case RB_BLACK
      from go [OF black_left_up [OF D RB_BLACK srb]]
      have "rb_erase_color (root_of t) (Some p) (store T h) =
        rb_erase_color (Some p) (above k) (store (plug k (Node pc t p (Node RB_RED sl s sr))) h)" .
      moreover have "mended k (Node pc t p (Node RB_RED sl s sr)) h"
        using D t k RB_BLACK srb by (intro IH) (auto simp: short_hole_def intro: fits_col_black)
      ultimately show ?thesis using T(5) by (simp add: mended_def)
    qed
  qed
qed

lemma erase_black_R:
  assumes IH: "\<And>u. short_hole k u \<Longrightarrow> col u = pc \<Longrightarrow> mended k u h"
    and D: "distinct (inorder (plug k (Node pc (Node RB_BLACK sl s sr) p t)))"
    and t: "same_bh t" "no_red_red t" "col t = RB_BLACK"
    and k: "fits_bh (InR pc (Node RB_BLACK sl s sr) p # k) (Suc (bh t))"
      "fits_col (InR pc (Node RB_BLACK sl s sr) p # k) RB_BLACK"
    and it: "rb_erase_iter (root_of t) (Some p) (store T h) =
       rb_erase_black_right (Some p) (Some s) (store (plug k (Node pc (Node RB_BLACK sl s sr) p t)) h)"
    and T: "T = plug k0 t" "k0 \<noteq> []" "above k0 = Some p" "distinct (inorder (plug k0 t))"
      "inorder T = inorder (plug k (Node pc (Node RB_BLACK sl s sr) p t))"
  shows "\<exists>t'. rb_erase_color (root_of t) (Some p) (store T h) = Some (store t' h) \<and>
        is_rbt t' \<and> inorder t' = inorder T"
proof -
  note break = erase_color_break [OF T(4) t(3) T(2), unfolded T(3) T(1) [symmetric], OF trans [OF it]]
   and go = erase_color_go [OF T(4) t(3) T(2), unfolded T(3) T(1) [symmetric], OF trans [OF it]]
  show ?thesis
  proof (cases "col sl")
    case RB_RED
    then obtain a q b where sl: "sl = Node RB_RED a q b" using col_root by blast
    show ?thesis
      by (rule break [OF black_right_far [OF D [unfolded sl], folded sl]])
        (use D t k T(5) sl in \<open>auto simp: is_rbt_plug\<close>)
  next
    case slb: RB_BLACK
    show ?thesis
    proof (cases "col sr")
      case RB_RED
      then obtain a q b where sr: "sr = Node RB_RED a q b" using col_root by blast
      show ?thesis
        by (rule break [OF black_right_near [OF D [unfolded sr] slb, folded sr]])
          (use D t k T(5) sr slb in \<open>auto simp: is_rbt_plug\<close>)
    next
      case RB_BLACK
      from go [OF black_right_up [OF D slb RB_BLACK]]
      have "rb_erase_color (root_of t) (Some p) (store T h) =
        rb_erase_color (Some p) (above k) (store (plug k (Node pc (Node RB_RED sl s sr) p t)) h)" .
      moreover have "mended k (Node pc (Node RB_RED sl s sr) p t) h"
        using D t k RB_BLACK slb by (intro IH) (auto simp: short_hole_def intro: fits_col_black)
      ultimately show ?thesis using T(5) by (simp add: mended_def)
    qed
  qed
qed

lemma erase_step_L:
  assumes IH: "\<And>u. short_hole k' u \<Longrightarrow> mended k' u h"
    and k: "k = InL pc p S # k'" and hole: "short_hole k t" and black: "col t = RB_BLACK"
  shows "mended k t h"
proof -
  have t: "same_bh t" "no_red_red t" "col t = RB_BLACK" and D: "distinct (inorder (plug k t))"
    using hole black by (simp_all add: short_hole_def paint_black_id)
  obtain c sl s sr where S: "S = Node c sl s sr"
    using col_black_bh [of S "bh t"] hole k by (auto simp: short_hole_def)
  show ?thesis
  proof (cases c)
    case RB_BLACK
    from erase_black_L [OF IH, of pc t p sl s sr "plug k t" k] show ?thesis
      using D hole t k S RB_BLACK
      by (simp add: short_hole_def mended_def erase_iter_black_L del: inorder_plug)
  next
    case RB_RED
    then obtain a q b where sib: "sl = Node RB_BLACK a q b"
      using col_black_bh [of sl "bh t"] hole k S by (cases sl) (auto simp: short_hole_def)
    let ?k = "InL RB_BLACK s sr # k'" and ?t = "Node RB_RED t p (Node RB_BLACK a q b)"
    have "rb_erase_iter (root_of t) (Some p) (store (plug k t) h) =
        rb_erase_black_left (Some p) (Some q) (store (plug ?k ?t) h)"
      using D k S RB_RED sib by (simp add: erase_iter_red_L del: inorder_plug)
    moreover have "fits_bh (InL RB_RED p (Node RB_BLACK a q b) # ?k) (Suc (bh t))"
      "fits_col (InL RB_RED p (Node RB_BLACK a q b) # ?k) RB_BLACK"
      using hole k S RB_RED sib by (auto simp: short_hole_def)
    moreover have "inorder (plug k t) = inorder (plug ?k ?t)"
      using k S sib by simp
    ultimately show ?thesis
      using erase_black_L [OF erase_red_ok _ t, where T = "plug k t" and ?k0.0 = k] D k
      by (simp add: mended_def del: inorder_plug plug.simps fits_bh.simps fits_col.simps)
  qed
qed

lemma erase_step_R:
  assumes IH: "\<And>u. short_hole k' u \<Longrightarrow> mended k' u h"
    and k: "k = InR pc S p # k'" and hole: "short_hole k t" and black: "col t = RB_BLACK"
  shows "mended k t h"
proof -
  have t: "same_bh t" "no_red_red t" "col t = RB_BLACK" and D: "distinct (inorder (plug k t))"
    using hole black by (simp_all add: short_hole_def paint_black_id)
  obtain c sl s sr where S: "S = Node c sl s sr"
    using col_black_bh [of S "bh t"] hole k by (auto simp: short_hole_def)
  show ?thesis
  proof (cases c)
    case RB_BLACK
    from erase_black_R [OF IH, of pc sl s sr p t "plug k t" k] show ?thesis
      using D hole t k S RB_BLACK
      by (simp add: short_hole_def mended_def erase_iter_black_R del: inorder_plug)
  next
    case RB_RED
    then obtain a q b where sib: "sr = Node RB_BLACK a q b"
      using col_black_bh [of sr "bh t"] hole k S by (cases sr) (auto simp: short_hole_def)
    let ?k = "InR RB_BLACK sl s # k'" and ?t = "Node RB_RED (Node RB_BLACK a q b) p t"
    have "rb_erase_iter (root_of t) (Some p) (store (plug k t) h) =
        rb_erase_black_right (Some p) (Some q) (store (plug ?k ?t) h)"
      using D k S RB_RED sib by (simp add: erase_iter_red_R del: inorder_plug)
    moreover have "fits_bh (InR RB_RED (Node RB_BLACK a q b) p # ?k) (Suc (bh t))"
      "fits_col (InR RB_RED (Node RB_BLACK a q b) p # ?k) RB_BLACK"
      using hole k S RB_RED sib by (auto simp: short_hole_def)
    moreover have "inorder (plug k t) = inorder (plug ?k ?t)"
      using k S sib by simp
    ultimately show ?thesis
      using erase_black_R [OF erase_red_ok _ t, where T = "plug k t" and ?k0.0 = k] D k
      by (simp add: mended_def del: inorder_plug plug.simps fits_bh.simps fits_col.simps)
  qed
qed

lemma erase_color_ok: "short_hole k t \<Longrightarrow> mended k t h"
proof (induction k arbitrary: t)
  case Nil
  then show ?case by (rule erase_top_ok)
next
  case (Cons f k)
  show ?case
  proof (cases "col t")
    case RB_RED
    with Cons.prems show ?thesis by (rule erase_red_ok)
  next
    case RB_BLACK
    show ?thesis
    proof (cases f)
      case (InL c x r)
      then show ?thesis by (intro erase_step_L [OF Cons.IH _ Cons.prems RB_BLACK]) simp_all
    next
      case (InR c l x)
      then show ?thesis by (intro erase_step_R [OF Cons.IH _ Cons.prems RB_BLACK]) simp_all
    qed
  qed
qed

end
