(* ===== verification/Rbtree_Erase.thy ===== *)
theory Rbtree_Erase
  imports Rbtree_Fixup
begin

text \<open>
  The correctness of \<open>rb_erase\<close> (src/rbtree.c:247): erasing a node of a red-black tree terminates
  in a red-black tree whose in-order sequence lacks just that node.
\<close>

lemma plug_append: "plug (k @ k') t = plug k' (plug k t)"
  by (induction k t rule: plug.induct) auto

lemma unlink_store:
  assumes D: "distinct (inorder (plug k (Node c l x r)))"
    and u: "l = Leaf \<and> u = r \<or> r = Leaf \<and> u = l"
  shows "do { s \<leftarrow> rb_reparent (root_of u) (above k) (store (plug k (Node c l x r)) h);
      rb_relink (above k) (Some x) (root_of u) s } =
    Some (store (plug k u) (h(x \<mapsto> \<lparr>parent = above k, left = root_of l, right = root_of r, color = c\<rparr>)))"
proof -
  let ?s = "store (plug k (Node c l x r)) h"
  have F: "frame_addrs k \<inter> addrs u = {}" using D u by auto
  have "rb_reparent (root_of u) (above k) ?s = Some (?s\<lparr>nodes := nodes ?s ++ cells (above k) u\<rparr>)"
    using D u store_has(1) [of "InL c x r # k" l h] store_has(1) [of "InR c l x # k" r h]
    by (intro reparent_has [where p = "Some x"]) auto
  moreover have "rb_relink (above k) (Some x) (root_of u) (?s\<lparr>nodes := nodes ?s ++ cells (above k) u\<rparr>) =
      Some (?s\<lparr>nodes := (nodes ?s ++ cells (above k) u) ++ frame_cells k (root_of u),
               root := (if k = [] then root_of u else root ?s)\<rparr>)"
    using D F store_has(2) [OF D, of h]
    by (subst relink_has) auto
  moreover have "(if k = [] then root_of u else root ?s) = root_of (plug k u)"
    using root_of_plug_frame by auto
  moreover have "?s\<lparr>nodes := (nodes ?s ++ cells (above k) u) ++ frame_cells k (root_of u),
               root := root_of (plug k u)\<rparr> = store (plug k u) (h(x \<mapsto>
         \<lparr>parent = above k, left = root_of l, right = root_of r, color = c\<rparr>))"
    using D u
    by (intro store_eqI) (auto simp: nodes_store_plug mem_of_def fun_eq_iff cells_at map_add_at disjoint_iff)
  ultimately show ?thesis by simp
qed

lemma relink_root: "rb_relink None old new s = Some (s\<lparr>root := new\<rparr>)"
  by (simp add: rb_relink_def)

lemma take_place_raw:
  assumes "nodes s x = Some \<lparr>parent = above k, left = root_of l, right = root_of r, color = c\<rparr>"
    and "nodes s y \<noteq> None" "l \<noteq> Leaf"
    and "has (cells (Some x) l) (nodes s)" "has (cells (Some x) r) (nodes s)"
      "has (frame_cells k (Some x)) (nodes s)"
    and "distinct (inorder l)" "distinct (inorder r)" "addrs l \<inter> addrs r = {}"
      "distinct (frame_order_l k @ x # y # frame_order_r k)"
    and "x \<notin> addrs l" "x \<notin> addrs r" "y \<notin> addrs l" "y \<notin> addrs r"
      "frame_addrs k \<inter> addrs l = {}" "frame_addrs k \<inter> addrs r = {}"
  shows "rb_take_place (Some y) (Some x) s = Some (s\<lparr>
     nodes := (((nodes s)(y \<mapsto> \<lparr>parent = above k, left = root_of l, right = root_of r, color = c\<rparr>)
       ++ frame_cells k (Some y)) ++ cells (Some y) l) ++ cells (Some y) r,
     root := (if k = [] then Some y else root s)\<rparr>)"
proof -
  have sp: "rb_set_parent (root_of l) q s = rb_reparent (root_of l) q s" for q s
    using assms(3) by (cases l) (auto simp: rb_reparent_def)
  have "addrs r \<inter> addrs l = {}" using assms(9) by blast
  with assms show ?thesis
    by (auto simp: rb_take_place_def rb_parent_def rb_left_def rb_right_def rd_def wr_def relink_has relink_root sp
        reparent_has [where p = "Some x"] intro!: rb_mem.equality)
qed

lemma take_place_store:
  assumes D: "distinct (inorder (plug k (Node c l x r)))"
    and y: "y \<notin> addrs (plug k (Node c l x r))" "h y \<noteq> None" and l: "l \<noteq> Leaf"
  shows "rb_take_place (Some y) (Some x) (store (plug k (Node c l x r)) h) =
    Some (store (plug k (Node c l y r))
      (h(x \<mapsto> \<lparr>parent = above k, left = root_of l, right = root_of r, color = c\<rparr>)))"
proof -
  let ?n = "\<lparr>parent = above k, left = root_of l, right = root_of r, color = c\<rparr>"
  let ?s = "store (plug k (Node c l x r)) h"
  have ny: "nodes ?s y \<noteq> None"
    using y D by (auto simp: nodes_store_plug mem_of_def)
  have "rb_take_place (Some y) (Some x) ?s =
     Some (?s\<lparr>nodes := (((nodes ?s)(y \<mapsto> ?n) ++ frame_cells k (Some y)) ++ cells (Some y) l) ++ cells (Some y) r,
       root := (if k = [] then Some y else root ?s)\<rparr>)"
    using D y ny l store_has(1) [of "InL c x r # k" l h] store_has(1) [of "InR c l x # k" r h] store_has(2) [OF D, of h]
    by (intro take_place_raw) (auto simp: cells_at Int_Un_distrib Int_Un_distrib2)
  moreover have "(if k = [] then Some y else root ?s) = root_of (plug k (Node c l y r))"
    using root_of_plug_frame by auto
  moreover have "?s\<lparr>nodes := (((nodes ?s)(y \<mapsto> ?n) ++ frame_cells k (Some y)) ++ cells (Some y) l) ++ cells (Some y) r,
       root := root_of (plug k (Node c l y r))\<rparr> = store (plug k (Node c l y r)) (h(x \<mapsto> ?n))"
    using D y
    by (intro store_eqI) (auto simp: nodes_store_plug mem_of_def fun_eq_iff cells_at map_add_at disjoint_iff)
  ultimately show ?thesis by simp
qed

lemma leftmost_store:
  assumes "distinct (inorder (plug k t))" "t \<noteq> Leaf"
  shows "rb_leftmost_from (root_of t) (store (plug k t) h) = Some (Some (hd (inorder t)))"
  using assms
proof (induction t arbitrary: k)
  case (Node c l x r)
  have left: "rb_left (Some x) (store (plug k (Node c l x r)) h) = Some (root_of l)"
    using Node.prems by (simp add: rb_at cells_at)
  show ?case
  proof (cases "l = Leaf")
    case True
    then show ?thesis by (subst rb_leftmost_from.simps) (use left in simp)
  next
    case False
    then have "root_of l \<noteq> None" by (cases l) auto
    moreover have "inorder l \<noteq> []" using False by (cases l) auto
    ultimately show ?thesis
      using Node.IH(1) [of "InL c x r # k"] Node.prems False left
      by (subst rb_leftmost_from.simps) auto
  qed
qed simp

lemma leftmost_split:
  "t \<noteq> Leaf \<Longrightarrow> \<exists>k c y r. t = plug k (Node c Leaf y r) \<and> frame_order_l k = []"
proof (induction t)
  case (Node c l x r)
  show ?case
  proof (cases "l = Leaf")
    case True then show ?thesis by (metis plug.simps(1) frame_order_l.simps(1))
  next
    case False
    with Node.IH(1) obtain k d y u where "l = plug k (Node d Leaf y u)" "frame_order_l k = []"
      by blast
    moreover have "frame_order_l (k @ [InL c x r]) = frame_order_l k"
      by (induction k rule: frame_order_l.induct) auto
    ultimately show ?thesis
      by (intro exI [of _ "k @ [InL c x r]"] exI [of _ d] exI [of _ y] exI [of _ u]) (simp add: plug_append)
  qed
qed simp

lemma focus: "x \<in> addrs t \<Longrightarrow> \<exists>k c l r. t = plug k (Node c l x r)"
proof (induction t)
  case (Node c l y r)
  consider "x = y" | "x \<in> addrs l" | "x \<in> addrs r" using Node.prems by auto
  then show ?case
  proof cases
    case 1 then show ?thesis by (metis plug.simps(1))
  next
    case 2
    with Node.IH(1) obtain k d a b where "l = plug k (Node d a x b)" by blast
    then show ?thesis by (metis plug_append plug.simps(1,2))
  next
    case 3
    with Node.IH(2) obtain k d a b where "r = plug k (Node d a x b)" by blast
    then show ?thesis by (metis plug_append plug.simps(1,3))
  qed
qed simp

lemma fits_bh_rename: "fits_bh (k @ InR c l x # k') n = fits_bh (k @ InR c l y # k') n"
  by (induction k n rule: fits_bh.induct) simp_all

lemma fits_col_rename: "fits_col (k @ InR c l x # k') d = fits_col (k @ InR c l y # k') d"
  by (induction k d rule: fits_col.induct) simp_all

lemma nodes_store_out: "z \<notin> addrs t \<Longrightarrow> nodes (store t h) z = h z"
  by (simp add: store_def)

lemma store_upd_in: "y \<in> addrs t \<Longrightarrow> store t (h(y \<mapsto> n)) = store t h"
  by (auto simp: store_def fun_eq_iff map_add_at)

lemma above_in_frames: "above k = Some z \<Longrightarrow> z \<in> frame_addrs k"
  by (cases k rule: above.cases) auto

lemma above_append: "k \<noteq> [] \<Longrightarrow> above (k @ k') = above k"
  by (cases k rule: above.cases) auto

lemma no_red_red_paint: "no_red_red t \<Longrightarrow> no_red_red (paint RB_BLACK t)"
  by (cases t) auto

lemma remove_fix:
  assumes "is_rbt (plug k (Node c l x r))" "l = Leaf \<and> u = r \<or> r = Leaf \<and> u = l"
    and "\<And>n. fits_bh k n = fits_bh k' n" "\<And>d. fits_col k d = fits_col k' d" "k = [] \<longleftrightarrow> k' = []"
    and "distinct (inorder (plug k' u))"
  shows "\<exists>t. (if c = RB_BLACK then rb_erase_color (root_of u) (above k') (store (plug k' u) h)
      else Some (store (plug k' u) h)) = Some (store t h) \<and> is_rbt t \<and> inorder t = inorder (plug k' u)"
proof (cases c)
  case RB_BLACK
  then show ?thesis
    using assms erase_color_ok [of k' u h]
    by (auto simp: is_rbt_plug short_hole_def mended_def no_red_red_paint intro: fits_col_black)
next
  case RB_RED
  then have "is_rbt (plug k' u)"
    using assms by (auto simp: is_rbt_plug intro: fits_col_black)
  then show ?thesis using RB_RED by auto
qed

lemma erase_one_child:
  assumes R: "is_rbt (plug k (Node c l x r))" and u: "l = Leaf \<and> u = r \<or> r = Leaf \<and> u = l"
  shows "\<exists>t n. rb_erase (Some x) (store (plug k (Node c l x r)) h) = Some (store t (h(x \<mapsto> n))) \<and>
    is_rbt t \<and> inorder t = inorder (plug k u)"
proof -
  let ?n = "\<lparr>parent = above k, left = root_of l, right = root_of r, color = c\<rparr>"
  have D: "distinct (inorder (plug k (Node c l x r)))" using R by (simp add: is_rbt_def)
  obtain s1 where s1: "rb_reparent (root_of u) (above k) (store (plug k (Node c l x r)) h) = Some s1"
    "rb_relink (above k) (Some x) (root_of u) s1 = Some (store (plug k u) (h(x \<mapsto> ?n)))"
    using unlink_store [OF D u, of h] by (auto split: bind_splits)
  have cell: "nodes (store (plug k (Node c l x r)) h) x = Some ?n"
    using D by (simp add: cells_at)
  have "(if root_of l = None then root_of r else root_of l) = root_of u" "root_of l = None \<or> root_of r = None"
    using u by auto
  then have "rb_erase (Some x) (store (plug k (Node c l x r)) h) =
     (if c = RB_BLACK then rb_erase_color (root_of u) (above k) (store (plug k u) (h(x \<mapsto> ?n)))
      else Some (store (plug k u) (h(x \<mapsto> ?n))))"
    using s1 cell by (simp add: rb_erase_def rb_at)
  moreover have "distinct (inorder (plug k u))" using D u by auto
  ultimately show ?thesis
    using remove_fix [OF R u, of k "h(x \<mapsto> ?n)"] by metis
qed

lemma rb_erase_two:
  assumes "nodes s x = Some \<lparr>parent = p, left = l, right = r, color = c\<rparr>" "l \<noteq> None" "r \<noteq> None"
    and "rb_leftmost_from r s = Some (Some y)"
    and "nodes s y = Some \<lparr>parent = q, left = None, right = u, color = d\<rparr>"
    and "rb_reparent u q s = Some s1" "rb_relink q (Some y) u s1 = Some s2"
    and "rb_parent (Some y) s2 = Some q" "rb_take_place (Some y) (Some x) s2 = Some s3"
    and "(if q = Some x then Some y else q) = q'"
  shows "rb_erase (Some x) s = (if d = RB_BLACK then rb_erase_color u q' s3 else Some s3)"
proof -
  obtain l' r' where "l = Some l'" "r = Some r'" using assms(2,3) by auto
  moreover obtain ny where "nodes s2 y = Some ny" "parent ny = q"
    using assms(8) by (auto simp: rb_at)
  ultimately show ?thesis using assms by (simp add: rb_erase_def rb_at)
qed

lemma erase_two_children:
  assumes R: "is_rbt (plug k (Node c l x r))" and lr: "l \<noteq> Leaf" "r \<noteq> Leaf"
  shows "\<exists>t n. rb_erase (Some x) (store (plug k (Node c l x r)) h) = Some (store t (h(x \<mapsto> n))) \<and>
    is_rbt t \<and> inorder t = frame_order_l k @ inorder l @ inorder r @ frame_order_r k"
proof -
  obtain kr d y u where r: "r = plug kr (Node d Leaf y u)" and kr: "frame_order_l kr = []"
    using leftmost_split [OF lr(2)] by blast
  let ?K = "kr @ InR c l x # k" and ?K' = "kr @ InR c l y # k"
  let ?s = "store (plug k (Node c l x r)) h"
  have T: "plug k (Node c l x r) = plug ?K (Node d Leaf y u)"
    by (simp add: r plug_append)
  have D: "distinct (inorder (plug k (Node c l x r)))" using R by (simp add: is_rbt_def)
  have DK: "distinct (inorder (plug ?K (Node d Leaf y u)))" using D T by simp
  let ?ny = "\<lparr>parent = above ?K, left = None, right = root_of u, color = d\<rparr>"
  have y: "hd (inorder r) = y" by (simp add: r kr)
  have cx: "nodes ?s x = Some \<lparr>parent = above k, left = root_of l, right = root_of r, color = c\<rparr>"
    using D by (simp add: cells_at)
  have cy: "nodes ?s y = Some ?ny"
    using DK unfolding T by (simp add: cells_at del: inorder_plug)
  have lm: "rb_leftmost_from (root_of r) ?s = Some (Some y)"
    using leftmost_store [of "InR c l x # k" r h] D lr(2) y by simp
  obtain s1 where s1: "rb_reparent (root_of u) (above ?K) ?s = Some s1"
    "rb_relink (above ?K) (Some y) (root_of u) s1 = Some (store (plug ?K u) (h(y \<mapsto> ?ny)))"
    using unlink_store [OF DK, of u h] unfolding T by (auto split: bind_splits)
  have Ku: "plug ?K u = plug k (Node c l x (plug kr u))" "plug ?K' u = plug k (Node c l y (plug kr u))"
    by (simp_all add: plug_append)
  have Du: "distinct (inorder (plug k (Node c l x (plug kr u))))" "y \<notin> addrs (plug k (Node c l x (plug kr u)))"
    using D unfolding r by auto
  let ?nx = "\<lparr>parent = above k, left = root_of l, right = root_of (plug kr u), color = c\<rparr>"
  let ?h = "h(x \<mapsto> ?nx)"
  have np: "rb_parent (Some y) (store (plug ?K u) (h(y \<mapsto> ?ny))) = Some (above ?K)"
    using Du(2) unfolding Ku(1) by (simp add: rb_at nodes_store_out del: inorder_plug)
  have K': "(if above ?K = Some x then Some y else above ?K) = above ?K'"
    using D r above_in_frames [of kr x] by (cases "kr = []") (auto simp: above_append)
  have "rb_take_place (Some y) (Some x) (store (plug ?K u) (h(y \<mapsto> ?ny))) =
      Some (store (plug ?K' u) (h(y \<mapsto> ?ny, x \<mapsto> ?nx)))"
    unfolding Ku by (rule take_place_store [OF Du(1,2) _ lr(1)]) simp
  also have "store (plug ?K' u) (h(y \<mapsto> ?ny, x \<mapsto> ?nx)) = store (plug ?K' u) ?h"
    using store_upd_in [of y "plug ?K' u" ?h ?ny] D r by (auto simp: Ku fun_upd_twist)
  finally have tp: "rb_take_place (Some y) (Some x) (store (plug ?K u) (h(y \<mapsto> ?ny))) =
      Some (store (plug ?K' u) ?h)" .
  have DK': "distinct (inorder (plug ?K' u))"
    using D unfolding r Ku by auto
  have nl: "root_of l \<noteq> None" "root_of r \<noteq> None"
    using lr by (cases l; cases r; simp)+
  have "rb_erase (Some x) ?s =
     (if d = RB_BLACK then rb_erase_color (root_of u) (above ?K') (store (plug ?K' u) ?h)
      else Some (store (plug ?K' u) ?h))"
    by (rule rb_erase_two [OF cx nl lm cy s1 np tp K'])
  moreover have "\<exists>t. (if d = RB_BLACK then rb_erase_color (root_of u) (above ?K') (store (plug ?K' u) ?h)
      else Some (store (plug ?K' u) ?h)) = Some (store t ?h) \<and> is_rbt t \<and> inorder t = inorder (plug ?K' u)"
    using R unfolding T
    by (intro remove_fix [of ?K d Leaf y u u ?K']) (simp_all add: fits_bh_rename [of kr c l x k _ y] fits_col_rename [of kr c l x k _ y] DK' del: inorder_plug)
  moreover have "inorder (plug ?K' u) = frame_order_l k @ inorder l @ inorder r @ frame_order_r k"
    by (simp add: Ku r kr)
  ultimately show ?thesis by metis
qed

lemma rb_erase_store:
  assumes "is_rbt t" "x \<in> addrs t"
  shows "\<exists>t' n. rb_erase (Some x) (store t h) = Some (store t' (h(x \<mapsto> n))) \<and>
    is_rbt t' \<and> inorder t' = remove1 x (inorder t)"
proof -
  obtain k c l r where t: "t = plug k (Node c l x r)" using focus [OF assms(2)] by blast
  have D: "distinct (inorder (plug k (Node c l x r)))" using assms t by (simp add: is_rbt_def)
  then have rem: "remove1 x (inorder t) = frame_order_l k @ inorder l @ inorder r @ frame_order_r k"
    by (simp add: t remove1_append)
  consider "l = Leaf" | "r = Leaf" | "l \<noteq> Leaf" "r \<noteq> Leaf" by blast
  then show ?thesis
  proof cases
    case 1 then show ?thesis using erase_one_child [of k c l x r r h] assms rem t by auto
  next
    case 2 then show ?thesis using erase_one_child [of k c l x r l h] assms rem t by auto
  next
    case 3 then show ?thesis using erase_two_children [of k c l x r h] assms rem t by auto
  qed
qed

end
