(* ===== verification/Rbtree_Walk.thy ===== *)
theory Rbtree_Walk
  imports Rbtree_Erase
begin

text \<open>
  The interface of the tree for its clients: the sequence that a memory holds, what \<open>rb_first\<close>,
  \<open>rb_next\<close>, \<open>rb_erase\<close>, \<open>RB_CLEAR_NODE\<close> and the linking of a new leaf do to it, and the locale
  \<open>link_search\<close> of the clients' search loops.
\<close>

section \<open>Sequences in memory\<close>

text \<open>The client's view of a tree: the memory holds a red-black tree whose in-order sequence is
  \<open>xs\<close>.\<close>

definition rb_seq :: "'p list \<Rightarrow> 'p rb_mem \<Rightarrow> bool" where
  "rb_seq xs s \<longleftrightarrow> (\<exists>t h. s = store t h \<and> is_rbt t \<and> inorder t = xs)"

lemma rb_seqI: "is_rbt t \<Longrightarrow> inorder t = xs \<Longrightarrow> rb_seq xs (store t h)"
  unfolding rb_seq_def by blast

lemma rb_seq_distinct: "rb_seq xs s \<Longrightarrow> distinct xs"
  by (auto simp: rb_seq_def is_rbt_def)

text \<open>Two memories of the same cells: every cell of one exists in the other, and the cells outside a
  set of addresses agree.\<close>

definition same_outside :: "'p set \<Rightarrow> 'p rb_mem \<Rightarrow> 'p rb_mem \<Rightarrow> bool" where
  "same_outside A s s' \<longleftrightarrow> dom (nodes s') = dom (nodes s) \<and> (\<forall>x. x \<notin> A \<longrightarrow> nodes s' x = nodes s x)"

lemma dom_store: "dom (nodes (store t h)) = addrs t \<union> dom h"
  by (auto simp: store_def dom_cells)

section \<open>First and next\<close>

lemma rb_first_seq:
  assumes "rb_seq xs s"
  shows "rb_first s = Some (if xs = [] then NULL else Some (hd xs))"
proof -
  obtain t h where s: "s = store t h" "is_rbt t" "inorder t = xs" using assms by (auto simp: rb_seq_def)
  show ?thesis
  proof (cases t)
    case Leaf then show ?thesis using s by (auto simp: rb_first_def)
  next
    case (Node c l x r)
    then show ?thesis using s leftmost_store [of "[]" t h] by (auto simp: rb_first_def is_rbt_def)
  qed
qed

lemma climb_store:
  assumes "distinct (inorder (plug k t))" "t \<noteq> Leaf"
  shows "rb_climb (root_of t) (store (plug k t) h) =
    Some (if frame_order_r k = [] then NULL else Some (hd (frame_order_r k)))"
  using assms
proof (induction k t rule: plug.induct)
  case (1 t)
  then obtain c l x r where t: "t = Node c l x r" by (cases t) auto
  have "rb_parent (Some x) (store t h) = Some NULL" using parent_store [of "[]" c l x r h] 1 t by simp
  then show ?case using t by (subst rb_climb.simps) simp
next
  case (2 c x r k t)
  then obtain d a y b where t: "t = Node d a y b" by (cases t) auto
  have "rb_parent (Some y) (store (plug (InL c x r # k) t) h) = Some (Some x)"
    using parent_store [of "InL c x r # k" d a y b h] 2 t by simp
  moreover have "rb_right (Some x) (store (plug (InL c x r # k) t) h) = Some (root_of r)"
    using 2 by (simp add: rb_at cells_at)
  moreover have "root_of r \<noteq> Some y" using 2 t by (auto dest: root_of_mem)
  ultimately show ?case using t by (subst rb_climb.simps) (simp del: plug.simps)
next
  case (3 c l x k t)
  then obtain d a y b where t: "t = Node d a y b" by (cases t) auto
  have "rb_parent (Some y) (store (plug (InR c l x # k) t) h) = Some (Some x)"
    using parent_store [of "InR c l x # k" d a y b h] 3 t by simp
  moreover have "rb_right (Some x) (store (plug (InR c l x # k) t) h) = Some (Some y)"
    using 3 t by (simp add: rb_at cells_at)
  moreover have "rb_climb (Some x) (store (plug (InR c l x # k) t) h) =
      Some (if frame_order_r k = [] then NULL else Some (hd (frame_order_r k)))"
    using 3 by simp
  ultimately show ?case using t by (subst rb_climb.simps) (simp del: plug.simps)
qed

lemma rb_next_plug:
  assumes "distinct (inorder (plug k (Node c l x r)))"
  shows "rb_next (Some x) (store (plug k (Node c l x r)) h) =
    Some (case inorder r @ frame_order_r k of [] \<Rightarrow> NULL | y # _ \<Rightarrow> Some y)"
proof -
  have right: "rb_right (Some x) (store (plug k (Node c l x r)) h) = Some (root_of r)"
    using assms by (simp add: rb_at cells_at)
  show ?thesis
  proof (cases "r = Leaf")
    case True
    then show ?thesis using right climb_store [OF assms, of h]
      by (auto simp: rb_next_def split: list.splits)
  next
    case False
    then have "inorder r \<noteq> []" "root_of r \<noteq> NULL" by (cases r; simp)+
    then show ?thesis using right leftmost_store [of "InR c l x # k" r h] assms False
      by (auto simp: rb_next_def neq_Nil_conv)
  qed
qed

lemma rb_next_seq:
  assumes "rb_seq (xs @ x # ys) s"
  shows "rb_next (Some x) s = Some (case ys of [] \<Rightarrow> NULL | y # _ \<Rightarrow> Some y)"
proof -
  obtain t h where s: "s = store t h" "is_rbt t" "inorder t = xs @ x # ys"
    using assms by (auto simp: rb_seq_def)
  then obtain k c l r where t: "t = plug k (Node c l x r)" using focus [of x t] by auto
  have D: "distinct (inorder t)" using s by (simp add: is_rbt_def)
  then have "distinct (xs @ x # ys)" using s by simp
  moreover have "(frame_order_l k @ inorder l) @ x # (inorder r @ frame_order_r k) = xs @ x # ys"
    using s t by simp
  ultimately have "inorder r @ frame_order_r k = ys"
    by (metis append_Cons_eq_iff distinct_append not_distinct_conv_prefix disjoint_insert(1) distinct.simps(2) list.simps(15) disjoint_iff)
  then show ?thesis using rb_next_plug [of k c l x r h] D s(1) t by simp
qed

section \<open>Erasing\<close>

lemma rb_erase_seq:
  assumes "rb_seq xs s" "x \<in> set xs"
  shows "\<exists>s'. rb_erase (Some x) s = Some s' \<and> rb_seq (remove1 x xs) s' \<and> same_outside (set xs) s s'"
proof -
  obtain t h where s: "s = store t h" "is_rbt t" "inorder t = xs" using assms by (auto simp: rb_seq_def)
  obtain t' n where e: "rb_erase (Some x) (store t h) = Some (store t' (h(x \<mapsto> n)))"
    "is_rbt t'" "inorder t' = remove1 x (inorder t)"
    using rb_erase_store [of t x h] s assms(2) by auto
  have "addrs t' = addrs t - {x}" using e(3) s(2) by (simp add: set_remove1_eq is_rbt_def)
  then have "same_outside (set xs) s (store t' (h(x \<mapsto> n)))"
    using s assms(2) by (auto simp: same_outside_def dom_store nodes_store_out)
  then show ?thesis using e s rb_seqI by metis
qed

section \<open>Clearing a node outside the tree\<close>

lemma store_upd_out: "x \<notin> addrs t \<Longrightarrow> (store t h)\<lparr>nodes := (nodes (store t h))(x \<mapsto> n)\<rparr> = store t (h(x \<mapsto> n))"
  by (simp add: store_def)

lemma rb_clear_seq:
  assumes "rb_seq xs s" "x \<notin> set xs" "x \<in> dom (nodes s)"
  shows "\<exists>s'. RB_CLEAR_NODE (Some x) s = Some s' \<and> rb_seq xs s' \<and> same_outside {x} s s'"
proof -
  obtain t h n where s: "s = store t h" "is_rbt t" "inorder t = xs" "nodes s x = Some n"
    using assms by (auto simp: rb_seq_def)
  let ?s = "s\<lparr>nodes := (nodes s)(x \<mapsto> n\<lparr>parent := Some x\<rparr>)\<rparr>"
  have "rb_seq xs ?s" using s assms(2) rb_seqI by (metis store_upd_out)
  moreover have "same_outside {x} s ?s" using s(4) by (auto simp: same_outside_def)
  moreover have "RB_CLEAR_NODE (Some x) s = Some ?s" using s(4) by (simp add: RB_CLEAR_NODE_def rb_access)
  ultimately show ?thesis by blast
qed

section \<open>Linking a leaf\<close>

lemma fresh_node [simp]:
  "(n :: 'p rb_node)\<lparr>parent := p, left := l, right := r, color := c\<rparr> =
     \<lparr>parent = p, left = l, right = r, color = c\<rparr>"
  by simp

lemma link_node_store:
  assumes D: "distinct (inorder (plug k (Node RB_RED Leaf x Leaf)))" and h: "h x \<noteq> None"
    and side: "\<And>c y r k'. k = InL c y r # k' \<Longrightarrow> went_left" "\<And>c y l k'. k = InR c l y # k' \<Longrightarrow> \<not> went_left"
  shows "rb_link_node (Some x) (above k) went_left (store (plug k Leaf) h) =
    Some (store (plug k (Node RB_RED Leaf x Leaf)) h)"
proof -
  let ?s = "store (plug k Leaf) h" and ?n = "\<lparr>parent = above k, left = NULL, right = NULL, color = RB_RED\<rparr>"
  have D': "distinct (inorder (plug k Leaf))" and x: "x \<notin> addrs (plug k Leaf)" using D by auto
  then have "\<exists>n. nodes ?s x = Some n" using h by (simp add: nodes_store_out del: inorder_plug)
  then obtain n where nx: "nodes ?s x = Some n" by blast
  have root: "root_of (plug k (Node RB_RED Leaf x Leaf)) = (if k = [] then Some x else root ?s)"
    using root_of_plug_frame by auto
  have "rb_link_node (Some x) (above k) went_left ?s =
     Some (?s\<lparr>nodes := (nodes ?s)(x \<mapsto> ?n) ++ frame_cells k (Some x), root := (if k = [] then Some x else root ?s)\<rparr>)"
  proof (cases k rule: above.cases)
    case 1 then show ?thesis using nx by (simp add: rb_link_node_def rb_access)
  next
    case (2 c y r k')
    have "nodes ?s y = frame_cells k NULL y" using store_has(2) [OF D', of h] 2 by (simp add: has_framesD)
    moreover have "((nodes ?s)(x \<mapsto> ?n, y \<mapsto> \<lparr>parent = above k', left = Some x, right = root_of r, color = c\<rparr>)) =
        (nodes ?s)(x \<mapsto> ?n) ++ frame_cells k (Some x)"
      using D 2 by (auto simp: fun_eq_iff map_add_at nodes_store_plug mem_of_def cells_at simp del: plug.simps)
    ultimately show ?thesis using nx 2 side(1) [OF 2] D
      by (auto simp: rb_link_node_def rb_access cells_at simp del: plug.simps)
  next
    case (3 c l y k')
    have "nodes ?s y = frame_cells k NULL y" using store_has(2) [OF D', of h] 3 by (simp add: has_framesD)
    moreover have "((nodes ?s)(x \<mapsto> ?n, y \<mapsto> \<lparr>parent = above k', left = root_of l, right = Some x, color = c\<rparr>)) =
        (nodes ?s)(x \<mapsto> ?n) ++ frame_cells k (Some x)"
      using D 3 by (auto simp: fun_eq_iff map_add_at nodes_store_plug mem_of_def cells_at simp del: plug.simps)
    ultimately show ?thesis using nx 3 side(2) [OF 3] D
      by (auto simp: rb_link_node_def rb_access cells_at simp del: plug.simps)
  qed
  then show ?thesis unfolding root [symmetric]
    using D by (auto intro!: store_eqI simp: nodes_store_plug [OF D'] mem_of_def fun_eq_iff cells_at map_add_at)
qed

section \<open>The search for a place\<close>

text \<open>Both clients walk down the tree with their own comparison, one to find a node
  (\<open>epoll_find_item\<close>), two to find the link at which a new leaf belongs (\<open>cfs_enqueue_task\<close>,
  \<open>epoll_insert_item\<close>).  The interface is such a loop with its accumulator: \<open>cmp\<close> says where to go
  from a node and may be undefined, \<open>upd_l\<close> and \<open>upd_r\<close> are the assignments on the way down.\<close>

datatype side = Go_left | Here | Go_right

fun trail :: "('p \<Rightarrow> 'a \<Rightarrow> 'a) \<Rightarrow> ('p \<Rightarrow> 'a \<Rightarrow> 'a) \<Rightarrow> 'p frame list \<Rightarrow> 'a \<Rightarrow> 'a" where
  "trail ul ur [] a = a"
| "trail ul ur (InL c x r # k) a = ul x (trail ul ur k a)"
| "trail ul ur (InR c l x # k) a = ur x (trail ul ur k a)"

lemma trail_append: "trail ul ur (k @ k') a = trail ul ur k (trail ul ur k' a)"
  by (induction ul ur k a rule: trail.induct) auto

lemma frame_order_l_append [simp]: "frame_order_l (k @ k') = frame_order_l k' @ frame_order_l k"
  by (induction k rule: frame_order_l.induct) simp_all

lemma frame_order_r_append [simp]: "frame_order_r (k @ k') = frame_order_r k @ frame_order_r k'"
  by (induction k rule: frame_order_r.induct) simp_all

text \<open>The comparison agrees with the order of the sequence.\<close>

definition guides :: "('p \<Rightarrow> side) \<Rightarrow> 'p list \<Rightarrow> bool" where
  "guides dir = sorted_wrt (\<lambda>x y. (dir x = Go_left \<longrightarrow> dir y = Go_left) \<and> (dir y = Go_right \<longrightarrow> dir x = Go_right)
     \<and> (dir x = Here \<longrightarrow> dir y \<noteq> Go_right))"

abbreviation before :: "('p \<Rightarrow> side) \<Rightarrow> 'p list \<Rightarrow> 'p list" where
  "before dir \<equiv> filter (\<lambda>x. dir x = Go_right)"

abbreviation behind :: "('p \<Rightarrow> side) \<Rightarrow> 'p list \<Rightarrow> 'p list" where
  "behind dir \<equiv> filter (\<lambda>x. dir x = Go_left)"

locale link_search =
  fixes search :: "'a \<Rightarrow> 'p ptr \<Rightarrow> 'p rb_mem \<Rightarrow> 'r option"
    and cmp :: "'p \<Rightarrow> side option"
    and upd_l upd_r :: "'p \<Rightarrow> 'a \<Rightarrow> 'a"
    and finish :: "'a \<Rightarrow> 'r" and found :: "'p \<Rightarrow> 'r"
  assumes search_null: "search a None s = Some (finish a)"
    and search_left: "cmp x = Some Go_left \<Longrightarrow>
      search a (Some x) s = do { l \<leftarrow> rb_left (Some x) s; search (upd_l x a) l s }"
    and search_right: "cmp x = Some Go_right \<Longrightarrow>
      search a (Some x) s = do { r \<leftarrow> rb_right (Some x) s; search (upd_r x a) r s }"
    and search_here: "cmp x = Some Here \<Longrightarrow> search a (Some x) s = Some (found x)"
begin

lemma search_store_found:
  assumes "distinct (inorder (plug k t))" "\<forall>x \<in> addrs t. cmp x = Some (dir x)" "guides dir (inorder t)"
    and "\<exists>x \<in> addrs t. dir x = Here"
  shows "\<exists>x \<in> addrs t. dir x = Here \<and> search a (root_of t) (store (plug k t) h) = Some (found x)"
  using assms
proof (induction t arbitrary: k a)
  case (Node c l x r)
  have at: "rb_left (Some x) (store (plug k (Node c l x r)) h) = Some (root_of l)"
    "rb_right (Some x) (store (plug k (Node c l x r)) h) = Some (root_of r)"
    using Node.prems(1) by (simp_all add: rb_at cells_at)
  show ?case
  proof (cases "dir x")
    case Go_left
    then have "\<exists>x \<in> addrs l. dir x = Here"
      using Node.prems by (auto simp: guides_def sorted_wrt_append)
    then show ?thesis
      using Node.IH(1) [of "InL c x r # k" "upd_l x a"] Node.prems Go_left at
      by (auto simp: guides_def sorted_wrt_append search_left)
  next
    case Here
    then show ?thesis using Node.prems by (auto simp: search_here)
  next
    case Go_right
    then have "\<exists>x \<in> addrs r. dir x = Here"
      using Node.prems by (auto simp: guides_def sorted_wrt_append)
    then show ?thesis
      using Node.IH(2) [of "InR c l x # k" "upd_r x a"] Node.prems Go_right at
      by (auto simp: guides_def sorted_wrt_append search_right)
  qed
qed simp

lemma search_store_link:
  assumes "distinct (inorder (plug k t))" "\<forall>x \<in> addrs t. cmp x = Some (dir x)" "guides dir (inorder t)"
    and "\<forall>x \<in> addrs t. dir x \<noteq> Here"
  shows "\<exists>k'. t = plug k' Leaf \<and> frame_order_l k' = before dir (inorder t) \<and>
    frame_order_r k' = behind dir (inorder t) \<and>
    search a (root_of t) (store (plug k t) h) = Some (finish (trail upd_l upd_r k' a))"
  using assms
proof (induction t arbitrary: k a)
  case Leaf
  show ?case by (intro exI [of _ "[]"]) (simp add: search_null)
next
  case (Node c l x r)
  have at: "rb_left (Some x) (store (plug k (Node c l x r)) h) = Some (root_of l)"
    "rb_right (Some x) (store (plug k (Node c l x r)) h) = Some (root_of r)"
    using Node.prems(1) by (simp_all add: rb_at cells_at)
  show ?case
  proof (cases "dir x")
    case Go_left
    have sub: "distinct (inorder (plug (InL c x r # k) l))" "\<forall>x \<in> addrs l. cmp x = Some (dir x)"
      "guides dir (inorder l)" "\<forall>x \<in> addrs l. dir x \<noteq> Here"
      using Node.prems by (auto simp: guides_def sorted_wrt_append)
    then obtain k' where t: "l = plug k' Leaf" and order: "frame_order_l k' = before dir (inorder l)"
      "frame_order_r k' = behind dir (inorder l)"
      and search: "search (upd_l x a) (root_of l) (store (plug (InL c x r # k) l) h) =
         Some (finish (trail upd_l upd_r k' (upd_l x a)))"
      using Node.IH(1) [of "InL c x r # k" "upd_l x a"] sub by blast
    have "\<forall>y \<in> addrs r. dir y = Go_left"
      using Node.prems Go_left by (auto simp: guides_def sorted_wrt_append)
    then have rest: "before dir (inorder r) = []" "behind dir (inorder r) = inorder r"
      by (auto simp: filter_empty_conv filter_id_conv)
    have "cmp x = Some Go_left" using Node.prems Go_left by simp
    then show ?thesis using Go_left at search
      by (intro exI [of _ "k' @ [InL c x r]"] conjI)
        (simp add: plug_append t [symmetric], simp_all add: order rest trail_append search_left)
  next
    case Here
    then show ?thesis using Node.prems by auto
  next
    case Go_right
    have sub: "distinct (inorder (plug (InR c l x # k) r))" "\<forall>x \<in> addrs r. cmp x = Some (dir x)"
      "guides dir (inorder r)" "\<forall>x \<in> addrs r. dir x \<noteq> Here"
      using Node.prems by (auto simp: guides_def sorted_wrt_append)
    then obtain k' where t: "r = plug k' Leaf" and order: "frame_order_l k' = before dir (inorder r)"
      "frame_order_r k' = behind dir (inorder r)"
      and search: "search (upd_r x a) (root_of r) (store (plug (InR c l x # k) r) h) =
         Some (finish (trail upd_l upd_r k' (upd_r x a)))"
      using Node.IH(2) [of "InR c l x # k" "upd_r x a"] sub by blast
    have "\<forall>y \<in> addrs l. dir y = Go_right"
      using Node.prems Go_right by (auto simp: guides_def sorted_wrt_append)
    then have rest: "before dir (inorder l) = inorder l" "behind dir (inorder l) = []"
      by (auto simp: filter_empty_conv filter_id_conv)
    have "cmp x = Some Go_right" using Node.prems Go_right by simp
    then show ?thesis using Go_right at search
      by (intro exI [of _ "k' @ [InR c l x]"] conjI)
        (simp add: plug_append t [symmetric], simp_all add: order rest trail_append search_right)
  qed
qed

lemma search_found:
  assumes "rb_seq xs s" "\<forall>x \<in> set xs. cmp x = Some (dir x)" "guides dir xs" "x \<in> set xs" "dir x = Here"
  shows "\<exists>x \<in> set xs. dir x = Here \<and> search a (root s) s = Some (found x)"
proof -
  obtain t h where "s = store t h" "is_rbt t" "inorder t = xs" using assms by (auto simp: rb_seq_def)
  then show ?thesis using search_store_found [of "[]" t dir a h] assms(2-) by (auto simp: is_rbt_def)
qed

lemma search_link:
  assumes "rb_seq xs s" "\<forall>x \<in> set xs. cmp x = Some (dir x)" "guides dir xs" "\<forall>x \<in> set xs. dir x \<noteq> Here"
  obtains k h where "s = store (plug k Leaf) h" "is_rbt (plug k Leaf)"
    "frame_order_l k = before dir xs" "frame_order_r k = behind dir xs"
    "search a (root s) s = Some (finish (trail upd_l upd_r k a))"
proof -
  obtain t h where s: "s = store t h" "is_rbt t" "inorder t = xs" using assms by (auto simp: rb_seq_def)
  then obtain k where "t = plug k Leaf" "frame_order_l k = before dir xs" "frame_order_r k = behind dir xs"
      "search a (root s) s = Some (finish (trail upd_l upd_r k a))"
    using search_store_link [of "[]" t dir a h] assms(2-) by (auto simp: is_rbt_def)
  with s that show thesis by blast
qed

end

text \<open>Linking at the place found and rebalancing.\<close>

fun in_left :: "'p frame list \<Rightarrow> bool" where
  "in_left (InL c x r # k) = True"
| "in_left _ = False"

lemma rb_insert_at:
  assumes "is_rbt (plug k Leaf)" "x \<notin> addrs (plug k Leaf)" "h x \<noteq> None" "s = store (plug k Leaf) h"
    and "k \<noteq> [] \<Longrightarrow> went_left = in_left k"
  shows "\<exists>s'. do { s \<leftarrow> rb_link_node (Some x) (above k) went_left s; rb_insert_color (Some x) s } = Some s' \<and>
    rb_seq (frame_order_l k @ x # frame_order_r k) s' \<and> same_outside (insert x (addrs (plug k Leaf))) s s'"
proof -
  obtain t where t: "rb_insert_color (Some x) (store (plug k (Node RB_RED Leaf x Leaf)) h) = Some (store t h)"
    "is_rbt t" "inorder t = frame_order_l k @ x # frame_order_r k"
    using insert_color_ok [OF assms(1,2)] by blast
  have "rb_link_node (Some x) (above k) went_left s = Some (store (plug k (Node RB_RED Leaf x Leaf)) h)"
    using assms by (auto intro!: link_node_store simp: is_rbt_def)
  moreover have "same_outside (insert x (addrs (plug k Leaf))) s (store t h)"
    using assms(3,4) t(3) by (auto simp: same_outside_def dom_store nodes_store_out)
  ultimately show ?thesis using t rb_seqI by fastforce
qed

section \<open>Depth\<close>

fun depth :: "'p rbt \<Rightarrow> nat" where
  "depth Leaf = 0"
| "depth (Node c l x r) = Suc (max (depth l) (depth r))"

lemma depth_bh: "same_bh t \<Longrightarrow> no_red_red t \<Longrightarrow> depth t \<le> 2 * bh t + (if col t = RB_RED then 1 else 0)"
  by (induction t) (auto split: if_splits)

lemma bh_size: "same_bh t \<Longrightarrow> 2 ^ bh t \<le> Suc (length (inorder t))"
  by (induction t) auto

lemma is_rbt_depth:
  assumes "is_rbt t" shows "2 ^ ((depth t + 1) div 2) \<le> Suc (length (inorder t))"
proof -
  have "(depth t + 1) div 2 \<le> bh t" using depth_bh [of t] assms by (simp add: is_rbt_def)
  then have "(2::nat) ^ ((depth t + 1) div 2) \<le> 2 ^ bh t" by simp
  also have "\<dots> \<le> Suc (length (inorder t))" using bh_size [of t] assms by (simp add: is_rbt_def)
  finally show ?thesis .
qed

end
