(* ===== verification/Rbtree_Props.thy ===== *)
theory Rbtree_Props
  imports Rbtree_Walk
begin

text \<open>
  The properties of the red-black tree: rebalancing after an insertion and after a removal, and the
  in-order enumeration.
\<close>

section \<open>A concrete tree\<close>

text \<open>A red-black tree with the nodes 10, 20, ..., 60 in the cells of the same number, and a memory in
  which the cells up to 99 exist.\<close>

definition sample_tree :: "nat rbt" where
  "sample_tree = Node RB_BLACK
     (Node RB_BLACK Leaf 10 (Node RB_RED Leaf 20 Leaf)) 30
     (Node RB_BLACK (Node RB_RED Leaf 40 Leaf) 50 (Node RB_RED Leaf 60 Leaf))"

definition sample_heap :: "nat \<rightharpoonup> nat rb_node" where
  "sample_heap a = (if a < 100 then Some \<lparr>parent = NULL, left = NULL, right = NULL, color = RB_RED\<rparr> else None)"

lemma sample_rbt: "is_rbt sample_tree" "inorder sample_tree = [10, 20, 30, 40, 50, 60]"
  by (simp_all add: sample_tree_def is_rbt_def)

section \<open>Properties\<close>

text \<open>C1: attaching a fresh node as a red leaf at any place of a red-black tree and running
  \<open>rb_insert_color\<close> terminates without touching a bad pointer, in a red-black tree (equal black heights,
  no red node with a red child, a black root, consistent parent pointers) in which the node stands at
  that place of the in-order sequence; no cell outside the tree changes and the depth of the tree is
  logarithmic.\<close>

theorem rb_insert_correct:
  assumes "is_rbt (plug k Leaf)" "x \<notin> set (inorder (plug k Leaf))" "h x \<noteq> None"
  shows "\<exists>t. do { s \<leftarrow> rb_link_node (Some x) (above k) (in_left k) (store (plug k Leaf) h);
                 rb_insert_color (Some x) s } = Some (store t h) \<and>
     is_rbt t \<and> inorder t = frame_order_l k @ x # frame_order_r k \<and>
     2 ^ ((depth t + 1) div 2) \<le> length (inorder (plug k Leaf)) + 2"
proof -
  obtain t where t: "rb_insert_color (Some x) (store (plug k (Node RB_RED Leaf x Leaf)) h) = Some (store t h)"
    "is_rbt t" "inorder t = frame_order_l k @ x # frame_order_r k"
    using insert_color_ok [OF assms(1,2)] by blast
  have "rb_link_node (Some x) (above k) (in_left k) (store (plug k Leaf) h) =
      Some (store (plug k (Node RB_RED Leaf x Leaf)) h)"
    using assms by (auto intro!: link_node_store simp: is_rbt_def)
  then show ?thesis using t is_rbt_depth [OF t(2)] by auto
qed

theorem rb_insert_correct_witness:
  "\<exists>t. do { s \<leftarrow> rb_link_node (Some 45) (Some 40) False (store sample_tree sample_heap);
            rb_insert_color (Some 45) s } = Some (store t sample_heap) \<and>
     is_rbt t \<and> inorder t = [10, 20, 30, 40, 45, 50, 60]"
proof -
  let ?k = "[InR RB_RED Leaf 40, InL RB_BLACK 50 (Node RB_RED Leaf 60 Leaf),
      InR RB_BLACK (Node RB_BLACK Leaf 10 (Node RB_RED Leaf 20 Leaf)) (30 :: nat)]"
  have "plug ?k Leaf = sample_tree" by (simp add: sample_tree_def)
  then show ?thesis
    using rb_insert_correct [of ?k 45 sample_heap] sample_rbt by (auto simp: sample_heap_def)
qed

text \<open>C2: \<open>rb_erase\<close> of any node of a red-black tree terminates without touching a bad pointer,
  in a red-black tree whose in-order sequence is the old one without that node; besides the tree only
  the erased node's own cell may change.\<close>

theorem rb_erase_correct:
  assumes "is_rbt t" "x \<in> set (inorder t)"
  shows "\<exists>t' n. rb_erase (Some x) (store t h) = Some (store t' (h(x \<mapsto> n))) \<and>
    is_rbt t' \<and> inorder t' = remove1 x (inorder t) \<and>
    2 ^ ((depth t' + 1) div 2) \<le> length (inorder t)"
proof -
  obtain t' n where t': "rb_erase (Some x) (store t h) = Some (store t' (h(x \<mapsto> n)))"
    "is_rbt t'" "inorder t' = remove1 x (inorder t)"
    using rb_erase_store [OF assms] by blast
  have "Suc (length (inorder t')) = length (inorder t)"
    using t'(3) assms(2) length_pos_if_in_set [OF assms(2)] by (simp add: length_remove1)
  then show ?thesis using t' is_rbt_depth [OF t'(2)] by auto
qed

theorem rb_erase_correct_witness:
  "\<exists>t' n. rb_erase (Some 30) (store sample_tree sample_heap) = Some (store t' (sample_heap(30 \<mapsto> n))) \<and>
    is_rbt t' \<and> inorder t' = [10, 20, 40, 50, 60]"
  using rb_erase_correct [of sample_tree 30 sample_heap] sample_rbt by auto

text \<open>In a memory that holds a red-black tree with the in-order sequence \<open>xs\<close>, \<open>rb_first\<close> returns the
  first element (\<open>NULL\<close> for the empty tree), and \<open>rb_next\<close> of the element at every position returns the
  element at the next one, or \<open>NULL\<close> after the last.\<close>

theorem rb_walk_enumerates:
  assumes "rb_seq xs s"
  shows "rb_first s = Some (if xs = [] then NULL else Some (xs ! 0)) \<and>
    (\<forall>i < length xs. rb_next (Some (xs ! i)) s =
       Some (if Suc i < length xs then Some (xs ! Suc i) else NULL))"
proof -
  have "rb_next (Some (xs ! i)) s = Some (if Suc i < length xs then Some (xs ! Suc i) else NULL)"
    if i: "i < length xs" for i
  proof -
    have "xs = take i xs @ xs ! i # drop (Suc i) xs" using i by (rule id_take_nth_drop)
    then have "rb_seq (take i xs @ xs ! i # drop (Suc i) xs) s" using assms by simp
    from rb_next_seq [OF this] show ?thesis
      by (auto split: list.splits simp: Cons_nth_drop_Suc [symmetric])
  qed
  then show ?thesis using rb_first_seq [OF assms] by (simp add: hd_conv_nth)
qed

theorem rb_walk_enumerates_witness:
  "rb_next (Some 20) (store sample_tree sample_heap) = Some (Some 30)"
  using rb_walk_enumerates [OF rb_seqI [OF sample_rbt], of sample_heap]
  by (auto dest: spec [of _ 1])

end
