(* ===== verification/Process.thy ===== *)
theory Process
  imports Kernel_Prelude
begin

text \<open>
  The process structures of src/kernel.h that both schedulers share: the states, the saved registers
  and the process control block.  The trap frame of a process lies at the top of its own stack; the
  pointer \<open>trap_frame\<close> is the slot whose stack it points into, and \<open>frame\<close> is what that region holds.
\<close>

datatype proc_state = PROC_UNUSED | PROC_READY | PROC_RUNNING | PROC_BLOCKED

datatype reg = RA | GP | TP | T0 | T1 | T2 | T3 | T4 | T5 | T6
  | A0 | A1 | A2 | A3 | A4 | A5 | A6 | A7
  | S0 | S1 | S2 | S3 | S4 | S5 | S6 | S7 | S8 | S9 | S10 | S11 | SP

type_synonym trap_frame = "reg \<Rightarrow> u32"

record process =
  pid :: int
  state :: proc_state
  sp :: u32
  page_table :: "u32 ptr"
  trap_frame :: "nat ptr"
  frame :: trap_frame

abbreviation (input) "MAX_PROCESSES \<equiv> (8 :: nat)"
abbreviation (input) "STACK_SIZE \<equiv> (8192 :: u32)"
abbreviation (input) "sizeof_trap_frame \<equiv> (124 :: u32)"

text \<open>The common part of \<open>create_process\<close> (src/kernel.c:78) and \<open>cfs_create_process\<close> (src/cfs.c:286):
  the slot becomes ready, with a cleared trap frame at the top of its stack that resumes at the entry
  point.  The stack address \<open>stk\<close> of the slot is chosen by the linker.\<close>

definition setup_process :: "nat \<Rightarrow> u32 \<Rightarrow> u32 \<Rightarrow> process \<Rightarrow> process" where
  "setup_process i stk entry_point p =
     (let p = p\<lparr>state := PROC_READY, sp := stk + (STACK_SIZE - sizeof_trap_frame), trap_frame := Some i\<rparr>;
          f = (\<lambda>r. 0 :: u32);
          f = f(RA := entry_point);
          f = f(SP := stk + (STACK_SIZE - 8))
      in p\<lparr>frame := f\<rparr>)"

end
