(* ===== verification/Cfs.thy ===== *)
theory Cfs
  imports Process Rbtree_Walk
begin

text \<open>
  The completely fair scheduler of src/cfs.c and src/cfs.h.  The process array has eight slots and
  the run-queue node of slot \<open>i\<close> has address \<open>i\<close>, so \<open>rb_entry\<close> is the identity; the memory \<open>tree\<close> holds
  the \<open>run_node\<close> fields and the root \<open>tasks_timeline\<close>.  The messages that the functions print are not
  modelled.
\<close>

section \<open>State\<close>

record sched_entity =
  vruntime :: u64
  exec_start :: u64
  sum_exec_runtime :: u64
  weight :: u32
  on_rq :: bool

record cfs_process =
  base :: process
  se :: sched_entity
  nice :: int

record cfs =
  tree :: "nat rb_mem"
  rb_leftmost :: "nat ptr"
  min_vruntime :: u64
  nr_running :: u32
  total_weight :: u64
  cfs_current :: "nat ptr"
  cfs_processes :: "nat \<rightharpoonup> cfs_process"
  counter :: u64

abbreviation (input) "NICE_0_LOAD \<equiv> (1024 :: 'a::len word)"
abbreviation (input) "MIN_GRANULARITY \<equiv> (1000000 :: u64)"

definition proc_at :: "nat ptr \<Rightarrow> cfs \<Rightarrow> cfs_process option" where
  "proc_at p s = fetch (cfs_processes s) p"

definition upd_proc :: "nat ptr \<Rightarrow> (cfs_process \<Rightarrow> cfs_process) \<Rightarrow> cfs \<Rightarrow> cfs option" where
  "upd_proc p f s = do { ps \<leftarrow> modify p f (cfs_processes s); Some (s\<lparr>cfs_processes := ps\<rparr>) }"

definition upd_se :: "nat ptr \<Rightarrow> (sched_entity \<Rightarrow> sched_entity) \<Rightarrow> cfs \<Rightarrow> cfs option" where
  "upd_se p f = upd_proc p (se_update f)"

definition upd_base :: "nat ptr \<Rightarrow> (process \<Rightarrow> process) \<Rightarrow> cfs \<Rightarrow> cfs option" where
  "upd_base p f = upd_proc p (base_update f)"

section \<open>Weights and time\<close>

definition prio_to_weight :: "u32 list" where
  "prio_to_weight =
    [88761, 71755, 56483, 46273, 36291,
     29154, 23254, 18705, 14949, 11916,
     9548, 7620, 6100, 4904, 3906,
     3121, 2501, 1991, 1586, 1277,
     1024, 820, 655, 526, 423,
     335, 272, 215, 172, 137,
     110, 87, 70, 56, 45,
     36, 29, 23, 18, 15]"

definition get_time_ns :: "cfs \<Rightarrow> u64 \<times> cfs" where
  "get_time_ns s = (let s = s\<lparr>counter := counter s + 1000000\<rparr> in (counter s, s))"

definition nice_to_weight :: "int \<Rightarrow> u32" where
  "nice_to_weight n =
     (let n = (if n < - 20 then - 20 else n);
          n = (if n > 19 then 19 else n)
      in prio_to_weight ! nat (n + 20))"

definition calc_delta_fair :: "u64 \<Rightarrow> sched_entity \<Rightarrow> u64 option" where
  "calc_delta_fair delta e =
     (if weight e \<noteq> NICE_0_LOAD \<and> delta < 0xFFFFFFFF then
        (let delta32 = ucast delta :: u32 in
         if weight e = 0 then None
         else Some (ucast ((delta32 * NICE_0_LOAD) div weight e)))
      else Some delta)"

definition update_min_vruntime :: "cfs \<Rightarrow> cfs option" where
  "update_min_vruntime s = do {
     v \<leftarrow> (if cfs_current s \<noteq> NULL then do {
             c \<leftarrow> proc_at (cfs_current s) s; Some (vruntime (se c)) }
           else Some (min_vruntime s));
     v \<leftarrow> (if rb_leftmost s \<noteq> NULL then do {
             e \<leftarrow> proc_at (rb_leftmost s) s;
             Some (if cfs_current s = NULL then vruntime (se e)
                   else if v < vruntime (se e) then v else vruntime (se e)) }
           else Some v);
     Some (s\<lparr>min_vruntime := (if v > min_vruntime s then v else min_vruntime s)\<rparr>) }"

section \<open>Initialisation\<close>

definition clear_run_node :: "nat ptr \<Rightarrow> cfs \<Rightarrow> cfs option" where
  "clear_run_node p s = do { m \<leftarrow> RB_CLEAR_NODE p (tree s); Some (s\<lparr>tree := m\<rparr>) }"

primrec cfs_init_slots :: "nat list \<Rightarrow> cfs \<Rightarrow> cfs option" where
  "cfs_init_slots [] s = Some s"
| "cfs_init_slots (i # is) s = do {
     s \<leftarrow> upd_base (Some i) (\<lambda>b. b\<lparr>pid := int i, state := PROC_UNUSED\<rparr>) s;
     s \<leftarrow> upd_se (Some i) (\<lambda>e. e\<lparr>vruntime := 0, on_rq := False\<rparr>) s;
     s \<leftarrow> upd_proc (Some i) (\<lambda>p. p\<lparr>nice := 0\<rparr>) s;
     s \<leftarrow> clear_run_node (Some i) s;
     cfs_init_slots is s }"

definition cfs_init :: "cfs \<Rightarrow> cfs option" where
  "cfs_init s = cfs_init_slots [0..<MAX_PROCESSES]
     (s\<lparr>tree := (tree s)\<lparr>root := RB_ROOT\<rparr>, rb_leftmost := NULL, min_vruntime := 0,
        nr_running := 0, total_weight := 0, cfs_current := NULL\<rparr>)"

section \<open>The run queue\<close>

text \<open>The search loop of \<open>cfs_enqueue_task\<close>: the accumulator is \<open>parent\<close>, the side of \<open>link\<close> and the
  flag \<open>leftmost\<close>; the third argument is \<open>*link\<close>.\<close>

partial_function (option) cfs_find_link ::
  "(nat \<rightharpoonup> cfs_process) \<Rightarrow> u64 \<Rightarrow> nat ptr \<times> bool \<times> bool \<Rightarrow> nat ptr \<Rightarrow> nat rb_mem \<Rightarrow>
   (nat ptr \<times> bool \<times> bool) option" where
  "cfs_find_link ps v acc link m =
     (if link = NULL then Some acc
      else do {
        let parentp = link;
        entry \<leftarrow> fetch ps parentp;
        if v < vruntime (se entry) then do {
          l \<leftarrow> rb_left parentp m;
          cfs_find_link ps v (parentp, True, snd (snd acc)) l m }
        else do {
          r \<leftarrow> rb_right parentp m;
          cfs_find_link ps v (parentp, False, False) r m } })"

declare cfs_find_link.simps [code]

definition cfs_enqueue_task :: "nat ptr \<Rightarrow> cfs \<Rightarrow> cfs option" where
  "cfs_enqueue_task p s = do {
     proc \<leftarrow> proc_at p s;
     if on_rq (se proc) then Some s
     else do {
       (parentp, went_left, leftmost) \<leftarrow>
         cfs_find_link (cfs_processes s) (vruntime (se proc)) (NULL, False, True) (root (tree s)) (tree s);
       let s = (if leftmost then s\<lparr>rb_leftmost := p\<rparr> else s);
       m \<leftarrow> rb_link_node p parentp went_left (tree s);
       m \<leftarrow> rb_insert_color p m;
       let s = s\<lparr>tree := m\<rparr>;
       s \<leftarrow> upd_se p (\<lambda>e. e\<lparr>on_rq := True\<rparr>) s;
       let s = s\<lparr>nr_running := nr_running s + 1\<rparr>;
       let s = s\<lparr>total_weight := total_weight s + ucast (weight (se proc))\<rparr>;
       upd_base p (\<lambda>b. b\<lparr>state := PROC_READY\<rparr>) s } }"

definition cfs_dequeue_task :: "nat ptr \<Rightarrow> cfs \<Rightarrow> cfs option" where
  "cfs_dequeue_task p s = do {
     proc \<leftarrow> proc_at p s;
     if \<not> on_rq (se proc) then Some s
     else do {
       s \<leftarrow> (if rb_leftmost s = p then do {
               n \<leftarrow> rb_next p (tree s); Some (s\<lparr>rb_leftmost := n\<rparr>) }
             else Some s);
       m \<leftarrow> rb_erase p (tree s);
       let s = s\<lparr>tree := m\<rparr>;
       s \<leftarrow> clear_run_node p s;
       s \<leftarrow> upd_se p (\<lambda>e. e\<lparr>on_rq := False\<rparr>) s;
       let s = s\<lparr>nr_running := nr_running s - 1\<rparr>;
       let s = s\<lparr>total_weight := total_weight s - ucast (weight (se proc))\<rparr>;
       update_min_vruntime s } }"

definition cfs_pick_next_task :: "cfs \<Rightarrow> nat ptr" where
  "cfs_pick_next_task s = (if rb_leftmost s = NULL then NULL else rb_leftmost s)"

section \<open>Accounting and the tick\<close>

definition cfs_update_curr :: "nat ptr \<Rightarrow> cfs \<Rightarrow> cfs option" where
  "cfs_update_curr cur s = do {
     let (now, s) = get_time_ns s;
     c \<leftarrow> proc_at cur s;
     if exec_start (se c) = 0 then upd_se cur (\<lambda>e. e\<lparr>exec_start := now\<rparr>) s
     else do {
       let delta_exec = now - exec_start (se c);
       s \<leftarrow> upd_se cur (\<lambda>e. e\<lparr>exec_start := now, sum_exec_runtime := sum_exec_runtime e + delta_exec\<rparr>) s;
       d \<leftarrow> calc_delta_fair delta_exec (se c);
       s \<leftarrow> upd_se cur (\<lambda>e. e\<lparr>vruntime := vruntime e + d\<rparr>) s;
       update_min_vruntime s } }"

definition cfs_check_preempt_curr :: "cfs_process \<Rightarrow> cfs_process \<Rightarrow> bool" where
  "cfs_check_preempt_curr cur new =
     (let gran = MIN_GRANULARITY; vdiff = vruntime (se cur) - vruntime (se new) in vdiff > gran)"

text \<open>The statements with which both branches of the tick start the chosen task.\<close>

definition cfs_run_task :: "nat ptr \<Rightarrow> cfs \<Rightarrow> cfs option" where
  "cfs_run_task nxt s = do {
     s \<leftarrow> cfs_dequeue_task nxt s;
     s \<leftarrow> upd_base nxt (\<lambda>b. b\<lparr>state := PROC_RUNNING\<rparr>) s;
     let (now, s) = get_time_ns s;
     s \<leftarrow> upd_se nxt (\<lambda>e. e\<lparr>exec_start := now\<rparr>) s;
     Some (s\<lparr>cfs_current := nxt\<rparr>) }"

definition cfs_scheduler_tick :: "cfs \<Rightarrow> cfs option" where
  "cfs_scheduler_tick s = (
     let cur = cfs_current s in
     if cur = NULL then
       (let nxt = cfs_pick_next_task s in if nxt \<noteq> NULL then cfs_run_task nxt s else Some s)
     else do {
       s \<leftarrow> cfs_update_curr cur s;
       let nxt = cfs_pick_next_task s;
       if nxt = NULL then Some s
       else do {
         c \<leftarrow> proc_at cur s;
         n \<leftarrow> proc_at nxt s;
         if cfs_check_preempt_curr c n then do {
           s \<leftarrow> upd_base cur (\<lambda>b. b\<lparr>state := PROC_READY\<rparr>) s;
           s \<leftarrow> upd_se cur (\<lambda>e. e\<lparr>exec_start := 0\<rparr>) s;
           s \<leftarrow> cfs_enqueue_task cur s;
           cfs_run_task nxt s }
         else Some s } })"

section \<open>Creation\<close>

primrec cfs_free_slot :: "nat list \<Rightarrow> cfs \<Rightarrow> nat ptr option" where
  "cfs_free_slot [] s = Some NULL"
| "cfs_free_slot (i # is) s = do {
     p \<leftarrow> proc_at (Some i) s;
     if state (base p) = PROC_UNUSED then Some (Some i) else cfs_free_slot is s }"

definition cfs_create_process :: "(nat \<Rightarrow> u32) \<Rightarrow> u32 \<Rightarrow> int \<Rightarrow> cfs \<Rightarrow> (nat ptr \<times> cfs) option" where
  "cfs_create_process stack_addr entry_point n s = do {
     proc \<leftarrow> cfs_free_slot [0..<MAX_PROCESSES] s;
     case proc of None \<Rightarrow> Some (NULL, s)
     | Some i \<Rightarrow> do {
         s \<leftarrow> upd_base proc (setup_process i (stack_addr i) entry_point) s;
         s \<leftarrow> upd_proc proc (\<lambda>p. p\<lparr>nice := n\<rparr>) s;
         s \<leftarrow> upd_se proc (\<lambda>e. e\<lparr>weight := nice_to_weight n, vruntime := min_vruntime s,
                exec_start := 0, sum_exec_runtime := 0, on_rq := False\<rparr>) s;
         s \<leftarrow> clear_run_node proc s;
         s \<leftarrow> cfs_enqueue_task proc s;
         Some (proc, s) } }"

end
