(* ===== verification/Cfs_Inv.thy ===== *)
theory Cfs_Inv
  imports Cfs
begin

text \<open>
  The run-queue invariant of the CFS scheduler (the tree holds exactly the queued tasks in the order
  of their virtual runtime, and the cached leftmost pointer and counters agree with it) and what
  \<open>cfs_enqueue_task\<close> and \<open>cfs_dequeue_task\<close> make of it.
\<close>

section \<open>The run-queue invariant\<close>

definition ent :: "cfs \<Rightarrow> nat \<Rightarrow> sched_entity" where
  "ent s i = se (the (cfs_processes s i))"

abbreviation vrt :: "cfs \<Rightarrow> nat \<Rightarrow> u64" where
  "vrt s i \<equiv> vruntime (ent s i)"

definition rq_inv :: "nat list \<Rightarrow> cfs \<Rightarrow> bool" where
  "rq_inv xs s \<longleftrightarrow> rb_seq xs (tree s) \<and> dom (nodes (tree s)) = {..<MAX_PROCESSES} \<and>
     dom (cfs_processes s) = {..<MAX_PROCESSES} \<and>
     set xs = {i. i < MAX_PROCESSES \<and> on_rq (ent s i)} \<and>
     sorted_wrt (\<lambda>i j. vrt s i \<le> vrt s j) xs \<and>
     rb_leftmost s = (if xs = [] then NULL else Some (hd xs)) \<and>
     nr_running s = of_nat (length xs) \<and>
     total_weight s = (\<Sum>i\<leftarrow>xs. ucast (weight (ent s i)))"

lemma rq_inv_proc: "rq_inv xs s \<Longrightarrow> i < MAX_PROCESSES \<Longrightarrow> \<exists>p. cfs_processes s i = Some p"
  unfolding rq_inv_def by (metis domD lessThan_iff)

lemma upd_simps [simp]:
  "cfs_processes s i = Some p \<Longrightarrow> upd_proc (Some i) f s = Some (s\<lparr>cfs_processes := (cfs_processes s)(i \<mapsto> f p)\<rparr>)"
  "cfs_processes s i = Some p \<Longrightarrow> upd_se (Some i) g s = Some (s\<lparr>cfs_processes := (cfs_processes s)(i \<mapsto> se_update g p)\<rparr>)"
  "cfs_processes s i = Some p \<Longrightarrow> upd_base (Some i) b s = Some (s\<lparr>cfs_processes := (cfs_processes s)(i \<mapsto> base_update b p)\<rparr>)"
  "proc_at (Some i) s = cfs_processes s i"
  by (simp_all add: upd_proc_def upd_se_def upd_base_def proc_at_def)

section \<open>Enqueueing\<close>

interpretation enq: link_search "cfs_find_link ps v"
  "\<lambda>x. map_option (\<lambda>e. if v < vruntime (se e) then Go_left else Go_right) (ps x)"
  "\<lambda>x a. (Some x, True, snd (snd a))" "\<lambda>x a. (Some x, False, False)" "\<lambda>a. a" "\<lambda>x. (None, False, False)"
  for ps v
proof unfold_locales
  show "cfs_find_link ps v a None m = Some a" for a m
    by (subst cfs_find_link.simps) simp
qed (subst cfs_find_link.simps; auto simp: Let_def split: if_splits)+

lemma enq_trail:
  "trail (\<lambda>x a. (Some x, True, snd (snd a))) (\<lambda>x a. (Some x, False, False)) k (None, False, True) =
     (above k, in_left k, frame_order_l k = [])"
  by (induction k rule: frame_order_l.induct) auto

definition rank_in :: "cfs \<Rightarrow> nat \<Rightarrow> nat list \<Rightarrow> nat list" where
  "rank_in s i xs = filter (\<lambda>j. vrt s j \<le> vrt s i) xs @ i # filter (\<lambda>j. \<not> vrt s j \<le> vrt s i) xs"

lemma enqueue_link:
  assumes inv: "rq_inv xs s" and i: "i < MAX_PROCESSES" "i \<notin> set xs" "cfs_processes s i = Some p"
  shows "\<exists>parentp wl m. cfs_find_link (cfs_processes s) (vruntime (se p)) (None, False, True) (root (tree s)) (tree s) =
      Some (parentp, wl, filter (\<lambda>j. vrt s j \<le> vrt s i) xs = []) \<and>
    do { m \<leftarrow> rb_link_node (Some i) parentp wl (tree s); rb_insert_color (Some i) m } = Some m \<and>
    rb_seq (rank_in s i xs) m \<and> dom (nodes m) = dom (nodes (tree s))"
proof -
  let ?dir = "\<lambda>j. if vrt s i < vrt s j then Go_left else Go_right"
  have v: "vruntime (se p) = vrt s i" using i by (simp add: ent_def)
  have cmp: "\<forall>x \<in> set xs. map_option (\<lambda>e. if vrt s i < vruntime (se e) then Go_left else Go_right)
      (cfs_processes s x) = Some (?dir x)"
    using inv rq_inv_proc [OF inv] by (fastforce simp: ent_def rq_inv_def)
  have guides: "guides ?dir xs"
    using inv unfolding rq_inv_def guides_def by (auto elim!: sorted_wrt_mono_rel [rotated] split: if_splits)
  have seq: "rb_seq xs (tree s)" using inv by (simp add: rq_inv_def)
  have ne: "\<forall>x \<in> set xs. ?dir x \<noteq> Here" by simp
  obtain k h where k: "tree s = store (plug k Leaf) h" "is_rbt (plug k Leaf)"
    "frame_order_l k = before ?dir xs" "frame_order_r k = behind ?dir xs"
    "cfs_find_link (cfs_processes s) (vrt s i) (None, False, True) (root (tree s)) (tree s) =
      Some (above k, in_left k, frame_order_l k = [])"
    by (rule enq.search_link [OF seq cmp guides ne, of "(None, False, True)", unfolded enq_trail])
  have filters: "before ?dir xs = filter (\<lambda>j. vrt s j \<le> vrt s i) xs"
    "behind ?dir xs = filter (\<lambda>j. \<not> vrt s j \<le> vrt s i) xs"
    by (auto simp: not_le intro!: filter_cong)
  have out: "i \<notin> addrs (plug k Leaf)" using k(3,4) i(2) by auto
  moreover have "nodes (tree s) i \<noteq> None" using inv i(1) unfolding rq_inv_def by (metis domIff lessThan_iff)
  then have "h i \<noteq> None" using k(1) nodes_store_out [OF out, of h] by simp
  ultimately obtain m where "do { m \<leftarrow> rb_link_node (Some i) (above k) (in_left k) (tree s); rb_insert_color (Some i) m } = Some m"
    "rb_seq (frame_order_l k @ i # frame_order_r k) m" "same_outside (insert i (addrs (plug k Leaf))) (tree s) m"
    using rb_insert_at [OF k(2) _ _ k(1)] by blast
  then show ?thesis
    using k(3-5) v unfolding filters rank_in_def same_outside_def by auto
qed

definition queued :: "cfs_process \<Rightarrow> cfs_process" where
  "queued p = p\<lparr>base := (base p)\<lparr>state := PROC_READY\<rparr>, se := (se p)\<lparr>on_rq := True\<rparr>\<rparr>"

lemma queued_steps: "base_update (state_update (\<lambda>_. PROC_READY)) (se_update (on_rq_update (\<lambda>_. True)) p) = queued p"
  by (rule cfs_process.equality) (simp_all add: queued_def)

text \<open>What the enqueue leaves behind, as one record update.\<close>

lemma enqueue_exec:
  assumes inv: "rq_inv xs s" and i: "i < MAX_PROCESSES" "i \<notin> set xs" "cfs_processes s i = Some p"
  shows "\<exists>m. cfs_enqueue_task (Some i) s = Some (s\<lparr>tree := m,
      rb_leftmost := (if filter (\<lambda>j. vrt s j \<le> vrt s i) xs = [] then Some i else rb_leftmost s),
      nr_running := nr_running s + 1, total_weight := total_weight s + ucast (weight (se p)),
      cfs_processes := (cfs_processes s)(i \<mapsto> queued p)\<rparr>) \<and>
    rb_seq (rank_in s i xs) m \<and> dom (nodes m) = {..<MAX_PROCESSES}"
proof -
  obtain parentp wl m m' where f: "cfs_find_link (cfs_processes s) (vruntime (se p)) (None, False, True)
      (root (tree s)) (tree s) = Some (parentp, wl, filter (\<lambda>j. vrt s j \<le> vrt s i) xs = [])"
    and m: "rb_link_node (Some i) parentp wl (tree s) = Some m'" "rb_insert_color (Some i) m' = Some m"
      "rb_seq (rank_in s i xs) m" "dom (nodes m) = dom (nodes (tree s))"
    using enqueue_link [OF assms] by (auto simp: bind_eq_Some_conv)
  have "\<not> on_rq (se p)" "dom (nodes m) = {..<MAX_PROCESSES}"
    using inv i m by (auto simp: rq_inv_def ent_def)
  then show ?thesis using f m i
    by (intro exI [of _ m]) (auto simp: cfs_enqueue_task_def Let_def queued_steps intro!: cfs.equality)
qed

lemma rank_in_sorted:
  assumes "sorted_wrt (\<lambda>i j. vrt s i \<le> vrt s j) xs"
  shows "sorted_wrt (\<lambda>i j. vrt s i \<le> vrt s j) (rank_in s i xs)"
  using assms unfolding rank_in_def
  by (auto simp: sorted_wrt_append sorted_wrt_filter intro: order_trans)

lemma enqueue_inv:
  assumes inv: "rq_inv xs s" and i: "i < MAX_PROCESSES" "i \<notin> set xs" "cfs_processes s i = Some p"
    and s': "s' = s\<lparr>tree := m,
      rb_leftmost := (if filter (\<lambda>j. vrt s j \<le> vrt s i) xs = [] then Some i else rb_leftmost s),
      nr_running := nr_running s + 1, total_weight := total_weight s + ucast (weight (se p)),
      cfs_processes := (cfs_processes s)(i \<mapsto> queued p)\<rparr>"
    and m: "rb_seq (rank_in s i xs) m" "dom (nodes m) = {..<MAX_PROCESSES}"
  shows "rq_inv (rank_in s i xs) s'"
proof -
  have ent: "ent s' j = (if j = i then (ent s i)\<lparr>on_rq := True\<rparr> else ent s j)" for j
    using i s' by (simp add: ent_def queued_def)
  have w: "vrt s' j = vrt s j" "weight (ent s' j) = weight (ent s j)" for j by (simp_all add: ent)
  have set: "set (rank_in s i xs) = insert i (set xs)" by (auto simp: rank_in_def)
  have sum: "(\<Sum>j\<leftarrow>rank_in s i xs. f j) = (\<Sum>j\<leftarrow>xs. f j) + f i" for f :: "nat \<Rightarrow> u64"
    using sum_list_filter_split [of f "\<lambda>j. vrt s j \<le> vrt s i" xs] by (simp add: rank_in_def algebra_simps)
  have len: "length (rank_in s i xs) = Suc (length xs)"
    using sum_length_filter_compl [of "\<lambda>j. vrt s j \<le> vrt s i" xs] by (simp add: rank_in_def)
  have hd: "hd (rank_in s i xs) = (if filter (\<lambda>j. vrt s j \<le> vrt s i) xs = [] then i else hd xs)"
  proof (cases xs)
    case (Cons a ys)
    then show ?thesis using inv by (auto simp: rank_in_def rq_inv_def filter_empty_conv intro: order_trans)
  qed (simp add: rank_in_def)
  have fields: "tree s' = m" "nr_running s' = nr_running s + 1"
      "total_weight s' = total_weight s + ucast (weight (ent s i))" "dom (cfs_processes s') = dom (cfs_processes s)"
      "rb_leftmost s' = (if filter (\<lambda>j. vrt s j \<le> vrt s i) xs = [] then Some i else rb_leftmost s)"
    using s' i by (auto simp: ent_def)
  have "rank_in s i xs \<noteq> []" "xs = [] \<Longrightarrow> filter (\<lambda>j. vrt s j \<le> vrt s i) xs = []" by (auto simp: rank_in_def)
  then show ?thesis
    using inv m rank_in_sorted [of s xs i] hd i unfolding rq_inv_def set len w sum fields
    by (auto simp: ent algebra_simps split: if_splits)
qed

section \<open>Dequeueing\<close>

definition cur_in_range :: "cfs \<Rightarrow> bool" where
  "cur_in_range s \<longleftrightarrow> (\<forall>c. cfs_current s = Some c \<longrightarrow> c < MAX_PROCESSES)"

lemma update_min_vruntime_exec:
  assumes "dom (cfs_processes s) = {..<MAX_PROCESSES}" "cur_in_range s"
    and "\<And>j. rb_leftmost s = Some j \<Longrightarrow> j < MAX_PROCESSES"
  shows "\<exists>mv. update_min_vruntime s = Some (s\<lparr>min_vruntime := mv\<rparr>) \<and> min_vruntime s \<le> mv"
proof -
  have "\<exists>p. cfs_processes s j = Some p" if "cfs_current s = Some j \<or> rb_leftmost s = Some j" for j
    using that assms by (auto simp: cur_in_range_def dom_def set_eq_iff)
  then obtain f where f: "cfs_processes s j = Some (f j)" if "cfs_current s = Some j \<or> rb_leftmost s = Some j" for j
    by metis
  have "\<exists>v. update_min_vruntime s = Some (s\<lparr>min_vruntime := (if v > min_vruntime s then v else min_vruntime s)\<rparr>)"
    using f by (cases "cfs_current s"; cases "rb_leftmost s") (auto simp: update_min_vruntime_def proc_at_def)
  then obtain v where v: "update_min_vruntime s = Some (s\<lparr>min_vruntime := (if v > min_vruntime s then v else min_vruntime s)\<rparr>)"
    by blast
  show ?thesis unfolding v by (rule exI, rule conjI, rule refl) auto
qed

lemma next_leftmost:
  assumes "rb_seq xs m" "i \<in> set xs"
  shows "(if hd xs = i then rb_next (Some i) m else Some (Some (hd xs))) =
    Some (if remove1 i xs = [] then None else Some (hd (remove1 i xs)))"
proof (cases xs)
  case (Cons x ys)
  then show ?thesis using assms rb_next_seq [of "[]" x ys m] by (auto split: list.splits)
qed (use assms in simp)

definition unqueued :: "cfs_process \<Rightarrow> cfs_process" where
  "unqueued p = p\<lparr>se := (se p)\<lparr>on_rq := False\<rparr>\<rparr>"

lemma unqueued_steps: "se_update (on_rq_update (\<lambda>_. False)) p = unqueued p"
  by (rule cfs_process.equality) (simp_all add: unqueued_def)

lemma dequeue_exec:
  assumes inv: "rq_inv xs s" and i: "i \<in> set xs" "cfs_processes s i = Some p" and cur: "cur_in_range s"
  shows "\<exists>m mv. cfs_dequeue_task (Some i) s = Some (s\<lparr>tree := m,
      rb_leftmost := (if remove1 i xs = [] then None else Some (hd (remove1 i xs))),
      nr_running := nr_running s - 1, total_weight := total_weight s - ucast (weight (se p)),
      cfs_processes := (cfs_processes s)(i \<mapsto> unqueued p), min_vruntime := mv\<rparr>) \<and>
    rb_seq (remove1 i xs) m \<and> dom (nodes m) = {..<MAX_PROCESSES} \<and> min_vruntime s \<le> mv"
proof -
  let ?lm = "if remove1 i xs = [] then None else Some (hd (remove1 i xs))"
  have seq: "rb_seq xs (tree s)" and D: "distinct xs" and domn: "dom (nodes (tree s)) = {..<MAX_PROCESSES}"
    and lm: "rb_leftmost s = Some (hd xs)" and rng: "set xs \<subseteq> {..<MAX_PROCESSES}" and on: "on_rq (se p)"
    using inv i rb_seq_distinct by (auto simp: rq_inv_def ent_def)
  obtain m1 where m1: "rb_erase (Some i) (tree s) = Some m1" "rb_seq (remove1 i xs) m1" "same_outside (set xs) (tree s) m1"
    using rb_erase_seq [OF seq i(1)] by blast
  obtain m2 where m2: "RB_CLEAR_NODE (Some i) m1 = Some m2" "rb_seq (remove1 i xs) m2" "same_outside {i} m1 m2"
    using rb_clear_seq [OF m1(2), of i] D m1(3) domn rng i by (auto simp: same_outside_def)
  define s1 where "s1 = s\<lparr>tree := m2, rb_leftmost := ?lm, nr_running := nr_running s - 1,
     total_weight := total_weight s - ucast (weight (se p)), cfs_processes := (cfs_processes s)(i \<mapsto> unqueued p)\<rparr>"
  have "cfs_dequeue_task (Some i) s = update_min_vruntime s1"
    using i on m1 m2 lm next_leftmost [OF seq i(1)]
    by (auto simp: cfs_dequeue_task_def clear_run_node_def Let_def unqueued_steps s1_def split: if_splits
        intro!: arg_cong [of _ _ update_min_vruntime] cfs.equality)
  moreover have "\<exists>mv. update_min_vruntime s1 = Some (s1\<lparr>min_vruntime := mv\<rparr>) \<and> min_vruntime s1 \<le> mv"
  proof (rule update_min_vruntime_exec)
    show "dom (cfs_processes s1) = {..<MAX_PROCESSES}" using inv i by (auto simp: s1_def rq_inv_def)
    show "cur_in_range s1" using cur by (simp add: s1_def cur_in_range_def)
    have "hd (remove1 i xs) \<in> set xs" if "remove1 i xs \<noteq> []"
      using that by (metis hd_in_set notin_set_remove1)
    then show "j < MAX_PROCESSES" if "rb_leftmost s1 = Some j" for j
      using that rng by (auto simp: s1_def split: if_splits)
  qed
  moreover have "dom (nodes m2) = {..<MAX_PROCESSES}" using m1 m2 domn by (simp add: same_outside_def)
  ultimately obtain mv where "cfs_dequeue_task (Some i) s = Some (s1\<lparr>min_vruntime := mv\<rparr>)"
    "min_vruntime s1 \<le> mv" "dom (nodes m2) = {..<MAX_PROCESSES}" by auto
  then show ?thesis using m2(2) by (intro exI [of _ m2] exI [of _ mv]) (simp add: s1_def)
qed

lemma dequeue_inv:
  assumes inv: "rq_inv xs s" and i: "i \<in> set xs" "cfs_processes s i = Some p"
    and s': "s' = s\<lparr>tree := m,
      rb_leftmost := (if remove1 i xs = [] then None else Some (hd (remove1 i xs))),
      nr_running := nr_running s - 1, total_weight := total_weight s - ucast (weight (se p)),
      cfs_processes := (cfs_processes s)(i \<mapsto> unqueued p), min_vruntime := mv\<rparr>"
    and m: "rb_seq (remove1 i xs) m" "dom (nodes m) = {..<MAX_PROCESSES}"
  shows "rq_inv (remove1 i xs) s'"
proof -
  have ent: "ent s' j = (if j = i then (ent s i)\<lparr>on_rq := False\<rparr> else ent s j)" for j
    using i s' by (simp add: ent_def unqueued_def)
  have w: "vrt s' j = vrt s j" "weight (ent s' j) = weight (ent s j)" for j by (simp_all add: ent)
  have D: "distinct xs" and "length xs > 0" using inv i rb_seq_distinct by (auto simp: rq_inv_def)
  then have set: "set (remove1 i xs) = set xs - {i}" by simp
  have sum: "(\<Sum>j\<leftarrow>remove1 i xs. f j) = (\<Sum>j\<leftarrow>xs. f j) - f i" for f :: "nat \<Rightarrow> u64"
    using sum_list_map_remove1 [OF i(1), of f] by simp
  have len: "of_nat (length (remove1 i xs)) = (of_nat (length xs) - 1 :: u32)"
  proof -
    have "length xs = Suc (length (remove1 i xs))" using i(1) \<open>length xs > 0\<close> by (simp add: length_remove1)
    then show ?thesis by simp
  qed
  have fields: "tree s' = m" "nr_running s' = nr_running s - 1"
      "total_weight s' = total_weight s - ucast (weight (ent s i))" "dom (cfs_processes s') = dom (cfs_processes s)"
      "rb_leftmost s' = (if remove1 i xs = [] then None else Some (hd (remove1 i xs)))"
    using s' i by (auto simp: ent_def)
  show ?thesis
    using inv m i unfolding rq_inv_def set len w sum fields
    by (auto simp: ent sorted_wrt_remove1 split: if_splits)
qed

end
