(* ===== verification/Cfs_Tick.thy ===== *)
theory Cfs_Tick
  imports Cfs_Inv
begin

text \<open>
  The process table of the CFS scheduler and the effect of the accounting, the tick, the creation of
  a process and the initialisation on it and on the run queue.
\<close>

section \<open>The process table\<close>

definition bas :: "cfs \<Rightarrow> nat \<Rightarrow> process" where
  "bas s i = base (the (cfs_processes s i))"

text \<open>What the scheduler keeps of a slot: its number, the weight of its nice value once it is in use,
  and that a queued task is ready.\<close>

definition slot_ok :: "nat \<Rightarrow> cfs_process \<Rightarrow> bool" where
  "slot_ok i p \<longleftrightarrow> pid (base p) = int i \<and>
     (state (base p) \<noteq> PROC_UNUSED \<longrightarrow> weight (se p) = nice_to_weight (nice p)) \<and>
     (on_rq (se p) \<longrightarrow> state (base p) = PROC_READY)"

definition proc_inv :: "cfs \<Rightarrow> bool" where
  "proc_inv s \<longleftrightarrow> (\<forall>i p. cfs_processes s i = Some p \<longrightarrow> slot_ok i p) \<and>
     (\<forall>c. cfs_current s = Some c \<longrightarrow> c < MAX_PROCESSES \<and> state (bas s c) = PROC_RUNNING)"

definition cfs_inv :: "cfs \<Rightarrow> bool" where
  "cfs_inv s \<longleftrightarrow> (\<exists>xs. rq_inv xs s) \<and> proc_inv s"

lemma slot_ok_upd:
  "\<forall>j q. ps j = Some q \<longrightarrow> slot_ok j q \<Longrightarrow> slot_ok i p \<Longrightarrow> \<forall>j q. (ps(i \<mapsto> p)) j = Some q \<longrightarrow> slot_ok j q"
  by simp

lemma nice_to_weight_range: "15 \<le> nice_to_weight n \<and> nice_to_weight n \<le> 88761"
proof -
  define m where "m = (if n < - 20 then - 20 else if n > 19 then 19 else n)"
  have m: "nice_to_weight n = prio_to_weight ! nat (m + 20)" "- 20 \<le> m" "m \<le> 19"
    by (auto simp: nice_to_weight_def m_def Let_def)
  then have "nat (m + 20) < 40" by simp
  moreover have "\<forall>w \<in> set prio_to_weight. 15 \<le> w \<and> w \<le> 88761"
    by (simp add: prio_to_weight_def)
  moreover have "length prio_to_weight = 40" by (simp add: prio_to_weight_def)
  ultimately show ?thesis using m by (metis nth_mem)
qed

lemma nice_to_weight_nonzero: "nice_to_weight n \<noteq> 0"
  using nice_to_weight_range [of n] by auto

lemma rq_inv_cong:
  assumes "rq_inv xs s" "tree s' = tree s" "rb_leftmost s' = rb_leftmost s" "nr_running s' = nr_running s"
    "total_weight s' = total_weight s" "dom (cfs_processes s') = dom (cfs_processes s)"
    and "\<And>j. j < MAX_PROCESSES \<Longrightarrow> on_rq (ent s' j) = on_rq (ent s j)"
    and "\<And>j. j \<in> set xs \<Longrightarrow> vrt s' j = vrt s j \<and> weight (ent s' j) = weight (ent s j)"
  shows "rq_inv xs s'"
proof -
  have sum: "(\<Sum>i\<leftarrow>xs. ucast (weight (ent s' i)) :: u64) = (\<Sum>i\<leftarrow>xs. ucast (weight (ent s i)))"
    using assms(8) by (intro arg_cong [of _ _ sum_list]) simp
  have "sorted_wrt (\<lambda>i j. vrt s' i \<le> vrt s' j) xs"
    using assms(1,8) unfolding rq_inv_def by (auto elim!: sorted_wrt_mono_rel [rotated])
  then show ?thesis using assms unfolding rq_inv_def sum by auto
qed

text \<open>A slot that is not queued may change in every field but \<open>on_rq\<close>.\<close>

lemma rq_inv_idle:
  assumes "rq_inv xs s" "cfs_processes s i = Some p" "\<not> on_rq (se p)" "\<not> on_rq (se p')"
    and "cfs_processes s' = (cfs_processes s)(i \<mapsto> p')"
    and "tree s' = tree s" "rb_leftmost s' = rb_leftmost s" "nr_running s' = nr_running s"
    "total_weight s' = total_weight s"
  shows "rq_inv xs s'"
proof (rule rq_inv_cong [OF assms(1)])
  have "i \<notin> set xs" using assms(1-3) by (auto simp: rq_inv_def ent_def)
  then show "vrt s' j = vrt s j \<and> weight (ent s' j) = weight (ent s j)" if "j \<in> set xs" for j
    using assms(5) that by (auto simp: ent_def)
  show "on_rq (ent s' j) = on_rq (ent s j)" for j using assms(2-5) by (simp add: ent_def)
qed (use assms in auto)

lemma current_not_queued:
  assumes "rq_inv xs s" "proc_inv s" "cfs_current s = Some c" shows "c \<notin> set xs"
proof
  assume "c \<in> set xs"
  then have "c < MAX_PROCESSES" "on_rq (ent s c)" using assms(1) by (auto simp: rq_inv_def)
  then obtain p where "cfs_processes s c = Some p" "on_rq (se p)"
    using rq_inv_proc [OF assms(1)] by (force simp: ent_def)
  then show False using assms(2,3) by (auto simp: proc_inv_def slot_ok_def bas_def)
qed

section \<open>Starting a task\<close>

definition running :: "u64 \<Rightarrow> cfs_process \<Rightarrow> cfs_process" where
  "running now p = p\<lparr>base := (base p)\<lparr>state := PROC_RUNNING\<rparr>, se := (se p)\<lparr>exec_start := now, on_rq := False\<rparr>\<rparr>"

lemma running_steps:
  "se_update (exec_start_update (\<lambda>_. now)) (base_update (state_update (\<lambda>_. PROC_RUNNING)) (unqueued p)) = running now p"
  by (rule cfs_process.equality) (simp_all add: running_def unqueued_def)

lemma run_task_exec:
  assumes inv: "rq_inv xs s" and i: "i \<in> set xs" "cfs_processes s i = Some p" and cur: "cur_in_range s"
  shows "\<exists>s'. cfs_run_task (Some i) s = Some s' \<and> rq_inv (remove1 i xs) s' \<and> cfs_current s' = Some i \<and>
    cfs_processes s' = (cfs_processes s)(i \<mapsto> running (counter s') p) \<and> counter s' = counter s + 1000000 \<and>
    min_vruntime s \<le> min_vruntime s'"
proof -
  obtain m mv where d: "cfs_dequeue_task (Some i) s = Some (s\<lparr>tree := m,
      rb_leftmost := (if remove1 i xs = [] then None else Some (hd (remove1 i xs))),
      nr_running := nr_running s - 1, total_weight := total_weight s - ucast (weight (se p)),
      cfs_processes := (cfs_processes s)(i \<mapsto> unqueued p), min_vruntime := mv\<rparr>)" (is "_ = Some ?s")
    and m: "rb_seq (remove1 i xs) m" "dom (nodes m) = {..<MAX_PROCESSES}" and mv: "min_vruntime s \<le> mv"
    using dequeue_exec [OF assms] by blast
  have inv1: "rq_inv (remove1 i xs) ?s" by (rule dequeue_inv [OF inv i refl m])
  define s' where "s' = ?s\<lparr>cfs_processes := (cfs_processes s)(i \<mapsto> running (counter s + 1000000) p),
    counter := counter s + 1000000, cfs_current := Some i\<rparr>"
  have "cfs_run_task (Some i) s = Some s'" using d
    by (simp add: cfs_run_task_def get_time_ns_def Let_def running_steps s'_def)
  moreover have "rq_inv (remove1 i xs) s'"
    by (rule rq_inv_idle [OF inv1, of i "unqueued p" "running (counter s + 1000000) p"])
      (simp_all add: s'_def unqueued_def running_def)
  ultimately show ?thesis using mv by (simp add: s'_def)
qed

lemma run_task_inv:
  assumes inv: "rq_inv xs s" "\<forall>j q. cfs_processes s j = Some q \<longrightarrow> slot_ok j q"
    and i: "i \<in> set xs" and cur: "cur_in_range s"
  shows "\<exists>s'. cfs_run_task (Some i) s = Some s' \<and> rq_inv (remove1 i xs) s' \<and> proc_inv s' \<and>
    cfs_current s' = Some i \<and> min_vruntime s \<le> min_vruntime s' \<and>
    (\<forall>j. j \<noteq> i \<longrightarrow> cfs_processes s' j = cfs_processes s j)"
proof -
  have i8: "i < MAX_PROCESSES" using inv i by (simp add: rq_inv_def)
  obtain p where p: "cfs_processes s i = Some p" using rq_inv_proc [OF inv(1) i8] by blast
  obtain s' where s': "cfs_run_task (Some i) s = Some s'" "rq_inv (remove1 i xs) s'" "cfs_current s' = Some i"
    "cfs_processes s' = (cfs_processes s)(i \<mapsto> running (counter s') p)" "min_vruntime s \<le> min_vruntime s'"
    using run_task_exec [OF inv(1) i p cur] by blast
  have "on_rq (se p)" using inv i p by (auto simp: rq_inv_def ent_def)
  then have "slot_ok i (running (counter s') p)" using inv(2) p by (auto simp: slot_ok_def running_def)
  then have "proc_inv s'" using inv(2) i8 s'(3,4) by (simp add: proc_inv_def bas_def running_def)
  then show ?thesis using s' by auto
qed

section \<open>Accounting\<close>

lemma update_curr_exec:
  assumes inv: "rq_inv xs s" "proc_inv s" and c: "cfs_current s = Some c" "cfs_processes s c = Some p"
  shows "\<exists>s' p'. cfs_update_curr (Some c) s = Some s' \<and> rq_inv xs s' \<and>
    cfs_current s' = Some c \<and> cfs_processes s' = (cfs_processes s)(c \<mapsto> p') \<and>
    base p' = base p \<and> nice p' = nice p \<and> weight (se p') = weight (se p) \<and> on_rq (se p') = on_rq (se p) \<and>
    min_vruntime s \<le> min_vruntime s'"
proof -
  have c8: "c < MAX_PROCESSES" and run: "state (base p) = PROC_RUNNING" and ok: "slot_ok c p"
    using inv c by (auto simp: proc_inv_def bas_def)
  have off: "\<not> on_rq (se p)" and w: "weight (se p) \<noteq> 0"
    using ok run nice_to_weight_nonzero by (auto simp: slot_ok_def)
  then have "\<exists>d. calc_delta_fair x (se p) = Some d" for x by (simp add: calc_delta_fair_def Let_def)
  then obtain d where d: "calc_delta_fair (counter s + 1000000 - exec_start (se p)) (se p) = Some d" by blast
  show ?thesis
  proof (cases "exec_start (se p) = 0")
    case True
    define p' where "p' = p\<lparr>se := (se p)\<lparr>exec_start := counter s + 1000000\<rparr>\<rparr>"
    define s' where "s' = s\<lparr>counter := counter s + 1000000, cfs_processes := (cfs_processes s)(c \<mapsto> p')\<rparr>"
    have "se_update (exec_start_update (\<lambda>_. counter s + 1000000)) p = p'"
      by (rule cfs_process.equality) (simp_all add: p'_def)
    then have "cfs_update_curr (Some c) s = Some s'"
      using c(2) True by (simp add: cfs_update_curr_def get_time_ns_def Let_def s'_def)
    moreover have "rq_inv xs s'"
      by (rule rq_inv_idle [OF inv(1) c(2) off, of p']) (use off in \<open>simp_all add: s'_def p'_def\<close>)
    ultimately show ?thesis
      by (intro exI [of _ s'] exI [of _ p']) (simp add: s'_def p'_def c(1))
  next
    case False
    let ?x = "counter s + 1000000 - exec_start (se p)"
    define p' where "p' = p\<lparr>se := (se p)\<lparr>exec_start := counter s + 1000000,
      sum_exec_runtime := sum_exec_runtime (se p) + ?x, vruntime := vruntime (se p) + d\<rparr>\<rparr>"
    define s1 where "s1 = s\<lparr>counter := counter s + 1000000, cfs_processes := (cfs_processes s)(c \<mapsto> p')\<rparr>"
    have "se_update (\<lambda>e. e\<lparr>vruntime := vruntime e + d\<rparr>) (se_update (\<lambda>e. e\<lparr>exec_start := counter s + 1000000,
       sum_exec_runtime := sum_exec_runtime e + ?x\<rparr>) p) = p'"
      by (rule cfs_process.equality) (simp_all add: p'_def)
    then have u: "cfs_update_curr (Some c) s = update_min_vruntime s1"
      using c(2) False d by (simp add: cfs_update_curr_def get_time_ns_def Let_def s1_def)
    have inv1: "rq_inv xs s1"
      by (rule rq_inv_idle [OF inv(1) c(2) off, of p']) (use off in \<open>simp_all add: s1_def p'_def\<close>)
    have "\<exists>mv. update_min_vruntime s1 = Some (s1\<lparr>min_vruntime := mv\<rparr>) \<and> min_vruntime s1 \<le> mv"
    proof (rule update_min_vruntime_exec)
      show "dom (cfs_processes s1) = {..<MAX_PROCESSES}" using inv1 by (simp add: rq_inv_def)
      show "cur_in_range s1" using c(1) c8 by (simp add: s1_def cur_in_range_def)
      have "set xs \<subseteq> {..<MAX_PROCESSES}" using inv1 by (auto simp: rq_inv_def)
      then show "j < MAX_PROCESSES" if "rb_leftmost s1 = Some j" for j
        using inv1 that hd_in_set [of xs] by (auto simp: rq_inv_def split: if_splits)
    qed
    then obtain mv where mv: "update_min_vruntime s1 = Some (s1\<lparr>min_vruntime := mv\<rparr>)" "min_vruntime s1 \<le> mv"
      by blast
    have "rq_inv xs (s1\<lparr>min_vruntime := mv\<rparr>)" by (rule rq_inv_cong [OF inv1]) (simp_all add: ent_def)
    then show ?thesis using u mv
      by (intro exI [of _ "s1\<lparr>min_vruntime := mv\<rparr>"] exI [of _ p']) (simp add: s1_def p'_def c(1))
  qed
qed

section \<open>The tick\<close>

lemma enqueue_ok:
  assumes inv: "rq_inv xs s" and i: "i < MAX_PROCESSES" "i \<notin> set xs" "cfs_processes s i = Some p"
  shows "\<exists>s'. cfs_enqueue_task (Some i) s = Some s' \<and> rq_inv (rank_in s i xs) s' \<and>
    cfs_processes s' = (cfs_processes s)(i \<mapsto> queued p) \<and> cfs_current s' = cfs_current s \<and>
    min_vruntime s' = min_vruntime s \<and> counter s' = counter s"
proof -
  obtain m where m: "cfs_enqueue_task (Some i) s = Some (s\<lparr>tree := m,
      rb_leftmost := (if filter (\<lambda>j. vrt s j \<le> vrt s i) xs = [] then Some i else rb_leftmost s),
      nr_running := nr_running s + 1, total_weight := total_weight s + ucast (weight (se p)),
      cfs_processes := (cfs_processes s)(i \<mapsto> queued p)\<rparr>)" (is "_ = Some ?s")
    "rb_seq (rank_in s i xs) m" "dom (nodes m) = {..<MAX_PROCESSES}"
    using enqueue_exec [OF assms] by blast
  have "rq_inv (rank_in s i xs) ?s" by (rule enqueue_inv [OF assms refl m(2,3)])
  then show ?thesis using m(1) by (intro exI [of _ ?s]) simp
qed

lemma slot_ok_queued: "slot_ok i p \<Longrightarrow> state (base p) \<noteq> PROC_UNUSED \<Longrightarrow> slot_ok i (queued p)"
  by (simp add: slot_ok_def queued_def)

lemma slot_ok_base: "slot_ok i p \<Longrightarrow> base p' = base p \<Longrightarrow> nice p' = nice p \<Longrightarrow> weight (se p') = weight (se p) \<Longrightarrow>
  on_rq (se p') = on_rq (se p) \<Longrightarrow> slot_ok i p'"
  by (simp add: slot_ok_def)

text \<open>The preempted task goes back to the queue with its execution start cleared.\<close>

lemma requeue_ok:
  assumes inv: "rq_inv xs s" "proc_inv s" and c: "cfs_current s = Some c" "cfs_processes s c = Some p"
  shows "\<exists>s' p'. do { s \<leftarrow> upd_base (Some c) (\<lambda>b. b\<lparr>state := PROC_READY\<rparr>) s;
      s \<leftarrow> upd_se (Some c) (\<lambda>e. e\<lparr>exec_start := 0\<rparr>) s; cfs_enqueue_task (Some c) s } = Some s' \<and>
    rq_inv (rank_in s c xs) s' \<and> cfs_processes s' = (cfs_processes s)(c \<mapsto> p') \<and> slot_ok c p' \<and>
    on_rq (se p') \<and> cfs_current s' = Some c \<and> min_vruntime s' = min_vruntime s"
proof -
  have c8: "c < MAX_PROCESSES" and run: "state (base p) = PROC_RUNNING" and ok: "slot_ok c p"
    using inv c by (auto simp: proc_inv_def bas_def)
  then have off: "\<not> on_rq (se p)" by (auto simp: slot_ok_def)
  define p1 where "p1 = se_update (exec_start_update (\<lambda>_. 0)) (base_update (state_update (\<lambda>_. PROC_READY)) p)"
  define s1 where "s1 = s\<lparr>cfs_processes := (cfs_processes s)(c \<mapsto> p1)\<rparr>"
  have inv1: "rq_inv xs s1"
    by (rule rq_inv_idle [OF inv(1) c(2) off, of p1]) (use off in \<open>simp_all add: s1_def p1_def\<close>)
  have "vrt s1 j = vrt s j" for j using c(2) by (simp add: s1_def p1_def ent_def)
  then have rank: "rank_in s1 c xs = rank_in s c xs" by (simp add: rank_in_def)
  have "c \<notin> set xs" by (rule current_not_queued [OF inv c(1)])
  then obtain s' where s': "cfs_enqueue_task (Some c) s1 = Some s'" "rq_inv (rank_in s1 c xs) s'"
    "cfs_processes s' = (cfs_processes s1)(c \<mapsto> queued p1)" "cfs_current s' = cfs_current s1"
    "min_vruntime s' = min_vruntime s1"
    using enqueue_ok [OF inv1 c8, of p1] by (auto simp: s1_def)
  have "slot_ok c (queued p1)" using ok run by (auto simp: slot_ok_def queued_def p1_def)
  moreover have "do { s \<leftarrow> upd_base (Some c) (\<lambda>b. b\<lparr>state := PROC_READY\<rparr>) s;
      s \<leftarrow> upd_se (Some c) (\<lambda>e. e\<lparr>exec_start := 0\<rparr>) s; cfs_enqueue_task (Some c) s } = Some s'"
    using c(2) s'(1) by (simp add: s1_def p1_def)
  ultimately show ?thesis using s' c(1) rank
    by (intro exI [of _ s'] exI [of _ "queued p1"]) (simp add: s1_def queued_def)
qed

lemma rq_inv_distinct: "rq_inv xs s \<Longrightarrow> distinct xs"
  using rb_seq_distinct by (auto simp: rq_inv_def)

lemma rank_in_members: "set (rank_in s i xs) = insert i (set xs)"
  by (auto simp: rank_in_def)

lemma tick_idle:
  assumes "rq_inv xs s" "proc_inv s" "cfs_current s = None"
  shows "\<exists>s'. cfs_scheduler_tick s = Some s' \<and> min_vruntime s \<le> min_vruntime s' \<and>
    (case xs of [] \<Rightarrow> s' = s | x # ys \<Rightarrow> rq_inv ys s' \<and> proc_inv s' \<and> cfs_current s' = Some x \<and>
       (\<forall>j. j \<noteq> x \<longrightarrow> cfs_processes s' j = cfs_processes s j))"
proof (cases xs)
  case Nil
  then show ?thesis using assms by (simp add: cfs_scheduler_tick_def cfs_pick_next_task_def rq_inv_def)
next
  case (Cons x ys)
  then have "rb_leftmost s = Some x" using assms(1) by (simp add: rq_inv_def)
  then have "cfs_scheduler_tick s = cfs_run_task (Some x) s"
    using assms(3) by (simp add: cfs_scheduler_tick_def cfs_pick_next_task_def)
  moreover have "cur_in_range s" "\<forall>j q. cfs_processes s j = Some q \<longrightarrow> slot_ok j q"
    using assms by (auto simp: cur_in_range_def proc_inv_def)
  ultimately show ?thesis using run_task_inv [OF assms(1), of x] Cons by auto
qed

lemma preempt_ok:
  assumes inv: "rq_inv (x # ys) s" "proc_inv s" and c: "cfs_current s = Some c" "cfs_processes s c = Some p"
  shows "\<exists>s' ys'. do { s \<leftarrow> upd_base (Some c) (\<lambda>b. b\<lparr>state := PROC_READY\<rparr>) s;
      s \<leftarrow> upd_se (Some c) (\<lambda>e. e\<lparr>exec_start := 0\<rparr>) s; s \<leftarrow> cfs_enqueue_task (Some c) s;
      cfs_run_task (Some x) s } = Some s' \<and>
    rq_inv ys' s' \<and> set ys' = insert c (set ys) \<and> proc_inv s' \<and> cfs_current s' = Some x \<and>
    min_vruntime s \<le> min_vruntime s' \<and> (\<forall>j. j \<noteq> c \<and> j \<noteq> x \<longrightarrow> cfs_processes s' j = cfs_processes s j)"
proof -
  obtain s2 p2 where s2: "do { s \<leftarrow> upd_base (Some c) (\<lambda>b. b\<lparr>state := PROC_READY\<rparr>) s;
      s \<leftarrow> upd_se (Some c) (\<lambda>e. e\<lparr>exec_start := 0\<rparr>) s; cfs_enqueue_task (Some c) s } = Some s2"
    "rq_inv (rank_in s c (x # ys)) s2" "cfs_processes s2 = (cfs_processes s)(c \<mapsto> p2)" "slot_ok c p2"
    "cfs_current s2 = Some c" "min_vruntime s2 = min_vruntime s"
    using requeue_ok [OF inv c] by blast
  have x: "x \<in> set (rank_in s c (x # ys))" by (simp add: rank_in_members)
  have slots: "\<forall>j q. cfs_processes s2 j = Some q \<longrightarrow> slot_ok j q"
    using inv(2) s2(3,4) by (simp add: proc_inv_def)
  have "cur_in_range s2" using s2(5) inv(2) c by (auto simp: cur_in_range_def proc_inv_def)
  then obtain s3 where s3: "cfs_run_task (Some x) s2 = Some s3" "rq_inv (remove1 x (rank_in s c (x # ys))) s3"
    "proc_inv s3" "cfs_current s3 = Some x" "min_vruntime s2 \<le> min_vruntime s3"
    "\<forall>j. j \<noteq> x \<longrightarrow> cfs_processes s3 j = cfs_processes s2 j"
    using run_task_inv [OF s2(2) slots x] by blast
  have "distinct (rank_in s c (x # ys))" "distinct (x # ys)"
    using s2(2) inv(1) rq_inv_distinct by blast+
  moreover have "x \<noteq> c"
    using current_not_queued [OF inv c(1)] by auto
  ultimately have "set (remove1 x (rank_in s c (x # ys))) = insert c (set ys)"
    by (auto simp: rank_in_members)
  then show ?thesis using s2(1,3,6) s3
    by (intro exI [of _ s3] exI [of _ "remove1 x (rank_in s c (x # ys))"]) (auto simp: bind_eq_Some_conv)
qed

lemma tick_busy:
  assumes inv: "rq_inv xs s" "proc_inv s" and c: "cfs_current s = Some c"
  shows "\<exists>s'. cfs_scheduler_tick s = Some s' \<and> min_vruntime s \<le> min_vruntime s' \<and> proc_inv s' \<and>
    (\<forall>j. j \<noteq> c \<and> cfs_current s' \<noteq> Some j \<longrightarrow> cfs_processes s' j = cfs_processes s j) \<and>
    (rq_inv xs s' \<and> cfs_current s' = Some c \<or>
     (\<exists>x ys ys'. xs = x # ys \<and> cfs_current s' = Some x \<and> rq_inv ys' s' \<and> set ys' = insert c (set ys)))"
proof -
  obtain p where p: "cfs_processes s c = Some p"
    using rq_inv_proc [OF inv(1), of c] inv(2) c by (auto simp: proc_inv_def)
  obtain s1 p1 where s1: "cfs_update_curr (Some c) s = Some s1" "rq_inv xs s1" "cfs_current s1 = Some c"
    "cfs_processes s1 = (cfs_processes s)(c \<mapsto> p1)" "min_vruntime s \<le> min_vruntime s1"
    and p1: "base p1 = base p" "nice p1 = nice p" "weight (se p1) = weight (se p)" "on_rq (se p1) = on_rq (se p)"
    using update_curr_exec [OF inv c p] by blast
  have pi1: "proc_inv s1"
    using inv(2) c p s1(3,4) p1 slot_ok_base [of c p p1] by (auto simp: proc_inv_def bas_def)
  have p1s: "cfs_processes s1 c = Some p1" using s1(4) by simp
  show ?thesis
  proof (cases "cfs_scheduler_tick s = Some s1")
    case True
    then show ?thesis using s1 pi1 by auto
  next
    case go: False
    then obtain x ys where xs: "xs = x # ys"
      using c s1 by (cases xs) (auto simp: cfs_scheduler_tick_def cfs_pick_next_task_def rq_inv_def)
    have x8: "x < MAX_PROCESSES" and lm: "rb_leftmost s1 = Some x" using s1(2) xs by (auto simp: rq_inv_def)
    then obtain q where q: "cfs_processes s1 x = Some q" using rq_inv_proc [OF s1(2)] by blast
    obtain s3 ys' where s3: "do { s \<leftarrow> upd_base (Some c) (\<lambda>b. b\<lparr>state := PROC_READY\<rparr>) s1;
        s \<leftarrow> upd_se (Some c) (\<lambda>e. e\<lparr>exec_start := 0\<rparr>) s; s \<leftarrow> cfs_enqueue_task (Some c) s;
        cfs_run_task (Some x) s } = Some s3"
      "rq_inv ys' s3" "set ys' = insert c (set ys)" "proc_inv s3" "cfs_current s3 = Some x"
      "min_vruntime s1 \<le> min_vruntime s3" "\<forall>j. j \<noteq> c \<and> j \<noteq> x \<longrightarrow> cfs_processes s3 j = cfs_processes s1 j"
      using preempt_ok [OF s1(2) [unfolded xs] pi1 s1(3) p1s] by blast
    have "cfs_scheduler_tick s = Some s3"
      using go c s1(1) lm q p1s s3(1)
      by (simp add: cfs_scheduler_tick_def cfs_pick_next_task_def Let_def split: if_splits)
    moreover have "min_vruntime s \<le> min_vruntime s3" using s1(5) s3(6) by simp
    moreover have "\<forall>j. j \<noteq> c \<and> cfs_current s3 \<noteq> Some j \<longrightarrow> cfs_processes s3 j = cfs_processes s j"
      using s3(5,7) s1(4) by simp
    ultimately show ?thesis using s3(2-5) xs by blast
  qed
qed

section \<open>Creation and initialisation\<close>

lemma free_slot:
  assumes "set is \<subseteq> dom (cfs_processes s)"
  shows "cfs_free_slot is s = Some (find (\<lambda>i. state (bas s i) = PROC_UNUSED) is)"
  using assms by (induction "is") (auto simp: bas_def)

definition created :: "nat \<Rightarrow> u32 \<Rightarrow> u32 \<Rightarrow> int \<Rightarrow> u64 \<Rightarrow> cfs_process \<Rightarrow> cfs_process" where
  "created i stk entry n v p = \<lparr>base = setup_process i stk entry (base p),
     se = \<lparr>vruntime = v, exec_start = 0, sum_exec_runtime = 0, weight = nice_to_weight n, on_rq = False\<rparr>, nice = n\<rparr>"

lemma created_steps:
  "se_update (\<lambda>e. e\<lparr>weight := nice_to_weight n, vruntime := v, exec_start := 0, sum_exec_runtime := 0, on_rq := False\<rparr>)
     (nice_update (\<lambda>_. n) (base_update (setup_process i stk entry) p)) = created i stk entry n v p"
  by (rule cfs_process.equality) (simp_all add: created_def)

lemma slot_ok_created: "slot_ok i p \<Longrightarrow> slot_ok i (queued (created i stk entry n v p))"
  by (simp add: slot_ok_def queued_def created_def setup_process_def Let_def)

lemma create_ok:
  assumes inv: "rq_inv xs s" "proc_inv s"
    and i: "find (\<lambda>i. state (bas s i) = PROC_UNUSED) [0..<MAX_PROCESSES] = Some i" "cfs_processes s i = Some p"
  shows "\<exists>s'. cfs_create_process stk entry n s = Some (Some i, s') \<and>
    (\<exists>xs'. rq_inv xs' s' \<and> set xs' = insert i (set xs)) \<and> proc_inv s' \<and> min_vruntime s' = min_vruntime s \<and>
    cfs_current s' = cfs_current s \<and>
    cfs_processes s' = (cfs_processes s)(i \<mapsto> queued (created i (stk i) entry n (min_vruntime s) p))"
proof -
  let ?p = "created i (stk i) entry n (min_vruntime s) p"
  have i8: "i < MAX_PROCESSES" and st: "state (bas s i) = PROC_UNUSED"
    using i(1) by (auto simp: find_Some_iff simp del: upt_conv_Cons)
  have ok: "slot_ok i p" and off: "\<not> on_rq (se p)"
    using inv(2) i(2) st by (auto simp: proc_inv_def slot_ok_def bas_def)
  have out: "i \<notin> set xs" using inv(1) i(2) off by (auto simp: rq_inv_def ent_def)
  obtain m where m: "RB_CLEAR_NODE (Some i) (tree s) = Some m" "rb_seq xs m" "same_outside {i} (tree s) m"
    using rb_clear_seq [OF _ out, of "tree s"] inv(1) i8 by (auto simp: rq_inv_def)
  define s1 where "s1 = s\<lparr>cfs_processes := (cfs_processes s)(i \<mapsto> ?p), tree := m\<rparr>"
  have "rq_inv xs (s\<lparr>cfs_processes := (cfs_processes s)(i \<mapsto> ?p)\<rparr>)"
    by (rule rq_inv_idle [OF inv(1) i(2) off, of ?p]) (simp_all add: created_def)
  then have inv1: "rq_inv xs s1"
    using m(2,3) by (simp add: rq_inv_def s1_def same_outside_def ent_def)
  obtain s' where s': "cfs_enqueue_task (Some i) s1 = Some s'" "rq_inv (rank_in s1 i xs) s'"
    "cfs_processes s' = (cfs_processes s1)(i \<mapsto> queued ?p)" "cfs_current s' = cfs_current s1"
    "min_vruntime s' = min_vruntime s1"
    using enqueue_ok [OF inv1 i8 out, of ?p] by (auto simp: s1_def)
  have "set [0..<MAX_PROCESSES] \<subseteq> dom (cfs_processes s)" using inv(1) by (auto simp: rq_inv_def)
  from free_slot [OF this] have "cfs_create_process stk entry n s = Some (Some i, s')"
    using i m(1) s'(1)
    by (simp add: cfs_create_process_def created_steps clear_run_node_def s1_def)
  moreover have "cfs_current s \<noteq> Some i" using inv(2) st by (auto simp: proc_inv_def)
  then have "proc_inv s'" using inv(2) s' slot_ok_created [OF ok] by (auto simp: proc_inv_def s1_def bas_def)
  ultimately show ?thesis using s' by (auto simp: s1_def rank_in_members)
qed

lemma create_full:
  assumes inv: "rq_inv xs s" and full: "find (\<lambda>i. state (bas s i) = PROC_UNUSED) [0..<MAX_PROCESSES] = None"
  shows "cfs_create_process stk entry n s = Some (None, s)"
proof -
  have "set [0..<MAX_PROCESSES] \<subseteq> dom (cfs_processes s)" using inv by (auto simp: rq_inv_def)
  from free_slot [OF this] show ?thesis using full by (simp add: cfs_create_process_def)
qed

definition cleared :: "nat \<Rightarrow> cfs_process \<Rightarrow> cfs_process" where
  "cleared i p = p\<lparr>base := (base p)\<lparr>pid := int i, state := PROC_UNUSED\<rparr>,
     se := (se p)\<lparr>vruntime := 0, on_rq := False\<rparr>, nice := 0\<rparr>"

lemma cleared_steps:
  "nice_update (\<lambda>_. 0) (se_update (\<lambda>e. e\<lparr>vruntime := 0, on_rq := False\<rparr>)
     (base_update (\<lambda>b. b\<lparr>pid := int i, state := PROC_UNUSED\<rparr>) p)) = cleared i p"
  by (rule cfs_process.equality) (simp_all add: cleared_def)

lemma init_slots_ok:
  assumes "set is \<subseteq> dom (cfs_processes s)" "set is \<subseteq> dom (nodes (tree s))" "rb_seq [] (tree s)" "distinct is"
  shows "\<exists>m. cfs_init_slots is s = Some (s\<lparr>tree := m, cfs_processes :=
      (\<lambda>i. if i \<in> set is then map_option (cleared i) (cfs_processes s i) else cfs_processes s i)\<rparr>) \<and>
    rb_seq [] m \<and> dom (nodes m) = dom (nodes (tree s))"
  using assms
proof (induction "is" arbitrary: s)
  case Nil
  then show ?case by (intro exI [of _ "tree s"]) simp
next
  case (Cons i "is")
  obtain p where p: "cfs_processes s i = Some p" using Cons.prems(1) by auto
  obtain m where m: "RB_CLEAR_NODE (Some i) (tree s) = Some m" "rb_seq [] m" "same_outside {i} (tree s) m"
    using rb_clear_seq [OF Cons.prems(3), of i] Cons.prems(2) by auto
  define s1 where "s1 = s\<lparr>cfs_processes := (cfs_processes s)(i \<mapsto> cleared i p), tree := m\<rparr>"
  have step: "cfs_init_slots (i # is) s = cfs_init_slots is s1"
    using p m by (simp add: cleared_steps clear_run_node_def s1_def)
  have dom: "dom (nodes (tree s1)) = dom (nodes (tree s))" using m(3) by (simp add: s1_def same_outside_def)
  have pre: "set is \<subseteq> dom (cfs_processes s1)" "set is \<subseteq> dom (nodes (tree s1))" "rb_seq [] (tree s1)" "distinct is"
    using Cons.prems m(2) unfolding dom by (auto simp: s1_def)
  have ps: "(\<lambda>j. if j \<in> set is then map_option (cleared j) (cfs_processes s1 j) else cfs_processes s1 j) =
      (\<lambda>j. if j \<in> set (i # is) then map_option (cleared j) (cfs_processes s j) else cfs_processes s j)"
    using p Cons.prems(4) by (auto simp: s1_def fun_eq_iff)
  obtain m' where m': "cfs_init_slots is s1 = Some (s1\<lparr>tree := m', cfs_processes :=
      (\<lambda>j. if j \<in> set is then map_option (cleared j) (cfs_processes s1 j) else cfs_processes s1 j)\<rparr>)"
    "rb_seq [] m'" "dom (nodes m') = dom (nodes (tree s1))"
    using Cons.IH [OF pre] by blast
  show ?case unfolding step m'(1) ps using m'(2,3) dom
    by (intro exI [of _ m']) (auto simp: s1_def intro!: cfs.equality)
qed

lemma init_ok:
  assumes "dom (cfs_processes s) = {..<MAX_PROCESSES}" "dom (nodes (tree s)) = {..<MAX_PROCESSES}"
  shows "\<exists>s'. cfs_init s = Some s' \<and> rq_inv [] s' \<and> proc_inv s' \<and> min_vruntime s' = 0 \<and> cfs_current s' = None \<and>
    (\<forall>i < MAX_PROCESSES. state (bas s' i) = PROC_UNUSED)"
proof -
  define s0 where "s0 = s\<lparr>tree := (tree s)\<lparr>root := RB_ROOT\<rparr>, rb_leftmost := None, min_vruntime := 0,
        nr_running := 0, total_weight := 0, cfs_current := None\<rparr>"
  have tree0: "tree s0 = store Leaf (nodes (tree s))" and ps0: "cfs_processes s0 = cfs_processes s"
    by (simp_all add: s0_def store_def RB_ROOT_def)
  have pre: "set [0..<MAX_PROCESSES] \<subseteq> dom (cfs_processes s0)" "set [0..<MAX_PROCESSES] \<subseteq> dom (nodes (tree s0))"
    "rb_seq [] (tree s0)" "distinct [0..<MAX_PROCESSES]"
    using assms rb_seqI [of Leaf "[]"] by (auto simp: ps0 tree0 dom_store is_rbt_def simp del: upt_conv_Cons)
  obtain m where m: "cfs_init_slots [0..<MAX_PROCESSES] s0 = Some (s0\<lparr>tree := m, cfs_processes :=
      (\<lambda>i. if i \<in> set [0..<MAX_PROCESSES] then map_option (cleared i) (cfs_processes s0 i) else cfs_processes s0 i)\<rparr>)"
      (is "_ = Some ?s'") "rb_seq [] m" "dom (nodes m) = dom (nodes (tree s0))"
    using init_slots_ok [OF pre] by blast
  have ps: "cfs_processes ?s' i = (if i < MAX_PROCESSES then map_option (cleared i) (cfs_processes s i) else None)" for i
    using assms(1) by (auto simp: ps0 domIff set_eq_iff simp del: upt_conv_Cons)
  have some: "\<exists>p. cfs_processes s i = Some p" if "i < MAX_PROCESSES" for i
    using assms(1) that by (metis domD lessThan_iff)
  have "dom (cfs_processes ?s') = {..<MAX_PROCESSES}"
    unfolding set_eq_iff domIff ps using some by auto
  moreover have "\<not> on_rq (ent ?s' i) \<and> state (bas ?s' i) = PROC_UNUSED" if "i < MAX_PROCESSES" for i
    unfolding ent_def bas_def ps using some [OF that] that by (auto simp: cleared_def)
  moreover have "slot_ok i p" if "cfs_processes ?s' i = Some p" for i p
    using that unfolding ps by (auto simp: slot_ok_def cleared_def split: if_splits)
  ultimately have "rq_inv [] ?s'" "proc_inv ?s'" "\<forall>i < MAX_PROCESSES. state (bas ?s' i) = PROC_UNUSED"
    using m assms(2) by (simp_all add: rq_inv_def proc_inv_def tree0 dom_store s0_def)
  then show ?thesis unfolding cfs_init_def using m(1) by (intro exI [of _ ?s']) (simp add: s0_def)
qed

end
