(* ===== verification/Cfs_Props.thy ===== *)
theory Cfs_Props
  imports Cfs_Tick
begin

text \<open>
  The reachable states of the CFS scheduler and the properties of the scheduler in them.
\<close>

section \<open>Reachable states\<close>

inductive cfs_reach :: "(nat \<Rightarrow> u32) \<Rightarrow> cfs \<Rightarrow> bool" for stk where
  boot: "dom (cfs_processes s) = {..<MAX_PROCESSES} \<Longrightarrow> dom (nodes (tree s)) = {..<MAX_PROCESSES} \<Longrightarrow>
    cfs_init s = Some s' \<Longrightarrow> cfs_reach stk s'"
| create: "cfs_reach stk s \<Longrightarrow> cfs_create_process stk entry n s = Some (r, s') \<Longrightarrow> cfs_reach stk s'"
| tick: "cfs_reach stk s \<Longrightarrow> cfs_scheduler_tick s = Some s' \<Longrightarrow> cfs_reach stk s'"

text \<open>The invariant of the reachable states: the queue invariant, the process table, and that every
  process in use is queued or current.\<close>

definition all_placed :: "nat list \<Rightarrow> cfs \<Rightarrow> bool" where
  "all_placed xs s \<longleftrightarrow> (\<forall>i < MAX_PROCESSES. state (bas s i) \<noteq> PROC_UNUSED \<longrightarrow> i \<in> set xs \<or> cfs_current s = Some i)"

definition sched_inv :: "cfs \<Rightarrow> bool" where
  "sched_inv s \<longleftrightarrow> (\<exists>xs. rq_inv xs s \<and> proc_inv s \<and> all_placed xs s)"

lemma used_iff:
  assumes "rq_inv xs s" "proc_inv s" "i < MAX_PROCESSES" "i \<in> set xs \<or> cfs_current s = Some i"
  shows "state (bas s i) \<noteq> PROC_UNUSED"
proof -
  obtain p where "cfs_processes s i = Some p" using rq_inv_proc [OF assms(1,3)] by blast
  then show ?thesis using assms by (auto simp: rq_inv_def proc_inv_def slot_ok_def ent_def bas_def)
qed

lemma sched_inv_tick:
  assumes "sched_inv s"
  shows "\<exists>s'. cfs_scheduler_tick s = Some s' \<and> sched_inv s' \<and> min_vruntime s \<le> min_vruntime s'"
proof -
  obtain xs where inv: "rq_inv xs s" "proc_inv s" and pl: "all_placed xs s" using assms by (auto simp: sched_inv_def)
  show ?thesis
  proof (cases "cfs_current s")
    case None
    show ?thesis
    proof (cases xs)
      case Nil
      then show ?thesis using tick_idle [OF inv None] assms by auto
    next
      case (Cons x ys)
      then obtain s' where s': "cfs_scheduler_tick s = Some s'" "min_vruntime s \<le> min_vruntime s'"
        "rq_inv ys s'" "proc_inv s'" "cfs_current s' = Some x" "\<forall>j. j \<noteq> x \<longrightarrow> cfs_processes s' j = cfs_processes s j"
        using tick_idle [OF inv None] by auto
      moreover have "all_placed ys s'" using pl Cons None s'(5,6) by (auto simp: all_placed_def bas_def)
      ultimately show ?thesis by (auto simp: sched_inv_def)
    qed
  next
    case (Some c)
    obtain s' where s': "cfs_scheduler_tick s = Some s'" "min_vruntime s \<le> min_vruntime s'" "proc_inv s'"
      "\<forall>j. j \<noteq> c \<and> cfs_current s' \<noteq> Some j \<longrightarrow> cfs_processes s' j = cfs_processes s j"
      and disj: "rq_inv xs s' \<and> cfs_current s' = Some c \<or>
        (\<exists>x ys ys'. xs = x # ys \<and> cfs_current s' = Some x \<and> rq_inv ys' s' \<and> set ys' = insert c (set ys))"
      using tick_busy [OF inv Some] by blast
    have "\<exists>xs'. rq_inv xs' s' \<and> all_placed xs' s'" using disj
    proof
      assume "rq_inv xs s' \<and> cfs_current s' = Some c"
      then show ?thesis using pl Some s'(4) by (intro exI [of _ xs]) (auto simp: all_placed_def bas_def)
    next
      assume "\<exists>x ys ys'. xs = x # ys \<and> cfs_current s' = Some x \<and> rq_inv ys' s' \<and> set ys' = insert c (set ys)"
      then obtain x ys ys' where "xs = x # ys" "cfs_current s' = Some x" "rq_inv ys' s'" "set ys' = insert c (set ys)"
        by blast
      then show ?thesis using pl Some s'(4) by (intro exI [of _ ys']) (auto simp: all_placed_def bas_def)
    qed
    then show ?thesis using s' by (auto simp: sched_inv_def)
  qed
qed

lemma sched_inv_create:
  assumes "sched_inv s"
  shows "\<exists>r s'. cfs_create_process stk entry n s = Some (r, s') \<and> sched_inv s' \<and> min_vruntime s' = min_vruntime s"
proof -
  obtain xs where inv: "rq_inv xs s" "proc_inv s" and pl: "all_placed xs s" using assms by (auto simp: sched_inv_def)
  show ?thesis
  proof (cases "find (\<lambda>i. state (bas s i) = PROC_UNUSED) [0..<MAX_PROCESSES]")
    case None
    then show ?thesis using create_full [OF inv(1)] assms by auto
  next
    case (Some i)
    then have "i < MAX_PROCESSES" by (auto simp: find_Some_iff simp del: upt_conv_Cons)
    then obtain p where p: "cfs_processes s i = Some p" using rq_inv_proc [OF inv(1)] by blast
    obtain s' xs' where "cfs_create_process stk entry n s = Some (Some i, s')" "rq_inv xs' s'" "set xs' = insert i (set xs)"
      "proc_inv s'" "min_vruntime s' = min_vruntime s" "cfs_current s' = cfs_current s"
      "cfs_processes s' = (cfs_processes s)(i \<mapsto> queued (created i (stk i) entry n (min_vruntime s) p))"
      using create_ok [OF inv Some p] by blast
    moreover from this have "all_placed xs' s'" using pl by (auto simp: all_placed_def bas_def)
    ultimately show ?thesis by (auto simp: sched_inv_def)
  qed
qed

lemma reach_inv: "cfs_reach stk s \<Longrightarrow> sched_inv s"
proof (induction rule: cfs_reach.induct)
  case (boot s s')
  then show ?case using init_ok [of s] by (auto simp: sched_inv_def all_placed_def)
next
  case (create s entry n r s')
  then show ?case using sched_inv_create [of s stk entry n] by auto
next
  case (tick s s')
  then show ?case using sched_inv_tick [of s] by auto
qed

lemma queue_head:
  assumes "rq_inv xs s"
  shows "cfs_pick_next_task s = (if xs = [] then NULL else Some (hd xs))"
  using assms by (simp add: cfs_pick_next_task_def rq_inv_def)

section \<open>Properties\<close>

definition cfs_blank :: cfs where
  "cfs_blank = \<lparr>tree = \<lparr>nodes = (\<lambda>i. if i < MAX_PROCESSES then
       Some \<lparr>parent = NULL, left = NULL, right = NULL, color = RB_RED\<rparr> else None), root = NULL\<rparr>,
    rb_leftmost = NULL, min_vruntime = 0, nr_running = 0, total_weight = 0, cfs_current = NULL,
    cfs_processes = (\<lambda>i. if i < MAX_PROCESSES then Some
      \<lparr>base = \<lparr>pid = 0, state = PROC_UNUSED, sp = 0, page_table = NULL, trap_frame = NULL, frame = (\<lambda>_. 0)\<rparr>,
       se = \<lparr>vruntime = 0, exec_start = 0, sum_exec_runtime = 0, weight = 0, on_rq = False\<rparr>, nice = 0\<rparr> else None),
    counter = 0\<rparr>"

text \<open>A run with three processes of nice 0, 5 and -5 and the given number of ticks.\<close>

primrec cfs_ticks :: "nat \<Rightarrow> cfs \<Rightarrow> cfs option" where
  "cfs_ticks 0 s = Some s"
| "cfs_ticks (Suc n) s = do { s \<leftarrow> cfs_ticks n s; cfs_scheduler_tick s }"

definition cfs_demo :: "nat \<Rightarrow> cfs option" where
  "cfs_demo n = do {
     s \<leftarrow> cfs_init cfs_blank;
     (_, s) \<leftarrow> cfs_create_process (\<lambda>_. 0) 4096 0 s;
     (_, s) \<leftarrow> cfs_create_process (\<lambda>_. 0) 8192 5 s;
     (_, s) \<leftarrow> cfs_create_process (\<lambda>_. 0) 12288 (- 5) s;
     cfs_ticks n s }"

lemma ticks_reach: "cfs_reach stk s \<Longrightarrow> cfs_ticks n s = Some s' \<Longrightarrow> cfs_reach stk s'"
  by (induction n arbitrary: s') (auto simp: bind_eq_Some_conv intro: cfs_reach.tick)

lemma demo_reach:
  assumes "cfs_demo n = Some s" shows "cfs_reach (\<lambda>_. 0) s"
proof -
  obtain s0 s1 s2 s3 where s: "cfs_init cfs_blank = Some s0"
    "\<exists>r. cfs_create_process (\<lambda>_. 0) 4096 0 s0 = Some (r, s1)"
    "\<exists>r. cfs_create_process (\<lambda>_. 0) 8192 5 s1 = Some (r, s2)"
    "\<exists>r. cfs_create_process (\<lambda>_. 0) 12288 (- 5) s2 = Some (r, s3)" "cfs_ticks n s3 = Some s"
    using assms unfolding cfs_demo_def by (auto simp: bind_eq_Some_conv)
  have "cfs_reach (\<lambda>_. 0) s0"
    by (rule cfs_reach.boot [OF _ _ s(1)]) (auto simp: cfs_blank_def split: if_splits)
  then have "cfs_reach (\<lambda>_. 0) s1" using s(2) cfs_reach.create by blast
  then have "cfs_reach (\<lambda>_. 0) s2" using s(3) cfs_reach.create by blast
  then have "cfs_reach (\<lambda>_. 0) s3" using s(4) cfs_reach.create by blast
  then show ?thesis using s(5) by (rule ticks_reach)
qed

text \<open>C3: in every reachable state \<open>cfs_pick_next_task\<close> returns \<open>NULL\<close> exactly when no task is queued, and otherwise a
  queued task whose virtual runtime is minimal among the queued tasks.\<close>

theorem cfs_pick_next_minimal:
  assumes "cfs_reach stk s"
  shows "case cfs_pick_next_task s of
      None \<Rightarrow> \<forall>i < MAX_PROCESSES. \<not> on_rq (ent s i)
    | Some p \<Rightarrow> p < MAX_PROCESSES \<and> on_rq (ent s p) \<and>
        (\<forall>i < MAX_PROCESSES. on_rq (ent s i) \<longrightarrow> vruntime (ent s p) \<le> vruntime (ent s i))"
proof -
  obtain xs where inv: "rq_inv xs s" using reach_inv [OF assms] by (auto simp: sched_inv_def)
  then have set: "set xs = {i. i < MAX_PROCESSES \<and> on_rq (ent s i)}"
    and sorted: "sorted_wrt (\<lambda>i j. vrt s i \<le> vrt s j) xs" by (auto simp: rq_inv_def)
  show ?thesis
  proof (cases xs)
    case Nil
    then show ?thesis using set by (simp add: queue_head [OF inv])
  next
    case (Cons x ys)
    have "x \<in> set xs" "\<forall>i \<in> set xs. vrt s x \<le> vrt s i" using Cons sorted by auto
    then show ?thesis using set unfolding queue_head [OF inv] by (auto simp: Cons)
  qed
qed

theorem cfs_pick_next_minimal_witness:
  "\<exists>s. cfs_demo 0 = Some s \<and> cfs_pick_next_task s = Some 0 \<and> on_rq (ent s 2) \<and>
     vruntime (ent s 0) \<le> vruntime (ent s 2)"
proof -
  have "map_option (\<lambda>s. (cfs_pick_next_task s, on_rq (ent s 2))) (cfs_demo 0) = Some (Some 0, True)"
    by code_simp
  then obtain s where s: "cfs_demo 0 = Some s" "cfs_pick_next_task s = Some 0" "on_rq (ent s 2)" by auto
  then show ?thesis using cfs_pick_next_minimal [OF demo_reach [OF s(1)]] by auto
qed

text \<open>C4: in every reachable state each process in use is either queued or current, and never both; an
  unused slot is neither.\<close>

theorem cfs_no_task_lost:
  assumes "cfs_reach stk s" "i < MAX_PROCESSES"
  shows "state (bas s i) \<noteq> PROC_UNUSED \<longleftrightarrow> on_rq (ent s i) \<noteq> (cfs_current s = Some i)"
proof -
  obtain xs where inv: "rq_inv xs s" "proc_inv s" "all_placed xs s"
    using reach_inv [OF assms(1)] by (auto simp: sched_inv_def)
  have "on_rq (ent s i) \<longleftrightarrow> i \<in> set xs" using inv(1) assms(2) by (auto simp: rq_inv_def)
  then show ?thesis
    using current_not_queued [OF inv(1,2)] used_iff [OF inv(1,2) assms(2)] inv(3) assms(2)
    by (auto simp: all_placed_def)
qed

theorem cfs_no_task_lost_witness:
  "\<exists>s. cfs_demo 1 = Some s \<and> cfs_current s = Some 0 \<and> \<not> on_rq (ent s 0) \<and> state (bas s 0) \<noteq> PROC_UNUSED"
proof -
  have "map_option (\<lambda>s. (cfs_current s, on_rq (ent s 0))) (cfs_demo 1) = Some (Some 0, False)"
    by code_simp
  then obtain s where s: "cfs_demo 1 = Some s" "cfs_current s = Some 0" "\<not> on_rq (ent s 0)" by auto
  then show ?thesis using cfs_no_task_lost [OF demo_reach [OF s(1)], of 0] by auto
qed

text \<open>What the unsigned comparison of \<open>cfs_check_preempt_curr\<close> decides.  If the current task is ahead, it is
  preempted when it is ahead by more than the granularity; if it is behind the new task by less than
  2^64 - 10^6 the subtraction wraps and it is preempted too.\<close>

theorem cfs_check_preempt_exact:
  "cfs_check_preempt_curr cur new \<longleftrightarrow>
     (if vruntime (se new) \<le> vruntime (se cur)
      then 1000000 < unat (vruntime (se cur)) - unat (vruntime (se new))
      else unat (vruntime (se new)) - unat (vruntime (se cur)) < 2 ^ 64 - 1000000)"
proof -
  have *: "((1000000 :: u64) < c - n) \<longleftrightarrow> (if n \<le> c then 1000000 < unat c - unat n
      else unat n - unat c < 2 ^ 64 - 1000000)" for c n :: u64
  proof (cases "n \<le> c")
    case True
    then show ?thesis by (simp add: word_less_nat_alt unat_sub)
  next
    case False
    then have "unat c < unat n" by (simp add: word_less_nat_alt not_le)
    moreover have "unat (c - n) = 2 ^ 64 + unat c - unat n"
      using False unat_sub_if_size [of c n] by (auto simp: word_size word_le_nat_alt)
    moreover have "unat n < 2 ^ 64" using unsigned_less [of n] by simp
    ultimately show ?thesis using False by (simp add: word_less_nat_alt) arith
  qed
  then show ?thesis by (simp add: cfs_check_preempt_curr_def)
qed

text \<open>For a delta below 4194304 ns the 32-bit arithmetic of \<open>calc_delta_fair\<close> is exact: the result is
  the delta times 1024 divided by the weight, rounded down.\<close>

theorem calc_delta_fair_exact:
  assumes "weight e \<noteq> 0" "unat delta < 2 ^ 22"
  shows "\<exists>d. calc_delta_fair delta e = Some d \<and> unat d = unat delta * 1024 div unat (weight e)"
proof -
  have u: "unat (ucast delta :: u32) = unat delta" using assms(2) by (intro unat_ucast_small) simp
  have m: "unat ((ucast delta :: u32) * 1024) = unat delta * 1024"
    using assms(2) u by (subst unat_mult_lem [THEN iffD1]) simp_all
  show ?thesis
  proof (cases "weight e = NICE_0_LOAD")
    case True
    then show ?thesis by (simp add: calc_delta_fair_def)
  next
    case False
    have "unat (ucast (((ucast delta :: u32) * 1024) div weight e) :: u64) = unat (((ucast delta :: u32) * 1024) div weight e)"
      using unsigned_less [of "((ucast delta :: u32) * 1024) div weight e", where ?'a = nat] by (intro unat_ucast_small) simp
    moreover have "delta < 0xFFFFFFFF" using assms(2) by (simp add: word_less_nat_alt)
    ultimately show ?thesis using False assms(1) by (simp add: calc_delta_fair_def Let_def unat_div m)
  qed
qed

text \<open>C10: the tick never fails in a reachable state, does not decrease \<open>min_vruntime\<close>, picks the leftmost task
  when the processor is idle, and hands the processor to no other task than the leftmost one.\<close>

theorem cfs_tick_total:
  assumes "cfs_reach stk s"
  shows "\<exists>s'. cfs_scheduler_tick s = Some s' \<and> min_vruntime s \<le> min_vruntime s' \<and>
    (cfs_current s = NULL \<longrightarrow> cfs_current s' = cfs_pick_next_task s) \<and>
    (cfs_current s' \<noteq> cfs_current s \<longrightarrow> cfs_current s' = cfs_pick_next_task s)"
proof -
  obtain xs where inv: "rq_inv xs s" "proc_inv s" using reach_inv [OF assms] by (auto simp: sched_inv_def)
  show ?thesis
  proof (cases "cfs_current s")
    case None
    then show ?thesis
      using tick_idle [OF inv None] queue_head [OF inv(1)] by (cases xs) auto
  next
    case (Some c)
    then show ?thesis using tick_busy [OF inv Some] queue_head [OF inv(1)] by force
  qed
qed

theorem cfs_tick_total_witness:
  "\<exists>s s'. cfs_demo 3 = Some s \<and> cfs_scheduler_tick s = Some s' \<and> min_vruntime s \<le> min_vruntime s' \<and>
     cfs_current s' = Some 2"
proof -
  have "map_option (\<lambda>s. (map_option cfs_current (cfs_scheduler_tick s))) (cfs_demo 3) = Some (Some (Some 2))"
    by code_simp
  then obtain s s' where s: "cfs_demo 3 = Some s" "cfs_scheduler_tick s = Some s'" "cfs_current s' = Some 2" by auto
  then show ?thesis using cfs_tick_total [OF demo_reach [OF s(1)]] by auto
qed

text \<open>C11: \<open>cfs_create_process\<close> never fails; it returns \<open>NULL\<close> and changes nothing exactly when all slots are in
  use, and otherwise takes the first unused slot, queues it ready with the weight of its nice value and
  the queue's minimal virtual runtime and leaves the other slots alone. Its trap frame is the one the code
  writes: all registers zero but the return address, which is the entry point, and the stack pointer,
  8 bytes below the end of the process's stack; \<open>sp\<close> and \<open>trap_frame\<close> give the frame at the end of that stack.\<close>

theorem cfs_create_correct:
  assumes "cfs_reach stk s"
  shows "\<exists>r s'. cfs_create_process stk entry n s = Some (r, s') \<and>
    (case r of
       None \<Rightarrow> s' = s \<and> (\<forall>i < MAX_PROCESSES. state (bas s i) \<noteq> PROC_UNUSED)
     | Some i \<Rightarrow> i < MAX_PROCESSES \<and> state (bas s i) = PROC_UNUSED \<and>
         (\<forall>j < i. state (bas s j) \<noteq> PROC_UNUSED) \<and>
         on_rq (ent s' i) \<and> state (bas s' i) = PROC_READY \<and>
         vruntime (ent s' i) = min_vruntime s \<and> weight (ent s' i) = nice_to_weight n \<and>
         frame (bas s' i) = (\<lambda>r. 0)(RA := entry, SP := stk i + 8184) \<and>
         sp (bas s' i) = stk i + 8068 \<and> trap_frame (bas s' i) = Some i \<and>
         (\<forall>j. j \<noteq> i \<longrightarrow> cfs_processes s' j = cfs_processes s j))"
proof -
  obtain xs where inv: "rq_inv xs s" "proc_inv s" using reach_inv [OF assms] by (auto simp: sched_inv_def)
  let ?find = "find (\<lambda>i. state (bas s i) = PROC_UNUSED) [0..<MAX_PROCESSES]"
  show ?thesis
  proof (cases ?find)
    case None
    then show ?thesis
      using create_full [OF inv(1)] by (intro exI [of _ None] exI [of _ s]) (simp add: find_None_iff del: upt_conv_Cons)
  next
    case (Some i)
    then have i: "i < MAX_PROCESSES" "state (bas s i) = PROC_UNUSED" "\<forall>j < i. state (bas s j) \<noteq> PROC_UNUSED"
      by (auto simp: find_Some_iff simp del: upt_conv_Cons)
    then obtain p where p: "cfs_processes s i = Some p" using rq_inv_proc [OF inv(1)] by blast
    obtain s' where "cfs_create_process stk entry n s = Some (Some i, s')"
      "cfs_processes s' = (cfs_processes s)(i \<mapsto> queued (created i (stk i) entry n (min_vruntime s) p))"
      using create_ok [OF inv Some p] by blast
    then show ?thesis using i
      by (intro exI [of _ "Some i"] exI [of _ s'])
        (simp add: ent_def bas_def queued_def created_def setup_process_def Let_def)
  qed
qed

theorem cfs_create_correct_witness:
  "\<exists>s s'. cfs_demo 4 = Some s \<and> cfs_create_process (\<lambda>_. 0) 16384 19 s = Some (Some 3, s') \<and>
     weight (ent s' 3) = 15 \<and> vruntime (ent s' 3) = min_vruntime s \<and> frame (bas s' 3) SP = 8184"
proof -
  have "map_option (\<lambda>s. map_option fst (cfs_create_process (\<lambda>_. 0) 16384 19 s)) (cfs_demo 4) = Some (Some (Some 3))"
    by code_simp
  then obtain s s' where s: "cfs_demo 4 = Some s" "cfs_create_process (\<lambda>_. 0) 16384 19 s = Some (Some 3, s')"
    by (auto split: prod.splits)
  moreover have "nice_to_weight 19 = 15" by code_simp
  ultimately show ?thesis using cfs_create_correct [OF demo_reach [OF s(1)], of 16384 19] by auto
qed

lemma sum_list_weights:
  assumes "length xs \<le> MAX_PROCESSES" "\<forall>i \<in> set xs. w i \<le> (88761 :: u32)"
  shows "unat (\<Sum>i\<leftarrow>xs. ucast (w i) :: u64) = (\<Sum>i\<leftarrow>xs. unat (w i)) \<and> (\<Sum>i\<leftarrow>xs. unat (w i)) \<le> length xs * 88761"
  using assms
proof (induction xs)
  case (Cons x xs)
  then have IH: "unat (\<Sum>i\<leftarrow>xs. ucast (w i) :: u64) = (\<Sum>i\<leftarrow>xs. unat (w i))" "(\<Sum>i\<leftarrow>xs. unat (w i)) \<le> length xs * 88761"
    by auto
  have w: "unat (ucast (w x) :: u64) = unat (w x)"
    using unsigned_less [of "w x", where ?'a = nat] by (intro unat_ucast_small) simp
  have "unat (w x) \<le> 88761" using Cons.prems(2) by (simp add: word_le_nat_alt)
  moreover have "length xs * 88761 \<le> 8 * 88761" using Cons.prems(1) by (intro mult_right_mono) auto
  ultimately show ?case using IH w by (simp add: unat_add_lem [THEN iffD1])
qed simp

text \<open>C12: in every reachable state \<open>nr_running\<close> is the number of queued tasks and \<open>total_weight\<close> the sum of their
  weights, without wrap-around.\<close>

theorem cfs_queue_counters:
  assumes "cfs_reach stk s"
  shows "unat (nr_running s) = card {i. i < MAX_PROCESSES \<and> on_rq (ent s i)} \<and>
    unat (total_weight s) = (\<Sum>i \<in> {i. i < MAX_PROCESSES \<and> on_rq (ent s i)}. unat (weight (ent s i)))"
proof -
  obtain xs where inv: "rq_inv xs s" "proc_inv s" using reach_inv [OF assms] by (auto simp: sched_inv_def)
  have D: "distinct xs" by (rule rq_inv_distinct [OF inv(1)])
  have set: "set xs = {i. i < MAX_PROCESSES \<and> on_rq (ent s i)}" using inv(1) by (simp add: rq_inv_def)
  then have "set xs \<subseteq> {..<MAX_PROCESSES}" by auto
  then have len: "length xs \<le> MAX_PROCESSES" using card_mono [of "{..<MAX_PROCESSES}" "set xs"] D
    by (simp add: distinct_card)
  have "weight (ent s i) \<le> 88761" if "i \<in> set xs" for i
  proof -
    have "i < MAX_PROCESSES" "on_rq (ent s i)" using that set by auto
    then obtain p where "cfs_processes s i = Some p" "on_rq (se p)"
      using rq_inv_proc [OF inv(1)] by (force simp: ent_def)
    then show ?thesis using inv(2) nice_to_weight_range by (auto simp: proc_inv_def slot_ok_def ent_def)
  qed
  then have "unat (total_weight s) = (\<Sum>i\<leftarrow>xs. unat (weight (ent s i)))"
    using sum_list_weights [OF len, of "\<lambda>i. weight (ent s i)"] inv(1) by (simp add: rq_inv_def)
  also have "\<dots> = (\<Sum>i \<in> set xs. unat (weight (ent s i)))" using D by (simp add: sum_list_distinct_conv_sum_set)
  finally have w: "unat (total_weight s) = (\<Sum>i \<in> set xs. unat (weight (ent s i)))" .
  have "unat (nr_running s) = length xs"
    using inv(1) len by (simp add: rq_inv_def unat_of_nat)
  then show ?thesis using w D by (simp add: set [symmetric] distinct_card)
qed

theorem cfs_queue_counters_witness:
  "\<exists>s. cfs_demo 1 = Some s \<and> nr_running s = 2 \<and> card {i. i < MAX_PROCESSES \<and> on_rq (ent s i)} = 2"
proof -
  have "map_option nr_running (cfs_demo 1) = Some 2" by code_simp
  then obtain s where s: "cfs_demo 1 = Some s" "nr_running s = 2" by auto
  then show ?thesis using cfs_queue_counters [OF demo_reach [OF s(1)]] by auto
qed

text \<open>Enqueueing an unqueued task succeeds and puts it behind all tasks with a smaller or equal
  virtual runtime and before the others, so that tasks with equal virtual runtime keep their order of
  arrival.\<close>

theorem cfs_enqueue_order:
  assumes "rq_inv xs s" "i < MAX_PROCESSES" "\<not> on_rq (ent s i)"
  shows "\<exists>s'. cfs_enqueue_task (Some i) s = Some s' \<and>
    rq_inv (filter (\<lambda>j. vruntime (ent s j) \<le> vruntime (ent s i)) xs @ i #
            filter (\<lambda>j. vruntime (ent s j) > vruntime (ent s i)) xs) s' \<and>
    min_vruntime s' = min_vruntime s \<and> cfs_current s' = cfs_current s"
proof -
  obtain p where "cfs_processes s i = Some p" using rq_inv_proc [OF assms(1,2)] by blast
  moreover have "i \<notin> set xs" using assms by (auto simp: rq_inv_def)
  ultimately show ?thesis
    using enqueue_ok [OF assms(1,2)] unfolding rank_in_def not_le by blast
qed

lemma blank_init: "\<exists>s. cfs_init cfs_blank = Some s \<and> rq_inv [] s \<and> \<not> on_rq (ent s 7)"
proof -
  have "dom (cfs_processes cfs_blank) = {..<MAX_PROCESSES}" "dom (nodes (tree cfs_blank)) = {..<MAX_PROCESSES}"
    by (auto simp: cfs_blank_def split: if_splits)
  then show ?thesis using init_ok [of cfs_blank] by (auto simp: rq_inv_def)
qed

theorem cfs_enqueue_order_witness:
  "\<exists>s s'. cfs_init cfs_blank = Some s \<and> cfs_enqueue_task (Some 7) s = Some s' \<and> rq_inv [7] s'"
proof -
  obtain s where s: "cfs_init cfs_blank = Some s" "rq_inv [] s" "\<not> on_rq (ent s 7)" using blank_init by blast
  then show ?thesis using cfs_enqueue_order [OF s(2), of 7] by auto
qed

text \<open>Dequeueing a queued task succeeds, removes just that task from the queue's order (the cached
  leftmost pointer and the counters included) and does not decrease \<open>min_vruntime\<close>.\<close>

theorem cfs_dequeue_order:
  assumes "rq_inv xs s" "i \<in> set xs" "cur_in_range s"
  shows "\<exists>s'. cfs_dequeue_task (Some i) s = Some s' \<and> rq_inv (remove1 i xs) s' \<and> min_vruntime s \<le> min_vruntime s'"
proof -
  have "i < MAX_PROCESSES" using assms(1,2) by (auto simp: rq_inv_def)
  then obtain p where p: "cfs_processes s i = Some p" using rq_inv_proc [OF assms(1)] by blast
  then show ?thesis using dequeue_exec [OF assms(1,2) p assms(3)] dequeue_inv [OF assms(1,2) p refl] by fastforce
qed

theorem cfs_dequeue_order_witness:
  "\<exists>s s' s''. cfs_init cfs_blank = Some s \<and> cfs_enqueue_task (Some 7) s = Some s' \<and>
     cfs_dequeue_task (Some 7) s' = Some s'' \<and> rq_inv [] s''"
proof -
  obtain s where s: "cfs_init cfs_blank = Some s" "rq_inv [] s" "\<not> on_rq (ent s 7)" using blank_init by blast
  then obtain p where "cfs_processes s 7 = Some p" using rq_inv_proc [of "[]" s 7] by auto
  then obtain s' where s': "cfs_enqueue_task (Some 7) s = Some s'" "rq_inv [7] s'" "cfs_current s' = cfs_current s"
    using enqueue_ok [OF s(2), of 7] by (auto simp: rank_in_def)
  have "map_option cfs_current (cfs_init cfs_blank) = Some None" by code_simp
  then have "cur_in_range s'" using s(1) s'(3) by (simp add: cur_in_range_def)
  then show ?thesis using cfs_dequeue_order [OF s'(2), of 7] s(1) s'(1) by auto
qed

text \<open>A higher nice value never has a higher weight, and every weight lies between 15 and 88761, for nice
  values outside the table too.\<close>

theorem nice_to_weight_antitone:
  "(m \<le> n \<longrightarrow> nice_to_weight n \<le> nice_to_weight m) \<and> 15 \<le> nice_to_weight n \<and> nice_to_weight n \<le> 88761"
proof -
  have s: "sorted_wrt (\<lambda>a b. b \<le> a) prio_to_weight" by (simp add: prio_to_weight_def)
  have l: "length prio_to_weight = 40" by (simp add: prio_to_weight_def)
  have "nice_to_weight n \<le> nice_to_weight m" if "m \<le> n"
  proof -
    define c where "c k = nat ((if k < - 20 then - 20 else if k > 19 then 19 else k) + 20 :: int)" for k
    have "nice_to_weight k = prio_to_weight ! c k" for k by (simp add: nice_to_weight_def c_def Let_def)
    moreover have "c m \<le> c n" "c n < 40" using that by (auto simp: c_def)
    ultimately show ?thesis using sorted_wrt_nth_less [OF s, of "c m" "c n"] l by (cases "c m = c n") auto
  qed
  then show ?thesis using nice_to_weight_range by blast
qed

theorem nice_to_weight_antitone_witness: "nice_to_weight 19 \<le> nice_to_weight (- 30)"
  using nice_to_weight_antitone [of "- 30" 19] by simp

lemma update_curr_inv:
  assumes inv: "rq_inv xs s" "proc_inv s" and c: "cfs_current s = Some c" and u: "cfs_update_curr (Some c) s = Some s1"
  shows "\<exists>p1. cfs_processes s1 c = Some p1 \<and> rq_inv xs s1 \<and> proc_inv s1 \<and> cfs_current s1 = Some c"
proof -
  obtain p where p: "cfs_processes s c = Some p"
    using rq_inv_proc [OF inv(1), of c] inv(2) c by (auto simp: proc_inv_def)
  obtain p1 where s1: "rq_inv xs s1" "cfs_current s1 = Some c" "cfs_processes s1 = (cfs_processes s)(c \<mapsto> p1)"
    and p1: "base p1 = base p" "nice p1 = nice p" "weight (se p1) = weight (se p)" "on_rq (se p1) = on_rq (se p)"
    using update_curr_exec [OF inv c p] u by auto
  have "proc_inv s1"
    using inv(2) c p s1(2,3) p1 slot_ok_base [of c p p1] by (auto simp: proc_inv_def bas_def)
  then show ?thesis using s1 by simp
qed

text \<open>C25: the unsigned comparison of \<open>cfs_check_preempt_curr\<close> preempts a task that is behind. In every
  reachable state in which, after the tick has charged the current task \<open>c\<close>, the first queued task \<open>x\<close> has a
  larger virtual runtime than \<open>c\<close> (by less than 2^64 - 10^6, so in any real run), the tick switches to \<open>x\<close> and
  puts \<open>c\<close> back in the queue, although \<open>c\<close> has received strictly less virtual runtime than every queued task.\<close>

theorem cfs_preempts_task_behind:
  assumes "cfs_reach stk s" "cfs_current s = Some c" "cfs_update_curr (Some c) s = Some s1"
    "cfs_pick_next_task s1 = Some x" "vruntime (ent s1 c) < vruntime (ent s1 x)"
    "unat (vruntime (ent s1 x)) - unat (vruntime (ent s1 c)) < 2 ^ 64 - 1000000"
  shows "\<exists>s'. cfs_scheduler_tick s = Some s' \<and> cfs_current s' = Some x \<and> on_rq (ent s' c) \<and>
    (\<forall>i < MAX_PROCESSES. on_rq (ent s1 i) \<longrightarrow> vruntime (ent s1 c) < vruntime (ent s1 i))"
proof -
  obtain xs where inv: "rq_inv xs s" "proc_inv s" using reach_inv [OF assms(1)] by (auto simp: sched_inv_def)
  obtain p1 where p1: "cfs_processes s1 c = Some p1" and inv1: "rq_inv xs s1" "proc_inv s1" and c1: "cfs_current s1 = Some c"
    using update_curr_inv [OF inv assms(2,3)] by blast
  obtain ys where xs: "xs = x # ys" using assms(4) unfolding queue_head [OF inv1(1)] by (cases xs) auto
  have members: "set xs = {i. i < MAX_PROCESSES \<and> on_rq (ent s1 i)}" using inv1(1) by (simp add: rq_inv_def)
  then have "x < MAX_PROCESSES" using xs by auto
  then obtain q where q: "cfs_processes s1 x = Some q" using rq_inv_proc [OF inv1(1)] by blast
  obtain s3 ys' where s3: "do { s \<leftarrow> upd_base (Some c) (\<lambda>b. b\<lparr>state := PROC_READY\<rparr>) s1;
      s \<leftarrow> upd_se (Some c) (\<lambda>e. e\<lparr>exec_start := 0\<rparr>) s; s \<leftarrow> cfs_enqueue_task (Some c) s;
      cfs_run_task (Some x) s } = Some s3"
    "rq_inv ys' s3" "set ys' = insert c (set ys)" "cfs_current s3 = Some x"
    using preempt_ok [OF inv1(1) [unfolded xs] inv1(2) c1 p1] by blast
  have "cfs_check_preempt_curr p1 q"
    using assms(5,6) p1 q by (simp add: cfs_check_preempt_exact ent_def not_le)
  then have "cfs_scheduler_tick s = Some s3"
    using assms(2-4) p1 q s3(1) by (simp add: cfs_scheduler_tick_def Let_def)
  moreover have "on_rq (ent s3 c)" using s3(2,3) by (auto simp: rq_inv_def)
  moreover have "vruntime (ent s1 x) \<le> vruntime (ent s1 i)" if "i \<in> set xs" for i
    using that inv1(1) xs by (auto simp: rq_inv_def)
  ultimately show ?thesis using s3(4) assms(5) members by (blast intro: less_le_trans)
qed

theorem cfs_preempts_task_behind_witness:
  "\<exists>s s1 s'. cfs_demo 4 = Some s \<and> cfs_update_curr (Some 2) s = Some s1 \<and> vruntime (ent s1 2) = 328099 \<and>
     vruntime (ent s1 0) = 2000000 \<and> cfs_scheduler_tick s = Some s' \<and> cfs_current s' = Some 0 \<and> on_rq (ent s' 2)"
proof -
  have "map_option (\<lambda>s. (cfs_current s, map_option (\<lambda>s1. (vruntime (ent s1 2), vruntime (ent s1 0), cfs_pick_next_task s1))
      (cfs_update_curr (Some 2) s))) (cfs_demo 4) = Some (Some 2, Some (328099, 2000000, Some 0))" by code_simp
  then obtain s s1 where s: "cfs_demo 4 = Some s" "cfs_current s = Some 2" "cfs_update_curr (Some 2) s = Some s1"
    "cfs_pick_next_task s1 = Some 0" "vruntime (ent s1 2) = 328099" "vruntime (ent s1 0) = 2000000" by auto
  then show ?thesis using cfs_preempts_task_behind [OF demo_reach [OF s(1)] s(2-4)] by auto
qed

text \<open>At a delta of 4194304 ns the 32-bit product wraps to zero, so a task whose weight is not 1024
  is charged nothing for 4.19 ms of execution.\<close>

theorem calc_delta_fair_wraps:
  assumes "weight e \<noteq> 0" "weight e \<noteq> 1024"
  shows "calc_delta_fair 4194304 e = Some 0"
proof -
  have wrap: "(ucast (4194304 :: u64) :: u32) * NICE_0_LOAD = 0" by code_simp
  show ?thesis unfolding calc_delta_fair_def Let_def wrap using assms by simp
qed

theorem calc_delta_fair_wraps_witness:
  "calc_delta_fair 4194304 \<lparr>vruntime = 0, exec_start = 1, sum_exec_runtime = 0, weight = 15, on_rq = False\<rparr> = Some 0"
  by (rule calc_delta_fair_wraps) simp_all

theorem calc_delta_fair_exact_witness:
  "\<exists>d. calc_delta_fair 1000000 \<lparr>vruntime = 0, exec_start = 1, sum_exec_runtime = 0, weight = 335, on_rq = False\<rparr> = Some d \<and>
     unat d = 3056716"
  using calc_delta_fair_exact [of "\<lparr>vruntime = 0, exec_start = 1, sum_exec_runtime = 0, weight = 335, on_rq = False\<rparr>" 1000000]
  by simp

end
