(* ===== verification/Kmalloc.thy ===== *)
theory Kmalloc
  imports Kernel_Prelude
begin

text \<open>
  The first-fit allocator of src/kernel.c (\<open>memory_init\<close>, \<open>kmalloc\<close>, \<open>kfree\<close>,
  \<open>print_memory_stats\<close>).  An address is the byte offset from the start of the array \<open>heap\<close>, as a 32-bit
  word; the headers that the code keeps inside the array form a partial heap of their own.
\<close>

unbundle bit_operations_syntax

section \<open>State\<close>

record mem_block =
  is_free :: bool
  size :: u32
  "next" :: "u32 ptr"

record kheap =
  headers :: "u32 \<rightharpoonup> mem_block"
  free_list :: "u32 ptr"

abbreviation (input) "HEAP_SIZE \<equiv> 4194304"
abbreviation (input) "sizeof_mem_block \<equiv> 12"

text \<open>Writing a header; the twelve bytes have to lie in the array.\<close>

definition put_block :: "u32 \<Rightarrow> mem_block \<Rightarrow> kheap \<Rightarrow> kheap option" where
  "put_block a b s = (if unat a + sizeof_mem_block \<le> HEAP_SIZE then Some (s\<lparr>headers := (headers s)(a \<mapsto> b)\<rparr>) else None)"

section \<open>Operations\<close>

definition memory_init :: "kheap \<Rightarrow> kheap option" where
  "memory_init s = put_block 0 \<lparr>is_free = True, size = HEAP_SIZE - sizeof_mem_block, next = NULL\<rparr>
     (s\<lparr>free_list := Some 0\<rparr>)"

text \<open>The loop of \<open>kmalloc\<close> from the block \<open>cur\<close> on; \<open>n\<close> is the rounded size.\<close>

partial_function (option) kmalloc_scan :: "u32 \<Rightarrow> u32 ptr \<Rightarrow> kheap \<Rightarrow> (u32 ptr \<times> kheap) option" where
  "kmalloc_scan n cur s =
     (case cur of None \<Rightarrow> Some (NULL, s)
      | Some a \<Rightarrow> do {
          b \<leftarrow> headers s a;
          if is_free b \<and> size b \<ge> n then do {
            (b, s) \<leftarrow> (if size b > n + sizeof_mem_block then do {
                let new_block = a + sizeof_mem_block + n;
                s \<leftarrow> put_block new_block
                  \<lparr>is_free = True, size = size b - n - sizeof_mem_block, next = next b\<rparr> s;
                let b = b\<lparr>size := n, next := Some new_block\<rparr>;
                s \<leftarrow> put_block a b s;
                Some (b, s) }
              else Some (b, s));
            s \<leftarrow> put_block a (b\<lparr>is_free := False\<rparr>) s;
            Some (Some (a + sizeof_mem_block), s) }
          else kmalloc_scan n (next b) s })"

declare kmalloc_scan.simps [code]

definition kmalloc :: "u32 \<Rightarrow> kheap \<Rightarrow> (u32 ptr \<times> kheap) option" where
  "kmalloc n s =
     (if n = 0 then Some (NULL, s)
      else let n = (n + 7) AND NOT 7 in kmalloc_scan n (free_list s) s)"

text \<open>The coalescing loop of \<open>kfree\<close>.\<close>

partial_function (option) kfree_merge :: "u32 ptr \<Rightarrow> kheap \<Rightarrow> kheap option" where
  "kfree_merge cur s =
     (case cur of None \<Rightarrow> Some s
      | Some a \<Rightarrow> do {
          b \<leftarrow> headers s a;
          case next b of None \<Rightarrow> Some s
          | Some n \<Rightarrow> do {
              (b, s) \<leftarrow> (if is_free b then do {
                  nb \<leftarrow> headers s n;
                  if is_free nb \<and> a + sizeof_mem_block + size b = n then do {
                    let b = b\<lparr>size := size b + (sizeof_mem_block + size nb), next := next nb\<rparr>;
                    s \<leftarrow> put_block a b s;
                    Some (b, s) }
                  else Some (b, s) }
                else Some (b, s));
              kfree_merge (next b) s } })"

declare kfree_merge.simps [code]

definition kfree :: "u32 ptr \<Rightarrow> kheap \<Rightarrow> kheap option" where
  "kfree p s =
     (case p of None \<Rightarrow> Some s
      | Some p \<Rightarrow> do {
          let block = p - sizeof_mem_block;
          b \<leftarrow> headers s block;
          s \<leftarrow> put_block block (b\<lparr>is_free := True\<rparr>) s;
          kfree_merge (free_list s) s })"

text \<open>The three numbers that \<open>print_memory_stats\<close> prints.  Its sums add a \<open>size_t\<close> to an \<open>int\<close>: the sum is taken
  in 32 bits and read back as a signed number.\<close>

definition int_add :: "int \<Rightarrow> u32 \<Rightarrow> int" where
  "int_add i w = sint (word_of_int i + w)"

partial_function (option) memory_stats_scan ::
  "u32 ptr \<Rightarrow> int \<times> int \<times> int \<Rightarrow> kheap \<Rightarrow> (int \<times> int \<times> int) option" where
  "memory_stats_scan cur acc s =
     (case cur of None \<Rightarrow> Some acc
      | Some a \<Rightarrow> do {
          let (blocks, total_free, total_used) = acc;
          b \<leftarrow> headers s a;
          let acc = (if is_free b then (blocks + 1, int_add total_free (size b), total_used)
                  else (blocks + 1, total_free, int_add total_used (size b)));
          memory_stats_scan (next b) acc s })"

declare memory_stats_scan.simps [code]

definition print_memory_stats :: "kheap \<Rightarrow> (int \<times> int \<times> int) option" where
  "print_memory_stats s = memory_stats_scan (free_list s) (0, 0, 0) s"

section \<open>Reference: first fit on a list of blocks\<close>

text \<open>The abstract heap is the list of the blocks in address order, each with its flag and size; the
  addresses follow from the sizes.\<close>

type_synonym blocks = "(bool \<times> nat) list"

fun span :: "blocks \<Rightarrow> nat" where
  "span [] = 0"
| "span ((f, n) # bs) = sizeof_mem_block + n + span bs"

fun fit :: "nat \<Rightarrow> nat \<Rightarrow> blocks \<Rightarrow> (nat \<times> blocks) option" where
  "fit n a [] = None"
| "fit n a ((f, m) # bs) =
     (if f \<and> n \<le> m then
        Some (a + sizeof_mem_block,
          if m > n + sizeof_mem_block then (False, n) # (True, m - n - sizeof_mem_block) # bs else (False, m) # bs)
      else map_option (map_prod id (Cons (f, m))) (fit n (a + sizeof_mem_block + m) bs))"

fun coalesce :: "blocks \<Rightarrow> blocks" where
  "coalesce ((f, m) # (g, n) # bs) =
     (if f \<and> g then (True, m + (sizeof_mem_block + n)) # coalesce bs else (f, m) # coalesce ((g, n) # bs))"
| "coalesce bs = bs"

text \<open>Marking the block with payload address \<open>p\<close> as free.\<close>

fun release :: "nat \<Rightarrow> nat \<Rightarrow> blocks \<Rightarrow> blocks" where
  "release p a [] = []"
| "release p a ((f, n) # bs) =
     (if a + sizeof_mem_block = p then (True, n) # bs else (f, n) # release p (a + sizeof_mem_block + n) bs)"

text \<open>The allocated blocks: payload address and size.\<close>

fun live :: "nat \<Rightarrow> blocks \<Rightarrow> (nat \<times> nat) list" where
  "live a [] = []"
| "live a ((f, n) # bs) =
     (if f then live (a + sizeof_mem_block + n) bs else (a + sizeof_mem_block, n) # live (a + sizeof_mem_block + n) bs)"

section \<open>The heap invariant\<close>

fun chain :: "(u32 \<rightharpoonup> mem_block) \<Rightarrow> nat \<Rightarrow> blocks \<Rightarrow> bool" where
  "chain h a [] = True"
| "chain h a ((f, n) # bs) =
     (h (of_nat a) = Some \<lparr>is_free = f, size = of_nat n,
        next = (if bs = [] then NULL else Some (of_nat (a + sizeof_mem_block + n)))\<rparr> \<and>
      chain h (a + sizeof_mem_block + n) bs)"

definition heap_ok :: "blocks \<Rightarrow> kheap \<Rightarrow> bool" where
  "heap_ok bs s \<longleftrightarrow> bs \<noteq> [] \<and> span bs = HEAP_SIZE \<and> free_list s = Some 0 \<and> chain (headers s) 0 bs"

lemma of_nat_heap_inj:
  "a \<le> HEAP_SIZE \<Longrightarrow> b \<le> HEAP_SIZE \<Longrightarrow> (of_nat a :: u32) = of_nat b \<longleftrightarrow> a = b"
  by (simp add: word_of_nat_eq_iff take_bit_nat_eq_self)

lemma of_nat_heap_le:
  "a \<le> HEAP_SIZE \<Longrightarrow> b < 2 ^ 32 \<Longrightarrow> (of_nat b :: u32) \<le> of_nat a \<longleftrightarrow> b \<le> a"
  by (simp add: word_le_nat_alt unat_of_nat take_bit_nat_eq_self)

lemma of_nat_heap_less:
  "a \<le> HEAP_SIZE \<Longrightarrow> b < 2 ^ 32 \<Longrightarrow> (of_nat b :: u32) < of_nat a \<longleftrightarrow> b < a"
  by (simp add: word_less_nat_alt unat_of_nat take_bit_nat_eq_self)

lemma unat_heap [simp]: "a \<le> HEAP_SIZE \<Longrightarrow> unat (of_nat a :: u32) = a"
  by (simp add: unat_of_nat take_bit_nat_eq_self)

lemma put_block_at: "a + sizeof_mem_block \<le> HEAP_SIZE \<Longrightarrow>
    put_block (of_nat a) b s = Some (s\<lparr>headers := (headers s)(of_nat a \<mapsto> b)\<rparr>)"
  by (simp add: put_block_def)

text \<open>A header below the chain's start does not matter to it.\<close>

lemma chain_below:
  "x < a \<Longrightarrow> a + span bs \<le> HEAP_SIZE \<Longrightarrow> chain (h(of_nat x \<mapsto> b)) a bs = chain h a bs"
  by (induction h a bs rule: chain.induct) (simp_all add: of_nat_heap_inj)

section \<open>The code refines the reference\<close>

abbreviation at_block :: "nat \<Rightarrow> blocks \<Rightarrow> u32 ptr" where
  "at_block a bs \<equiv> (if bs = [] then NULL else Some (of_nat a))"

lemma fit_nonempty: "fit n a bs = Some (p, bs') \<Longrightarrow> bs \<noteq> [] \<and> bs' \<noteq> []"
  by (cases bs) (auto split: if_splits)

lemma span_fit: "fit n a bs = Some (p, bs') \<Longrightarrow> span bs' = span bs"
  by (induction n a bs arbitrary: bs' rule: fit.induct) (auto split: if_splits)

lemma scan_none:
  assumes "chain (headers s) a bs" "a + span bs \<le> HEAP_SIZE" "fit (unat n) a bs = None"
  shows "kmalloc_scan n (at_block a bs) s = Some (NULL, s)"
  using assms
proof (induction "unat n" a bs rule: fit.induct)
  case (1 a)
  then show ?case by (subst kmalloc_scan.simps) simp
next
  case (2 a f m bs)
  have "(n \<le> of_nat m) = (unat n \<le> m)"
    using 2(3) of_nat_heap_le [of m "unat n"] unsigned_less [of n, where ?'a = nat] by simp
  then show ?case using 2 by (subst kmalloc_scan.simps) (auto split: if_splits)
qed

lemma mem_block_filled: "(b :: mem_block)\<lparr>size := n, next := q, is_free := f\<rparr> = \<lparr>is_free = f, size = n, next = q\<rparr>"
  by (cases b) simp

lemma scan_split:
  assumes "headers s a = Some b" "is_free b" "n \<le> size b" "n + sizeof_mem_block < size b"
    and "unat a + sizeof_mem_block \<le> HEAP_SIZE" "unat (a + sizeof_mem_block + n) + sizeof_mem_block \<le> HEAP_SIZE"
  shows "kmalloc_scan n (Some a) s = Some (Some (a + sizeof_mem_block), s\<lparr>headers := (headers s)
     (a + sizeof_mem_block + n \<mapsto> \<lparr>is_free = True, size = size b - n - sizeof_mem_block, next = next b\<rparr>,
      a \<mapsto> \<lparr>is_free = False, size = n, next = Some (a + sizeof_mem_block + n)\<rparr>)\<rparr>)"
  using assms by (subst kmalloc_scan.simps) (simp add: put_block_def Let_def mem_block_filled)

lemma scan_whole:
  assumes "headers s a = Some b" "is_free b" "n \<le> size b" "\<not> n + sizeof_mem_block < size b"
    and "unat a + sizeof_mem_block \<le> HEAP_SIZE"
  shows "kmalloc_scan n (Some a) s = Some (Some (a + sizeof_mem_block), s\<lparr>headers := (headers s)(a \<mapsto> b\<lparr>is_free := False\<rparr>)\<rparr>)"
  using assms by (subst kmalloc_scan.simps) (simp add: put_block_def)

lemma scan_skip:
  assumes "headers s a = Some b" "\<not> (is_free b \<and> n \<le> size b)"
  shows "kmalloc_scan n (Some a) s = kmalloc_scan n (next b) s"
  using assms by (subst kmalloc_scan.simps) auto

text \<open>The block that fits is the first one: it is split or taken whole.\<close>

lemma scan_take_split:
  assumes b: "headers s (of_nat a) = Some \<lparr>is_free = True, size = of_nat m, next = at_block (a + 12 + m) bs\<rparr>"
    and ch: "chain (headers s) (a + 12 + m) bs" and bound: "a + 12 + m + span bs \<le> HEAP_SIZE"
    and split: "unat n + 12 < m"
  shows "\<exists>h. kmalloc_scan n (Some (of_nat a)) s = Some (Some (of_nat (a + 12)), s\<lparr>headers := h\<rparr>) \<and>
    chain h a ((False, unat n) # (True, m - unat n - 12) # bs) \<and> (\<forall>x < a. h (of_nat x) = headers s (of_nat x))"
proof -
  let ?b = "\<lparr>is_free = True, size = of_nat m, next = at_block (a + 12 + m) bs\<rparr>"
  have n: "unat n < 2 ^ 32" using unsigned_less [of n, where ?'a = nat] by simp
  have le: "n \<le> size ?b" "n + 12 < size ?b"
    using bound split of_nat_heap_le [of m "unat n"] of_nat_heap_less [of m "unat n + 12"] n by simp_all
  have new: "of_nat a + 12 + n = (of_nat (a + 12 + unat n) :: u32)" by simp
  have sub: "(of_nat m - n - 12 :: u32) = of_nat (m - unat n - 12)" using split by (simp add: of_nat_diff)
  have *: "a + 12 + unat n + 12 + (m - unat n - 12) = a + 12 + m" using split by simp
  let ?h = "(headers s)(of_nat (a + 12 + unat n) \<mapsto> \<lparr>is_free = True, size = of_nat (m - unat n - 12), next = next ?b\<rparr>,
      of_nat a \<mapsto> \<lparr>is_free = False, size = n, next = Some (of_nat (a + 12 + unat n))\<rparr>)"
  have "unat (of_nat (a + 12 + unat n) :: u32) + sizeof_mem_block \<le> HEAP_SIZE"
    using bound split by (subst unat_heap) simp_all
  then have "kmalloc_scan n (Some (of_nat a)) s = Some (Some (of_nat (a + 12)), s\<lparr>headers := ?h\<rparr>)"
    using scan_split [OF b, of n, unfolded new] le bound sub by simp
  moreover have "chain ?h (a + 12 + m) bs"
    using ch bound split chain_below [of a "a + 12 + m" bs] chain_below [of "a + 12 + unat n" "a + 12 + m" bs] by simp
  then have "chain ?h a ((False, unat n) # (True, m - unat n - 12) # bs)"
    using bound split unfolding chain.simps * by (simp add: of_nat_heap_inj del: of_nat_add)
  moreover have "\<forall>x < a. ?h (of_nat x) = headers s (of_nat x)"
    using bound split by (simp add: of_nat_heap_inj del: of_nat_add)
  ultimately show ?thesis by blast
qed

lemma scan_take_whole:
  assumes b: "headers s (of_nat a) = Some \<lparr>is_free = True, size = of_nat m, next = at_block (a + 12 + m) bs\<rparr>"
    and ch: "chain (headers s) (a + 12 + m) bs" and bound: "a + 12 + m + span bs \<le> HEAP_SIZE"
    and whole: "unat n \<le> m" "\<not> unat n + 12 < m"
  shows "\<exists>h. kmalloc_scan n (Some (of_nat a)) s = Some (Some (of_nat (a + 12)), s\<lparr>headers := h\<rparr>) \<and>
    chain h a ((False, m) # bs) \<and> (\<forall>x < a. h (of_nat x) = headers s (of_nat x))"
proof -
  let ?b = "\<lparr>is_free = True, size = of_nat m, next = at_block (a + 12 + m) bs\<rparr>"
  let ?h = "(headers s)(of_nat a \<mapsto> ?b\<lparr>is_free := False\<rparr>)"
  have n: "unat n < 2 ^ 32" using unsigned_less [of n, where ?'a = nat] by simp
  have "n \<le> size ?b" "\<not> n + 12 < size ?b"
    using bound whole of_nat_heap_le [of m "unat n"] of_nat_heap_less [of m "unat n + 12"] n by simp_all
  then have "kmalloc_scan n (Some (of_nat a)) s = Some (Some (of_nat (a + 12)), s\<lparr>headers := ?h\<rparr>)"
    using scan_whole [OF b, of n] bound by simp
  moreover have "chain ?h a ((False, m) # bs)"
    using ch bound chain_below [of a "a + 12 + m" bs] by simp
  moreover have "\<forall>x < a. ?h (of_nat x) = headers s (of_nat x)" using bound by (simp add: of_nat_heap_inj)
  ultimately show ?thesis by blast
qed

lemma scan_some:
  assumes "chain (headers s) a bs" "a + span bs \<le> HEAP_SIZE" "fit (unat n) a bs = Some (p, bs')"
  shows "\<exists>h. kmalloc_scan n (at_block a bs) s = Some (Some (of_nat p), s\<lparr>headers := h\<rparr>) \<and>
    chain h a bs' \<and> (\<forall>x < a. h (of_nat x) = headers s (of_nat x))"
  using assms
proof (induction "unat n" a bs arbitrary: bs' rule: fit.induct)
  case (2 a f m bs)
  let ?b = "\<lparr>is_free = f, size = of_nat m, next = at_block (a + 12 + m) bs\<rparr>"
  have b: "headers s (of_nat a) = Some ?b" and ch: "chain (headers s) (a + 12 + m) bs"
    and bound: "a + 12 + m + span bs \<le> HEAP_SIZE" using 2(2,3) by auto
  show ?case
  proof (cases "f \<and> unat n \<le> m")
    case True
    then show ?thesis
      using 2(4) b scan_take_split [OF _ ch bound, of n] scan_take_whole [OF _ ch bound, of n]
      by (cases "unat n + 12 < m") auto
  next
    case False
    then obtain bs'' where f: "fit (unat n) (a + 12 + m) bs = Some (p, bs'')" "bs' = (f, m) # bs''"
      using 2(4) by auto
    obtain h where h: "kmalloc_scan n (at_block (a + 12 + m) bs) s = Some (Some (of_nat p), s\<lparr>headers := h\<rparr>)"
      "chain h (a + 12 + m) bs''" "\<forall>x < a + 12 + m. h (of_nat x) = headers s (of_nat x)"
      using 2(1) [OF False ch bound f(1)] by blast
    have "(n \<le> of_nat m) = (unat n \<le> m)"
      using bound of_nat_heap_le [of m "unat n"] unsigned_less [of n, where ?'a = nat] by simp
    then have "kmalloc_scan n (Some (of_nat a)) s = kmalloc_scan n (next ?b) s"
      by (intro scan_skip [OF b]) (use False in auto)
    moreover have "h (of_nat a) = Some ?b" using h(3) b by auto
    ultimately show ?thesis using h f(2) fit_nonempty [OF f(1)] by auto
  qed
qed simp

section \<open>Release\<close>

lemma merge_end:
  "kfree_merge None s = Some s"
  "headers s a = Some b \<Longrightarrow> next b = None \<Longrightarrow> kfree_merge (Some a) s = Some s"
  by (subst kfree_merge.simps; simp)+

lemma merge_join:
  assumes "headers s a = Some b" "next b = Some n" "is_free b" "headers s n = Some nb" "is_free nb"
    and "a + sizeof_mem_block + size b = n" "unat a + sizeof_mem_block \<le> HEAP_SIZE"
  shows "kfree_merge (Some a) s = kfree_merge (next nb)
    (s\<lparr>headers := (headers s)(a \<mapsto> b\<lparr>size := size b + (sizeof_mem_block + size nb), next := next nb\<rparr>)\<rparr>)"
  using assms by (subst kfree_merge.simps) (simp add: put_block_def Let_def)

lemma merge_skip:
  assumes "headers s a = Some b" "next b = Some n" "headers s n = Some nb" "\<not> (is_free b \<and> is_free nb)"
  shows "kfree_merge (Some a) s = kfree_merge (Some n) s"
  using assms by (subst kfree_merge.simps) auto

lemma coalesce_Nil [simp]: "coalesce bs = [] \<longleftrightarrow> bs = []"
  by (induction bs rule: coalesce.induct) auto

lemma span_coalesce [simp]: "span (coalesce bs) = span bs"
  by (induction bs rule: coalesce.induct) auto

lemma merge_ok:
  assumes "chain (headers s) a bs" "a + span bs \<le> HEAP_SIZE"
  shows "\<exists>h. kfree_merge (at_block a bs) s = Some (s\<lparr>headers := h\<rparr>) \<and> chain h a (coalesce bs) \<and>
    (\<forall>x < a. h (of_nat x) = headers s (of_nat x))"
  using assms
proof (induction bs arbitrary: a s rule: coalesce.induct [case_names 1 none single])
  case (1 f m g n bs)
  let ?b = "\<lparr>is_free = f, size = of_nat m, next = Some (of_nat (a + 12 + m))\<rparr>"
  let ?nb = "\<lparr>is_free = g, size = of_nat n, next = at_block (a + 12 + m + 12 + n) bs\<rparr>"
  have b: "headers s (of_nat a) = Some ?b" and nb: "headers s (of_nat (a + 12 + m)) = Some ?nb"
    and ch: "chain (headers s) (a + 12 + m + 12 + n) bs" "chain (headers s) (a + 12 + m) ((g, n) # bs)"
    and bound: "a + 12 + m + 12 + n + span bs \<le> HEAP_SIZE" using 1(3,4) by auto
  show ?case
  proof (cases "f \<and> g")
    case True
    let ?e = "a + 12 + m + 12 + n"
    define b' where "b' = \<lparr>is_free = True, size = (of_nat (m + (12 + n)) :: u32), next = at_block ?e bs\<rparr>"
    define s2 where "s2 = s\<lparr>headers := (headers s)(of_nat a \<mapsto> b')\<rparr>"
    have "kfree_merge (Some (of_nat a)) s = kfree_merge (at_block ?e bs) s2"
      using merge_join [OF b _ _ nb] True bound by (simp add: s2_def b'_def)
    moreover have "chain (headers s2) ?e bs"
      using ch(1) bound chain_below [of a ?e bs] by (simp add: s2_def)
    from 1(1) [OF True this bound]
    obtain h where h: "kfree_merge (at_block ?e bs) s2 = Some (s2\<lparr>headers := h\<rparr>)"
      "chain h ?e (coalesce bs)" "\<forall>x < ?e. h (of_nat x) = headers s2 (of_nat x)"
      by blast
    have shift: "a + 12 + (m + (12 + n)) = ?e" by simp
    have "h (of_nat a) = Some b'" using h(3) by (simp add: s2_def)
    moreover have "coalesce ((f, m) # (g, n) # bs) = (True, m + (12 + n)) # coalesce bs" using True by simp
    ultimately have "chain h a (coalesce ((f, m) # (g, n) # bs))"
      using h(2) by (simp only: chain.simps shift) (simp add: b'_def)
    moreover have "kfree_merge (Some (of_nat a)) s = kfree_merge (at_block ?e bs) s2" by fact
    moreover have "\<forall>x < a. h (of_nat x) = headers s (of_nat x)"
      using h(3) bound by (simp add: s2_def of_nat_heap_inj)
    moreover have "s2\<lparr>headers := h\<rparr> = s\<lparr>headers := h\<rparr>" by (simp add: s2_def)
    ultimately show ?thesis using h(1) by (intro exI [of _ h]) simp
  next
    case False
    have "kfree_merge (Some (of_nat a)) s = kfree_merge (Some (of_nat (a + 12 + m))) s"
      by (rule merge_skip [OF b _ nb]) (use False in auto)
    moreover obtain h where h: "kfree_merge (Some (of_nat (a + 12 + m))) s = Some (s\<lparr>headers := h\<rparr>)"
      "chain h (a + 12 + m) (coalesce ((g, n) # bs))" "\<forall>x < a + 12 + m. h (of_nat x) = headers s (of_nat x)"
      using 1(2) [OF False ch(2)] bound by auto
    have "h (of_nat a) = Some ?b" using h(3) b by simp
    then have "chain h a (coalesce ((f, m) # (g, n) # bs))" using False h(2) by auto
    ultimately show ?thesis using h by auto
  qed
next
  case none
  then show ?case by (intro exI [of _ "headers s"]) (simp add: merge_end)
next
  case (single v)
  then show ?case by (cases v, intro exI [of _ "headers s"]) (auto simp: merge_end)
qed

lemma live_bounds: "(p, n) \<in> set (live a bs) \<Longrightarrow> a + sizeof_mem_block \<le> p \<and> p + n \<le> a + span bs"
  by (induction a bs rule: live.induct) (fastforce split: if_splits)+

lemma release_Nil [simp]: "release p a bs = [] \<longleftrightarrow> bs = []"
  by (cases "(p, a, bs)" rule: release.cases) auto

lemma span_release [simp]: "span (release p a bs) = span bs"
  by (induction p a bs rule: release.induct) auto

lemma release_chain:
  assumes "chain h a bs" "a + span bs \<le> HEAP_SIZE" "(p, n) \<in> set (live a bs)"
  shows "\<exists>b. h (of_nat (p - sizeof_mem_block)) = Some b \<and>
    chain (h(of_nat (p - sizeof_mem_block) \<mapsto> b\<lparr>is_free := True\<rparr>)) a (release p a bs)"
  using assms
proof (induction p a bs rule: release.induct)
  case (2 p a f m bs)
  show ?case
  proof (cases "a + 12 = p")
    case True
    then have p: "p - 12 = a" by simp
    let ?b = "\<lparr>is_free = f, size = of_nat m, next = at_block (a + 12 + m) bs\<rparr>"
    have "h (of_nat a) = Some ?b" using 2(2) by simp
    moreover have "chain (h(of_nat a \<mapsto> ?b\<lparr>is_free := True\<rparr>)) a (release p a ((f, m) # bs))"
      using 2(2,3) True chain_below [of a "a + 12 + m" bs] by simp
    ultimately show ?thesis unfolding p by blast
  next
    case False
    then have l: "(p, n) \<in> set (live (a + 12 + m) bs)" using 2(4) by (auto split: if_splits)
    from live_bounds [OF this] have "a + 12 + m + 12 \<le> p" "p \<le> HEAP_SIZE" using 2(3) by auto
    then have "(of_nat (p - 12) :: u32) \<noteq> of_nat a" by (subst of_nat_heap_inj) auto
    moreover have sub: "chain h (a + 12 + m) bs" "a + 12 + m + span bs \<le> HEAP_SIZE" using 2(2,3) by auto
    obtain b where "h (of_nat (p - 12)) = Some b"
      "chain (h(of_nat (p - 12) \<mapsto> b\<lparr>is_free := True\<rparr>)) (a + 12 + m) (release p (a + 12 + m) bs)"
      using 2(1) [OF False sub l] by blast
    ultimately have "chain (h(of_nat (p - 12) \<mapsto> b\<lparr>is_free := True\<rparr>)) a (release p a ((f, m) # bs))"
      using 2(2) False by simp
    then show ?thesis using \<open>h (of_nat (p - 12)) = Some b\<close> by blast
  qed
qed simp

section \<open>The entry points\<close>

definition round8 :: "u32 \<Rightarrow> u32" where
  "round8 n = (n + 7) AND NOT 7"

lemma kmalloc_none:
  assumes "heap_ok bs s" "n \<noteq> 0" "fit (unat (round8 n)) 0 bs = None"
  shows "kmalloc n s = Some (NULL, s)"
  using assms scan_none [of s 0 bs "round8 n"] by (simp add: heap_ok_def kmalloc_def round8_def)

lemma kmalloc_some:
  assumes "heap_ok bs s" "n \<noteq> 0" "fit (unat (round8 n)) 0 bs = Some (p, bs')"
  shows "\<exists>s'. kmalloc n s = Some (Some (of_nat p), s') \<and> heap_ok bs' s'"
proof -
  obtain h where "kmalloc_scan (round8 n) (Some 0) s = Some (Some (of_nat p), s\<lparr>headers := h\<rparr>)" "chain h 0 bs'"
    using assms scan_some [of s 0 bs "round8 n"] by (auto simp: heap_ok_def)
  then show ?thesis
    using assms span_fit [OF assms(3)] fit_nonempty [OF assms(3)]
    by (auto simp: heap_ok_def kmalloc_def round8_def)
qed

lemma kfree_ok:
  assumes "heap_ok bs s" "(p, n) \<in> set (live 0 bs)"
  shows "\<exists>s'. kfree (Some (of_nat p)) s = Some s' \<and> heap_ok (coalesce (release p 0 bs)) s'"
proof -
  have ch: "chain (headers s) 0 bs" and sp: "span bs = HEAP_SIZE" and fl: "free_list s = Some 0" and ne: "bs \<noteq> []"
    using assms(1) by (auto simp: heap_ok_def)
  obtain b where b: "headers s (of_nat (p - 12)) = Some b"
    "chain ((headers s)(of_nat (p - 12) \<mapsto> b\<lparr>is_free := True\<rparr>)) 0 (release p 0 bs)"
    using release_chain [OF ch _ assms(2)] sp by auto
  define s1 where "s1 = s\<lparr>headers := (headers s)(of_nat (p - 12) \<mapsto> b\<lparr>is_free := True\<rparr>)\<rparr>"
  have p: "12 \<le> p" "p \<le> HEAP_SIZE" using live_bounds [OF assms(2)] sp by auto
  then have block: "(of_nat p - 12 :: u32) = of_nat (p - 12)" by (simp add: of_nat_diff)
  have "put_block (of_nat (p - 12)) (b\<lparr>is_free := True\<rparr>) s = Some s1"
    using p by (subst put_block_at) (simp_all add: s1_def)
  then have "kfree (Some (of_nat p)) s = kfree_merge (at_block 0 (release p 0 bs)) s1"
    using b(1) fl ne by (simp add: kfree_def block s1_def)
  moreover obtain h where "kfree_merge (at_block 0 (release p 0 bs)) s1 = Some (s1\<lparr>headers := h\<rparr>)"
    "chain h 0 (coalesce (release p 0 bs))"
    using merge_ok [of s1 0 "release p 0 bs"] b(2) sp by (auto simp: s1_def)
  ultimately show ?thesis using sp fl ne by (intro exI [of _ "s1\<lparr>headers := h\<rparr>"]) (simp add: heap_ok_def s1_def)
qed

section \<open>What the reference does to the allocated blocks\<close>

lemma fit_None_iff: "fit n a bs = None \<longleftrightarrow> (\<forall>(f, m) \<in> set bs. f \<longrightarrow> m < n)"
  by (induction n a bs rule: fit.induct) auto

lemma fit_live:
  assumes "fit n a bs = Some (p, bs')"
  shows "\<exists>m \<ge> n. set (live a bs') = insert (p, m) (set (live a bs)) \<and> a + sizeof_mem_block \<le> p \<and> p + m \<le> a + span bs \<and>
    (\<forall>(q, k) \<in> set (live a bs). q + k + sizeof_mem_block \<le> p \<or> p + m + sizeof_mem_block \<le> q)"
  using assms
proof (induction n a bs arbitrary: bs' rule: fit.induct)
  case (2 n a f m bs)
  show ?case
  proof (cases "f \<and> n \<le> m")
    case True
    have far: "(q, k) \<in> set (live (a + 12 + m) bs) \<Longrightarrow> a + 12 + m + 12 \<le> q" for q k
      using live_bounds [of q k "a + 12 + m" bs] by simp
    show ?thesis
    proof (cases "m > n + 12")
      case split: True
      then have "a + 12 + n + 12 + (m - n - 12) = a + 12 + m" by simp
      then have "bs' = (False, n) # (True, m - n - 12) # bs" "p = a + 12" "live (a + 12 + n + 12 + (m - n - 12)) bs = live (a + 12 + m) bs"
        using 2(2) True split by auto
      then show ?thesis using True split by (intro exI [of _ n]) (auto dest: far)
    next
      case False
      then have "bs' = (False, m) # bs" "p = a + 12" using 2(2) True by auto
      then show ?thesis using True by (intro exI [of _ m]) (auto dest: far)
    qed
  next
    case False
    then obtain bs'' where f: "fit n (a + 12 + m) bs = Some (p, bs'')" "bs' = (f, m) # bs''" using 2(2) by auto
    then obtain m' where "n \<le> m'" "set (live (a + 12 + m) bs'') = insert (p, m') (set (live (a + 12 + m) bs))"
      "a + 12 + m + 12 \<le> p" "p + m' \<le> a + 12 + m + span bs"
      "\<forall>(q, k) \<in> set (live (a + 12 + m) bs). q + k + 12 \<le> p \<or> p + m' + 12 \<le> q"
      using 2(1) [OF False f(1)] by blast
    then show ?thesis using f(2) by (intro exI [of _ m']) auto
  qed
qed simp

lemma live_coalesce [simp]: "live a (coalesce bs) = live a bs"
  by (induction bs arbitrary: a rule: coalesce.induct) (auto simp: algebra_simps)

lemma live_release: "(p, n) \<in> set (live a bs) \<Longrightarrow> live a (release p a bs) = filter (\<lambda>x. fst x \<noteq> p) (live a bs)"
proof (induction p a bs rule: release.induct)
  case (2 p a f m bs)
  have far: "filter (\<lambda>x. fst x \<noteq> a + 12) (live (a + 12 + m) bs) = live (a + 12 + m) bs"
    using live_bounds [where a = "a + 12 + m" and bs = bs] by (force simp: filter_id_conv)
  show ?case
  proof (cases "a + 12 = p")
    case True
    then show ?thesis using far by (cases f) auto
  next
    case False
    then have "(p, n) \<in> set (live (a + 12 + m) bs)" using 2(2) by (auto split: if_splits)
    then show ?thesis using 2(1) [OF False] False by simp
  qed
qed simp

lemma live_sorted: "sorted_wrt (\<lambda>x y. fst x + snd x + sizeof_mem_block \<le> fst y) (live a bs)"
proof (induction a bs rule: live.induct)
  case (2 a f n bs)
  then show ?case using live_bounds [where a = "a + 12 + n" and bs = bs] by fastforce
qed simp

section \<open>Rounding\<close>

lemma and_not_mask: "(x :: 'a::len word) AND NOT (mask k) = push_bit k (drop_bit k x)"
  by (rule bit_word_eqI) (auto simp: bit_simps)

lemma and_not_7: "unat ((x :: u32) AND NOT 7) = unat x div 8 * 8"
proof -
  have "(7 :: u32) = mask 3" by (simp add: mask_eq_exp_minus_1)
  then have eq: "x AND NOT 7 = push_bit 3 (drop_bit 3 x)" by (simp only: and_not_mask)
  have "unat x div 8 * 8 \<le> unat x" by simp
  then have "unat x div 8 * 8 < 2 ^ 32" using unsigned_less [of x, where ?'a = nat] by simp
  then show ?thesis unfolding eq push_bit_eq_mult drop_bit_eq_div
    by (subst unat_mult_lem [THEN iffD1]) (simp_all add: unat_div)
qed

lemma round8_exact:
  assumes "unat n \<le> 2 ^ 32 - 8"
  shows "unat (round8 n) = (unat n + 7) div 8 * 8"
proof -
  have "unat (n + 7) = unat n + 7" using assms by (subst unat_add_lem [THEN iffD1]) simp_all
  then show ?thesis unfolding round8_def and_not_7 by simp
qed

lemma round8_wraps:
  assumes "2 ^ 32 - 8 < unat n"
  shows "round8 n = 0"
proof -
  have "unat (n + 7) < 8" using assms unsigned_less [of n, where ?'a = nat]
    by (simp add: unat_word_ariths take_bit_nat_def le_mod_geq)
  then have "unat (round8 n) = 0" unfolding round8_def and_not_7 by simp
  then show ?thesis by (simp add: unat_eq_zero)
qed

section \<open>Statistics\<close>

definition sum_free :: "blocks \<Rightarrow> nat" where
  "sum_free bs = sum_list (map snd (filter fst bs))"

definition sum_used :: "blocks \<Rightarrow> nat" where
  "sum_used bs = sum_list (map snd (filter (Not \<circ> fst) bs))"

lemma span_sums: "span bs = sizeof_mem_block * length bs + sum_free bs + sum_used bs"
  by (induction bs rule: span.induct) (auto simp: sum_free_def sum_used_def)

lemma int_add_small:
  assumes "0 \<le> i" "i + int n < 2 ^ 31" shows "int_add i (of_nat n) = i + int n"
proof -
  have "int_add i (of_nat n) = sint (word_of_int (i + int n) :: u32)" by (simp add: int_add_def)
  also have "\<dots> = i + int n"
    unfolding sint_uint uint_word_of_int_eq
    using assms by (simp add: signed_take_bit_int_eq_self take_bit_int_eq_self del: of_int_add)
  finally show ?thesis .
qed

lemma stats_scan:
  assumes "chain (headers s) a bs" "a + span bs \<le> HEAP_SIZE"
    and "0 \<le> f" "0 \<le> u" "f + int (sum_free bs) < 2 ^ 31" "u + int (sum_used bs) < 2 ^ 31"
  shows "memory_stats_scan (at_block a bs) (k, f, u) s =
    Some (k + int (length bs), f + int (sum_free bs), u + int (sum_used bs))"
  using assms
proof (induction bs arbitrary: a k f u)
  case Nil
  then show ?case by (subst memory_stats_scan.simps) (simp add: sum_free_def sum_used_def)
next
  case (Cons fn bs)
  obtain g n where fn: "fn = (g, n)" by (cases fn)
  show ?case
  proof (cases g)
    case True
    then have "int_add f (of_nat n) = f + int n"
      using Cons.prems fn by (intro int_add_small) (simp_all add: sum_free_def)
    then show ?thesis using Cons.IH [of "a + 12 + n" "f + int n" u "k + 1"] Cons.prems fn True
      by (subst memory_stats_scan.simps) (simp add: sum_free_def sum_used_def)
  next
    case False
    then have "int_add u (of_nat n) = u + int n"
      using Cons.prems fn by (intro int_add_small) (simp_all add: sum_used_def)
    then show ?thesis using Cons.IH [of "a + 12 + n" f "u + int n" "k + 1"] Cons.prems fn False
      by (subst memory_stats_scan.simps) (simp add: sum_free_def sum_used_def)
  qed
qed

end
