(* ===== verification/Kmalloc_Props.thy ===== *)
theory Kmalloc_Props
  imports Kmalloc
begin

text \<open>
  The contract of the allocator as its clients use it (a locale, interpreted on \<open>kmalloc\<close> and \<open>kfree\<close>),
  and the properties of the allocator.
\<close>

section \<open>The allocator interface\<close>

text \<open>\<open>rep L s\<close>: in state \<open>s\<close> the allocated blocks are those of the map \<open>L\<close> from payload pointers to sizes.\<close>

locale allocator =
  fixes rep :: "('a \<rightharpoonup> nat) \<Rightarrow> 's \<Rightarrow> bool"
    and alloc :: "u32 \<Rightarrow> 's \<Rightarrow> ('a ptr \<times> 's) option"
    and dealloc :: "'a ptr \<Rightarrow> 's \<Rightarrow> 's option"
  assumes alloc_total: "rep L s \<Longrightarrow> \<exists>r s'. alloc n s = Some (r, s')"
    and alloc_null: "rep L s \<Longrightarrow> alloc n s = Some (None, s') \<Longrightarrow> rep L s'"
    and alloc_some: "rep L s \<Longrightarrow> alloc n s = Some (Some p, s') \<Longrightarrow>
      p \<notin> dom L \<and> (\<exists>m. rep (L(p \<mapsto> m)) s' \<and> (unat n \<le> 2 ^ 32 - 8 \<longrightarrow> unat n \<le> m))"
    and dealloc_some: "rep L s \<Longrightarrow> p \<in> dom L \<Longrightarrow> \<exists>s'. dealloc (Some p) s = Some s' \<and> rep (L(p := None)) s'"
begin

lemma alloc_dealloc:
  assumes "rep L s" "alloc n s = Some (Some p, s')"
  shows "\<exists>s''. dealloc (Some p) s' = Some s'' \<and> rep L s''"
proof -
  obtain m where "p \<notin> dom L" "rep (L(p \<mapsto> m)) s'" using alloc_some [OF assms] by blast
  moreover from this(1) have "(L(p \<mapsto> m))(p := None) = L" by (simp add: domIff)
  ultimately show ?thesis using dealloc_some [of "L(p \<mapsto> m)" s' p] by simp
qed

end

section \<open>The kernel heap implements it\<close>

definition heap_rep :: "(u32 \<rightharpoonup> nat) \<Rightarrow> kheap \<Rightarrow> bool" where
  "heap_rep L s \<longleftrightarrow> (\<exists>bs. heap_ok bs s \<and> L = (\<lambda>p. map_of (live 0 bs) (unat p)))"

lemma sorted_spans_distinct:
  "sorted_wrt (\<lambda>x y. fst x + snd x + (12 :: nat) \<le> fst y) xs \<Longrightarrow> distinct (map fst xs)"
  by (induction xs) fastforce+

lemma live_distinct: "distinct (map fst (live a bs))"
  by (rule sorted_spans_distinct [OF live_sorted])

lemma map_of_filter_neq: "map_of (filter (\<lambda>x. fst x \<noteq> k) xs) j = (if j = k then None else map_of xs j)"
  by (induction xs) auto

lemma live_at: "(p, m) \<in> set (live a bs) \<longleftrightarrow> map_of (live a bs) p = Some m"
  using live_distinct [of a bs] by simp

lemma kmalloc_live:
  assumes "heap_ok bs s" "kmalloc n s = Some (Some q, s')"
  shows "\<exists>bs' m. heap_ok bs' s' \<and> set (live 0 bs') = insert (unat q, m) (set (live 0 bs)) \<and>
    sizeof_mem_block \<le> unat q \<and> unat q + m \<le> HEAP_SIZE \<and> (unat n \<le> 2 ^ 32 - 8 \<longrightarrow> unat n \<le> m) \<and>
    (\<forall>(p, k) \<in> set (live 0 bs). p + k + sizeof_mem_block \<le> unat q \<or> unat q + m + sizeof_mem_block \<le> p)"
proof -
  have n: "n \<noteq> 0" using assms(2) by (auto simp: kmalloc_def)
  obtain p bs' where f: "fit (unat (round8 n)) 0 bs = Some (p, bs')"
    using kmalloc_none [OF assms(1) n] assms(2) by (cases "fit (unat (round8 n)) 0 bs") auto
  then have ok: "heap_ok bs' s'" and q: "q = of_nat p" using kmalloc_some [OF assms(1) n f] assms(2) by auto
  obtain m where m: "unat (round8 n) \<le> m" "set (live 0 bs') = insert (p, m) (set (live 0 bs))" "12 \<le> p"
    "p + m \<le> span bs" "\<forall>(q, k) \<in> set (live 0 bs). q + k + 12 \<le> p \<or> p + m + 12 \<le> q"
    using fit_live [OF f] by auto
  have sp: "span bs = HEAP_SIZE" using assms(1) by (simp add: heap_ok_def)
  then have "unat q = p" using m(4) q by simp
  moreover have "unat n \<le> m" if "unat n \<le> 2 ^ 32 - 8" using round8_exact [OF that] m(1) by simp
  ultimately show ?thesis using ok m sp by auto
qed

lemma map_of_insert:
  assumes "distinct (map fst xs)" "distinct (map fst ys)" "set ys = insert (p, m) (set xs)" "p \<notin> fst ` set xs"
  shows "map_of ys = (map_of xs)(p \<mapsto> m)"
proof
  fix k
  show "map_of ys k = ((map_of xs)(p \<mapsto> m)) k"
  proof (cases "map_of xs k")
    case None
    then have "k \<noteq> p \<Longrightarrow> map_of ys k = None" using assms(3) by (auto simp: map_of_eq_None_iff)
    moreover have "map_of ys p = Some m" using assms(2,3) by simp
    ultimately show ?thesis using None by auto
  next
    case (Some v)
    then have "k \<noteq> p" "(k, v) \<in> set ys" using assms(3,4) by (force dest: map_of_SomeD)+
    then show ?thesis using Some assms(2) by simp
  qed
qed

lemma kmalloc_outcome:
  assumes "heap_ok bs s"
  shows "kmalloc n s = Some (None, s) \<or> (\<exists>p bs' s'. kmalloc n s = Some (Some p, s') \<and> heap_ok bs' s')"
proof (cases "n = 0")
  case True
  then show ?thesis by (simp add: kmalloc_def)
next
  case False
  then show ?thesis
    using kmalloc_none [OF assms] kmalloc_some [OF assms] by (cases "fit (unat (round8 n)) 0 bs") force+
qed

interpretation kh: allocator heap_rep kmalloc kfree
proof unfold_locales
  fix L s n
  assume "heap_rep L s"
  then obtain bs where bs: "heap_ok bs s" "L = (\<lambda>p. map_of (live 0 bs) (unat p))" by (auto simp: heap_rep_def)
  show "\<exists>r s'. kmalloc n s = Some (r, s')" using kmalloc_outcome [OF bs(1), of n] by blast
  show "heap_rep L s'" if "kmalloc n s = Some (None, s')" for s'
    using that kmalloc_outcome [OF bs(1), of n] \<open>heap_rep L s\<close> by auto
  show "p \<notin> dom L \<and> (\<exists>m. heap_rep (L(p \<mapsto> m)) s' \<and> (unat n \<le> 2 ^ 32 - 8 \<longrightarrow> unat n \<le> m))"
    if k: "kmalloc n s = Some (Some p, s')" for p s'
  proof -
    obtain bs' m where m: "heap_ok bs' s'" "set (live 0 bs') = insert (unat p, m) (set (live 0 bs))"
      "unat n \<le> 2 ^ 32 - 8 \<longrightarrow> unat n \<le> m"
      "\<forall>(q, k) \<in> set (live 0 bs). q + k + 12 \<le> unat p \<or> unat p + m + 12 \<le> q"
      using kmalloc_live [OF bs(1) k] by blast
    then have new: "unat p \<notin> fst ` set (live 0 bs)" by force
    have "map_of (live 0 bs') = (map_of (live 0 bs))(unat p \<mapsto> m)"
      by (rule map_of_insert [OF live_distinct live_distinct m(2) new])
    then have "heap_rep (L(p \<mapsto> m)) s'"
      using m(1) bs(2) by (intro heap_rep_def [THEN iffD2] exI [of _ bs'])
        (auto simp: fun_eq_iff word_unat_eq_iff)
    moreover have "p \<notin> dom L" using new bs(2) by (simp add: domIff map_of_eq_None_iff)
    ultimately show ?thesis using m(3) by blast
  qed
  show "\<exists>s'. kfree (Some p) s = Some s' \<and> heap_rep (L(p := None)) s'" if p: "p \<in> dom L" for p
  proof -
    obtain m where m: "(unat p, m) \<in> set (live 0 bs)" using p bs(2) by (auto dest: map_of_SomeD)
    obtain s' where s': "kfree (Some p) s = Some s'" "heap_ok (coalesce (release (unat p) 0 bs)) s'"
      using kfree_ok [OF bs(1) m] by auto
    have "live 0 (coalesce (release (unat p) 0 bs)) = filter (\<lambda>x. fst x \<noteq> unat p) (live 0 bs)"
      using live_release [OF m] by simp
    then have "L(p := None) = (\<lambda>q. map_of (live 0 (coalesce (release (unat p) 0 bs))) (unat q))"
      using bs(2) by (auto simp: fun_eq_iff map_of_filter_neq word_unat_eq_iff)
    then show ?thesis using s' by (auto simp: heap_rep_def)
  qed
qed

section \<open>Properties\<close>

lemma init_heap:
  "\<exists>s'. memory_init s = Some s' \<and> heap_ok [(True, 4194292)] s' \<and> heap_rep Map.empty s'"
proof -
  define s' where "s' = s\<lparr>free_list := Some 0, headers := (headers s)(0 \<mapsto> \<lparr>is_free = True, size = 4194292, next = NULL\<rparr>)\<rparr>"
  have "memory_init s = Some s'" by (simp add: memory_init_def put_block_def s'_def)
  moreover have ok: "heap_ok [(True, 4194292)] s'" by (simp add: heap_ok_def s'_def)
  moreover have "heap_rep Map.empty s'"
    unfolding heap_rep_def by (rule exI [of _ "[(True, 4194292)]"]) (simp add: ok)
  ultimately show ?thesis by blast
qed



text \<open>A successful \<open>kmalloc\<close> returns a payload that lies in the heap, is disjoint from every
  allocated block and its header, and is at least as long as requested (for requests up to
  2^32 - 8); all blocks allocated before stay allocated with their address and size.\<close>

theorem kmalloc_block_disjoint:
  assumes "heap_ok bs s" "kmalloc n s = Some (Some q, s')"
  shows "\<exists>bs' m. heap_ok bs' s' \<and> set (live 0 bs') = insert (unat q, m) (set (live 0 bs)) \<and>
    12 \<le> unat q \<and> unat q + m \<le> 4194304 \<and> (unat n \<le> 2 ^ 32 - 8 \<longrightarrow> unat n \<le> m) \<and>
    (\<forall>(p, k) \<in> set (live 0 bs). p + k + 12 \<le> unat q \<or> unat q + m + 12 \<le> p)"
  by (rule kmalloc_live [OF assms])

definition kmalloc_demo :: "kheap option" where
  "kmalloc_demo = do {
     s \<leftarrow> memory_init \<lparr>headers = Map.empty, free_list = NULL\<rparr>;
     (_, s) \<leftarrow> kmalloc 64 s; (_, s) \<leftarrow> kmalloc 128 s; (_, s) \<leftarrow> kmalloc 256 s; (_, s) \<leftarrow> kmalloc 8 s;
     Some s }"

lemma demo_heap: "\<exists>s. kmalloc_demo = Some s \<and> heap_ok [(False, 64), (False, 128), (False, 256), (False, 8), (True, 4193788)] s"
proof -
  obtain s0 where s0: "memory_init \<lparr>headers = Map.empty, free_list = NULL\<rparr> = Some s0" "heap_ok [(True, 4194292)] s0"
    using init_heap by blast
  have r: "unat (round8 64) = 64" "unat (round8 128) = 128" "unat (round8 256) = 256" "unat (round8 8) = 8"
    by code_simp+
  obtain s1 where s1: "kmalloc 64 s0 = Some (Some 12, s1)" "heap_ok [(False, 64), (True, 4194216)] s1"
    using kmalloc_some [OF s0(2), of 64] r by auto
  obtain s2 where s2: "kmalloc 128 s1 = Some (Some 88, s2)" "heap_ok [(False, 64), (False, 128), (True, 4194076)] s2"
    using kmalloc_some [OF s1(2), of 128] r by auto
  obtain s3 where s3: "kmalloc 256 s2 = Some (Some 228, s3)"
    "heap_ok [(False, 64), (False, 128), (False, 256), (True, 4193808)] s3"
    using kmalloc_some [OF s2(2), of 256] r by auto
  obtain s4 where s4: "kmalloc 8 s3 = Some (Some 496, s4)"
    "heap_ok [(False, 64), (False, 128), (False, 256), (False, 8), (True, 4193788)] s4"
    using kmalloc_some [OF s3(2), of 8] r by auto
  show ?thesis using s0(1) s1(1) s2(1) s3(1) s4 by (simp add: kmalloc_demo_def)
qed

theorem kmalloc_block_disjoint_witness:
  "\<exists>s s' bs' m. kmalloc_demo = Some s \<and> kmalloc 1000 s = Some (Some 516, s') \<and> heap_ok bs' s' \<and>
     set (live 0 bs') = {(516, m), (12, 64), (88, 128), (228, 256), (496, 8)} \<and> 1000 \<le> m"
proof -
  obtain s where s: "kmalloc_demo = Some s"
    "heap_ok [(False, 64), (False, 128), (False, 256), (False, 8), (True, 4193788)] s" using demo_heap by blast
  have "unat (round8 1000) = 1000" by code_simp
  then obtain s' where s': "kmalloc 1000 s = Some (Some 516, s')" using kmalloc_some [OF s(2), of 1000] by auto
  from kmalloc_block_disjoint [OF s(2) s'] show ?thesis using s(1) s' by auto
qed

text \<open>C27: \<open>kfree\<close> of an allocated block terminates, keeps the heap well-formed and frees just that block;
  \<open>kfree(NULL)\<close> does nothing.\<close>

theorem kfree_correct:
  assumes "heap_ok bs s" "(p, m) \<in> set (live 0 bs)"
  shows "\<exists>s' bs'. kfree (Some (of_nat p)) s = Some s' \<and> heap_ok bs' s' \<and>
    live 0 bs' = filter (\<lambda>x. fst x \<noteq> p) (live 0 bs) \<and> kfree NULL s = Some s"
proof -
  obtain s' where "kfree (Some (of_nat p)) s = Some s'" "heap_ok (coalesce (release p 0 bs)) s'"
    using kfree_ok [OF assms] by blast
  then show ?thesis using live_release [OF assms(2)]
    by (intro exI [of _ s'] exI [of _ "coalesce (release p 0 bs)"]) (simp add: kfree_def)
qed

theorem kfree_correct_witness:
  "\<exists>s s' bs'. kmalloc_demo = Some s \<and> kfree (Some 88) s = Some s' \<and> heap_ok bs' s' \<and>
     live 0 bs' = [(12, 64), (228, 256), (496, 8)]"
proof -
  obtain s where s: "kmalloc_demo = Some s"
    "heap_ok [(False, 64), (False, 128), (False, 256), (False, 8), (True, 4193788)] s" using demo_heap by blast
  then show ?thesis using kfree_correct [OF s(2), of 88 128] by auto
qed

text \<open>Freeing what \<open>kmalloc\<close> has just returned succeeds and gives back exactly the set of allocated
  blocks there was before.\<close>

theorem kmalloc_kfree_roundtrip:
  assumes "heap_rep L s" "kmalloc n s = Some (Some p, s')"
  shows "\<exists>s''. kfree (Some p) s' = Some s'' \<and> heap_rep L s''"
  by (rule kh.alloc_dealloc [OF assms])

theorem kmalloc_kfree_roundtrip_witness:
  "\<exists>s s' s''. memory_init \<lparr>headers = Map.empty, free_list = NULL\<rparr> = Some s \<and> kmalloc 20 s = Some (Some 12, s') \<and>
     kfree (Some 12) s' = Some s'' \<and> heap_rep Map.empty s''"
proof -
  obtain s where s: "memory_init \<lparr>headers = Map.empty, free_list = NULL\<rparr> = Some s" "heap_ok [(True, 4194292)] s"
    "heap_rep Map.empty s" using init_heap by blast
  have "unat (round8 20) = 24" by code_simp
  then obtain s' where "kmalloc 20 s = Some (Some 12, s')" using kmalloc_some [OF s(2), of 20] by auto
  then show ?thesis using kmalloc_kfree_roundtrip [OF s(3)] s(1) by blast
qed

text \<open>On a well-formed heap \<open>print_memory_stats\<close> prints the number of blocks and the sums of the free and
  used sizes, without overflow, and the headers and sizes always add up to the size of the heap: no
  byte is lost.\<close>

theorem memory_stats_conserved:
  assumes "heap_ok bs s"
  shows "print_memory_stats s = Some (int (length bs), int (sum_free bs), int (sum_used bs)) \<and>
    12 * length bs + sum_free bs + sum_used bs = 4194304"
proof -
  have sp: "12 * length bs + sum_free bs + sum_used bs = 4194304"
    using assms span_sums [of bs] by (simp add: heap_ok_def)
  then have "int (sum_free bs) < 2 ^ 31" "int (sum_used bs) < 2 ^ 31" by simp_all
  then show ?thesis using stats_scan [of s 0 bs 0 0 0] assms sp by (simp add: heap_ok_def print_memory_stats_def)
qed

theorem memory_stats_conserved_witness:
  "\<exists>s. kmalloc_demo = Some s \<and> print_memory_stats s = Some (5, 4193788, 456)"
proof -
  obtain s where s: "kmalloc_demo = Some s"
    "heap_ok [(False, 64), (False, 128), (False, 256), (False, 8), (True, 4193788)] s" using demo_heap by blast
  then show ?thesis using memory_stats_conserved [OF s(2)] by (auto simp: sum_free_def sum_used_def)
qed

text \<open>A request above 2^32 - 8 bytes is rounded to 0 and succeeds with whatever free block comes first,
  although the heap has 4 MB.\<close>

theorem kmalloc_huge_request:
  assumes "heap_ok bs s" "(True, m) \<in> set bs" "2 ^ 32 - 8 < unat n"
  shows "\<exists>p s'. kmalloc n s = Some (Some p, s')"
proof -
  have n: "n \<noteq> 0" using assms(3) by auto
  have "fit (unat (round8 n)) 0 bs \<noteq> None"
    using assms(2) round8_wraps [OF assms(3)] by (auto simp: fit_None_iff)
  then show ?thesis using kmalloc_some [OF assms(1) n] by fastforce
qed

theorem kmalloc_huge_request_witness:
  "\<exists>s p s'. memory_init \<lparr>headers = Map.empty, free_list = NULL\<rparr> = Some s \<and> kmalloc 0xFFFFFFFF s = Some (Some p, s')"
proof -
  obtain s where s: "memory_init \<lparr>headers = Map.empty, free_list = NULL\<rparr> = Some s" "heap_ok [(True, 4194292)] s"
    using init_heap by blast
  then show ?thesis using kmalloc_huge_request [OF s(2), where m = 4194292 and n = "0xFFFFFFFF"] by auto
qed

text \<open>One pass of coalescing does not merge three free neighbours: after freeing the first, third and
  second of four blocks, two adjacent free blocks remain.\<close>

theorem kfree_leaves_neighbours:
  "\<exists>s. do { s \<leftarrow> kmalloc_demo; s \<leftarrow> kfree (Some 12) s; s \<leftarrow> kfree (Some 228) s; kfree (Some 88) s } = Some s \<and>
     heap_ok [(True, 204), (True, 256), (False, 8), (True, 4193788)] s"
proof -
  obtain s0 where s0: "kmalloc_demo = Some s0"
    "heap_ok [(False, 64), (False, 128), (False, 256), (False, 8), (True, 4193788)] s0" using demo_heap by blast
  obtain s1 where s1: "kfree (Some 12) s0 = Some s1"
    "heap_ok [(True, 64), (False, 128), (False, 256), (False, 8), (True, 4193788)] s1"
    using kfree_ok [OF s0(2), of 12 64] by auto
  obtain s2 where s2: "kfree (Some 228) s1 = Some s2"
    "heap_ok [(True, 64), (False, 128), (True, 256), (False, 8), (True, 4193788)] s2"
    using kfree_ok [OF s1(2), of 228 256] by auto
  obtain s3 where "kfree (Some 88) s2 = Some s3" "heap_ok [(True, 204), (True, 256), (False, 8), (True, 4193788)] s3"
    using kfree_ok [OF s2(2), of 88 128] by auto
  then show ?thesis unfolding s0(1) Option.bind.simps s1(1) s2(1) by blast
qed

end
