(* ===== verification/Uart.thy ===== *)
theory Uart
  imports Kernel_Prelude
begin

text \<open>
  The UART driver and the keyboard input buffer of src/kernel.c.  The device itself is a parameter: a
  value of type \<open>uart_dev\<close> says what reading and writing a device register and waiting for an interrupt
  do to the state \<open>'w\<close> of the outside world.
\<close>

unbundle bit_operations_syntax

section \<open>Registers\<close>

record 'w uart_dev =
  reg_read :: "u32 \<Rightarrow> 'w \<Rightarrow> u8 \<times> 'w"
  reg_write :: "u32 \<Rightarrow> u8 \<Rightarrow> 'w \<Rightarrow> 'w"
  wait_for_interrupt :: "'w \<Rightarrow> 'w"

abbreviation (input) "UART_RHR \<equiv> (0 :: u32)"
abbreviation (input) "UART_THR \<equiv> (0 :: u32)"
abbreviation (input) "UART_LCR \<equiv> (3 :: u32)"
abbreviation (input) "UART_LSR \<equiv> (5 :: u32)"
abbreviation (input) "UART_LSR_RX_READY \<equiv> (1 :: u8)"

definition uart_read_reg :: "'w uart_dev \<Rightarrow> u32 \<Rightarrow> 'w \<Rightarrow> u8 \<times> 'w" where
  "uart_read_reg d offset w = reg_read d offset w"

definition uart_write_reg :: "'w uart_dev \<Rightarrow> u32 \<Rightarrow> u8 \<Rightarrow> 'w \<Rightarrow> 'w" where
  "uart_write_reg d offset v w = reg_write d offset v w"

definition uart_init :: "'w uart_dev \<Rightarrow> 'w \<Rightarrow> 'w" where
  "uart_init d w = uart_write_reg d UART_LCR 0x03 w"

definition uart_rx_ready :: "'w uart_dev \<Rightarrow> 'w \<Rightarrow> bool \<times> 'w" where
  "uart_rx_ready d w = (let (v, w) = uart_read_reg d UART_LSR w in (v AND UART_LSR_RX_READY \<noteq> 0, w))"

partial_function (option) uart_getchar :: "'w uart_dev \<Rightarrow> 'w \<Rightarrow> (u8 \<times> 'w) option" where
  "uart_getchar d w =
     (let (ready, w) = uart_rx_ready d w in
      if \<not> ready then uart_getchar d (wait_for_interrupt d w)
      else Some (uart_read_reg d UART_RHR w))"

declare uart_getchar.simps [code]

partial_function (option) uart_putchar :: "'w uart_dev \<Rightarrow> u8 \<Rightarrow> 'w \<Rightarrow> 'w option" where
  "uart_putchar d c w =
     (let (v, w) = uart_read_reg d UART_LSR w in
      if v AND 0x20 = 0 then uart_putchar d c w
      else Some (uart_write_reg d UART_THR c w))"

declare uart_putchar.simps [code]

section \<open>The input buffer\<close>

abbreviation (input) "INPUT_BUFFER_SIZE \<equiv> (256 :: nat)"

record input_buffer =
  buffer :: "u8 list"
  write_pos :: nat
  read_pos :: nat
  count :: nat

definition input_buffer_init :: "input_buffer \<Rightarrow> input_buffer" where
  "input_buffer_init b = b\<lparr>write_pos := 0, read_pos := 0, count := 0\<rparr>"

definition input_buffer_put :: "u8 \<Rightarrow> input_buffer \<Rightarrow> input_buffer option" where
  "input_buffer_put c b =
     (if count b < INPUT_BUFFER_SIZE then
        if write_pos b < length (buffer b) then
          Some (b\<lparr>buffer := (buffer b)[write_pos b := c],
                  write_pos := (write_pos b + 1) mod INPUT_BUFFER_SIZE,
                  count := count b + 1\<rparr>)
        else None
      else Some b)"

definition input_buffer_get :: "input_buffer \<Rightarrow> (u8 \<times> input_buffer) option" where
  "input_buffer_get b =
     (if count b > 0 then
        if read_pos b < length (buffer b) then
          Some (buffer b ! read_pos b,
            b\<lparr>read_pos := (read_pos b + 1) mod INPUT_BUFFER_SIZE, count := count b - 1\<rparr>)
        else None
      else Some (0, b))"

definition input_buffer_available :: "input_buffer \<Rightarrow> bool" where
  "input_buffer_available b \<longleftrightarrow> count b > 0"

definition handle_uart_interrupt :: "'w uart_dev \<Rightarrow> 'w \<times> input_buffer \<Rightarrow> ('w \<times> input_buffer) option" where
  "handle_uart_interrupt d ws = (
     let (w, b) = ws; (ready, w) = uart_rx_ready d w in
     if ready then do {
       let (c, w) = uart_read_reg d UART_RHR w;
       b \<leftarrow> input_buffer_put c b;
       Some (w, b) }
     else Some (w, b))"

section \<open>The buffer as a bounded queue\<close>

text \<open>Runs of insertions and removals.\<close>

primrec put_all :: "('a \<Rightarrow> 's \<Rightarrow> 's option) \<Rightarrow> 'a list \<Rightarrow> 's \<Rightarrow> 's option" where
  "put_all put [] s = Some s"
| "put_all put (x # xs) s = do { s \<leftarrow> put x s; put_all put xs s }"

primrec get_n :: "('s \<Rightarrow> ('a \<times> 's) option) \<Rightarrow> nat \<Rightarrow> 's \<Rightarrow> ('a list \<times> 's) option" where
  "get_n get 0 s = Some ([], s)"
| "get_n get (Suc n) s = do { (x, s) \<leftarrow> get s; (xs, s) \<leftarrow> get_n get n s; Some (x # xs, s) }"

text \<open>The interface: a queue of bounded capacity that drops what does not fit and returns a default
  element when it is empty.\<close>

locale bounded_queue =
  fixes rep :: "'a list \<Rightarrow> 's \<Rightarrow> bool" and cap :: nat and dflt :: 'a
    and put :: "'a \<Rightarrow> 's \<Rightarrow> 's option" and get :: "'s \<Rightarrow> ('a \<times> 's) option"
  assumes rep_cap: "rep xs s \<Longrightarrow> length xs \<le> cap"
    and put_room: "rep xs s \<Longrightarrow> length xs < cap \<Longrightarrow> \<exists>s'. put x s = Some s' \<and> rep (xs @ [x]) s'"
    and put_full: "rep xs s \<Longrightarrow> length xs = cap \<Longrightarrow> put x s = Some s"
    and get_item: "rep (x # xs) s \<Longrightarrow> \<exists>s'. get s = Some (x, s') \<and> rep xs s'"
    and get_empty: "rep [] s \<Longrightarrow> get s = Some (dflt, s)"
begin

lemma put_all_rep: "rep xs s \<Longrightarrow> \<exists>s'. put_all put ys s = Some s' \<and> rep (xs @ take (cap - length xs) ys) s'"
proof (induction ys arbitrary: xs s)
  case (Cons y ys)
  show ?case
  proof (cases "length xs < cap")
    case True
    then obtain s1 where s1: "put y s = Some s1" "rep (xs @ [y]) s1" using put_room [OF Cons.prems] by blast
    have "cap - length xs = Suc (cap - length (xs @ [y]))" using True by simp
    then show ?thesis using Cons.IH [OF s1(2)] s1(1) by simp
  next
    case False
    then have "length xs = cap" using rep_cap [OF Cons.prems] by simp
    then show ?thesis using Cons.IH [OF Cons.prems] put_full [OF Cons.prems] by simp
  qed
qed auto

lemma get_n_rep: "rep xs s \<Longrightarrow> n \<le> length xs \<Longrightarrow> \<exists>s'. get_n get n s = Some (take n xs, s') \<and> rep (drop n xs) s'"
proof (induction n arbitrary: xs s)
  case (Suc n)
  then obtain x ys where xs: "xs = x # ys" by (cases xs) auto
  then obtain s1 where "get s = Some (x, s1)" "rep ys s1" using get_item Suc.prems(1) by blast
  then show ?case using Suc.IH [of ys s1] Suc.prems(2) xs by auto
qed auto

end

text \<open>The ring buffer represents the bytes from the read position on.\<close>

definition ring :: "u8 list \<Rightarrow> input_buffer \<Rightarrow> bool" where
  "ring xs b \<longleftrightarrow> length (buffer b) = INPUT_BUFFER_SIZE \<and> count b = length xs \<and> length xs \<le> INPUT_BUFFER_SIZE \<and>
     read_pos b < INPUT_BUFFER_SIZE \<and> write_pos b = (read_pos b + length xs) mod INPUT_BUFFER_SIZE \<and>
     (\<forall>i < length xs. buffer b ! ((read_pos b + i) mod INPUT_BUFFER_SIZE) = xs ! i)"

lemma ring_mod_neq:
  assumes "(r + n) mod 256 = (r + i) mod 256" "i < n" "n < (256 :: nat)" shows False
proof -
  have "256 dvd (r + n) - (r + i)" using assms by (subst mod_eq_dvd_iff_nat [symmetric]) auto
  then show False using assms by (auto dest: dvd_imp_le)
qed

interpretation ib: bounded_queue ring INPUT_BUFFER_SIZE 0 input_buffer_put input_buffer_get
proof unfold_locales
  show "length xs \<le> INPUT_BUFFER_SIZE" if "ring xs b" for xs b using that by (simp add: ring_def)
  show "\<exists>b'. input_buffer_put x b = Some b' \<and> ring (xs @ [x]) b'"
    if "ring xs b" "length xs < INPUT_BUFFER_SIZE" for xs b x
    using that
    by (auto simp: ring_def input_buffer_put_def nth_append mod_Suc_eq less_Suc_eq nth_list_update dest: ring_mod_neq)
  show "input_buffer_put x b = Some b" if "ring xs b" "length xs = INPUT_BUFFER_SIZE" for xs b x
    using that by (simp add: ring_def input_buffer_put_def)
  show "\<exists>b'. input_buffer_get b = Some (x, b') \<and> ring xs b'" if "ring (x # xs) b" for x xs b
    using that by (force simp: ring_def input_buffer_get_def mod_simps)
  show "input_buffer_get b = Some (0, b)" if "ring [] b" for b
    using that by (simp add: ring_def input_buffer_get_def)
qed

section \<open>Properties\<close>

text \<open>C28: the input buffer is a first-in first-out queue of 256 bytes: after any run of insertions it
  holds its old bytes followed by as many of the new ones as fit (the rest is dropped), and reading
  returns them in that order, wrap-around of the positions included; the buffer is then empty and
  reads return 0.\<close>

theorem input_buffer_fifo:
  assumes "ring xs b"
  shows "\<exists>b1 b2. put_all input_buffer_put ys b = Some b1 \<and>
    ring (xs @ take (256 - length xs) ys) b1 \<and>
    get_n input_buffer_get (length xs + min (256 - length xs) (length ys)) b1 =
      Some (xs @ take (256 - length xs) ys, b2) \<and>
    ring [] b2 \<and> \<not> input_buffer_available b2 \<and> input_buffer_get b2 = Some (0, b2)"
proof -
  let ?zs = "xs @ take (256 - length xs) ys"
  obtain b1 where b1: "put_all input_buffer_put ys b = Some b1" "ring ?zs b1"
    using ib.put_all_rep [OF assms] by blast
  obtain b2 where b2: "get_n input_buffer_get (length ?zs) b1 = Some (?zs, b2)" "ring [] b2"
    using ib.get_n_rep [OF b1(2) order_refl] unfolding take_all [OF order_refl] drop_all [OF order_refl] by blast
  have "length ?zs = length xs + min (256 - length xs) (length ys)" by (simp add: min.commute)
  moreover have "\<not> input_buffer_available b2" using b2(2) by (simp add: input_buffer_available_def ring_def)
  ultimately show ?thesis using b1 b2 ib.get_empty [OF b2(2)] by metis
qed

lemma ring_init: "length (buffer b) = 256 \<Longrightarrow> ring [] (input_buffer_init b)"
  by (simp add: ring_def input_buffer_init_def)

theorem input_buffer_fifo_witness:
  "\<exists>b1 b2. put_all input_buffer_put [104, 105] (input_buffer_init \<lparr>buffer = replicate 256 0, write_pos = 9, read_pos = 3, count = 7\<rparr>) = Some b1 \<and>
     get_n input_buffer_get 2 b1 = Some ([104, 105], b2) \<and> ring [] b2"
proof -
  have "ring [] (input_buffer_init \<lparr>buffer = replicate 256 0, write_pos = 9, read_pos = 3, count = 7\<rparr>)"
    by (rule ring_init) simp
  from input_buffer_fifo [OF this, of "[104, 105]"] show ?thesis by (auto simp: numeral_2_eq_2)
qed

text \<open>A UART interrupt moves exactly one byte from the receiver to the end of the input buffer when the
  line status says that one is ready and the buffer has room, and leaves the buffer alone otherwise.\<close>

theorem uart_interrupt_buffers:
  assumes "ring xs b" "reg_read d 5 w = (v, w1)" "reg_read d 0 w1 = (c, w2)"
  shows "\<exists>b'. handle_uart_interrupt d (w, b) = Some (if v AND 1 \<noteq> 0 then w2 else w1, b') \<and>
    ring (if v AND 1 \<noteq> 0 \<and> length xs < 256 then xs @ [c] else xs) b'"
proof -
  have "length xs < 256 \<or> length xs = 256" using ib.rep_cap [OF assms(1)] by auto
  moreover have "handle_uart_interrupt d (w, b) = (if v AND 1 \<noteq> 0 then map_option (Pair w2) (input_buffer_put c b) else Some (w1, b))"
    using assms(2,3) by (simp add: handle_uart_interrupt_def uart_rx_ready_def uart_read_reg_def map_option_case bind_map_option [symmetric] split: option.splits bind_splits)
  ultimately show ?thesis using ib.put_room [OF assms(1), of c] ib.put_full [OF assms(1), of c] assms(1) by auto
qed

text \<open>A receiver whose state is the list of the bytes that have arrived; the transmitter is always empty.\<close>

definition sample_uart :: "u8 list uart_dev" where
  "sample_uart = \<lparr>reg_read = (\<lambda>r w. if r = 5 then (if w = [] then 0x20 else 0x21, w)
       else if r = 0 then (if w = [] then (0, w) else (hd w, tl w)) else (0, w)),
     reg_write = (\<lambda>r v w. w), wait_for_interrupt = (\<lambda>w. w)\<rparr>"

theorem uart_interrupt_buffers_witness:
  "\<exists>b'. handle_uart_interrupt sample_uart ([65, 66], input_buffer_init \<lparr>buffer = replicate 256 0, write_pos = 0, read_pos = 0, count = 0\<rparr>) =
       Some ([66], b') \<and> ring [65] b'"
proof -
  have "ring [] (input_buffer_init \<lparr>buffer = replicate 256 0, write_pos = 0, read_pos = 0, count = 0\<rparr>)"
    by (rule ring_init) simp
  from uart_interrupt_buffers [OF this, of sample_uart "[65, 66]" "0x21" "[65, 66]" 65 "[66]"]
  show ?thesis by (simp add: sample_uart_def)
qed

end
