(* ===== verification/Fd.thy ===== *)
theory Fd
  imports Uart
begin

text \<open>
  The file descriptor table of src/fd.c and src/fd.h.  A table of operations holds optional function
  pointers; the functions act on the state \<open>'w\<close> of the outside world and may be undefined.  Flag words
  are C \<open>int\<close>s, kept as 32-bit words.
\<close>

section \<open>State\<close>

abbreviation (input) "MAX_FDS \<equiv> (64 :: nat)"
abbreviation (input) "FD_TYPE_UNUSED \<equiv> (0 :: int)"
abbreviation (input) "FD_READABLE \<equiv> (1 :: u32)"
abbreviation (input) "FD_WRITABLE \<equiv> (2 :: u32)"
abbreviation (input) "FD_ERROR \<equiv> (4 :: u32)"
abbreviation (input) "FD_HANGUP \<equiv> (8 :: u32)"

text \<open>\<open>fd_read\<close> delivers the bytes it stores in the caller's buffer.\<close>

record ('c, 'w) fd_ops =
  fd_read :: "('c ptr \<Rightarrow> u32 \<Rightarrow> 'w \<Rightarrow> (u8 list \<times> 'w) option) option"
  fd_write :: "('c ptr \<Rightarrow> u8 list \<Rightarrow> 'w \<Rightarrow> (u32 \<times> 'w) option) option"
  poll :: "('c ptr \<Rightarrow> 'w \<Rightarrow> (u32 \<times> 'w) option) option"
  close :: "('c ptr \<Rightarrow> 'w \<Rightarrow> 'w option) option"

record ('c, 'w) fd =
  fd_num :: int
  type :: int
  flags :: u32
  context_ptr :: "'c ptr"
  ops :: "('c, 'w) fd_ops ptr"
  ref_count :: int

record ('c, 'w) fd_table =
  fds :: "('c, 'w) fd list"
  next_fd :: nat

section \<open>UART operations\<close>

fun uart_fd_read_loop :: "'w uart_dev \<Rightarrow> nat \<Rightarrow> 'w \<Rightarrow> (u8 list \<times> 'w) option" where
  "uart_fd_read_loop d 0 w = Some ([], w)"
| "uart_fd_read_loop d (Suc n) w =
     (let (ready, w) = uart_rx_ready d w in
      if \<not> ready then Some ([], w)
      else do { (c, w) \<leftarrow> uart_getchar d w; (cs, w) \<leftarrow> uart_fd_read_loop d n w; Some (c # cs, w) })"

definition uart_fd_read :: "'w uart_dev \<Rightarrow> 'c ptr \<Rightarrow> u32 \<Rightarrow> 'w \<Rightarrow> (u8 list \<times> 'w) option" where
  "uart_fd_read d ctx cnt w = uart_fd_read_loop d (unat cnt) w"

primrec uart_fd_write_loop :: "'w uart_dev \<Rightarrow> u8 list \<Rightarrow> 'w \<Rightarrow> 'w option" where
  "uart_fd_write_loop d [] w = Some w"
| "uart_fd_write_loop d (c # cs) w = do { w \<leftarrow> uart_putchar d c w; uart_fd_write_loop d cs w }"

definition uart_fd_write :: "'w uart_dev \<Rightarrow> 'c ptr \<Rightarrow> u8 list \<Rightarrow> 'w \<Rightarrow> (u32 \<times> 'w) option" where
  "uart_fd_write d ctx buf w = do { w \<leftarrow> uart_fd_write_loop d buf w; Some (of_nat (length buf), w) }"

definition uart_fd_poll :: "'w uart_dev \<Rightarrow> 'c ptr \<Rightarrow> 'w \<Rightarrow> (u32 \<times> 'w) option" where
  "uart_fd_poll d ctx w = (
     let flgs = 0;
         flgs = flgs OR FD_WRITABLE;
         (ready, w) = uart_rx_ready d w;
         flgs = (if ready then flgs OR FD_READABLE else flgs)
     in Some (flgs, w))"

definition uart_fd_close :: "'c ptr \<Rightarrow> 'w \<Rightarrow> 'w option" where
  "uart_fd_close ctx w = Some w"

definition uart_fd_ops :: "'w uart_dev \<Rightarrow> ('c, 'w) fd_ops" where
  "uart_fd_ops d = \<lparr>fd_read = Some (uart_fd_read d), fd_write = Some (uart_fd_write d),
     poll = Some (uart_fd_poll d), close = Some uart_fd_close\<rparr>"

section \<open>The table\<close>

definition free_fd :: "int \<Rightarrow> ('c, 'w) fd" where
  "free_fd n = \<lparr>fd_num = n, type = FD_TYPE_UNUSED, flags = 0, context_ptr = NULL, ops = NULL, ref_count = 0\<rparr>"

definition fd_init :: "('c, 'w) fd_table \<Rightarrow> ('c, 'w) fd_table" where
  "fd_init t = t\<lparr>fds := map (\<lambda>i. free_fd (int i)) [0..<MAX_FDS], next_fd := 0\<rparr>"

text \<open>The loop of \<open>fd_alloc\<close>: the argument lists the values of \<open>i\<close> still to come; accesses outside the
  array are undefined.\<close>

primrec fd_alloc_loop ::
  "int \<Rightarrow> 'c ptr \<Rightarrow> ('c, 'w) fd_ops ptr \<Rightarrow> nat list \<Rightarrow> ('c, 'w) fd_table \<Rightarrow> (int \<times> ('c, 'w) fd_table) option" where
  "fd_alloc_loop ty ctx o' [] t = Some (- 1, t)"
| "fd_alloc_loop ty ctx o' (i # is) t = (
     let n = (next_fd t + i) mod MAX_FDS in
     if n < length (fds t) then
       (let f = fds t ! n in
        if type f = FD_TYPE_UNUSED then
          (let f = f\<lparr>type := ty, flags := 0, context_ptr := ctx, ops := o', ref_count := 1\<rparr>
           in Some (int n, t\<lparr>fds := (fds t)[n := f], next_fd := (n + 1) mod MAX_FDS\<rparr>))
        else fd_alloc_loop ty ctx o' is t)
     else None)"

definition fd_alloc ::
  "int \<Rightarrow> 'c ptr \<Rightarrow> ('c, 'w) fd_ops ptr \<Rightarrow> ('c, 'w) fd_table \<Rightarrow> (int \<times> ('c, 'w) fd_table) option" where
  "fd_alloc ty ctx o' t = fd_alloc_loop ty ctx o' [0..<MAX_FDS] t"

text \<open>The pointer that \<open>fd_get\<close> returns is the index of the entry.\<close>

definition fd_get :: "int \<Rightarrow> ('c, 'w) fd_table \<Rightarrow> nat ptr option" where
  "fd_get n t =
     (if n < 0 \<or> n \<ge> int MAX_FDS then Some NULL
      else if nat n < length (fds t) then
        Some (if type (fds t ! nat n) = FD_TYPE_UNUSED then NULL else Some (nat n))
      else None)"

text \<open>The call ``if (fd->ops \&\& fd->ops->close) fd->ops->close(fd->context)''.\<close>

definition run_close :: "('c, 'w) fd \<Rightarrow> 'w \<Rightarrow> 'w option" where
  "run_close f w = (case ops f of None \<Rightarrow> Some w
     | Some q \<Rightarrow> (case close q of None \<Rightarrow> Some w | Some cl \<Rightarrow> cl (context_ptr f) w))"

definition fd_close :: "int \<Rightarrow> ('c, 'w) fd_table \<Rightarrow> 'w \<Rightarrow> (int \<times> ('c, 'w) fd_table \<times> 'w) option" where
  "fd_close n t w = do {
     p \<leftarrow> fd_get n t;
     case p of None \<Rightarrow> Some (- 1, t, w)
     | Some k \<Rightarrow> do {
         let f = fds t ! k;
         let f = f\<lparr>ref_count := ref_count f - 1\<rparr>;
         if ref_count f \<le> 0 then do {
           w \<leftarrow> run_close f w;
           let f = f\<lparr>type := FD_TYPE_UNUSED, flags := 0, context_ptr := NULL, ops := NULL, ref_count := 0\<rparr>;
           Some (0, t\<lparr>fds := (fds t)[k := f]\<rparr>, w) }
         else Some (0, t\<lparr>fds := (fds t)[k := f]\<rparr>, w) } }"

definition fd_poll :: "int \<Rightarrow> ('c, 'w) fd_table \<Rightarrow> 'w \<Rightarrow> (u32 \<times> ('c, 'w) fd_table \<times> 'w) option" where
  "fd_poll n t w = do {
     p \<leftarrow> fd_get n t;
     case p of None \<Rightarrow> Some (0, t, w)
     | Some k \<Rightarrow>
       (case ops (fds t ! k) of None \<Rightarrow> Some (0, t, w)
        | Some q \<Rightarrow>
          (case poll q of None \<Rightarrow> Some (0, t, w)
           | Some pl \<Rightarrow> do {
               (flgs, w) \<leftarrow> pl (context_ptr (fds t ! k)) w;
               Some (flgs, t\<lparr>fds := (fds t)[k := (fds t ! k)\<lparr>flags := flgs\<rparr>]\<rparr>, w) })) }"

definition fd_update_flags :: "int \<Rightarrow> u32 \<Rightarrow> ('c, 'w) fd_table \<Rightarrow> ('c, 'w) fd_table option" where
  "fd_update_flags n flgs t = do {
     p \<leftarrow> fd_get n t;
     case p of None \<Rightarrow> Some t
     | Some k \<Rightarrow> Some (t\<lparr>fds := (fds t)[k := (fds t ! k)\<lparr>flags := flgs\<rparr>]\<rparr>) }"

section \<open>Invariant\<close>

text \<open>Every entry carries its own number, a used entry is referenced, and an unused one is clear.\<close>

definition fd_ok :: "nat \<Rightarrow> ('c, 'w) fd \<Rightarrow> bool" where
  "fd_ok i f \<longleftrightarrow> fd_num f = int i \<and> (if type f = FD_TYPE_UNUSED then f = free_fd (int i) else 0 < ref_count f)"

definition table_ok :: "('c, 'w) fd_table \<Rightarrow> bool" where
  "table_ok t \<longleftrightarrow> length (fds t) = MAX_FDS \<and> next_fd t < MAX_FDS \<and> (\<forall>i < MAX_FDS. fd_ok i (fds t ! i))"

definition in_use :: "('c, 'w) fd_table \<Rightarrow> nat set" where
  "in_use t = {i. i < MAX_FDS \<and> type (fds t ! i) \<noteq> FD_TYPE_UNUSED}"

lemma table_ok_upd:
  "table_ok t \<Longrightarrow> k < MAX_FDS \<Longrightarrow> fd_ok k f \<Longrightarrow> table_ok (t\<lparr>fds := (fds t)[k := f]\<rparr>)"
  by (auto simp: table_ok_def nth_list_update)

lemma fd_get_ok:
  "table_ok t \<Longrightarrow> fd_get n t = Some (if 0 \<le> n \<and> nat n \<in> in_use t then Some (nat n) else NULL)"
  by (auto simp: fd_get_def table_ok_def in_use_def)

lemma in_use_upd:
  "table_ok t \<Longrightarrow> k < MAX_FDS \<Longrightarrow>
   in_use (t\<lparr>fds := (fds t)[k := f]\<rparr>) = (if type f = FD_TYPE_UNUSED then in_use t - {k} else insert k (in_use t))"
  by (auto simp: in_use_def table_ok_def nth_list_update split: if_splits)

lemma table_ok_init: "table_ok (fd_init t)" "in_use (fd_init t) = {}"
  by (auto simp: table_ok_def in_use_def fd_init_def fd_ok_def free_fd_def simp del: upt_conv_Cons)

lemma alloc_loop:
  assumes "table_ok t"
  shows "fd_alloc_loop ty ctx o' is t =
    Some (case find (\<lambda>i. (next_fd t + i) mod MAX_FDS \<notin> in_use t) is of
       None \<Rightarrow> (- 1, t)
     | Some i \<Rightarrow> let n = (next_fd t + i) mod MAX_FDS in (int n, t\<lparr>fds := (fds t)[n :=
         \<lparr>fd_num = int n, type = ty, flags = 0, context_ptr = ctx, ops = o', ref_count = 1\<rparr>], next_fd := (n + 1) mod MAX_FDS\<rparr>))"
proof (induction "is")
  case (Cons i "is")
  let ?n = "(next_fd t + i) mod MAX_FDS"
  have n: "?n < MAX_FDS" by simp
  have len: "length (fds t) = MAX_FDS" and ok: "fd_ok ?n (fds t ! ?n)" using assms by (auto simp: table_ok_def)
  have "(type (fds t ! ?n) = FD_TYPE_UNUSED) = (?n \<notin> in_use t)" by (auto simp: in_use_def)
  moreover have "(fds t ! ?n)\<lparr>type := ty, flags := 0, context_ptr := ctx, ops := o', ref_count := 1\<rparr> =
      \<lparr>fd_num = int ?n, type = ty, flags = 0, context_ptr = ctx, ops = o', ref_count = 1\<rparr>"
    using ok by (intro fd.equality) (simp_all add: fd_ok_def)
  ultimately show ?case using Cons len by (simp add: Let_def)
qed simp

end
