(* ===== verification/Fd_Props.thy ===== *)
theory Fd_Props
  imports Fd
begin

text \<open>
  The properties of the file descriptor table.
\<close>

lemma rotation_hits: "j < (64 :: nat) \<Longrightarrow> s < 64 \<Longrightarrow> \<exists>i < 64. (s + i) mod 64 = j"
  by (rule exI [of _ "(j + 64 - s) mod 64"]) (simp add: mod_simps)

lemma find_none_all:
  assumes "next_fd t < MAX_FDS" "find (\<lambda>i. (next_fd t + i) mod MAX_FDS \<notin> in_use t) [0..<MAX_FDS] = None"
  shows "in_use t = {..<MAX_FDS}"
proof -
  have "j \<in> in_use t" if "j < MAX_FDS" for j
    using rotation_hits [OF that assms(1)] assms(2) by (auto simp: find_None_iff simp del: upt_conv_Cons)
  then show ?thesis by (auto simp: in_use_def)
qed

text \<open>On a well-formed table \<open>fd_alloc\<close> returns -1 and changes nothing exactly when all 64 descriptors are
  in use; otherwise it returns an unused descriptor (the search wraps around the end of the table),
  which then holds the type, context and operations with one reference, and no other entry changes.\<close>

theorem fd_alloc_correct:
  assumes "table_ok t" "ty \<noteq> 0"
  shows "\<exists>r t'. fd_alloc ty ctx os t = Some (r, t') \<and> table_ok t' \<and>
    (if in_use t = {..<64} then r = - 1 \<and> t' = t
     else \<exists>n. r = int n \<and> n < 64 \<and> n \<notin> in_use t \<and> in_use t' = insert n (in_use t) \<and>
       fds t' ! n = \<lparr>fd_num = int n, type = ty, flags = 0, context_ptr = ctx, ops = os, ref_count = 1\<rparr> \<and>
       (\<forall>j. j \<noteq> n \<longrightarrow> fds t' ! j = fds t ! j))"
proof (cases "find (\<lambda>i. (next_fd t + i) mod 64 \<notin> in_use t) [0..<64]")
  case None
  then have "in_use t = {..<64}" using find_none_all assms(1) by (auto simp: table_ok_def)
  then show ?thesis using None alloc_loop [OF assms(1), of ty ctx os "[0..<64]"] assms(1) by (simp add: fd_alloc_def del: upt_conv_Cons)
next
  case (Some i)
  let ?n = "(next_fd t + i) mod 64"
  let ?f = "\<lparr>fd_num = int ?n, type = ty, flags = 0, context_ptr = ctx, ops = os, ref_count = 1\<rparr>"
  define t1 where "t1 = t\<lparr>fds := (fds t)[?n := ?f]\<rparr>"
  define t' where "t' = t1\<lparr>next_fd := (?n + 1) mod 64\<rparr>"
  have new: "?n \<notin> in_use t" and n: "?n < 64" using Some by (auto simp: find_Some_iff simp del: upt_conv_Cons)
  have "table_ok t1" unfolding t1_def by (rule table_ok_upd [OF assms(1) n]) (simp add: fd_ok_def assms(2))
  then have ok: "table_ok t'" by (simp add: table_ok_def t'_def)
  have use: "in_use t' = insert ?n (in_use t)"
    using in_use_upd [OF assms(1) n, of ?f] assms(2) by (simp add: in_use_def t'_def t1_def)
  have "fd_alloc ty ctx os t = Some (int ?n, t')"
    using Some alloc_loop [OF assms(1), of ty ctx os "[0..<64]"]
    by (simp add: fd_alloc_def Let_def t'_def t1_def del: upt_conv_Cons)
  moreover have "fds t' ! ?n = ?f" "\<forall>j. j \<noteq> ?n \<longrightarrow> fds t' ! j = fds t ! j"
    using assms(1) n by (simp_all add: table_ok_def t'_def t1_def)
  moreover have "in_use t \<noteq> {..<64}" using new n by blast
  ultimately show ?thesis using ok use new n by (intro exI [of _ "int ?n"] exI [of _ t']) (simp only: if_False; blast)
qed

theorem fd_alloc_correct_witness:
  "\<exists>t'. fd_alloc 2 NULL (Some (uart_fd_ops sample_uart)) (fd_init \<lparr>fds = [], next_fd = 7\<rparr> :: (unit, u8 list) fd_table) = Some (0, t') \<and>
     in_use t' = {0}"
proof -
  let ?t = "fd_init \<lparr>fds = [], next_fd = 7\<rparr> :: (unit, u8 list) fd_table"
  have "map_option fst (fd_alloc 2 NULL (Some (uart_fd_ops sample_uart)) ?t) = Some 0" by code_simp
  then obtain t' where t': "fd_alloc 2 NULL (Some (uart_fd_ops sample_uart)) ?t = Some (0, t')" by auto
  have "({} = {..<64 :: nat}) = False" by (metis lessThan_empty_iff zero_neq_numeral)
  then show ?thesis
    using fd_alloc_correct [of ?t 2 NULL "Some (uart_fd_ops sample_uart)"] t' by (auto simp: table_ok_init)
qed

text \<open>\<open>fd_close\<close> of a number that is not an open descriptor returns -1 and changes nothing; on an open
  descriptor whose close operation does not fail it drops one reference, and with the last one it calls
  the close operation once on the entry's context and clears the entry.\<close>

theorem fd_close_correct:
  assumes "table_ok t"
    and "0 \<le> n \<Longrightarrow> nat n \<in> in_use t \<Longrightarrow> run_close (fds t ! nat n) w = Some w'"
  shows "\<exists>r t'' w''. fd_close n t w = Some (r, t'', w'') \<and> table_ok t'' \<and>
    (if 0 \<le> n \<and> nat n \<in> in_use t then
       r = 0 \<and> (\<forall>j. j \<noteq> nat n \<longrightarrow> fds t'' ! j = fds t ! j) \<and>
       (if ref_count (fds t ! nat n) = 1 then w'' = w' \<and> in_use t'' = in_use t - {nat n} \<and> fds t'' ! nat n = free_fd n
        else w'' = w \<and> in_use t'' = in_use t \<and> ref_count (fds t'' ! nat n) = ref_count (fds t ! nat n) - 1)
     else r = - 1 \<and> t'' = t \<and> w'' = w)"
proof (cases "0 \<le> n \<and> nat n \<in> in_use t")
  case False
  then show ?thesis using fd_get_ok [OF assms(1), of n] assms(1) by (auto simp: fd_close_def)
next
  case True
  let ?k = "nat n" and ?f = "fds t ! nat n"
  have k: "?k < 64" "type ?f \<noteq> 0" using True by (auto simp: in_use_def)
  have ok: "fd_ok ?k ?f" using assms(1) k by (simp add: table_ok_def)
  have get: "fd_get n t = Some (Some ?k)" using fd_get_ok [OF assms(1), of n] True by simp
  have q: "run_close (?f\<lparr>ref_count := i\<rparr>) w = Some w'" for i
    using assms(2) True by (auto simp: run_close_def split: option.splits)
  show ?thesis
  proof (cases "ref_count ?f = 1")
    case one: True
    let ?f' = "?f\<lparr>type := 0, flags := 0, context_ptr := NULL, ops := NULL, ref_count := 0\<rparr>"
    have f': "?f' = free_fd n" using ok k True by (intro fd.equality) (simp_all add: fd_ok_def free_fd_def)
    have "fd_close n t w = Some (0, t\<lparr>fds := (fds t)[?k := free_fd n]\<rparr>, w')"
      using get q one f' by (simp add: fd_close_def)
    moreover have "table_ok (t\<lparr>fds := (fds t)[?k := free_fd n]\<rparr>)"
      by (rule table_ok_upd [OF assms(1) k(1)]) (use True in \<open>simp add: fd_ok_def free_fd_def\<close>)
    moreover have "in_use (t\<lparr>fds := (fds t)[?k := free_fd n]\<rparr>) = in_use t - {?k}"
      using in_use_upd [OF assms(1) k(1), of "free_fd n"] by (simp add: free_fd_def)
    moreover have "(fds t)[?k := free_fd n] ! ?k = free_fd n" using assms(1) k(1) by (simp add: table_ok_def)
    ultimately show ?thesis using True one by simp
  next
    case False
    let ?f' = "?f\<lparr>ref_count := ref_count ?f - 1\<rparr>"
    have pos: "0 < ref_count ?f - 1" using ok k False by (simp add: fd_ok_def split: if_splits)
    then have "fd_close n t w = Some (0, t\<lparr>fds := (fds t)[?k := ?f']\<rparr>, w)"
      using get by (simp add: fd_close_def Let_def)
    moreover have "table_ok (t\<lparr>fds := (fds t)[?k := ?f']\<rparr>)"
      by (rule table_ok_upd [OF assms(1) k(1)]) (use ok k pos in \<open>simp add: fd_ok_def\<close>)
    moreover have "in_use (t\<lparr>fds := (fds t)[?k := ?f']\<rparr>) = in_use t"
      using in_use_upd [OF assms(1) k(1), of ?f'] k True by auto
    moreover have "(fds t)[?k := ?f'] ! ?k = ?f'" using assms(1) k(1) by (simp add: table_ok_def)
    ultimately show ?thesis using True False by simp
  qed
qed

text \<open>A table on which the UART is descriptor 0.\<close>

definition uart_entry :: "(unit, u8 list) fd" where
  "uart_entry = \<lparr>fd_num = 0, type = 2, flags = 0, context_ptr = NULL, ops = Some (uart_fd_ops sample_uart), ref_count = 1\<rparr>"

lemma uart_table:
  "\<exists>t. fd_alloc 2 NULL (Some (uart_fd_ops sample_uart)) (fd_init \<lparr>fds = [], next_fd = 0\<rparr>) = Some (0, t) \<and>
     table_ok t \<and> in_use t = {0} \<and> fds t ! 0 = uart_entry"
proof -
  let ?t = "fd_init \<lparr>fds = [], next_fd = 0\<rparr> :: (unit, u8 list) fd_table"
  have t0: "table_ok ?t" "in_use ?t = {}" by (rule table_ok_init)+
  have nx: "next_fd ?t = 0" by (simp add: fd_init_def)
  define t where "t = ?t\<lparr>fds := (fds ?t)[0 := uart_entry], next_fd := 1\<rparr>"
  have "fd_alloc 2 NULL (Some (uart_fd_ops sample_uart)) ?t = Some (0, t)"
    using alloc_loop [OF t0(1), of 2 NULL "Some (uart_fd_ops sample_uart)" "[0..<64]"] t0(2) nx
    by (simp add: fd_alloc_def t_def uart_entry_def upt_rec)
  moreover have "table_ok (?t\<lparr>fds := (fds ?t)[0 := uart_entry]\<rparr>)"
    by (rule table_ok_upd [OF t0(1)]) (simp_all add: fd_ok_def uart_entry_def)
  then have "table_ok t" by (simp add: table_ok_def t_def)
  moreover have "in_use t = in_use (?t\<lparr>fds := (fds ?t)[0 := uart_entry]\<rparr>)" by (simp add: t_def in_use_def)
  then have "in_use t = {0}" using in_use_upd [OF t0(1), of 0 uart_entry] t0(2) by (simp add: uart_entry_def)
  moreover have "fds t ! 0 = uart_entry" using t0(1) by (simp add: t_def table_ok_def)
  ultimately show ?thesis by blast
qed

theorem fd_close_correct_witness:
  "\<exists>t t'. fd_alloc 2 NULL (Some (uart_fd_ops sample_uart)) (fd_init \<lparr>fds = [], next_fd = 0\<rparr> :: (unit, u8 list) fd_table) = Some (0, t) \<and>
     fd_close 0 t [65] = Some (0, t', [65]) \<and> in_use t' = {}"
proof -
  obtain t where t: "fd_alloc 2 NULL (Some (uart_fd_ops sample_uart)) (fd_init \<lparr>fds = [], next_fd = 0\<rparr>) = Some (0, t)"
    "table_ok t" "in_use t = {0}" "fds t ! 0 = uart_entry" using uart_table by blast
  then have "run_close (fds t ! nat 0) [65] = Some [65]"
    by (simp add: run_close_def uart_entry_def uart_fd_ops_def uart_fd_close_def)
  from fd_close_correct [OF t(2) this] show ?thesis using t by (auto simp: uart_entry_def)
qed

end
