(* ===== verification/Epoll.thy ===== *)
theory Epoll
  imports Rbtree_Walk Kmalloc_Props Fd_Props
begin

text \<open>
  The epoll subsystem of src/epoll.c and src/epoll.h: instances, each with a red-black tree of items
  by descriptor number.  The items are objects of the kernel heap: \<open>item_nodes\<close> and \<open>items\<close> hold the
  \<open>rb_node\<close> part and the other fields of every live item by its address (the node is the first field,
  so \<open>rb_entry\<close> is the identity), and an access to a freed item is undefined.  The messages that the
  functions print are not modelled.
\<close>

section \<open>State\<close>

record epoll_event =
  events :: u32
  ev_data :: u64

record epoll_item =
  item_fd :: int
  item_events :: u32
  user_data :: u64
  revents :: u32

record epoll_instance =
  epfd :: int
  items_tree :: "u32 ptr"
  ready_list :: "u32 ptr"
  num_items :: int
  inst_in_use :: bool

text \<open>\<open>raw_node\<close> is what the memory of a fresh allocation holds.\<close>

record ('c, 'w) epoll_state =
  instances :: "epoll_instance list"
  item_nodes :: "u32 \<rightharpoonup> u32 rb_node"
  items :: "u32 \<rightharpoonup> epoll_item"
  raw_node :: "u32 \<Rightarrow> u32 rb_node"
  kernel_heap :: kheap
  fd_tab :: "('c, 'w) fd_table"
  world :: 'w

abbreviation (input) "MAX_EPOLL_INSTANCES \<equiv> (16 :: nat)"
abbreviation (input) "sizeof_epoll_item \<equiv> (40 :: u32)"
abbreviation (input) "EPOLLIN \<equiv> (0x001 :: u32)"
abbreviation (input) "EPOLLOUT \<equiv> (0x004 :: u32)"
abbreviation (input) "EPOLLERR \<equiv> (0x008 :: u32)"
abbreviation (input) "EPOLLHUP \<equiv> (0x010 :: u32)"
abbreviation (input) "EPOLL_CTL_ADD \<equiv> (1 :: int)"
abbreviation (input) "EPOLL_CTL_DEL \<equiv> (2 :: int)"
abbreviation (input) "EPOLL_CTL_MOD \<equiv> (3 :: int)"

text \<open>The instance at index \<open>i\<close> and its tree, as the memory that the functions of src/rbtree.c work on.\<close>

definition tree_of :: "nat \<Rightarrow> ('c, 'w) epoll_state \<Rightarrow> u32 rb_mem" where
  "tree_of i s = \<lparr>nodes = item_nodes s, root = items_tree (instances s ! i)\<rparr>"

definition upd_inst :: "nat \<Rightarrow> (epoll_instance \<Rightarrow> epoll_instance) \<Rightarrow> ('c, 'w) epoll_state \<Rightarrow> ('c, 'w) epoll_state" where
  "upd_inst i f s = s\<lparr>instances := (instances s)[i := f (instances s ! i)]\<rparr>"

definition put_tree :: "nat \<Rightarrow> u32 rb_mem \<Rightarrow> ('c, 'w) epoll_state \<Rightarrow> ('c, 'w) epoll_state" where
  "put_tree i m s = upd_inst i (items_tree_update (\<lambda>_. root m)) (s\<lparr>item_nodes := nodes m\<rparr>)"

definition upd_item :: "u32 \<Rightarrow> (epoll_item \<Rightarrow> epoll_item) \<Rightarrow> ('c, 'w) epoll_state \<Rightarrow> ('c, 'w) epoll_state option" where
  "upd_item q f s = do { its \<leftarrow> modify (Some q) f (items s); Some (s\<lparr>items := its\<rparr>) }"

section \<open>Instances\<close>

definition epoll_init :: "('c, 'w) epoll_state \<Rightarrow> ('c, 'w) epoll_state" where
  "epoll_init s = s\<lparr>instances := map (\<lambda>i. \<lparr>epfd = - 1, items_tree = NULL, ready_list = NULL,
     num_items = 0, inst_in_use = False\<rparr>) [0..<MAX_EPOLL_INSTANCES]\<rparr>"

primrec epoll_get_loop :: "int \<Rightarrow> nat list \<Rightarrow> ('c, 'w) epoll_state \<Rightarrow> nat ptr option" where
  "epoll_get_loop n [] s = Some NULL"
| "epoll_get_loop n (i # is) s =
     (if i < length (instances s) then
        if inst_in_use (instances s ! i) \<and> epfd (instances s ! i) = n then Some (Some i)
        else epoll_get_loop n is s
      else None)"

definition epoll_get_instance :: "int \<Rightarrow> ('c, 'w) epoll_state \<Rightarrow> nat ptr option" where
  "epoll_get_instance n s = epoll_get_loop n [0..<MAX_EPOLL_INSTANCES] s"

primrec epoll_create_loop :: "nat list \<Rightarrow> ('c, 'w) epoll_state \<Rightarrow> (int \<times> ('c, 'w) epoll_state) option" where
  "epoll_create_loop [] s = Some (- 999, s)"
| "epoll_create_loop (i # is) s =
     (if i < length (instances s) then
        if \<not> inst_in_use (instances s ! i) then
          Some (- (int i + 1), upd_inst i (\<lambda>e. e\<lparr>epfd := - (int i + 1), items_tree := NULL, ready_list := NULL,
            num_items := 0, inst_in_use := True\<rparr>) s)
        else epoll_create_loop is s
      else None)"

definition epoll_create :: "int \<Rightarrow> ('c, 'w) epoll_state \<Rightarrow> (int \<times> ('c, 'w) epoll_state) option" where
  "epoll_create sz s = epoll_create_loop [0..<MAX_EPOLL_INSTANCES] s"

section \<open>Items\<close>

partial_function (option) epoll_find_loop ::
  "(u32 \<rightharpoonup> epoll_item) \<Rightarrow> int \<Rightarrow> u32 ptr \<Rightarrow> u32 rb_mem \<Rightarrow> u32 ptr option" where
  "epoll_find_loop its n node m =
     (if node = NULL then Some NULL
      else do {
        item \<leftarrow> fetch its node;
        if n < item_fd item then do { l \<leftarrow> rb_left node m; epoll_find_loop its n l m }
        else if n > item_fd item then do { r \<leftarrow> rb_right node m; epoll_find_loop its n r m }
        else Some node })"

declare epoll_find_loop.simps [code]

definition epoll_find_item :: "nat \<Rightarrow> int \<Rightarrow> ('c, 'w) epoll_state \<Rightarrow> u32 ptr option" where
  "epoll_find_item i n s = epoll_find_loop (items s) n (items_tree (instances s ! i)) (tree_of i s)"

text \<open>The search loop of \<open>epoll_insert_item\<close>: the accumulator is \<open>parent\<close> and the side of \<open>link\<close>; a
  duplicate gives \<open>Inl ()\<close>.\<close>

partial_function (option) epoll_find_link ::
  "(u32 \<rightharpoonup> epoll_item) \<Rightarrow> int \<Rightarrow> u32 ptr \<times> bool \<Rightarrow> u32 ptr \<Rightarrow> u32 rb_mem \<Rightarrow> (unit + u32 ptr \<times> bool) option" where
  "epoll_find_link its n acc link m =
     (if link = NULL then Some (Inr acc)
      else do {
        let parentp = link;
        item \<leftarrow> fetch its parentp;
        if n < item_fd item then do {
          l \<leftarrow> rb_left parentp m; epoll_find_link its n (parentp, True) l m }
        else if n > item_fd item then do {
          r \<leftarrow> rb_right parentp m; epoll_find_link its n (parentp, False) r m }
        else Some (Inl ()) })"

declare epoll_find_link.simps [code]

definition epoll_insert_item :: "nat \<Rightarrow> u32 \<Rightarrow> ('c, 'w) epoll_state \<Rightarrow> (int \<times> ('c, 'w) epoll_state) option" where
  "epoll_insert_item i q s = do {
     new_item \<leftarrow> items s q;
     place \<leftarrow> epoll_find_link (items s) (item_fd new_item) (NULL, False) (items_tree (instances s ! i)) (tree_of i s);
     case place of Inl _ \<Rightarrow> Some (- 1, s)
     | Inr (parentp, went_left) \<Rightarrow> do {
         m \<leftarrow> rb_link_node (Some q) parentp went_left (tree_of i s);
         m \<leftarrow> rb_insert_color (Some q) m;
         Some (0, upd_inst i (\<lambda>e. e\<lparr>num_items := num_items e + 1\<rparr>) (put_tree i m s)) } }"

definition alloc_item :: "('c, 'w) epoll_state \<Rightarrow> (u32 ptr \<times> ('c, 'w) epoll_state) option" where
  "alloc_item s = do {
     (p, h) \<leftarrow> kmalloc sizeof_epoll_item (kernel_heap s);
     let s = s\<lparr>kernel_heap := h\<rparr>;
     case p of None \<Rightarrow> Some (NULL, s)
     | Some q \<Rightarrow> Some (p, s\<lparr>item_nodes := (item_nodes s)(q \<mapsto> raw_node s q)\<rparr>) }"

definition free_item :: "u32 \<Rightarrow> ('c, 'w) epoll_state \<Rightarrow> ('c, 'w) epoll_state option" where
  "free_item q s = do {
     h \<leftarrow> kfree (Some q) (kernel_heap s);
     Some (s\<lparr>kernel_heap := h, item_nodes := (item_nodes s)(q := None), items := (items s)(q := None)\<rparr>) }"

section \<open>Control\<close>

definition epoll_ctl_add :: "nat \<Rightarrow> int \<Rightarrow> epoll_event ptr \<Rightarrow> ('c, 'w) epoll_state \<Rightarrow> (int \<times> ('c, 'w) epoll_state) option" where
  "epoll_ctl_add i n event s = do {
     p \<leftarrow> epoll_find_item i n s;
     if p \<noteq> NULL then Some (- 1, s)
     else do {
       (item, s) \<leftarrow> alloc_item s;
       case item of None \<Rightarrow> Some (- 1, s)
       | Some q \<Rightarrow> do {
           ev \<leftarrow> event;
           let s = s\<lparr>items := (items s)(q \<mapsto>
             \<lparr>item_fd = n, item_events = events ev, user_data = ev_data ev, revents = 0\<rparr>)\<rparr>;
           m \<leftarrow> RB_CLEAR_NODE (Some q) (tree_of i s);
           let s = put_tree i m s;
           (r, s) \<leftarrow> epoll_insert_item i q s;
           if r < 0 then do { s \<leftarrow> free_item q s; Some (- 1, s) }
           else Some (0, s) } } }"

definition epoll_ctl_del :: "nat \<Rightarrow> int \<Rightarrow> ('c, 'w) epoll_state \<Rightarrow> (int \<times> ('c, 'w) epoll_state) option" where
  "epoll_ctl_del i n s = do {
     item \<leftarrow> epoll_find_item i n s;
     case item of None \<Rightarrow> Some (- 1, s)
     | Some q \<Rightarrow> do {
         m \<leftarrow> rb_erase item (tree_of i s);
         let s = put_tree i m s;
         let s = upd_inst i (\<lambda>e. e\<lparr>num_items := num_items e - 1\<rparr>) s;
         s \<leftarrow> free_item q s;
         Some (0, s) } }"

definition epoll_ctl_mod :: "nat \<Rightarrow> int \<Rightarrow> epoll_event ptr \<Rightarrow> ('c, 'w) epoll_state \<Rightarrow> (int \<times> ('c, 'w) epoll_state) option" where
  "epoll_ctl_mod i n event s = do {
     item \<leftarrow> epoll_find_item i n s;
     case item of None \<Rightarrow> Some (- 1, s)
     | Some q \<Rightarrow> do {
         ev \<leftarrow> event;
         s \<leftarrow> upd_item q (\<lambda>it. it\<lparr>item_events := events ev, user_data := ev_data ev\<rparr>) s;
         Some (0, s) } }"

definition epoll_ctl :: "int \<Rightarrow> int \<Rightarrow> int \<Rightarrow> epoll_event ptr \<Rightarrow> ('c, 'w) epoll_state \<Rightarrow> (int \<times> ('c, 'w) epoll_state) option" where
  "epoll_ctl ep opr n event s = do {
     epi \<leftarrow> epoll_get_instance ep s;
     case epi of None \<Rightarrow> Some (- 1, s)
     | Some i \<Rightarrow> do {
         fd_entry \<leftarrow> fd_get n (fd_tab s);
         if fd_entry = NULL then Some (- 1, s)
         else if opr = EPOLL_CTL_ADD then epoll_ctl_add i n event s
         else if opr = EPOLL_CTL_DEL then epoll_ctl_del i n s
         else if opr = EPOLL_CTL_MOD then epoll_ctl_mod i n event s
         else Some (- 1, s) } }"

section \<open>Waiting\<close>

definition epoll_flags :: "u32 \<Rightarrow> u32" where
  "epoll_flags fd_flags = (
     let r = 0;
         r = (if fd_flags AND FD_READABLE \<noteq> 0 then r OR EPOLLIN else r);
         r = (if fd_flags AND FD_WRITABLE \<noteq> 0 then r OR EPOLLOUT else r);
         r = (if fd_flags AND FD_ERROR \<noteq> 0 then r OR EPOLLERR else r);
         r = (if fd_flags AND FD_HANGUP \<noteq> 0 then r OR EPOLLHUP else r)
     in r)"

partial_function (option) epoll_poll_loop :: "nat \<Rightarrow> u32 ptr \<Rightarrow> ('c, 'w) epoll_state \<Rightarrow> ('c, 'w) epoll_state option" where
  "epoll_poll_loop i node s =
     (case node of None \<Rightarrow> Some s
      | Some q \<Rightarrow> do {
          item \<leftarrow> items s q;
          (fd_flags, t, w) \<leftarrow> fd_poll (item_fd item) (fd_tab s) (world s);
          let s = s\<lparr>fd_tab := t, world := w\<rparr>;
          s \<leftarrow> upd_item q (\<lambda>it. it\<lparr>revents := epoll_flags fd_flags AND item_events it\<rparr>) s;
          node \<leftarrow> rb_next node (tree_of i s);
          epoll_poll_loop i node s })"

declare epoll_poll_loop.simps [code]

definition epoll_poll_fds :: "nat \<Rightarrow> ('c, 'w) epoll_state \<Rightarrow> ('c, 'w) epoll_state option" where
  "epoll_poll_fds i s = do { node \<leftarrow> rb_first (tree_of i s); epoll_poll_loop i node s }"

text \<open>The collecting loop of \<open>epoll_wait\<close>: \<open>evs\<close> is the part of the caller's array that is filled, so
  \<open>num_ready\<close> is its length.\<close>

partial_function (option) epoll_collect ::
  "nat \<Rightarrow> int \<Rightarrow> u32 ptr \<Rightarrow> epoll_event list \<Rightarrow> ('c, 'w) epoll_state \<Rightarrow> epoll_event list option" where
  "epoll_collect i maxevents node evs s =
     (case node of None \<Rightarrow> Some evs
      | Some q \<Rightarrow>
        if int (length evs) < maxevents then do {
          item \<leftarrow> items s q;
          let evs = (if revents item \<noteq> 0 then evs @ [\<lparr>events = revents item, ev_data = user_data item\<rparr>] else evs);
          node \<leftarrow> rb_next node (tree_of i s);
          epoll_collect i maxevents node evs s }
        else Some evs)"

declare epoll_collect.simps [code]

definition epoll_wait :: "int \<Rightarrow> int \<Rightarrow> int \<Rightarrow> ('c, 'w) epoll_state \<Rightarrow> (int \<times> epoll_event list \<times> ('c, 'w) epoll_state) option" where
  "epoll_wait ep maxevents tmout s = do {
     epi \<leftarrow> epoll_get_instance ep s;
     case epi of None \<Rightarrow> Some (- 1, [], s)
     | Some i \<Rightarrow>
       if maxevents \<le> 0 then Some (- 1, [], s)
       else do {
         s \<leftarrow> epoll_poll_fds i s;
         node \<leftarrow> rb_first (tree_of i s);
         evs \<leftarrow> epoll_collect i maxevents node [] s;
         Some (int (length evs), evs, s) } }"

section \<open>Closing\<close>

partial_function (option) epoll_close_loop :: "nat \<Rightarrow> u32 ptr \<Rightarrow> ('c, 'w) epoll_state \<Rightarrow> ('c, 'w) epoll_state option" where
  "epoll_close_loop i node s =
     (case node of None \<Rightarrow> Some s
      | Some q \<Rightarrow> do {
          nxt \<leftarrow> rb_next node (tree_of i s);
          m \<leftarrow> rb_erase node (tree_of i s);
          s \<leftarrow> free_item q (put_tree i m s);
          epoll_close_loop i nxt s })"

declare epoll_close_loop.simps [code]

definition epoll_close :: "int \<Rightarrow> ('c, 'w) epoll_state \<Rightarrow> (int \<times> ('c, 'w) epoll_state) option" where
  "epoll_close ep s = do {
     epi \<leftarrow> epoll_get_instance ep s;
     case epi of None \<Rightarrow> Some (- 1, s)
     | Some i \<Rightarrow> do {
         node \<leftarrow> rb_first (tree_of i s);
         s \<leftarrow> epoll_close_loop i node s;
         Some (0, upd_inst i (\<lambda>e. e\<lparr>epfd := - 1, items_tree := NULL, ready_list := NULL,
           num_items := 0, inst_in_use := False\<rparr>) s) } }"

end
