(* ===== verification/Epoll_Inv.thy ===== *)
theory Epoll_Inv
  imports Epoll
begin

text \<open>
  The invariant of the epoll subsystem: every instance's tree holds its items in the order of their
  descriptors, the trees share no item, and every item is an allocated block of the kernel heap.  The
  lemmas say what the search loops, the insertion, the removal and the walks do to it.
\<close>

section \<open>One instance\<close>

definition key :: "(u32 \<rightharpoonup> epoll_item) \<Rightarrow> u32 \<Rightarrow> int" where
  "key its q = item_fd (the (its q))"

definition inst_ok :: "nat \<Rightarrow> (u32 \<rightharpoonup> u32 rb_node) \<Rightarrow> (u32 \<rightharpoonup> epoll_item) \<Rightarrow> u32 list \<Rightarrow> epoll_instance \<Rightarrow> bool" where
  "inst_ok i nds its xs e \<longleftrightarrow> rb_seq xs \<lparr>nodes = nds, root = items_tree e\<rparr> \<and>
     sorted_wrt (\<lambda>a b. key its a < key its b) xs \<and> (\<forall>a \<in> set xs. 0 \<le> key its a \<and> key its a < 64) \<and>
     (if inst_in_use e then epfd e = - (int i + 1) else xs = [])"

lemma rb_seq_frame:
  assumes "rb_seq xs m" "root m' = root m" "\<forall>x \<in> set xs. nodes m' x = nodes m x"
  shows "rb_seq xs m'"
proof -
  obtain t h where t: "m = store t h" "is_rbt t" "inorder t = xs" using assms(1) by (auto simp: rb_seq_def)
  have "nodes m' = nodes m' ++ cells NULL t"
  proof
    fix x show "nodes m' x = (nodes m' ++ cells NULL t) x"
    proof (cases "cells NULL t x")
      case None then show ?thesis by (simp only: map_add_def option.case)
    next
      case (Some c)
      then have "x \<in> addrs t" by (metis domI dom_cells)
      then show ?thesis using assms(3) t Some by (simp add: store_def)
    qed
  qed
  then have "m' = store t (nodes m')" using assms(2) t(1) by (simp add: store_def)
  then show ?thesis using t(2,3) rb_seqI by metis
qed

lemma inst_ok_frame:
  assumes "inst_ok i nds its xs e" "\<forall>q \<in> set xs. nds' q = nds q \<and> key its' q = key its q"
  shows "inst_ok i nds' its' xs e"
proof -
  have "rb_seq xs \<lparr>nodes = nds', root = items_tree e\<rparr>"
    using assms by (auto simp: inst_ok_def intro: rb_seq_frame)
  moreover have "sorted_wrt (\<lambda>a b. key its' a < key its' b) xs"
    using assms by (auto simp: inst_ok_def elim!: sorted_wrt_mono_rel [rotated])
  ultimately show ?thesis using assms by (simp add: inst_ok_def)
qed

lemma sorted_key_inj: "sorted_wrt (\<lambda>a b. f a < (f b :: int)) xs \<Longrightarrow> inj_on f (set xs)"
  by (induction xs) (auto simp: inj_on_insert)

section \<open>All instances\<close>

definition ep_core :: "(u32 \<rightharpoonup> nat) \<Rightarrow> u32 list list \<Rightarrow> ('c, 'w) epoll_state \<Rightarrow> bool" where
  "ep_core L xss s \<longleftrightarrow> length xss = MAX_EPOLL_INSTANCES \<and> length (instances s) = MAX_EPOLL_INSTANCES \<and>
     (\<forall>i < MAX_EPOLL_INSTANCES. inst_ok i (item_nodes s) (items s) (xss ! i) (instances s ! i)) \<and>
     distinct (concat xss) \<and> dom (items s) = set (concat xss) \<and> dom (item_nodes s) = set (concat xss) \<and>
     heap_rep L (kernel_heap s) \<and> set (concat xss) \<subseteq> dom L \<and> table_ok (fd_tab s)"

text \<open>With the item counters of the instances.\<close>

definition ep_inv :: "(u32 \<rightharpoonup> nat) \<Rightarrow> u32 list list \<Rightarrow> ('c, 'w) epoll_state \<Rightarrow> bool" where
  "ep_inv L xss s \<longleftrightarrow> ep_core L xss s \<and>
     (\<forall>i < MAX_EPOLL_INSTANCES. num_items (instances s ! i) = int (length (xss ! i)))"

lemma ep_coreD:
  assumes "ep_core L xss s" "i < MAX_EPOLL_INSTANCES"
  shows "inst_ok i (item_nodes s) (items s) (xss ! i) (instances s ! i)" "rb_seq (xss ! i) (tree_of i s)"
    "set (xss ! i) \<subseteq> dom (items s)" "inj_on (key (items s)) (set (xss ! i))"
  using assms by (auto simp: ep_core_def inst_ok_def tree_of_def intro: sorted_key_inj)

lemma concat_nth_disjoint:
  "distinct (concat xss) \<Longrightarrow> i < length xss \<Longrightarrow> j < length xss \<Longrightarrow> i \<noteq> j \<Longrightarrow> set (xss ! i) \<inter> set (xss ! j) = {}"
proof (induction xss arbitrary: i j)
  case (Cons ys xss)
  have sub: "set (xss ! k) \<subseteq> set (concat xss)" if "k < length xss" for k using that nth_mem by fastforce
  have "set ys \<inter> set (concat xss) = {}" using Cons.prems(1) by simp
  then have ys: "set ys \<inter> set (xss ! k) = {}" if "k < length xss" for k using sub [OF that] by blast
  show ?case
  proof (cases i)
    case 0 then show ?thesis using Cons.prems ys [of "j - 1"] by (cases j) simp_all
  next
    case (Suc i')
    then show ?thesis using Cons.prems ys [of i'] Cons.IH [of i' "j - 1"] by (cases j) (simp_all add: Int_commute)
  qed
qed simp

lemma concat_update:
  assumes "i < length xss"
  shows "concat (xss[i := ys]) = concat (take i xss) @ ys @ concat (drop (Suc i) xss)"
    and "concat xss = concat (take i xss) @ xss ! i @ concat (drop (Suc i) xss)"
  using assms by (simp_all add: upd_conv_take_nth_drop) (metis concat.simps(2) concat_append id_take_nth_drop)

text \<open>Changing one instance: the cells and items of the others must stay.\<close>

lemma ep_core_upd:
  assumes inv: "ep_core L xss s" and i: "i < MAX_EPOLL_INSTANCES"
    and ok: "inst_ok i (item_nodes s') (items s') ys (instances s' ! i)"
    and inst: "length (instances s') = MAX_EPOLL_INSTANCES" "\<And>j. j \<noteq> i \<Longrightarrow> instances s' ! j = instances s ! j"
    and keep: "\<And>q. q \<in> set (concat xss) \<Longrightarrow> q \<notin> set (xss ! i) \<Longrightarrow> item_nodes s' q = item_nodes s q \<and> key (items s') q = key (items s) q"
    and doms: "dom (items s') = dom (items s) - set (xss ! i) \<union> set ys" "dom (item_nodes s') = dom (items s) - set (xss ! i) \<union> set ys"
    and new: "distinct ys" "set ys \<inter> set (concat xss) \<subseteq> set (xss ! i)"
    and heap: "heap_rep L' (kernel_heap s')" "dom (items s') \<subseteq> dom L'" "table_ok (fd_tab s')"
  shows "ep_core L' (xss[i := ys]) s'"
proof -
  have len: "length xss = 16" "distinct (concat xss)" "dom (items s) = set (concat xss)" using inv by (auto simp: ep_core_def)
  note split = concat_update [of i xss, unfolded len(1), OF i]
  have dis: "distinct (concat (take i xss) @ xss ! i @ concat (drop (Suc i) xss))" using len(2) split(2) by simp
  have out: "set ys \<inter> set (concat (take i xss)) = {}" "set ys \<inter> set (concat (drop (Suc i) xss)) = {}"
    using dis new(2) unfolding split(2) distinct_append set_append by blast+
  have sets: "set (concat (xss[i := ys])) = set (concat xss) - set (xss ! i) \<union> set ys"
    using dis unfolding split distinct_append set_append by blast
  have dist: "distinct (concat (xss[i := ys]))"
    using dis out new(1) unfolding split distinct_append set_append by blast
  have "inst_ok j (item_nodes s') (items s') (xss[i := ys] ! j) (instances s' ! j)" if j: "j < 16" for j
  proof (cases "j = i")
    case True then show ?thesis using ok len i by simp
  next
    case False
    have "q \<in> set (concat xss) \<and> q \<notin> set (xss ! i)" if "q \<in> set (xss ! j)" for q
      using that False i j len concat_nth_disjoint [of xss i j] by auto
    then show ?thesis using inst_ok_frame [OF ep_coreD(1) [OF inv j]] keep False inst(2) by simp
  qed
  then show ?thesis using inst heap sets dist doms len by (simp add: ep_core_def)
qed

section \<open>Searching\<close>

interpretation fnd: link_search "\<lambda>_. epoll_find_loop its n"
  "\<lambda>x. map_option (\<lambda>e. if n < item_fd e then Go_left else if n > item_fd e then Go_right else Here) (its x)"
  "\<lambda>x a. a" "\<lambda>x a. a" "\<lambda>a. NULL" "\<lambda>x. Some x"
  for its n
proof unfold_locales
  show "epoll_find_loop its n None m = Some NULL" for m
    by (subst epoll_find_loop.simps) simp
qed (subst epoll_find_loop.simps; auto split: if_splits)+

interpretation ins: link_search "epoll_find_link its n"
  "\<lambda>x. map_option (\<lambda>e. if n < item_fd e then Go_left else if n > item_fd e then Go_right else Here) (its x)"
  "\<lambda>x a. (Some x, True)" "\<lambda>x a. (Some x, False)" "\<lambda>a. Inr a" "\<lambda>x. Inl ()"
  for its n
proof unfold_locales
  show "epoll_find_link its n a None m = Some (Inr a)" for a m
    by (subst epoll_find_link.simps) simp
qed (subst epoll_find_link.simps; auto simp: Let_def split: if_splits)+

lemma ins_trail:
  "trail (\<lambda>x a. (Some x, True)) (\<lambda>x a. (Some x, False)) k (None, False) = (above k, in_left k)"
  by (induction k rule: frame_order_l.induct) auto

text \<open>What the comparison of both loops says about a sorted list of items.\<close>

definition dir :: "(u32 \<rightharpoonup> epoll_item) \<Rightarrow> int \<Rightarrow> u32 \<Rightarrow> side" where
  "dir its n q = (if n < key its q then Go_left else if n > key its q then Go_right else Here)"

lemma dir_guides: "sorted_wrt (\<lambda>a b. key its a < key its b) xs \<Longrightarrow> guides (dir its n) xs"
  unfolding guides_def by (erule sorted_wrt_mono_rel [rotated]) (auto simp: dir_def)

lemma dir_cmp:
  assumes "set xs \<subseteq> dom its"
  shows "\<forall>x \<in> set xs. map_option (\<lambda>e. if n < item_fd e then Go_left else if n > item_fd e then Go_right else Here) (its x)
    = Some (dir its n x)"
proof
  fix x assume "x \<in> set xs"
  then obtain e where "its x = Some e" using assms by auto
  then show "map_option (\<lambda>e. if n < item_fd e then Go_left else if n > item_fd e then Go_right else Here) (its x) = Some (dir its n x)"
    by (simp add: dir_def key_def)
qed

lemma find_item_ok:
  assumes inv: "ep_core L xss s" and i: "i < MAX_EPOLL_INSTANCES"
  shows "epoll_find_item i n s = Some (find (\<lambda>q. key (items s) q = n) (xss ! i))"
proof -
  note I = ep_coreD [OF inv i]
  have g: "guides (dir (items s) n) (xss ! i)" using I(1) by (auto simp: inst_ok_def dir_guides)
  have r: "items_tree (instances s ! i) = root (tree_of i s)" by (simp add: tree_of_def)
  show ?thesis
  proof (cases "find (\<lambda>q. key (items s) q = n) (xss ! i)")
    case None
    then have "\<forall>x \<in> set (xss ! i). dir (items s) n x \<noteq> Here" by (auto simp: find_None_iff dir_def)
    from fnd.search_link [OF I(2) dir_cmp [OF I(3)] g this]
    show ?thesis using None r by (metis epoll_find_item_def)
  next
    case (Some q)
    then have q: "q \<in> set (xss ! i)" "dir (items s) n q = Here" by (auto simp: find_Some_iff dir_def)
    obtain q' where q': "q' \<in> set (xss ! i)" "dir (items s) n q' = Here"
      "epoll_find_loop (items s) n (root (tree_of i s)) (tree_of i s) = Some (Some q')"
      using fnd.search_found [OF I(2) dir_cmp [OF I(3)] g q] by blast
    have "q' = q" using I(4) q q'(1,2) by (auto simp: dir_def inj_on_def split: if_splits)
    then show ?thesis using Some q'(3) r by (simp add: epoll_find_item_def)
  qed
qed

lemma find_item_key:
  "find (\<lambda>q. key its q = n) xs = Some q \<Longrightarrow> q \<in> set xs \<and> key its q = n"
  "find (\<lambda>q. key its q = n) xs = None \<longleftrightarrow> n \<notin> key its ` set xs"
  by (auto simp: find_Some_iff find_None_iff)

lemma get_loop_ok:
  assumes "ep_core L xss s" "set is \<subseteq> {..<MAX_EPOLL_INSTANCES}"
  shows "epoll_get_loop n is s = Some (find (\<lambda>i. inst_in_use (instances s ! i) \<and> epfd (instances s ! i) = n) is)"
  using assms(2) by (induction "is") (use assms(1) in \<open>auto simp: ep_core_def\<close>)

lemma get_instance_ok:
  assumes "ep_core L xss s"
  shows "epoll_get_instance n s = Some (find (\<lambda>i. inst_in_use (instances s ! i) \<and> epfd (instances s ! i) = n) [0..<16])"
  unfolding epoll_get_instance_def by (rule get_loop_ok [OF assms]) auto

lemma get_instance_some:
  assumes "ep_core L xss s" "epoll_get_instance n s = Some (Some i)"
  shows "i < MAX_EPOLL_INSTANCES" "inst_in_use (instances s ! i)" "n = - (int i + 1)"
proof -
  have "i < 16 \<and> inst_in_use (instances s ! i) \<and> epfd (instances s ! i) = n"
    using assms(2) get_instance_ok [OF assms(1), of n] by (auto simp: find_Some_iff simp del: upt_conv_Cons)
  then show "i < 16" "inst_in_use (instances s ! i)" "n = - (int i + 1)"
    using ep_coreD(1) [OF assms(1), of i] by (auto simp: inst_ok_def)
qed

section \<open>Inserting\<close>

lemma insert_exec:
  assumes seq: "rb_seq xs (tree_of i s)" and sorted: "sorted_wrt (\<lambda>a b. key (items s) a < key (items s) b) xs"
    and its: "items s q = Some it" "set xs \<subseteq> dom (items s)"
    and q: "q \<notin> set xs" "q \<in> dom (item_nodes s)" "item_fd it \<notin> key (items s) ` set xs"
  shows "\<exists>m. epoll_insert_item i q s = Some (0, upd_inst i (\<lambda>e. e\<lparr>num_items := num_items e + 1\<rparr>) (put_tree i m s)) \<and>
    rb_seq (before (dir (items s) (item_fd it)) xs @ q # behind (dir (items s) (item_fd it)) xs) m \<and>
    same_outside (insert q (set xs)) (tree_of i s) m"
proof -
  let ?d = "dir (items s) (item_fd it)" and ?t = "tree_of i s"
  have ne: "\<forall>x \<in> set xs. ?d x \<noteq> Here" using q(3) by (auto simp: dir_def)
  obtain k h where k: "?t = store (plug k Leaf) h" "is_rbt (plug k Leaf)"
    "frame_order_l k = before ?d xs" "frame_order_r k = behind ?d xs"
    "epoll_find_link (items s) (item_fd it) (None, False) (root ?t) ?t = Some (Inr (above k, in_left k))"
    by (rule ins.search_link [OF seq dir_cmp [OF its(2)] dir_guides [OF sorted] ne, of "(None, False)", unfolded ins_trail])
  have "x \<in> set xs \<longleftrightarrow> x \<in> set (frame_order_l k) \<union> set (frame_order_r k)" for x
    unfolding k(3,4) using ne by (cases "?d x") auto
  then have A: "addrs (plug k Leaf) = set xs" by auto
  have "item_nodes s q = nodes ?t q" by (simp add: tree_of_def)
  also have "\<dots> = h q" unfolding k(1) by (rule nodes_store_out) (use A q(1) in blast)
  finally have "h q \<noteq> None" using q(2) by (metis domIff)
  with q(1) A obtain m where m: "do { m \<leftarrow> rb_link_node (Some q) (above k) (in_left k) ?t; rb_insert_color (Some q) m } = Some m"
    "rb_seq (frame_order_l k @ q # frame_order_r k) m" "same_outside (insert q (addrs (plug k Leaf))) ?t m"
    using rb_insert_at [OF k(2) _ _ k(1)] by blast
  have "root ?t = items_tree (instances s ! i)" by (simp add: tree_of_def)
  then show ?thesis using its(1) k(3-5) m A by (intro exI [of _ m]) (auto simp: epoll_insert_item_def bind_eq_Some_conv)
qed

lemma insert_list:
  assumes "sorted_wrt (\<lambda>a b. key its a < key its b) xs" "n \<notin> key its ` set xs" "key its q = n" "q \<notin> set xs" "distinct xs"
  defines "ys \<equiv> before (dir its n) xs @ q # behind (dir its n) xs"
  shows "sorted_wrt (\<lambda>a b. key its a < key its b) ys" "set ys = insert q (set xs)" "distinct ys" "length ys = Suc (length xs)"
proof -
  have bf: "before (dir its n) xs = filter (\<lambda>x. key its x < n) xs" "behind (dir its n) xs = filter (\<lambda>x. \<not> key its x < n) xs"
    using assms(2) by (auto simp: dir_def not_less order_le_less intro!: filter_cong)
  show "sorted_wrt (\<lambda>a b. key its a < key its b) ys"
    using assms(1-3) unfolding ys_def bf
    by (auto simp: sorted_wrt_append sorted_wrt_filter not_less order_le_less)
  show "set ys = insert q (set xs)" "distinct ys" using assms(4,5) by (auto simp: ys_def bf)
  show "length ys = Suc (length xs)" by (simp add: ys_def bf sum_length_filter_compl)
qed

end
