(* ===== verification/Epoll_Ctl.thy ===== *)
theory Epoll_Ctl
  imports Epoll_Inv
begin

text \<open>
  The control operations against the abstract interest map of an instance: which descriptor it
  watches, for which events and with which user data.
\<close>

section \<open>The interest map\<close>

definition interest :: "nat \<Rightarrow> ('c, 'w) epoll_state \<Rightarrow> int \<rightharpoonup> u32 \<times> u64" where
  "interest i s n = (case epoll_find_item i n s of Some (Some q) \<Rightarrow>
     map_option (\<lambda>it. (item_events it, user_data it)) (items s q) | _ \<Rightarrow> None)"

definition watched :: "(u32 \<rightharpoonup> epoll_item) \<Rightarrow> u32 list \<Rightarrow> int \<rightharpoonup> u32 \<times> u64" where
  "watched its xs n = (case find (\<lambda>q. key its q = n) xs of None \<Rightarrow> None
     | Some q \<Rightarrow> map_option (\<lambda>it. (item_events it, user_data it)) (its q))"

lemma interest_watched: "ep_core L xss s \<Longrightarrow> i < MAX_EPOLL_INSTANCES \<Longrightarrow> interest i s = watched (items s) (xss ! i)"
  by (rule ext) (simp add: interest_def watched_def find_item_ok split: option.splits)

lemma watched_cong:
  assumes "\<And>q. q \<in> set xs \<Longrightarrow> key its' q = key its q \<and>
    map_option (\<lambda>it. (item_events it, user_data it)) (its' q) = map_option (\<lambda>it. (item_events it, user_data it)) (its q)"
  shows "watched its' xs = watched its xs"
proof
  fix n
  have "find (\<lambda>q. key its' q = n) xs = find (\<lambda>q. key its q = n) xs" using assms by (intro find_cong) auto
  then show "watched its' xs n = watched its xs n"
    using assms find_item_key(1) [of its n xs] by (auto simp: watched_def split: option.splits)
qed

lemma watched_at:
  assumes "inj_on (key its) (set xs)" "q \<in> set xs" "its q = Some it"
  shows "watched its xs (item_fd it) = Some (item_events it, user_data it)"
proof -
  have k: "key its q = item_fd it" using assms(3) by (simp add: key_def)
  then obtain q' where q': "find (\<lambda>q. key its q = item_fd it) xs = Some q'"
    using assms(2) find_item_key(2) [of its "item_fd it" xs] by (metis image_eqI not_None_eq)
  then have "q' = q" using find_item_key(1) [OF q'] assms(1,2) k by (auto simp: inj_on_def)
  then show ?thesis using q' assms(3) by (simp add: watched_def)
qed

lemma watched_none: "n \<notin> key its ` set xs \<Longrightarrow> watched its xs n = None"
  by (simp add: watched_def find_item_key(2) [THEN iffD2])

lemma watched_dom:
  assumes "set xs \<subseteq> dom its" shows "watched its xs n = None \<longleftrightarrow> n \<notin> key its ` set xs"
proof (cases "find (\<lambda>q. key its q = n) xs")
  case None then show ?thesis using find_item_key(2) [of its n xs] by (simp add: watched_def)
next
  case (Some q)
  then have "q \<in> set xs" "key its q = n" using find_item_key(1) by metis+
  then show ?thesis using Some assms by (auto simp: watched_def)
qed

text \<open>Adding and removing an item.\<close>

lemma watched_add:
  assumes "inj_on (key its') (set ys)" "set ys = insert q (set xs)" "its' = its(q \<mapsto> it)" "q \<notin> set xs"
    "inj_on (key its) (set xs)" "set xs \<subseteq> dom its"
  shows "watched its' ys = (watched its xs)(item_fd it \<mapsto> (item_events it, user_data it))"
proof
  fix n
  have k: "key its' x = (if x = q then item_fd it else key its x)" for x using assms(3) by (simp add: key_def)
  have img: "key its' ` set ys = insert (item_fd it) (key its ` set xs)"
    using assms(2,4) k by (auto simp: image_iff)
  consider "n = item_fd it" | x where "x \<in> set xs" "key its x = n" "n \<noteq> item_fd it" | "n \<notin> key its' ` set ys"
    unfolding img by blast
  then show "watched its' ys n = ((watched its xs)(item_fd it \<mapsto> (item_events it, user_data it))) n"
  proof cases
    case 1 then show ?thesis using watched_at [OF assms(1), of q it] assms(2,3) by simp
  next
    case 2
    obtain e where e: "its x = Some e" using 2(1) assms(6) by auto
    then have "its' x = Some e" "n = item_fd e" using 2 assms(3,4) by (auto simp: key_def)
    then show ?thesis using watched_at [OF assms(1), of x e] watched_at [OF assms(5) 2(1) e] 2 assms(2) by simp
  next
    case 3
    then have "n \<notin> key its ` set xs" "n \<noteq> item_fd it" unfolding img by blast+
    then show ?thesis using 3 by (simp add: watched_none)
  qed
qed

lemma watched_del:
  assumes "inj_on (key its) (set xs)" "distinct xs" "q \<in> set xs" "its' = its(q := None)" "set xs \<subseteq> dom its"
  shows "watched its' (remove1 q xs) = (watched its xs)(key its q := None)"
proof
  fix n
  have k: "key its' x = key its x" "its' x = its x" if "x \<noteq> q" for x using assms(4) that by (simp_all add: key_def)
  have S: "set (remove1 q xs) = set xs - {q}" using assms(2) by simp
  have inj: "inj_on (key its') (set (remove1 q xs))" using assms(1) k unfolding S by (auto simp: inj_on_def)
  have img: "key its' ` set (remove1 q xs) = key its ` set xs - {key its q}"
    using assms(1,3) k unfolding S by (auto simp: inj_on_def image_iff)
  show "watched its' (remove1 q xs) n = ((watched its xs)(key its q := None)) n"
  proof (cases "n \<in> key its ` set xs - {key its q}")
    case True
    then obtain x where x: "x \<in> set xs" "x \<noteq> q" "n = key its x" by auto
    then obtain e where e: "its x = Some e" using assms(5) by auto
    then show ?thesis using watched_at [OF inj, of x e] watched_at [OF assms(1) x(1) e] x k(2) [OF x(2)] S True
      by (auto simp: key_def)
  next
    case False
    then show ?thesis using watched_none [of n its' "remove1 q xs"] watched_none [of n its xs] unfolding img by auto
  qed
qed

section \<open>The three operations\<close>

lemma inst_simps [simp]:
  "i < length (instances s) \<Longrightarrow> instances (upd_inst i f s) ! i = f (instances s ! i)"
  "i \<noteq> j \<Longrightarrow> instances (upd_inst i f s) ! j = instances s ! j"
  "length (instances (upd_inst i f s)) = length (instances s)"
  "items (upd_inst i f s) = items s" "item_nodes (upd_inst i f s) = item_nodes s"
  "kernel_heap (upd_inst i f s) = kernel_heap s" "fd_tab (upd_inst i f s) = fd_tab s"
  "i < length (instances s) \<Longrightarrow> tree_of i (put_tree i m s) = m"
  "i < length (instances s) \<Longrightarrow> instances (put_tree i m s) ! i = (instances s ! i)\<lparr>items_tree := root m\<rparr>"
  "i \<noteq> j \<Longrightarrow> instances (put_tree i m s) ! j = instances s ! j"
  "length (instances (put_tree i m s)) = length (instances s)"
  "items (put_tree i m s) = items s" "item_nodes (put_tree i m s) = nodes m"
  "kernel_heap (put_tree i m s) = kernel_heap s" "fd_tab (put_tree i m s) = fd_tab s"
  by (simp_all add: upd_inst_def put_tree_def tree_of_def)

lemma concat_nth_sub: "i < length xss \<Longrightarrow> set (xss ! i) \<subseteq> set (concat xss)"
  using nth_mem by fastforce

lemma ep_core_facts:
  assumes "ep_core L xss s" "i < MAX_EPOLL_INSTANCES"
  shows "i < length (instances s)" "i < length xss" "set (xss ! i) \<subseteq> set (concat xss)" "distinct (xss ! i)"
    "dom (items s) = set (concat xss)" "dom (item_nodes s) = set (concat xss)" "set (concat xss) \<subseteq> dom L"
    "sorted_wrt (\<lambda>a b. key (items s) a < key (items s) b) (xss ! i)" "heap_rep L (kernel_heap s)"
proof -
  show "i < length (instances s)" "i < length xss" "dom (items s) = set (concat xss)" "dom (item_nodes s) = set (concat xss)"
    "set (concat xss) \<subseteq> dom L" "heap_rep L (kernel_heap s)" using assms by (simp_all add: ep_core_def)
  then show "set (xss ! i) \<subseteq> set (concat xss)" by (intro concat_nth_sub)
  show "distinct (xss ! i)" "sorted_wrt (\<lambda>a b. key (items s) a < key (items s) b) (xss ! i)"
    using ep_coreD [OF assms] by (auto simp: inst_ok_def dest: rb_seq_distinct)
qed

lemma ctl_add_exec:
  fixes ev :: epoll_event and s :: "('c, 'w) epoll_state"
  assumes core: "ep_core L xss s" and i: "i < MAX_EPOLL_INSTANCES" and n: "n \<notin> key (items s) ` set (xss ! i)"
    and al: "kmalloc sizeof_epoll_item (kernel_heap s) = Some (Some q, h)" and q: "q \<notin> set (concat xss)"
  defines "it \<equiv> \<lparr>item_fd = n, item_events = events ev, user_data = ev_data ev, revents = 0\<rparr>"
  defines "its \<equiv> (items s)(q \<mapsto> it)"
  defines "ys \<equiv> before (dir its n) (xss ! i) @ q # behind (dir its n) (xss ! i)"
  shows "\<exists>s' m. epoll_ctl_add i n (Some ev) s = Some (0, s') \<and>
    s' = upd_inst i (\<lambda>e. e\<lparr>items_tree := root m, num_items := num_items e + 1\<rparr>)
      (s\<lparr>kernel_heap := h, items := its, item_nodes := nodes m\<rparr>) \<and>
    rb_seq ys m \<and> dom (nodes m) = insert q (dom (item_nodes s)) \<and>
    (\<forall>x. x \<notin> insert q (set (xss ! i)) \<longrightarrow> nodes m x = item_nodes s x)"
proof -
  note I = ep_coreD [OF core i] and F = ep_core_facts [OF core i]
  let ?n = "(item_nodes s)(q \<mapsto> raw_node s q)"
  let ?s1 = "s\<lparr>kernel_heap := h, item_nodes := ?n, items := its\<rparr>"
  have qx: "q \<notin> set (xss ! i)" using q F(3) by blast
  have "rb_seq (xss ! i) (tree_of i ?s1)"
    using I(2) qx by (auto intro: rb_seq_frame simp: tree_of_def)
  then obtain m1 where m1: "RB_CLEAR_NODE (Some q) (tree_of i ?s1) = Some m1" "rb_seq (xss ! i) m1"
    "same_outside {q} (tree_of i ?s1) m1"
    using rb_clear_seq [of "xss ! i" "tree_of i ?s1" q] qx by (auto simp: tree_of_def)
  let ?s2 = "put_tree i m1 ?s1"
  have t2: "tree_of i ?s2 = m1" using F(1) by simp
  have dm1: "dom (nodes m1) = insert q (dom (item_nodes s))" "\<And>x. x \<noteq> q \<Longrightarrow> nodes m1 x = item_nodes s x"
    using m1(3) by (auto simp: same_outside_def tree_of_def)
  have k: "key its x = (if x = q then n else key (items s) x)" for x by (simp add: key_def its_def it_def)
  have sorted: "sorted_wrt (\<lambda>a b. key its a < key its b) (xss ! i)"
    by (rule sorted_wrt_mono_rel [OF _ F(8)]) (use qx k in auto)
  have n': "n \<notin> key its ` set (xss ! i)" using n qx k by (auto simp: image_iff)
  have nfd: "n = item_fd it" and itq: "its q = Some it" by (simp_all add: it_def its_def)
  have its2: "items ?s2 = its" by simp
  have dom': "set (xss ! i) \<subseteq> dom its" using I(3) by (auto simp: its_def)
  have "\<exists>m. epoll_insert_item i q ?s2 = Some (0, upd_inst i (\<lambda>e. e\<lparr>num_items := num_items e + 1\<rparr>) (put_tree i m ?s2)) \<and>
     rb_seq (before (dir (items ?s2) (item_fd it)) (xss ! i) @ q # behind (dir (items ?s2) (item_fd it)) (xss ! i)) m \<and>
     same_outside (insert q (set (xss ! i))) (tree_of i ?s2) m"
    by (rule insert_exec) (use m1(2) t2 sorted n' qx dm1(1) dom' in \<open>simp_all add: nfd itq\<close>)
  then have "\<exists>m. epoll_insert_item i q ?s2 = Some (0, upd_inst i (\<lambda>e. e\<lparr>num_items := num_items e + 1\<rparr>) (put_tree i m ?s2)) \<and>
     rb_seq ys m \<and> same_outside (insert q (set (xss ! i))) m1 m"
    unfolding t2 its2 ys_def nfd [symmetric] .
  then obtain m where m: "epoll_insert_item i q ?s2 = Some (0, upd_inst i (\<lambda>e. e\<lparr>num_items := num_items e + 1\<rparr>) (put_tree i m ?s2))"
     "rb_seq ys m" "same_outside (insert q (set (xss ! i))) m1 m" by blast
  let ?s3 = "upd_inst i (\<lambda>e. e\<lparr>num_items := num_items e + 1\<rparr>) (put_tree i m ?s2)"
  have "epoll_find_item i n s = Some NULL" using find_item_ok [OF core i] n find_item_key(2) by metis
  then have "epoll_ctl_add i n (Some ev) s = Some (0, ?s3)"
    using al m1(1) m(1) by (simp add: epoll_ctl_add_def alloc_item_def its_def it_def Let_def)
  moreover have "?s3 = upd_inst i (\<lambda>e. e\<lparr>items_tree := root m, num_items := num_items e + 1\<rparr>)
      (s\<lparr>kernel_heap := h, items := its, item_nodes := nodes m\<rparr>)"
    using F(1) by (simp add: put_tree_def upd_inst_def)
  moreover have "dom (nodes m) = insert q (dom (item_nodes s))" using m(3) dm1 by (simp add: same_outside_def)
  moreover have "nodes m x = item_nodes s x" if "x \<notin> insert q (set (xss ! i))" for x
    using m(3) dm1(2) that by (simp add: same_outside_def)
  ultimately show ?thesis using m(2) by blast
qed

lemma ctl_add_ok:
  fixes ev :: epoll_event and s :: "('c, 'w) epoll_state"
  assumes inv: "ep_inv L xss s" and i: "i < MAX_EPOLL_INSTANCES" "inst_in_use (instances s ! i)"
    and n: "0 \<le> n" "n < 64" "n \<notin> key (items s) ` set (xss ! i)"
    and al: "kmalloc sizeof_epoll_item (kernel_heap s) = Some (Some q, h)"
  shows "\<exists>s' ys L'. epoll_ctl_add i n (Some ev) s = Some (0, s') \<and> ep_inv L' (xss[i := ys]) s' \<and>
    set ys = insert q (set (xss ! i)) \<and> q \<notin> set (concat xss) \<and>
    items s' = (items s)(q \<mapsto> \<lparr>item_fd = n, item_events = events ev, user_data = ev_data ev, revents = 0\<rparr>)"
proof -
  let ?it = "\<lparr>item_fd = n, item_events = events ev, user_data = ev_data ev, revents = 0\<rparr>"
  let ?its = "(items s)(q \<mapsto> ?it)"
  let ?ys = "before (dir ?its n) (xss ! i) @ q # behind (dir ?its n) (xss ! i)"
  have core: "ep_core L xss s" using inv by (simp add: ep_inv_def)
  note I = ep_coreD [OF core i(1)] and F = ep_core_facts [OF core i(1)]
  obtain k where k: "q \<notin> dom L" "heap_rep (L(q \<mapsto> k)) h" using kh.alloc_some [OF F(9) al] by blast
  have q: "q \<notin> set (concat xss)" "q \<notin> set (xss ! i)" using k(1) F(3,7) by blast+
  obtain s' m where add: "epoll_ctl_add i n (Some ev) s = Some (0, s')"
    and s': "s' = upd_inst i (\<lambda>e. e\<lparr>items_tree := root m, num_items := num_items e + 1\<rparr>)
      (s\<lparr>kernel_heap := h, items := ?its, item_nodes := nodes m\<rparr>)"
    and m: "rb_seq ?ys m" "dom (nodes m) = insert q (dom (item_nodes s))"
      "\<And>x. x \<notin> insert q (set (xss ! i)) \<Longrightarrow> nodes m x = item_nodes s x"
    using ctl_add_exec [OF core i(1) n(3) al q(1), of ev] by blast
  have key: "key ?its x = (if x = q then n else key (items s) x)" for x by (simp add: key_def)
  have sorted: "sorted_wrt (\<lambda>a b. key ?its a < key ?its b) (xss ! i)"
    by (rule sorted_wrt_mono_rel [OF _ F(8)]) (use q key in auto)
  have "n \<notin> key ?its ` set (xss ! i)" using n(3) q(2) key by (auto simp: image_iff)
  then have ys: "sorted_wrt (\<lambda>a b. key ?its a < key ?its b) ?ys" "set ?ys = insert q (set (xss ! i))" "distinct ?ys"
      "length ?ys = Suc (length (xss ! i))"
    using insert_list [OF sorted _ _ q(2) F(4), of n] key by auto
  have fields: "items s' = ?its" "item_nodes s' = nodes m" "kernel_heap s' = h" "fd_tab s' = fd_tab s"
    "instances s' ! i = (instances s ! i)\<lparr>num_items := num_items (instances s ! i) + 1, items_tree := root m\<rparr>"
    "\<And>j. j \<noteq> i \<Longrightarrow> instances s' ! j = instances s ! j" "length (instances s') = 16"
    using s' F(1) core by (simp_all add: upd_inst_def ep_core_def)
  have m': "\<lparr>nodes = nodes m, root = root m\<rparr> = m" by simp
  have bounds: "\<forall>a \<in> set ?ys. 0 \<le> key ?its a \<and> key ?its a < 64"
    using I(1) n(1,2) ys(2) key by (auto simp: inst_ok_def)
  have ok: "inst_ok i (item_nodes s') (items s') ?ys (instances s' ! i)"
    using I(1) i(2) m(1) ys(1) bounds unfolding fields inst_ok_def by (simp add: m')
  have doms: "dom (items s') = dom (items s) - set (xss ! i) \<union> set ?ys" "dom (item_nodes s') = dom (items s) - set (xss ! i) \<union> set ?ys"
    using F(3,5,6) m(2) unfolding fields ys(2) by auto
  have "ep_core (L(q \<mapsto> k)) (xss[i := ?ys]) s'"
  proof (rule ep_core_upd [OF core i(1) ok fields(7,6) _ doms ys(3)])
    show "item_nodes s' x = item_nodes s x \<and> key (items s') x = key (items s) x"
      if "x \<in> set (concat xss)" "x \<notin> set (xss ! i)" for x
      using that q m(3) [of x] key [of x] unfolding fields by auto
    show "set ?ys \<inter> set (concat xss) \<subseteq> set (xss ! i)" unfolding ys(2) using q by blast
    show "dom (items s') \<subseteq> dom (L(q \<mapsto> k))" using F(5,7) unfolding fields by auto
    show "table_ok (fd_tab s')" using core unfolding fields by (simp add: ep_core_def)
  qed (use k(2) fields in simp_all)
  moreover have "num_items (instances s' ! j) = int (length (xss[i := ?ys] ! j))" if "j < 16" for j
    using inv that F(2) ys(4) fields(5,6) by (cases "j = i") (simp_all add: ep_inv_def)
  ultimately have "ep_inv (L(q \<mapsto> k)) (xss[i := ?ys]) s'" by (simp add: ep_inv_def)
  then show ?thesis using add ys(2) q(1) fields(1) by blast
qed

text \<open>Erasing the node of an item and freeing it, as \<open>EPOLL_CTL_DEL\<close> and \<open>epoll_close\<close> do.\<close>

lemma erase_free_ok:
  assumes core: "ep_core L xss s" and i: "i < MAX_EPOLL_INSTANCES" and q: "q \<in> set (xss ! i)"
  shows "\<exists>m h. rb_erase (Some q) (tree_of i s) = Some m \<and> kfree (Some q) (kernel_heap s) = Some h \<and>
    ep_core (L(q := None)) (xss[i := remove1 q (xss ! i)])
      (upd_inst i (\<lambda>e. e\<lparr>items_tree := root m, num_items := k e\<rparr>)
        (s\<lparr>kernel_heap := h, item_nodes := (nodes m)(q := None), items := (items s)(q := None)\<rparr>))"
proof -
  note I = ep_coreD [OF core i] and F = ep_core_facts [OF core i]
  let ?ys = "remove1 q (xss ! i)" and ?its = "(items s)(q := None)"
  obtain m where m: "rb_erase (Some q) (tree_of i s) = Some m" "rb_seq ?ys m" "same_outside (set (xss ! i)) (tree_of i s) m"
    using rb_erase_seq [OF I(2) q] by blast
  have "q \<in> dom L" using q F(3,7) by blast
  then obtain h where h: "kfree (Some q) (kernel_heap s) = Some h" "heap_rep (L(q := None)) h"
    using kh.dealloc_some [OF F(9)] by blast
  let ?s' = "upd_inst i (\<lambda>e. e\<lparr>items_tree := root m, num_items := k e\<rparr>)
        (s\<lparr>kernel_heap := h, item_nodes := (nodes m)(q := None), items := ?its\<rparr>)"
  have ys: "set ?ys = set (xss ! i) - {q}" "distinct ?ys" using F(4) by simp_all
  have nd: "dom (nodes m) = dom (item_nodes s)" "\<And>x. x \<notin> set (xss ! i) \<Longrightarrow> nodes m x = item_nodes s x"
    using m(3) by (simp_all add: same_outside_def tree_of_def)
  have key: "key ?its x = key (items s) x" if "x \<noteq> q" for x using that by (simp add: key_def)
  have sorted: "sorted_wrt (\<lambda>a b. key ?its a < key ?its b) ?ys"
    by (rule sorted_wrt_mono_rel [OF _ sorted_wrt_remove1 [OF F(8), of q]]) (use ys key in auto)
  have seq: "rb_seq ?ys \<lparr>nodes = (nodes m)(q := None), root = root m\<rparr>"
    by (rule rb_seq_frame [OF m(2)]) (use ys in auto)
  have "ep_core (L(q := None)) (xss[i := ?ys]) ?s'"
  proof (rule ep_core_upd [OF core i _ _ _ _ _ _ ys(2)])
    show "inst_ok i (item_nodes ?s') (items ?s') ?ys (instances ?s' ! i)"
      using I(1) seq sorted F(1) ys(1) key by (auto simp: inst_ok_def)
    show "length (instances ?s') = 16" using core by (simp add: ep_core_def)
    show "instances ?s' ! j = instances s ! j" if "j \<noteq> i" for j using that by simp
    show "item_nodes ?s' x = item_nodes s x \<and> key (items ?s') x = key (items s) x"
      if "x \<in> set (concat xss)" "x \<notin> set (xss ! i)" for x
      using that q nd(2) [of x] key [of x] by auto
    show "dom (items ?s') = dom (items s) - set (xss ! i) \<union> set ?ys" "dom (item_nodes ?s') = dom (items s) - set (xss ! i) \<union> set ?ys"
      using F(3,5,6) nd(1) q ys(1) by auto
    show "set ?ys \<inter> set (concat xss) \<subseteq> set (xss ! i)" using ys(1) by blast
    show "heap_rep (L(q := None)) (kernel_heap ?s')" using h(2) by simp
    show "dom (items ?s') \<subseteq> dom (L(q := None))" using F(5,7) by auto
    show "table_ok (fd_tab ?s')" using core by (simp add: ep_core_def)
  qed
  then show ?thesis using m(1) h(1) by blast
qed

lemma length_remove1_Suc: "q \<in> set xs \<Longrightarrow> Suc (length (remove1 q xs)) = length xs"
  by (induction xs) auto

lemma ctl_del_ok:
  assumes inv: "ep_inv L xss s" and i: "i < MAX_EPOLL_INSTANCES"
    and q: "find (\<lambda>q. key (items s) q = n) (xss ! i) = Some q"
  shows "\<exists>s'. epoll_ctl_del i n s = Some (0, s') \<and> ep_inv (L(q := None)) (xss[i := remove1 q (xss ! i)]) s' \<and>
    items s' = (items s)(q := None)"
proof -
  have core: "ep_core L xss s" using inv by (simp add: ep_inv_def)
  note F = ep_core_facts [OF core i]
  have qx: "q \<in> set (xss ! i)" using find_item_key(1) [OF q] by simp
  obtain m h where mh: "rb_erase (Some q) (tree_of i s) = Some m" "kfree (Some q) (kernel_heap s) = Some h"
    and core': "ep_core (L(q := None)) (xss[i := remove1 q (xss ! i)])
      (upd_inst i (\<lambda>e. e\<lparr>items_tree := root m, num_items := num_items e - 1\<rparr>)
        (s\<lparr>kernel_heap := h, item_nodes := (nodes m)(q := None), items := (items s)(q := None)\<rparr>))" (is "ep_core _ _ ?s'")
    using erase_free_ok [OF core i qx, of "\<lambda>e. num_items e - 1"] by blast
  have "epoll_ctl_del i n s = Some (0, ?s')"
    using mh find_item_ok [OF core i] q F(1)
    by (auto simp: epoll_ctl_del_def free_item_def put_tree_def upd_inst_def)
  moreover have "num_items (instances ?s' ! j) = int (length (xss[i := remove1 q (xss ! i)] ! j))" if "j < 16" for j
  proof (cases "j = i")
    case True
    have "int (length (remove1 q (xss ! i))) = int (length (xss ! i)) - 1"
      using length_remove1_Suc [OF qx] by linarith
    then show ?thesis using True inv i F(1,2) by (simp add: ep_inv_def)
  next
    case False then show ?thesis using inv that by (simp add: ep_inv_def)
  qed
  ultimately show ?thesis using core' by (auto simp: ep_inv_def)
qed

lemma ep_inv_items:
  assumes inv: "ep_inv L xss s" and dom: "dom its = dom (items s)" and key: "\<And>q. q \<in> dom its \<Longrightarrow> key its q = key (items s) q"
    and t: "table_ok t"
  shows "ep_inv L xss (s\<lparr>items := its, fd_tab := t, world := w\<rparr>)"
proof -
  let ?s = "s\<lparr>items := its, fd_tab := t, world := w\<rparr>"
  have core: "ep_core L xss s" using inv by (simp add: ep_inv_def)
  have "inst_ok i (item_nodes ?s) (items ?s) (xss ! i) (instances ?s ! i)" if "i < 16" for i
  proof -
    have "\<forall>q \<in> set (xss ! i). item_nodes s q = item_nodes s q \<and> key its q = key (items s) q"
      using key ep_coreD(3) [OF core that] dom by blast
    from inst_ok_frame [OF ep_coreD(1) [OF core that] this] show ?thesis by simp
  qed
  then show ?thesis using inv dom t by (simp add: ep_inv_def ep_core_def)
qed

lemma ctl_mod_ok:
  assumes inv: "ep_inv L xss s" and i: "i < MAX_EPOLL_INSTANCES"
    and q: "find (\<lambda>q. key (items s) q = n) (xss ! i) = Some q" and it: "items s q = Some it"
  shows "\<exists>s'. epoll_ctl_mod i n (Some ev) s = Some (0, s') \<and> ep_inv L xss s' \<and>
    items s' = (items s)(q \<mapsto> it\<lparr>item_events := events ev, user_data := ev_data ev\<rparr>)"
proof -
  have core: "ep_core L xss s" using inv by (simp add: ep_inv_def)
  let ?its = "(items s)(q \<mapsto> it\<lparr>item_events := events ev, user_data := ev_data ev\<rparr>)"
  have "epoll_ctl_mod i n (Some ev) s = Some (0, s\<lparr>items := ?its\<rparr>)"
    using find_item_ok [OF core i] q it by (simp add: epoll_ctl_mod_def upd_item_def)
  moreover have "ep_inv L xss (s\<lparr>items := ?its, fd_tab := fd_tab s, world := world s\<rparr>)"
    by (rule ep_inv_items [OF inv]) (use it core in \<open>auto simp: key_def ep_core_def\<close>)
  ultimately show ?thesis by simp
qed

section \<open>Refinement\<close>

text \<open>The specification of \<open>epoll_ctl\<close> on the interest map: \<open>None\<close> is an error.\<close>

definition ctl_spec :: "int \<Rightarrow> int \<Rightarrow> u32 \<times> u64 \<Rightarrow> (int \<rightharpoonup> u32 \<times> u64) \<Rightarrow> (int \<rightharpoonup> u32 \<times> u64) option" where
  "ctl_spec opr n v M =
     (if opr = EPOLL_CTL_ADD then (if M n = None then Some (M(n \<mapsto> v)) else None)
      else if opr = EPOLL_CTL_DEL then (if M n = None then None else Some (M(n := None)))
      else if opr = EPOLL_CTL_MOD then (if M n = None then None else Some (M(n \<mapsto> v)))
      else None)"

lemma other_interest:
  assumes "ep_core L xss s" "ep_core L' xss' s'" "i < MAX_EPOLL_INSTANCES" "j < MAX_EPOLL_INSTANCES" "j \<noteq> i"
    and "xss' = xss[i := ys]" "\<And>q. q \<in> set (concat xss) \<Longrightarrow> q \<notin> set (xss ! i) \<Longrightarrow> items s' q = items s q"
  shows "interest j s' = interest j s"
proof -
  have len: "length xss = 16" "distinct (concat xss)" using assms(1) by (simp_all add: ep_core_def)
  then have "q \<notin> set (xss ! i) \<and> q \<in> set (concat xss)" if "q \<in> set (xss ! j)" for q
    using that concat_nth_disjoint [of xss i j] concat_nth_sub [of j xss] assms(3-5) by auto
  then have "watched (items s') (xss ! j) = watched (items s) (xss ! j)"
    by (intro watched_cong) (auto simp: key_def assms(7))
  then show ?thesis using assms(1-6) by (simp add: interest_watched)
qed

definition ctl_result :: "nat \<Rightarrow> int \<Rightarrow> int \<Rightarrow> epoll_event \<Rightarrow> ('c, 'w) epoll_state \<Rightarrow> ('c, 'w) epoll_state \<Rightarrow> bool" where
  "ctl_result i opr n ev s s' \<longleftrightarrow> ctl_spec opr n (events ev, ev_data ev) (interest i s) = Some (interest i s') \<and>
     (\<forall>j < MAX_EPOLL_INSTANCES. j \<noteq> i \<longrightarrow> interest j s' = interest j s)"

lemma ctl_add_refines:
  assumes inv: "ep_inv L xss s" and i: "i < MAX_EPOLL_INSTANCES" "inst_in_use (instances s ! i)"
    and n: "0 \<le> n" "n < 64" "interest i s n = None"
    and al: "kmalloc sizeof_epoll_item (kernel_heap s) = Some (Some q, h)"
  shows "\<exists>s' L' xss'. epoll_ctl_add i n (Some ev) s = Some (0, s') \<and> ep_inv L' xss' s' \<and> ctl_result i EPOLL_CTL_ADD n ev s s'"
proof -
  have core: "ep_core L xss s" using inv by (simp add: ep_inv_def)
  note I = ep_coreD [OF core i(1)] and F = ep_core_facts [OF core i(1)]
  have w: "interest i s = watched (items s) (xss ! i)" by (rule interest_watched [OF core i(1)])
  then have "n \<notin> key (items s) ` set (xss ! i)" using n(3) watched_dom [OF I(3)] by metis
  then obtain s' ys L' where s': "epoll_ctl_add i n (Some ev) s = Some (0, s')" "ep_inv L' (xss[i := ys]) s'"
    and ys: "set ys = insert q (set (xss ! i))" "q \<notin> set (concat xss)"
    and its: "items s' = (items s)(q \<mapsto> \<lparr>item_fd = n, item_events = events ev, user_data = ev_data ev, revents = 0\<rparr>)"
    using ctl_add_ok [OF inv i n(1,2) _ al, of ev] by blast
  have core': "ep_core L' (xss[i := ys]) s'" using s'(2) by (simp add: ep_inv_def)
  have yi: "xss[i := ys] ! i = ys" using F(2) by simp
  have "q \<notin> set (xss ! i)" using ys(2) F(3) by blast
  then have "interest i s' = (interest i s)(n \<mapsto> (events ev, ev_data ev))"
    using watched_add [OF ep_coreD(4) [OF core' i(1), unfolded yi] ys(1) its _ I(4,3)]
      interest_watched [OF core' i(1), unfolded yi] w by simp
  moreover have "interest j s' = interest j s" if "j < 16" "j \<noteq> i" for j
    by (rule other_interest [OF core core' i(1) that refl]) (use its ys(2) in auto)
  ultimately show ?thesis using s' n(3) by (auto simp: ctl_result_def ctl_spec_def)
qed

lemma ctl_del_refines:
  assumes inv: "ep_inv L xss s" and i: "i < MAX_EPOLL_INSTANCES" and n: "interest i s n \<noteq> None"
  shows "\<exists>s' L' xss'. epoll_ctl_del i n s = Some (0, s') \<and> ep_inv L' xss' s' \<and> ctl_result i EPOLL_CTL_DEL n ev s s'"
proof -
  have core: "ep_core L xss s" using inv by (simp add: ep_inv_def)
  note I = ep_coreD [OF core i] and F = ep_core_facts [OF core i]
  have w: "interest i s = watched (items s) (xss ! i)" by (rule interest_watched [OF core i])
  then obtain q where q: "find (\<lambda>q. key (items s) q = n) (xss ! i) = Some q"
    using n by (auto simp: watched_def split: option.splits)
  obtain s' where s': "epoll_ctl_del i n s = Some (0, s')" "ep_inv (L(q := None)) (xss[i := remove1 q (xss ! i)]) s'"
    and its: "items s' = (items s)(q := None)" using ctl_del_ok [OF inv i q] by blast
  have core': "ep_core (L(q := None)) (xss[i := remove1 q (xss ! i)]) s'" using s'(2) by (simp add: ep_inv_def)
  have qx: "q \<in> set (xss ! i)" "key (items s) q = n" using find_item_key(1) [OF q] by simp_all
  have "interest i s' = (interest i s)(n := None)"
    using watched_del [OF I(4) F(4) qx(1) its I(3)] interest_watched [OF core' i] w qx(2) F(2) by simp
  moreover have "interest j s' = interest j s" if "j < 16" "j \<noteq> i" for j
    by (rule other_interest [OF core core' i that refl]) (use its qx(1) in auto)
  ultimately show ?thesis using s' n by (auto simp: ctl_result_def ctl_spec_def)
qed

lemma watched_upd:
  assumes "inj_on (key its) (set xs)" "q \<in> set xs" "its q = Some it" "item_fd it' = item_fd it" "set xs \<subseteq> dom its"
  shows "watched (its(q \<mapsto> it')) xs = (watched its xs)(item_fd it \<mapsto> (item_events it', user_data it'))"
proof
  fix n
  have k: "key (its(q \<mapsto> it')) x = key its x" for x using assms(3,4) by (simp add: key_def)
  show "watched (its(q \<mapsto> it')) xs n = ((watched its xs)(item_fd it \<mapsto> (item_events it', user_data it'))) n"
  proof (cases "n = item_fd it")
    case True
    have "inj_on (key (its(q \<mapsto> it'))) (set xs)" using assms(1) by (simp add: k inj_on_def)
    then show ?thesis using True assms(2,4) watched_at [of "its(q \<mapsto> it')" xs q it'] by simp
  next
    case False
    have "q' \<noteq> q" if "find (\<lambda>q. key its q = n) xs = Some q'" for q'
      using find_item_key(1) [OF that] assms(3) False by (auto simp: key_def)
    then show ?thesis using False by (auto simp: watched_def k split: option.splits)
  qed
qed

lemma ctl_mod_refines:
  assumes inv: "ep_inv L xss s" and i: "i < MAX_EPOLL_INSTANCES" and n: "interest i s n \<noteq> None"
  shows "\<exists>s' L' xss'. epoll_ctl_mod i n (Some ev) s = Some (0, s') \<and> ep_inv L' xss' s' \<and> ctl_result i EPOLL_CTL_MOD n ev s s'"
proof -
  have core: "ep_core L xss s" using inv by (simp add: ep_inv_def)
  note I = ep_coreD [OF core i] and F = ep_core_facts [OF core i]
  have w: "interest i s = watched (items s) (xss ! i)" by (rule interest_watched [OF core i])
  then obtain q where q: "find (\<lambda>q. key (items s) q = n) (xss ! i) = Some q"
    using n by (auto simp: watched_def split: option.splits)
  have qx: "q \<in> set (xss ! i)" "key (items s) q = n" using find_item_key(1) [OF q] by simp_all
  then obtain it where it: "items s q = Some it" "item_fd it = n" using I(3) by (auto simp: key_def)
  obtain s' where s': "epoll_ctl_mod i n (Some ev) s = Some (0, s')" "ep_inv L xss s'"
    and its: "items s' = (items s)(q \<mapsto> it\<lparr>item_events := events ev, user_data := ev_data ev\<rparr>)"
    using ctl_mod_ok [OF inv i q it(1), of ev] by blast
  have core': "ep_core L xss s'" using s'(2) by (simp add: ep_inv_def)
  have "interest i s' = (interest i s)(n \<mapsto> (events ev, ev_data ev))"
    using watched_upd [OF I(4) qx(1) it(1) _ I(3)] interest_watched [OF core' i] w it(2) its by simp
  moreover have "interest j s' = interest j s" if "j < 16" "j \<noteq> i" for j
    by (rule other_interest [OF core core' i that, where ys = "xss ! i"]) (use its qx(1) in auto)
  ultimately show ?thesis using s' n by (auto simp: ctl_result_def ctl_spec_def)
qed

text \<open>The failing branches.\<close>

lemma find_item_interest:
  assumes inv: "ep_core L xss s" and i: "i < MAX_EPOLL_INSTANCES"
  shows "\<exists>p. epoll_find_item i n s = Some p \<and> (p = NULL \<longleftrightarrow> interest i s n = None)"
proof -
  have "find (\<lambda>q. key (items s) q = n) (xss ! i) = None \<longleftrightarrow> interest i s n = None"
    unfolding interest_watched [OF inv i] watched_dom [OF ep_coreD(3) [OF inv i]] by (rule find_item_key(2))
  then show ?thesis using find_item_ok [OF inv i, of n] by simp
qed

lemma ep_inv_heap:
  assumes "ep_inv L xss s" "heap_rep L h"
  shows "ep_inv L xss (s\<lparr>kernel_heap := h\<rparr>)"
  using assms by (simp add: ep_inv_def ep_core_def)

lemma interest_heap: "interest j (s\<lparr>kernel_heap := h\<rparr>) = interest j s"
  by (rule ext) (simp add: interest_def epoll_find_item_def tree_of_def split: option.splits)

lemma ctl_add_fails:
  assumes inv: "ep_inv L xss s" and i: "i < MAX_EPOLL_INSTANCES"
    and fails: "interest i s n \<noteq> None \<or> map_option fst (kmalloc sizeof_epoll_item (kernel_heap s)) = Some NULL"
  shows "\<exists>s'. epoll_ctl_add i n ev s = Some (- 1, s') \<and> ep_inv L xss s' \<and> (\<forall>j. interest j s' = interest j s)"
proof -
  have core: "ep_core L xss s" using inv by (simp add: ep_inv_def)
  obtain p where p: "epoll_find_item i n s = Some p" "p = NULL \<longleftrightarrow> interest i s n = None"
    using find_item_interest [OF core i] by blast
  show ?thesis
  proof (cases "interest i s n = None")
    case True
    then obtain h where h: "kmalloc sizeof_epoll_item (kernel_heap s) = Some (None, h)" using fails by auto
    have "heap_rep L h" using kh.alloc_null [OF ep_core_facts(9) [OF core i] h] .
    then show ?thesis using p True h ep_inv_heap [OF inv] by (simp add: epoll_ctl_add_def alloc_item_def interest_heap)
  next
    case False then show ?thesis using p inv by (auto simp: epoll_ctl_add_def)
  qed
qed

lemma ctl_absent:
  assumes inv: "ep_inv L xss s" and i: "i < MAX_EPOLL_INSTANCES" and n: "interest i s n = None"
  shows "epoll_ctl_del i n s = Some (- 1, s)" "epoll_ctl_mod i n ev s = Some (- 1, s)"
  using find_item_interest [of L xss s i n] inv i n by (auto simp: ep_inv_def epoll_ctl_del_def epoll_ctl_mod_def)

lemma ctl_cases:
  fixes s :: "('c, 'w) epoll_state"
  assumes inv: "ep_inv L xss s" and i: "i < MAX_EPOLL_INSTANCES" "inst_in_use (instances s ! i)" and n: "0 \<le> n" "n < 64"
  shows "\<exists>r s' L' xss'.
    (if opr = EPOLL_CTL_ADD then epoll_ctl_add i n (Some ev) s
     else if opr = EPOLL_CTL_DEL then epoll_ctl_del i n s
     else if opr = EPOLL_CTL_MOD then epoll_ctl_mod i n (Some ev) s
     else Some (- 1, s)) = Some (r, s') \<and> ep_inv L' xss' s' \<and>
    (if ctl_spec opr n (events ev, ev_data ev) (interest i s) \<noteq> None \<and>
        (opr = 1 \<longrightarrow> map_option fst (kmalloc 40 (kernel_heap s)) \<noteq> Some NULL)
     then r = 0 \<and> ctl_result i opr n ev s s'
     else r = - 1 \<and> (\<forall>j < MAX_EPOLL_INSTANCES. interest j s' = interest j s))"
proof -
  have core: "ep_core L xss s" using inv by (simp add: ep_inv_def)
  obtain p h where al: "kmalloc 40 (kernel_heap s) = Some (p, h)"
    using kh.alloc_total [OF ep_core_facts(9) [OF core i(1)]] by blast
  consider "opr = 1" "interest i s n = None" "p \<noteq> NULL" | "opr = 1" "interest i s n \<noteq> None \<or> p = NULL"
    | "opr = 2" | "opr = 3" | "opr \<notin> {1, 2, 3}" by blast
  then show ?thesis
  proof cases
    case 1
    then obtain q where "kmalloc 40 (kernel_heap s) = Some (Some q, h)" using al by auto
    from ctl_add_refines [OF inv i n 1(2) this, of ev] show ?thesis using 1 al by (fastforce simp: ctl_spec_def)
  next
    case 2
    then show ?thesis using ctl_add_fails [OF inv i(1), of n "Some ev"] al by (fastforce simp: ctl_spec_def)
  next
    case 3
    show ?thesis
    proof (cases "interest i s n")
      case None then show ?thesis using 3 ctl_absent(1) [OF inv i(1), of n] inv by (auto simp: ctl_spec_def)
    next
      case Some then show ?thesis using 3 ctl_del_refines [OF inv i(1), of n ev] by (fastforce simp: ctl_spec_def)
    qed
  next
    case 4
    show ?thesis
    proof (cases "interest i s n")
      case None then show ?thesis using 4 ctl_absent(2) [OF inv i(1), of n] inv by (auto simp: ctl_spec_def)
    next
      case Some then show ?thesis using 4 ctl_mod_refines [OF inv i(1), of n ev] by (fastforce simp: ctl_spec_def)
    qed
  next
    case 5
    then show ?thesis using inv by (auto simp: ctl_spec_def)
  qed
qed

end
