(* ===== verification/Epoll_Props.thy ===== *)
theory Epoll_Props
  imports Epoll_Ctl
begin

text \<open>
  The properties of the epoll subsystem: creation, control, waiting and closing.
\<close>

section \<open>Creating\<close>

lemma create_loop:
  assumes "length (instances s) = MAX_EPOLL_INSTANCES" "set is \<subseteq> {..<MAX_EPOLL_INSTANCES}"
  shows "epoll_create_loop is s = Some (case find (\<lambda>i. \<not> inst_in_use (instances s ! i)) is of
      None \<Rightarrow> (- 999, s)
    | Some i \<Rightarrow> (- (int i + 1), upd_inst i (\<lambda>e. e\<lparr>epfd := - (int i + 1), items_tree := NULL, ready_list := NULL,
        num_items := 0, inst_in_use := True\<rparr>) s))"
  using assms(2) by (induction "is") (use assms(1) in auto)

lemma all16: "set [0..<16] \<subseteq> {..<MAX_EPOLL_INSTANCES}"
  by auto

lemma rb_seq_Nil: "rb_seq [] \<lparr>nodes = h, root = None\<rparr>"
proof -
  have "\<lparr>nodes = h, root = None\<rparr> = store Leaf h" by (simp add: store_def)
  moreover have "is_rbt Leaf" by (simp add: is_rbt_def)
  ultimately show ?thesis using rb_seqI [of Leaf "[]" h] by simp
qed

text \<open>Replacing the header of an instance that has no items.\<close>

lemma ep_inv_header:
  assumes inv: "ep_core L xss s" and i: "i < MAX_EPOLL_INSTANCES" "xss ! i = []"
    and cnt: "\<And>j. j < MAX_EPOLL_INSTANCES \<Longrightarrow> j \<noteq> i \<Longrightarrow> num_items (instances s ! j) = int (length (xss ! j))"
    and e: "items_tree (f (instances s ! i)) = NULL" "num_items (f (instances s ! i)) = 0"
      "inst_in_use (f (instances s ! i)) \<Longrightarrow> epfd (f (instances s ! i)) = - (int i + 1)"
  shows "ep_inv L xss (upd_inst i f s)"
proof -
  note F = ep_core_facts [OF inv i(1)]
  have "inst_ok i (item_nodes s) (items s) [] (f (instances s ! i))" using e rb_seq_Nil by (auto simp: inst_ok_def)
  then have "ep_core L (xss[i := []]) (upd_inst i f s)"
    by (intro ep_core_upd [OF inv i(1)]) (use inv i F in \<open>simp_all add: ep_core_def\<close>)
  moreover have "xss[i := []] = xss" using i(2) by (metis list_update_id)
  moreover have "num_items (instances (upd_inst i f s) ! j) = int (length (xss ! j))" if "j < 16" for j
    using that cnt e(2) i F(1) by (cases "j = i") simp_all
  ultimately show ?thesis by (simp add: ep_inv_def)
qed

lemma create_exec:
  assumes inv: "ep_inv L xss s"
  shows "\<exists>r s'. epoll_create sz s = Some (r, s') \<and> ep_inv L xss s' \<and>
    (if \<forall>i < MAX_EPOLL_INSTANCES. inst_in_use (instances s ! i) then r = - 999 \<and> s' = s
     else \<exists>i < MAX_EPOLL_INSTANCES. \<not> inst_in_use (instances s ! i) \<and> r = - (int i + 1) \<and>
       epoll_get_instance r s' = Some (Some i) \<and> interest i s' = Map.empty \<and>
       items s' = items s \<and> kernel_heap s' = kernel_heap s \<and> fd_tab s' = fd_tab s \<and> world s' = world s \<and>
       (\<forall>j < MAX_EPOLL_INSTANCES. j \<noteq> i \<longrightarrow> instances s' ! j = instances s ! j \<and> interest j s' = interest j s))"
proof (cases "find (\<lambda>i. \<not> inst_in_use (instances s ! i)) [0..<16]")
  case None
  have len: "length (instances s) = 16" using inv by (simp add: ep_inv_def ep_core_def)
  have "epoll_create sz s = Some (- 999, s)"
    using create_loop [OF len all16] None by (simp add: epoll_create_def del: upt_conv_Cons)
  moreover have "\<forall>i < 16. inst_in_use (instances s ! i)" using None by (auto simp: find_None_iff simp del: upt_conv_Cons)
  ultimately show ?thesis using inv by simp
next
  case (Some i)
  have len: "length (instances s) = 16" using inv by (simp add: ep_inv_def ep_core_def)
  let ?f = "\<lambda>e. e\<lparr>epfd := - (int i + 1), items_tree := NULL, ready_list := NULL, num_items := 0, inst_in_use := True\<rparr>"
  let ?s = "upd_inst i ?f s"
  have i: "i < 16" "\<not> inst_in_use (instances s ! i)" using Some by (auto simp: find_Some_iff simp del: upt_conv_Cons)
  have core: "ep_core L xss s" using inv by (simp add: ep_inv_def)
  note F = ep_core_facts [OF core i(1)]
  have xi: "xss ! i = []" using ep_coreD(1) [OF core i(1)] i(2) by (simp add: inst_ok_def)
  have run: "epoll_create sz s = Some (- (int i + 1), ?s)"
    using create_loop [OF len all16] Some by (simp add: epoll_create_def del: upt_conv_Cons)
  have inv': "ep_inv L xss ?s"
    by (rule ep_inv_header [OF core i(1) xi]) (use inv in \<open>auto simp: ep_inv_def\<close>)
  then have core': "ep_core L xss ?s" by (simp add: ep_inv_def)
  have "inst_in_use (instances ?s ! i) \<and> epfd (instances ?s ! i) = - (int i + 1)" using F(1) by simp
  moreover have "i \<in> set [0..<16]" using i(1) by simp
  ultimately have "find (\<lambda>j. inst_in_use (instances ?s ! j) \<and> epfd (instances ?s ! j) = - (int i + 1)) [0..<16] \<noteq> None"
    unfolding find_None_iff by blast
  then obtain j where j: "epoll_get_instance (- (int i + 1)) ?s = Some (Some j)" using get_instance_ok [OF core'] by auto
  then have get: "epoll_get_instance (- (int i + 1)) ?s = Some (Some i)" using get_instance_some(3) [OF core' j] by simp
  have "interest i ?s = Map.empty" using interest_watched [OF core' i(1)] xi by (simp add: watched_def fun_eq_iff)
  moreover have "interest j ?s = interest j s" if "j < 16" for j
    using interest_watched [OF core' that] interest_watched [OF core that] by simp
  ultimately show ?thesis using run inv' get i by (intro exI [of _ "- (int i + 1)"] exI [of _ ?s]) (auto simp: upd_inst_def)
qed

text \<open>\<open>epoll_create\<close> returns -999 and changes nothing when all 16 instances are in use; otherwise it takes
  an unused instance \<open>i\<close> and returns -(i+1), by which the instance is found from then on; it watches
  nothing, and no other instance changes.\<close>

theorem epoll_create_correct:
  assumes "ep_inv L xss s"
  shows "\<exists>r s'. epoll_create sz s = Some (r, s') \<and> ep_inv L xss s' \<and>
    (if \<forall>i < 16. inst_in_use (instances s ! i) then r = - 999 \<and> s' = s
     else \<exists>i < 16. \<not> inst_in_use (instances s ! i) \<and> r = - (int i + 1) \<and>
       epoll_get_instance r s' = Some (Some i) \<and> interest i s' = Map.empty \<and>
       (\<forall>j < 16. j \<noteq> i \<longrightarrow> instances s' ! j = instances s ! j \<and> interest j s' = interest j s))"
  using create_exec [OF assms, of sz] by (elim exE conjE) (intro exI conjI, assumption, assumption, auto split: if_splits)

section \<open>An example\<close>

text \<open>The state after booting the heap and the descriptor table, with the UART as descriptor 0 and one
  character waiting.\<close>

definition epoll_boot :: "(unit, u8 list) epoll_state option" where
  "epoll_boot = do {
     h \<leftarrow> memory_init \<lparr>headers = Map.empty, free_list = NULL\<rparr>;
     (_, t) \<leftarrow> fd_alloc 2 NULL (Some (uart_fd_ops sample_uart)) (fd_init \<lparr>fds = [], next_fd = 0\<rparr>);
     Some (epoll_init \<lparr>instances = [], item_nodes = Map.empty, items = Map.empty,
       raw_node = (\<lambda>_. \<lparr>parent = NULL, left = NULL, right = NULL, color = RB_RED\<rparr>),
       kernel_heap = h, fd_tab = t, world = [65]\<rparr>) }"

lemma epoll_init_inv:
  assumes "heap_rep L (kernel_heap s)" "table_ok (fd_tab s)" "items s = Map.empty" "item_nodes s = Map.empty"
  shows "ep_inv L (replicate 16 []) (epoll_init s)" "\<forall>i < 16. \<not> inst_in_use (instances (epoll_init s) ! i)"
proof -
  have e: "instances (epoll_init s) ! i = \<lparr>epfd = - 1, items_tree = NULL, ready_list = NULL, num_items = 0, inst_in_use = False\<rparr>"
    if "i < 16" for i using that by (simp add: epoll_init_def del: upt_conv_Cons)
  then show "\<forall>i < 16. \<not> inst_in_use (instances (epoll_init s) ! i)" by simp
  have "inst_ok i Map.empty Map.empty [] (instances (epoll_init s) ! i)" if "i < 16" for i
    using e [OF that] rb_seq_Nil by (simp add: inst_ok_def)
  moreover have "length (instances (epoll_init s)) = 16" by (simp add: epoll_init_def del: upt_conv_Cons)
  moreover have "items (epoll_init s) = items s" "item_nodes (epoll_init s) = item_nodes s" "fd_tab (epoll_init s) = fd_tab s"
    "kernel_heap (epoll_init s) = kernel_heap s" by (simp_all add: epoll_init_def)
  ultimately show "ep_inv L (replicate 16 []) (epoll_init s)"
    using assms e by (simp add: ep_inv_def ep_core_def)
qed

lemma epoll_boot_ok:
  "\<exists>s. epoll_boot = Some s \<and> ep_inv Map.empty (replicate 16 []) s \<and> (\<forall>i < 16. \<not> inst_in_use (instances s ! i)) \<and>
     heap_ok [(True, 4194292)] (kernel_heap s) \<and> in_use (fd_tab s) = {0} \<and> fds (fd_tab s) ! 0 = uart_entry \<and> world s = [65]"
proof -
  obtain h where h: "memory_init \<lparr>headers = Map.empty, free_list = NULL\<rparr> = Some h" "heap_ok [(True, 4194292)] h"
    "heap_rep Map.empty h" using init_heap by blast
  obtain t where t: "fd_alloc 2 NULL (Some (uart_fd_ops sample_uart)) (fd_init \<lparr>fds = [], next_fd = 0\<rparr>) = Some (0, t)"
    "table_ok t" "in_use t = {0}" "fds t ! 0 = uart_entry" using uart_table by blast
  let ?s = "\<lparr>instances = [], item_nodes = Map.empty, items = Map.empty,
       raw_node = (\<lambda>_. \<lparr>parent = NULL, left = NULL, right = NULL, color = RB_RED\<rparr>),
       kernel_heap = h, fd_tab = t, world = [65]\<rparr>"
  have "epoll_boot = Some (epoll_init ?s)" using h(1) t(1) by (simp add: epoll_boot_def)
  moreover have "fd_tab (epoll_init ?s) = t" "kernel_heap (epoll_init ?s) = h" "world (epoll_init ?s) = [65]"
    by (simp_all add: epoll_init_def)
  ultimately show ?thesis using epoll_init_inv [of Map.empty ?s] h t by auto
qed

definition epoll_demo :: "(unit, u8 list) epoll_state option" where
  "epoll_demo = do { s \<leftarrow> epoll_boot; (_, s) \<leftarrow> epoll_create 1 s; Some s }"

lemma epoll_demo_ok:
  "\<exists>s. epoll_demo = Some s \<and> ep_inv Map.empty (replicate 16 []) s \<and> epoll_get_instance (- 1) s = Some (Some 0) \<and>
     interest 0 s = Map.empty \<and> heap_ok [(True, 4194292)] (kernel_heap s) \<and> in_use (fd_tab s) = {0} \<and>
     fds (fd_tab s) ! 0 = uart_entry \<and> world s = [65]"
proof -
  obtain s0 where s0: "epoll_boot = Some s0" "ep_inv Map.empty (replicate 16 []) s0" "\<forall>i < 16. \<not> inst_in_use (instances s0 ! i)"
    "heap_ok [(True, 4194292)] (kernel_heap s0)" "in_use (fd_tab s0) = {0}" "fds (fd_tab s0) ! 0 = uart_entry" "world s0 = [65]"
    using epoll_boot_ok by blast
  let ?f = "\<lambda>e. e\<lparr>epfd := - 1, items_tree := NULL, ready_list := NULL, num_items := 0, inst_in_use := True\<rparr>"
  have "length (instances s0) = 16" using s0(2) by (simp add: ep_inv_def ep_core_def)
  then have run: "epoll_create 1 s0 = Some (- 1, upd_inst 0 ?f s0)"
    using create_loop [of s0 "[0..<16]"] s0(3) by (simp add: epoll_create_def upt_rec)
  have "\<not> inst_in_use (instances s0 ! 0)" using s0(3) by simp
  then have free: "\<not> (\<forall>i < 16. inst_in_use (instances s0 ! i))" by (metis zero_less_numeral)
  obtain r s i where s: "epoll_create 1 s0 = Some (r, s)" "ep_inv Map.empty (replicate 16 []) s" "r = - (int i + 1)"
    "epoll_get_instance r s = Some (Some i)" "interest i s = Map.empty"
    "kernel_heap s = kernel_heap s0" "fd_tab s = fd_tab s0" "world s = world s0"
    using create_exec [OF s0(2), of 1] unfolding if_not_P [OF free] by blast
  have "i = 0" "r = - 1" using s(1,3) run by simp_all
  then have "epoll_demo = Some s" unfolding epoll_demo_def s0(1) using s(1) by simp
  with \<open>i = 0\<close> \<open>r = - 1\<close> show ?thesis using s s0 by (intro exI [of _ s]) simp
qed

theorem epoll_create_correct_witness:
  "\<exists>s0 i s. epoll_boot = Some s0 \<and> epoll_create 1 s0 = Some (- (int i + 1), s) \<and> epoll_get_instance (- (int i + 1)) s = Some (Some i)"
proof -
  obtain s0 where s0: "epoll_boot = Some s0" "ep_inv Map.empty (replicate 16 []) s0" "\<forall>i < 16. \<not> inst_in_use (instances s0 ! i)"
    using epoll_boot_ok by blast
  then have "\<not> inst_in_use (instances s0 ! 0)" by simp
  then have "\<not> (\<forall>i < 16. inst_in_use (instances s0 ! i))" by (metis zero_less_numeral)
  from epoll_create_correct [OF s0(2), of 1, unfolded if_not_P [OF this]] show ?thesis using s0(1) by blast
qed

section \<open>Control\<close>

text \<open>C7: \<open>epoll_ctl\<close> implements the update of the interest map of the addressed instance: it
  returns 0 exactly when the instance and the descriptor exist, the operation is admissible (adding an
  unwatched descriptor, removing or modifying a watched one) and, for an addition, the heap has room; then
  the map is updated as specified and no other instance changes.  Otherwise it returns -1 and
  no map changes.  The call never touches freed memory and keeps the invariant.\<close>

theorem epoll_ctl_refines:
  assumes inv: "ep_inv L xss s"
  shows "\<exists>r s' L' xss'. epoll_ctl ep opr n (Some ev) s = Some (r, s') \<and> ep_inv L' xss' s' \<and>
    (case epoll_get_instance ep s of
       Some (Some i) \<Rightarrow>
         (if 0 \<le> n \<and> nat n \<in> in_use (fd_tab s) \<and>
             ctl_spec opr n (events ev, ev_data ev) (interest i s) \<noteq> None \<and>
             (opr = 1 \<longrightarrow> map_option fst (kmalloc 40 (kernel_heap s)) \<noteq> Some NULL)
          then r = 0 \<and> ctl_result i opr n ev s s'
          else r = - 1 \<and> (\<forall>j < 16. interest j s' = interest j s))
     | _ \<Rightarrow> r = - 1 \<and> s' = s)"
proof -
  have core: "ep_core L xss s" using inv by (simp add: ep_inv_def)
  show ?thesis
  proof (cases "epoll_get_instance ep s")
    case None then show ?thesis using get_instance_ok [OF core] by simp
  next
    case (Some epi)
    show ?thesis
    proof (cases epi)
      case None then show ?thesis using Some inv by (auto simp: epoll_ctl_def)
    next
      case e: (Some i)
      have i: "i < 16" "inst_in_use (instances s ! i)" using get_instance_some [OF core] Some e by auto
      have t: "table_ok (fd_tab s)" using core by (simp add: ep_core_def)
      show ?thesis
      proof (cases "0 \<le> n \<and> nat n \<in> in_use (fd_tab s)")
        case False
        then show ?thesis using Some e inv fd_get_ok [OF t, of n] by (auto simp: epoll_ctl_def)
      next
        case fd: True
        then have n: "0 \<le> n" "n < 64" "fd_get n (fd_tab s) = Some (Some (nat n))"
          using fd_get_ok [OF t, of n] by (auto simp: in_use_def)
        note run = Some e n(3) epoll_ctl_def
        show ?thesis using ctl_cases [OF inv i n(1,2), of opr ev] fd by (auto simp: run)
      qed
    qed
  qed
qed

lemma demo_kmalloc: "heap_ok [(True, 4194292)] h \<Longrightarrow> \<exists>h'. kmalloc 40 h = Some (Some 12, h')"
proof -
  assume h: "heap_ok [(True, 4194292)] h"
  have "unat (round8 40) = 40" by code_simp
  then show ?thesis using kmalloc_some [OF h, of 40] by auto
qed

theorem epoll_ctl_refines_witness:
  "\<exists>s s'. epoll_demo = Some s \<and> epoll_ctl (- 1) 1 0 (Some \<lparr>events = 5, ev_data = 77\<rparr>) s = Some (0, s') \<and>
     interest 0 s' = [0 \<mapsto> (5, 77)]"
proof -
  obtain s where s: "epoll_demo = Some s" "ep_inv Map.empty (replicate 16 []) s" "epoll_get_instance (- 1) s = Some (Some 0)"
    "interest 0 s = Map.empty" "heap_ok [(True, 4194292)] (kernel_heap s)" "in_use (fd_tab s) = {0}" using epoll_demo_ok by blast
  then show ?thesis using epoll_ctl_refines [OF s(2), of "- 1" 1 0 "\<lparr>events = 5, ev_data = 77\<rparr>"] demo_kmalloc [OF s(5)]
    by (auto simp: ctl_spec_def ctl_result_def)
qed

section \<open>Waiting\<close>

text \<open>Polling a list of descriptors in turn.\<close>

primrec poll_all :: "int list \<Rightarrow> ('c, 'w) fd_table \<Rightarrow> 'w \<Rightarrow> (u32 list \<times> ('c, 'w) fd_table \<times> 'w) option" where
  "poll_all [] t w = Some ([], t, w)"
| "poll_all (n # ns) t w = do { (f, t, w) \<leftarrow> fd_poll n t w; (fs, t, w) \<leftarrow> poll_all ns t w; Some (f # fs, t, w) }"

lemma fd_poll_ok:
  assumes "table_ok t" "fd_poll n t w = Some (f, t', w')" shows "table_ok t'"
proof -
  have "table_ok (t\<lparr>fds := (fds t)[k := (fds t ! k)\<lparr>flags := f\<rparr>]\<rparr>)" if "k \<in> in_use t" for k
    using assms(1) that by (intro table_ok_upd) (auto simp: table_ok_def fd_ok_def in_use_def)
  then show ?thesis using assms fd_get_ok [OF assms(1), of n]
    by (auto simp: fd_poll_def bind_eq_Some_conv split: if_splits option.splits)
qed

definition head_ptr :: "'a list \<Rightarrow> 'a ptr" where
  "head_ptr ys = (case ys of [] \<Rightarrow> NULL | y # _ \<Rightarrow> Some y)"

lemma head_ptr_simps [simp]: "head_ptr [] = NULL" "head_ptr (y # ys) = Some y"
  by (simp_all add: head_ptr_def)

definition revise :: "u32 list \<Rightarrow> u32 list \<Rightarrow> (u32 \<rightharpoonup> epoll_item) \<Rightarrow> u32 \<rightharpoonup> epoll_item" where
  "revise ys fs its q = (case map_of (zip ys fs) q of None \<Rightarrow> its q
     | Some f \<Rightarrow> map_option (\<lambda>it. it\<lparr>revents := epoll_flags f AND item_events it\<rparr>) (its q))"

lemma poll_loop:
  assumes "ep_inv L xss s" "i < MAX_EPOLL_INSTANCES" "xss ! i = pre @ ys"
    and "poll_all (map (key (items s)) ys) (fd_tab s) (world s) = Some (fs, t, w)"
  shows "epoll_poll_loop i (head_ptr ys) s = Some (s\<lparr>items := revise ys fs (items s), fd_tab := t, world := w\<rparr>) \<and>
    ep_inv L xss (s\<lparr>items := revise ys fs (items s), fd_tab := t, world := w\<rparr>) \<and> length fs = length ys"
  using assms
proof (induction ys arbitrary: pre s fs)
  case Nil
  then have "fs = []" "t = fd_tab s" "w = world s" by auto
  moreover have "revise [] [] (items s) = items s" by (simp add: revise_def fun_eq_iff)
  ultimately show ?case using Nil.prems(1) by (subst epoll_poll_loop.simps) simp
next
  case (Cons q ys)
  have core: "ep_core L xss s" using Cons.prems(1) by (simp add: ep_inv_def)
  note F = ep_core_facts [OF core Cons.prems(2)] and I = ep_coreD [OF core Cons.prems(2)]
  obtain it where it: "items s q = Some it" using I(3) Cons.prems(3) by auto
  have kq: "key (items s) q = item_fd it" using it by (simp add: key_def)
  obtain f t1 w1 fs' where p: "fd_poll (item_fd it) (fd_tab s) (world s) = Some (f, t1, w1)"
    "poll_all (map (key (items s)) ys) t1 w1 = Some (fs', t, w)" "fs = f # fs'"
    using Cons.prems(4) kq by (auto simp: bind_eq_Some_conv)
  define it' where "it' = it\<lparr>revents := epoll_flags f AND item_events it\<rparr>"
  define s1 where "s1 = s\<lparr>items := (items s)(q \<mapsto> it'), fd_tab := t1, world := w1\<rparr>"
  have key: "key (items s1) = key (items s)" using it by (simp add: s1_def it'_def key_def fun_eq_iff)
  have t1: "table_ok t1" using fd_poll_ok [OF _ p(1)] core by (simp add: ep_core_def)
  have inv1: "ep_inv L xss s1" unfolding s1_def
    by (rule ep_inv_items [OF Cons.prems(1) _ _ t1]) (use it in \<open>auto simp: key_def it'_def\<close>)
  have "rb_next (Some q) (tree_of i s1) = Some (head_ptr ys)"
    using rb_next_seq [of pre q ys "tree_of i s"] I(2) Cons.prems(3) by (simp add: s1_def tree_of_def head_ptr_def)
  moreover have "upd_item q (\<lambda>it. it\<lparr>revents := epoll_flags f AND item_events it\<rparr>) (s\<lparr>fd_tab := t1, world := w1\<rparr>) = Some s1"
    using it by (simp add: upd_item_def s1_def it'_def)
  ultimately have step: "epoll_poll_loop i (head_ptr (q # ys)) s = epoll_poll_loop i (head_ptr ys) s1"
    using it p(1) by (subst epoll_poll_loop.simps) simp
  have IH: "epoll_poll_loop i (head_ptr ys) s1 = Some (s1\<lparr>items := revise ys fs' (items s1), fd_tab := t, world := w\<rparr>) \<and>
    ep_inv L xss (s1\<lparr>items := revise ys fs' (items s1), fd_tab := t, world := w\<rparr>) \<and> length fs' = length ys"
    by (rule Cons.IH [OF inv1 Cons.prems(2), of "pre @ [q]"])
      (use Cons.prems(3) p(2) in \<open>simp_all add: key\<close>, simp_all add: s1_def)
  have "q \<notin> set ys" using F(4) Cons.prems(3) by simp
  then have "q \<notin> dom (map_of (zip ys fs'))" by (auto dest!: map_of_SomeD dest: set_zip_leftD)
  then have "revise ys fs' (items s1) = revise (q # ys) fs (items s)"
    using p(3) it by (auto simp: revise_def fun_eq_iff s1_def it'_def domIff split: option.splits)
  then show ?case using IH step p(3) by (simp add: s1_def)
qed

definition ready_events :: "(u32 \<rightharpoonup> epoll_item) \<Rightarrow> u32 list \<Rightarrow> epoll_event list" where
  "ready_events its ys = filter (\<lambda>e. events e \<noteq> 0)
     (map (\<lambda>q. \<lparr>events = revents (the (its q)), ev_data = user_data (the (its q))\<rparr>) ys)"

lemma collect_loop:
  assumes "ep_core L xss s" "i < MAX_EPOLL_INSTANCES" "xss ! i = pre @ ys" "int (length evs) \<le> mx"
  shows "epoll_collect i mx (head_ptr ys) evs s = Some (take (nat mx) (evs @ ready_events (items s) ys))"
  using assms
proof (induction ys arbitrary: pre evs)
  case Nil
  then show ?case by (subst epoll_collect.simps) (simp add: ready_events_def)
next
  case (Cons q ys)
  note I = ep_coreD [OF Cons.prems(1,2)]
  obtain it where it: "items s q = Some it" using I(3) Cons.prems(3) by auto
  have nx: "rb_next (Some q) (tree_of i s) = Some (head_ptr ys)"
    using rb_next_seq [of pre q ys "tree_of i s"] I(2) Cons.prems(3) by (simp add: head_ptr_def)
  show ?case
  proof (cases "int (length evs) < mx")
    case True
    let ?evs = "if revents it \<noteq> 0 then evs @ [\<lparr>events = revents it, ev_data = user_data it\<rparr>] else evs"
    have "epoll_collect i mx (head_ptr ys) ?evs s = Some (take (nat mx) (?evs @ ready_events (items s) ys))"
      by (rule Cons.IH [OF Cons.prems(1,2), of "pre @ [q]"]) (use Cons.prems(3) True in auto)
    moreover have "evs @ ready_events (items s) (q # ys) = ?evs @ ready_events (items s) ys"
      using it by (simp add: ready_events_def)
    ultimately show ?thesis using True it nx by (subst epoll_collect.simps) simp
  next
    case False
    then show ?thesis using Cons.prems(4) by (subst epoll_collect.simps) simp
  qed
qed

lemma interest_keys:
  assumes core: "ep_core L xss s" and i: "i < MAX_EPOLL_INSTANCES"
  shows "map (key (items s)) (xss ! i) = sorted_list_of_set (dom (interest i s))"
proof -
  note I = ep_coreD [OF core i] and F = ep_core_facts [OF core i]
  have D: "dom (interest i s) = set (map (key (items s)) (xss ! i))"
    unfolding interest_watched [OF core i] set_eq_iff domIff watched_dom [OF I(3)] by simp
  have "sorted_wrt (<) (map (key (items s)) (xss ! i))" using F(8) by (simp add: sorted_wrt_map)
  then show ?thesis unfolding D
    by (metis sorted_list_of_set.idem_if_sorted_distinct strict_sorted_iff)
qed

lemma ready_events_revise:
  assumes "distinct ys" "length fs = length ys" "set ys \<subseteq> dom its" "inj_on (key its) (set ys)"
  shows "ready_events (revise ys fs its) ys = filter (\<lambda>e. events e \<noteq> 0)
    (map2 (\<lambda>n f. \<lparr>events = epoll_flags f AND fst (the (watched its ys n)), ev_data = snd (the (watched its ys n))\<rparr>)
      (map (key its) ys) fs)"
proof -
  have "map (\<lambda>q. \<lparr>events = revents (the (revise ys fs its q)), ev_data = user_data (the (revise ys fs its q))\<rparr>) ys =
    map2 (\<lambda>n f. \<lparr>events = epoll_flags f AND fst (the (watched its ys n)), ev_data = snd (the (watched its ys n))\<rparr>) (map (key its) ys) fs"
  proof (rule nth_equalityI)
    fix k assume "k < length (map (\<lambda>q. \<lparr>events = revents (the (revise ys fs its q)), ev_data = user_data (the (revise ys fs its q))\<rparr>) ys)"
    then have k: "k < length ys" by simp
    then obtain it where it: "its (ys ! k) = Some it" using assms(3) nth_mem by blast
    have "map_of (zip ys fs) (ys ! k) = Some (fs ! k)" using assms(1,2) k by (simp add: map_of_zip_nth)
    then have "revise ys fs its (ys ! k) = Some (it\<lparr>revents := epoll_flags (fs ! k) AND item_events it\<rparr>)"
      using it by (simp add: revise_def)
    moreover have "watched its ys (key its (ys ! k)) = Some (item_events it, user_data it)"
      using watched_at [OF assms(4) _ it] k it by (simp add: key_def)
    ultimately show "map (\<lambda>q. \<lparr>events = revents (the (revise ys fs its q)), ev_data = user_data (the (revise ys fs its q))\<rparr>) ys ! k =
      map2 (\<lambda>n f. \<lparr>events = epoll_flags f AND fst (the (watched its ys n)), ev_data = snd (the (watched its ys n))\<rparr>) (map (key its) ys) fs ! k"
      using k assms(2) by simp
  qed (use assms(2) in simp)
  then show ?thesis by (simp only: ready_events_def)
qed

lemma revise_interest:
  assumes "ep_core L xss s" "ep_core L xss s'" "items s' = revise ys fs (items s)" "j < MAX_EPOLL_INSTANCES"
  shows "interest j s' = interest j s"
proof -
  have "watched (items s') (xss ! j) = watched (items s) (xss ! j)"
  proof (rule watched_cong)
    fix q assume "q \<in> set (xss ! j)"
    then obtain it where "items s q = Some it" using ep_coreD(3) [OF assms(1,4)] by auto
    then show "key (items s') q = key (items s) q \<and>
        map_option (\<lambda>it. (item_events it, user_data it)) (items s' q) = map_option (\<lambda>it. (item_events it, user_data it)) (items s q)"
      by (auto simp: assms(3) revise_def key_def split: option.splits)
  qed
  then show ?thesis using assms(1,2,4) by (simp add: interest_watched)
qed

text \<open>C8: on an existing instance and for a positive \<open>maxevents\<close>, \<open>epoll_wait\<close> polls every watched descriptor
  once, in increasing order, and reports the first \<open>maxevents\<close> of those with a requested
  condition, each with the requested conditions that hold and its user data, in the order of the
  descriptors; what is watched does not change.  (The hypothesis says that the poll operations of the
  watched descriptors return.)\<close>

theorem epoll_wait_reports:
  assumes inv: "ep_inv L xss s" and ep: "epoll_get_instance ep s = Some (Some i)" and mx: "0 < mx"
    and polls: "poll_all (sorted_list_of_set (dom (interest i s))) (fd_tab s) (world s) = Some (fs, t, w)"
  shows "\<exists>evs s'. epoll_wait ep mx tmout s = Some (int (length evs), evs, s') \<and> ep_inv L xss s' \<and>
    evs = take (nat mx) (filter (\<lambda>e. events e \<noteq> 0)
      (map2 (\<lambda>n f. \<lparr>events = epoll_flags f AND fst (the (interest i s n)), ev_data = snd (the (interest i s n))\<rparr>)
        (sorted_list_of_set (dom (interest i s))) fs)) \<and>
    fd_tab s' = t \<and> world s' = w \<and> (\<forall>j < 16. interest j s' = interest j s)"
proof -
  have core: "ep_core L xss s" using inv by (simp add: ep_inv_def)
  have i: "i < 16" using get_instance_some(1) [OF core ep] .
  note I = ep_coreD [OF core i] and F = ep_core_facts [OF core i]
  define s' where "s' = s\<lparr>items := revise (xss ! i) fs (items s), fd_tab := t, world := w\<rparr>"
  have loop: "epoll_poll_loop i (head_ptr (xss ! i)) s = Some s'" "ep_inv L xss s'" "length fs = length (xss ! i)"
    using poll_loop [OF inv i, of "[]" "xss ! i" fs t w] polls interest_keys [OF core i] by (auto simp: s'_def)
  have core': "ep_core L xss s'" using loop(2) by (simp add: ep_inv_def)
  have first: "rb_first (tree_of i s) = Some (head_ptr (xss ! i))" "rb_first (tree_of i s') = Some (head_ptr (xss ! i))"
    using rb_first_seq [OF I(2)] rb_first_seq [OF ep_coreD(2) [OF core' i]] by (auto simp: head_ptr_def split: list.splits)
  have "epoll_collect i mx (head_ptr (xss ! i)) [] s' = Some (take (nat mx) (ready_events (items s') (xss ! i)))"
    using collect_loop [OF core' i, of "[]" "xss ! i" "[]" mx] mx by simp
  moreover have "ready_events (items s') (xss ! i) = filter (\<lambda>e. events e \<noteq> 0)
      (map2 (\<lambda>n f. \<lparr>events = epoll_flags f AND fst (the (interest i s n)), ev_data = snd (the (interest i s n))\<rparr>)
        (sorted_list_of_set (dom (interest i s))) fs)"
    using ready_events_revise [OF F(4) loop(3) I(3,4)]
    unfolding interest_keys [OF core i] interest_watched [OF core i, symmetric] by (simp add: s'_def)
  moreover have "\<forall>j < 16. interest j s' = interest j s"
    using revise_interest [OF core core', of "xss ! i" fs] by (simp add: s'_def)
  ultimately show ?thesis using ep mx first loop(1,2)
    by (intro exI conjI, simp add: epoll_wait_def epoll_poll_fds_def) (simp_all add: s'_def)
qed

text \<open>The example state with the UART watched.\<close>

lemma get_by_number:
  assumes "ep_core L xss s" "i < MAX_EPOLL_INSTANCES" "inst_in_use (instances s ! i)" "ep = - (int i + 1)"
  shows "epoll_get_instance ep s = Some (Some i)"
proof -
  have "inst_in_use (instances s ! i) \<and> epfd (instances s ! i) = ep"
    using ep_coreD(1) [OF assms(1,2)] assms(3,4) by (simp add: inst_ok_def)
  moreover have "i \<in> set [0..<16]" using assms(2) by simp
  ultimately have "find (\<lambda>j. inst_in_use (instances s ! j) \<and> epfd (instances s ! j) = ep) [0..<16] \<noteq> None"
    unfolding find_None_iff by blast
  then obtain j where j: "epoll_get_instance ep s = Some (Some j)" using get_instance_ok [OF assms(1)] by auto
  then show ?thesis using get_instance_some(3) [OF assms(1) j] assms(4) by simp
qed

lemma epoll_watch_ok:
  "\<exists>s s' L xss. epoll_demo = Some s \<and> epoll_ctl (- 1) 1 0 (Some \<lparr>events = 5, ev_data = 77\<rparr>) s = Some (0, s') \<and>
     ep_inv L xss s' \<and> epoll_get_instance (- 1) s' = Some (Some 0) \<and> interest 0 s' = [0 \<mapsto> (5, 77)] \<and>
     poll_all [0] (fd_tab s') (world s') = Some ([3], fd_tab s'\<lparr>fds := (fds (fd_tab s'))[0 := uart_entry\<lparr>flags := 3\<rparr>]\<rparr>, [65])"
proof -
  obtain s where s: "epoll_demo = Some s" "ep_inv Map.empty (replicate 16 []) s" "epoll_get_instance (- 1) s = Some (Some 0)"
    "interest 0 s = Map.empty" "heap_ok [(True, 4194292)] (kernel_heap s)" "in_use (fd_tab s) = {0}"
    "fds (fd_tab s) ! 0 = uart_entry" "world s = [65]" using epoll_demo_ok by blast
  let ?ev = "\<lparr>events = 5, ev_data = 77\<rparr>"
  obtain q h where q: "kmalloc 40 (kernel_heap s) = Some (Some q, h)" using demo_kmalloc [OF s(5)] by blast
  have core: "ep_core Map.empty (replicate 16 []) s" using s(2) by (simp add: ep_inv_def)
  then have t: "table_ok (fd_tab s)" by (simp add: ep_core_def)
  have use: "inst_in_use (instances s ! 0)" using get_instance_some(2) [OF core s(3)] .
  obtain s' L xss where s': "epoll_ctl_add 0 0 (Some ?ev) s = Some (0, s')" "ep_inv L xss s'" "ctl_result 0 1 0 ?ev s s'"
    using ctl_add_refines [OF s(2) _ use _ _ _ q, of 0 ?ev] s(4) by auto
  have no: "0 \<notin> key (items s) ` set (replicate 16 [] ! 0)" and fresh: "q \<notin> set (concat (replicate 16 []))" by simp_all
  obtain s'' and m :: "u32 rb_mem" where s'': "epoll_ctl_add 0 0 (Some ?ev) s = Some (0, s'')" and
    m: "s'' = upd_inst 0 (\<lambda>e. e\<lparr>items_tree := root m, num_items := num_items e + 1\<rparr>)
      (s\<lparr>kernel_heap := h, items := (items s)(q \<mapsto> \<lparr>item_fd = 0, item_events = events ?ev, user_data = ev_data ?ev, revents = 0\<rparr>), item_nodes := nodes m\<rparr>)"
    using ctl_add_exec [OF core zero_less_numeral no q fresh, of ?ev] by blast
  have "s'' = s'" using s''(1) s'(1) by simp
  have same: "fd_tab s' = fd_tab s" "world s' = [65]" "inst_in_use (instances s' ! 0)"
    using m \<open>s'' = s'\<close> s(8) use ep_core_facts(1) [OF core, of 0] by (simp_all add: upd_inst_def)
  have "fd_poll 0 (fd_tab s) [65] = Some (3, (fd_tab s)\<lparr>fds := (fds (fd_tab s))[0 := uart_entry\<lparr>flags := 3\<rparr>]\<rparr>, [65])"
    using fd_get_ok [OF t, of 0] s(6,7)
    by (simp add: fd_poll_def uart_entry_def uart_fd_ops_def uart_fd_poll_def uart_rx_ready_def uart_read_reg_def sample_uart_def)
  then have "poll_all [0] (fd_tab s') (world s') = Some ([3], fd_tab s'\<lparr>fds := (fds (fd_tab s'))[0 := uart_entry\<lparr>flags := 3\<rparr>]\<rparr>, [65])"
    using same by simp
  moreover have "epoll_ctl (- 1) 1 0 (Some ?ev) s = Some (0, s')"
    using s(3,6) s'(1) fd_get_ok [OF t, of 0] by (simp add: epoll_ctl_def)
  moreover have "epoll_get_instance (- 1) s' = Some (Some 0)"
    by (rule get_by_number [OF _ _ same(3)]) (use s'(2) in \<open>auto simp: ep_inv_def\<close>)
  moreover have "interest 0 s' = [0 \<mapsto> (5, 77)]" using s'(3) s(4) by (simp add: ctl_result_def ctl_spec_def)
  ultimately show ?thesis using s(1) s'(2) by blast
qed

theorem epoll_wait_reports_witness:
  "\<exists>s s1 s2. epoll_demo = Some s \<and> epoll_ctl (- 1) 1 0 (Some \<lparr>events = 5, ev_data = 77\<rparr>) s = Some (0, s1) \<and>
     epoll_wait (- 1) 4 0 s1 = Some (1, [\<lparr>events = 5, ev_data = 77\<rparr>], s2)"
proof -
  obtain s s' L xss t where s: "epoll_demo = Some s" "epoll_ctl (- 1) 1 0 (Some \<lparr>events = 5, ev_data = 77\<rparr>) s = Some (0, s')"
    "ep_inv L xss s'" "epoll_get_instance (- 1) s' = Some (Some 0)" "interest 0 s' = [0 \<mapsto> (5, 77)]"
    and p: "poll_all [0] (fd_tab s') (world s') = Some ([3], t, [65])"
    using epoll_watch_ok by blast
  have "poll_all (sorted_list_of_set (dom (interest 0 s'))) (fd_tab s') (world s') = Some ([3], t, [65])" using p s(5) by simp
  moreover have "epoll_flags 3 AND 5 = 5" by code_simp
  ultimately show ?thesis using epoll_wait_reports [OF s(3,4), of 4 "[3]" t "[65]" 0] s(1,2,5) by auto
qed

section \<open>Closing\<close>

lemma close_loop:
  assumes "ep_core L xss s" "i < MAX_EPOLL_INSTANCES" "xss ! i = ys"
  shows "\<exists>s'. epoll_close_loop i (head_ptr ys) s = Some s' \<and> ep_core (L |` (- set ys)) (xss[i := []]) s' \<and>
    items s' = items s |` (- set ys) \<and> (\<forall>j. j \<noteq> i \<longrightarrow> instances s' ! j = instances s ! j) \<and>
    length (instances s') = length (instances s)"
  using assms
proof (induction ys arbitrary: L xss s)
  case Nil
  then have "xss[i := []] = xss" by (metis list_update_id)
  moreover have "L |` (- set []) = L" "items s |` (- set []) = items s" by (simp_all add: restrict_map_def)
  ultimately show ?case using Nil.prems(1) by (subst epoll_close_loop.simps) (simp del: Compl_empty_eq set_empty)
next
  case (Cons q ys)
  note F = ep_core_facts [OF Cons.prems(1,2)] and I = ep_coreD [OF Cons.prems(1,2)]
  have qx: "q \<in> set (xss ! i)" and rem: "remove1 q (xss ! i) = ys" using Cons.prems(3) by simp_all
  obtain m h where mh: "rb_erase (Some q) (tree_of i s) = Some m" "kfree (Some q) (kernel_heap s) = Some h"
    and core': "ep_core (L(q := None)) (xss[i := ys])
      (upd_inst i (\<lambda>e. e\<lparr>items_tree := root m, num_items := num_items e\<rparr>)
        (s\<lparr>kernel_heap := h, item_nodes := (nodes m)(q := None), items := (items s)(q := None)\<rparr>))" (is "ep_core _ _ ?s1")
    using erase_free_ok [OF Cons.prems(1,2) qx, of num_items] rem by auto
  have "rb_next (Some q) (tree_of i s) = Some (head_ptr ys)"
    using rb_next_seq [of "[]" q ys "tree_of i s"] I(2) Cons.prems(3) by (simp add: head_ptr_def)
  moreover have "free_item q (put_tree i m s) = Some ?s1"
    using mh(2) F(1) by (simp add: free_item_def put_tree_def upd_inst_def)
  ultimately have step: "epoll_close_loop i (head_ptr (q # ys)) s = epoll_close_loop i (head_ptr ys) ?s1"
    using mh(1) by (subst epoll_close_loop.simps) simp
  obtain s' where s': "epoll_close_loop i (head_ptr ys) ?s1 = Some s'"
    "ep_core (L(q := None) |` (- set ys)) (xss[i := ys, i := []]) s'" "items s' = items ?s1 |` (- set ys)"
    "\<forall>j. j \<noteq> i \<longrightarrow> instances s' ! j = instances ?s1 ! j" "length (instances s') = length (instances ?s1)"
    using Cons.IH [OF core' Cons.prems(2) nth_list_update_eq [OF F(2)]] by blast
  have "L(q := None) |` (- set ys) = L |` (- set (q # ys))" "items ?s1 |` (- set ys) = items s |` (- set (q # ys))"
    by (auto simp: restrict_map_def fun_eq_iff)
  then show ?case using step s' by (intro exI [of _ s']) simp
qed

text \<open>C9: \<open>epoll_close\<close> of an unknown instance returns -1 and changes nothing.  On an existing instance it walks
  its tree while erasing it and frees every item of the instance and nothing else (the allocated
  blocks of the heap afterwards are those before less the items); the instance is unused and
  unknown afterwards, and what the others watch does not change.\<close>

theorem epoll_close_frees:
  assumes inv: "ep_inv L xss s"
  shows "\<exists>r s'. epoll_close ep s = Some (r, s') \<and>
    (case epoll_get_instance ep s of
       Some (Some i) \<Rightarrow> r = 0 \<and> ep_inv (L |` (- set (xss ! i))) (xss[i := []]) s' \<and>
         heap_rep (L |` (- set (xss ! i))) (kernel_heap s') \<and> items s' = items s |` (- set (xss ! i)) \<and>
         epoll_get_instance ep s' = Some NULL \<and> (\<forall>j < 16. j \<noteq> i \<longrightarrow> interest j s' = interest j s)
     | _ \<Rightarrow> r = - 1 \<and> s' = s)"
proof -
  have core: "ep_core L xss s" using inv by (simp add: ep_inv_def)
  obtain epi where epi: "epoll_get_instance ep s = Some epi" using get_instance_ok [OF core] by blast
  show ?thesis
  proof (cases epi)
    case None then show ?thesis using epi by (simp add: epoll_close_def)
  next
    case (Some i)
    have i: "i < 16" "ep = - (int i + 1)" using get_instance_some [OF core] epi Some by auto
    note F = ep_core_facts [OF core i(1)]
    obtain s1 where s1: "epoll_close_loop i (head_ptr (xss ! i)) s = Some s1" "ep_core (L |` (- set (xss ! i))) (xss[i := []]) s1"
      "items s1 = items s |` (- set (xss ! i))" "\<forall>j. j \<noteq> i \<longrightarrow> instances s1 ! j = instances s ! j"
      using close_loop [OF core i(1)] by blast
    let ?f = "\<lambda>e. e\<lparr>epfd := - 1, items_tree := NULL, ready_list := NULL, num_items := 0, inst_in_use := False\<rparr>"
    have "rb_first (tree_of i s) = Some (head_ptr (xss ! i))"
      using rb_first_seq [OF ep_coreD(2) [OF core i(1)]] by (auto simp: head_ptr_def split: list.splits)
    then have run: "epoll_close ep s = Some (0, upd_inst i ?f s1)"
      using epi Some s1(1) by (simp add: epoll_close_def)
    have inv': "ep_inv (L |` (- set (xss ! i))) (xss[i := []]) (upd_inst i ?f s1)"
      by (rule ep_inv_header [OF s1(2) i(1)]) (use F(2) s1(4) inv in \<open>auto simp: ep_inv_def\<close>)
    then have core': "ep_core (L |` (- set (xss ! i))) (xss[i := []]) (upd_inst i ?f s1)" by (simp add: ep_inv_def)
    have "epoll_get_instance ep (upd_inst i ?f s1) \<noteq> Some (Some j)" for j
    proof
      assume j: "epoll_get_instance ep (upd_inst i ?f s1) = Some (Some j)"
      have "j = i" using get_instance_some(3) [OF core' j] i(2) by simp
      then show False using get_instance_some(2) [OF core' j] ep_core_facts(1) [OF s1(2) i(1)] by simp
    qed
    moreover obtain p where "epoll_get_instance ep (upd_inst i ?f s1) = Some p" using get_instance_ok [OF core'] by blast
    ultimately have get: "epoll_get_instance ep (upd_inst i ?f s1) = Some NULL" by (cases p) auto
    have "interest j (upd_inst i ?f s1) = interest j s" if "j < 16" "j \<noteq> i" for j
      by (rule other_interest [OF core core' i(1) that refl]) (use s1(3) in auto)
    moreover have "heap_rep (L |` (- set (xss ! i))) (kernel_heap (upd_inst i ?f s1))" using core' by (simp add: ep_core_def)
    ultimately show ?thesis using run inv' get epi Some s1(3) by simp
  qed
qed

theorem epoll_close_frees_witness:
  "\<exists>s s1 s2. epoll_demo = Some s \<and> epoll_ctl (- 1) 1 0 (Some \<lparr>events = 5, ev_data = 77\<rparr>) s = Some (0, s1) \<and>
     epoll_close (- 1) s1 = Some (0, s2) \<and> epoll_get_instance (- 1) s2 = Some NULL"
proof -
  obtain s s' L xss where s: "epoll_demo = Some s" "epoll_ctl (- 1) 1 0 (Some \<lparr>events = 5, ev_data = 77\<rparr>) s = Some (0, s')"
    "ep_inv L xss s'" "epoll_get_instance (- 1) s' = Some (Some 0)" using epoll_watch_ok by blast
  then show ?thesis using epoll_close_frees [OF s(3), of "- 1"] by auto
qed

end
