(* ===== verification/Scheduler.thy ===== *)
theory Scheduler
  imports Process
begin

text \<open>
  The round-robin scheduler of src/kernel.c: the process table, \<open>create_process\<close>, \<open>schedule\<close>, \<open>yield\<close>,
  \<open>process_exit\<close> and the context switch.  The linker chooses the address of each process's stack
  (parameter \<open>stk\<close>), the compiler the two registers that hold the operands of the inline assembly
  (parameters \<open>rp\<close> and \<open>rn\<close>).  The messages that the functions print are not modelled.
\<close>

section \<open>State\<close>

text \<open>\<open>cpu\<close> holds the registers, \<open>ram\<close> the words outside the trap frames that can be loaded: its domain leaves out the addresses where nothing is
  mapped, and, on a machine that does not load misaligned words, those that are not aligned.\<close>

record sched =
  processes :: "process list"
  current_proc :: "nat ptr"
  cpu :: "reg \<Rightarrow> u32"
  ram :: "u32 \<rightharpoonup> u32"

definition upd_process :: "nat \<Rightarrow> (process \<Rightarrow> process) \<Rightarrow> sched \<Rightarrow> sched option" where
  "upd_process i f s = (if i < length (processes s)
     then Some (s\<lparr>processes := (processes s)[i := f (processes s ! i)]\<rparr>) else None)"

definition process_at :: "nat \<Rightarrow> sched \<Rightarrow> process option" where
  "process_at i s = (if i < length (processes s) then Some (processes s ! i) else None)"

section \<open>Initialisation and creation\<close>

primrec scheduler_init_loop :: "nat list \<Rightarrow> sched \<Rightarrow> sched option" where
  "scheduler_init_loop [] s = Some s"
| "scheduler_init_loop (i # is) s = do {
     s \<leftarrow> upd_process i (\<lambda>p. p\<lparr>pid := int i, state := PROC_UNUSED, sp := 0, page_table := NULL, trap_frame := NULL\<rparr>) s;
     scheduler_init_loop is s }"

definition scheduler_init :: "sched \<Rightarrow> sched option" where
  "scheduler_init s = do { s \<leftarrow> scheduler_init_loop [0..<MAX_PROCESSES] s; Some (s\<lparr>current_proc := NULL\<rparr>) }"

text \<open>The search loops of \<open>create_process\<close> and \<open>schedule\<close>: the first of the listed slots in a given
  state.\<close>

primrec find_slot :: "proc_state \<Rightarrow> nat list \<Rightarrow> sched \<Rightarrow> nat ptr option" where
  "find_slot st [] s = Some NULL"
| "find_slot st (i # is) s = do {
     p \<leftarrow> process_at i s;
     if state p = st then Some (Some i) else find_slot st is s }"

definition create_process :: "(nat \<Rightarrow> u32) \<Rightarrow> u32 \<Rightarrow> sched \<Rightarrow> (nat ptr \<times> sched) option" where
  "create_process stk entry_point s = do {
     proc \<leftarrow> find_slot PROC_UNUSED [0..<MAX_PROCESSES] s;
     case proc of None \<Rightarrow> Some (NULL, s)
     | Some i \<Rightarrow> do {
         s \<leftarrow> upd_process i (setup_process i (stk i) entry_point) s;
         Some (proc, s) } }"

section \<open>Context switch\<close>

text \<open>The registers in the order of \<open>struct trap_frame\<close>, which is the order of the assembly code.\<close>

definition frame_regs :: "reg list" where
  "frame_regs = [RA, GP, TP, T0, T1, T2, T3, T4, T5, T6, A0, A1, A2, A3, A4, A5, A6, A7,
     S0, S1, S2, S3, S4, S5, S6, S7, S8, S9, S10, S11, SP]"

definition frame_addr :: "(nat \<Rightarrow> u32) \<Rightarrow> nat \<Rightarrow> u32" where
  "frame_addr stk i = stk i + (STACK_SIZE - sizeof_trap_frame)"

text \<open>A load: a field of a trap frame, or another word of memory; outside the domain of \<open>ram\<close> the load faults.\<close>

definition read_word :: "(nat \<Rightarrow> u32) \<Rightarrow> sched \<Rightarrow> u32 \<Rightarrow> u32 option" where
  "read_word stk s a =
     (case find (\<lambda>(i, k). a = frame_addr stk i + 4 * of_nat k) (List.product [0..<length (processes s)] [0..<31]) of
        None \<Rightarrow> ram s a
      | Some (i, k) \<Rightarrow> Some (frame (processes s ! i) (frame_regs ! k)))"

text \<open>The loads of the assembly code, each relative to the register \<open>b\<close> that holds the second operand.\<close>

primrec load_regs :: "(u32 \<Rightarrow> u32 option) \<Rightarrow> reg \<Rightarrow> (nat \<times> reg) list \<Rightarrow> (reg \<Rightarrow> u32) \<Rightarrow> (reg \<Rightarrow> u32) option" where
  "load_regs rdw b [] c = Some c"
| "load_regs rdw b (kr # krs) c = do {
     v \<leftarrow> rdw (c b + 4 * of_nat (fst kr));
     load_regs rdw b krs (c(snd kr := v)) }"

definition context_switch :: "(nat \<Rightarrow> u32) \<Rightarrow> reg \<Rightarrow> reg \<Rightarrow> nat \<Rightarrow> nat \<Rightarrow> sched \<Rightarrow> sched option" where
  "context_switch stk rp rn prev nxt s = do {
     p \<leftarrow> process_at prev s;
     n \<leftarrow> process_at nxt s;
     prev_frame \<leftarrow> trap_frame p;
     next_frame \<leftarrow> trap_frame n;
     let s = s\<lparr>cpu := (cpu s)(rp := frame_addr stk prev_frame, rn := frame_addr stk next_frame)\<rparr>;
     s \<leftarrow> upd_process prev_frame (\<lambda>p. p\<lparr>frame := cpu s\<rparr>) s;
     c \<leftarrow> load_regs (read_word stk s) rn (zip [0..<31] frame_regs) (cpu s);
     Some (s\<lparr>cpu := c\<rparr>) }"

section \<open>Scheduling\<close>

definition schedule :: "(nat \<Rightarrow> u32) \<Rightarrow> reg \<Rightarrow> reg \<Rightarrow> sched \<Rightarrow> sched option" where
  "schedule stk rp rn s = do {
     s \<leftarrow> (case current_proc s of None \<Rightarrow> Some s
           | Some c \<Rightarrow> do {
               p \<leftarrow> process_at c s;
               if state p = PROC_RUNNING then upd_process c (\<lambda>p. p\<lparr>state := PROC_READY\<rparr>) s else Some s });
     start \<leftarrow> (case current_proc s of None \<Rightarrow> Some 0
           | Some c \<Rightarrow> do { p \<leftarrow> process_at c s; Some (nat ((pid p + 1) mod int MAX_PROCESSES)) });
     nxt \<leftarrow> find_slot PROC_READY (map (\<lambda>i. (start + i) mod MAX_PROCESSES) [0..<MAX_PROCESSES]) s;
     case nxt of None \<Rightarrow> Some s
     | Some n \<Rightarrow> do {
         let prev = current_proc s;
         let s = s\<lparr>current_proc := Some n\<rparr>;
         s \<leftarrow> upd_process n (\<lambda>p. p\<lparr>state := PROC_RUNNING\<rparr>) s;
         case prev of None \<Rightarrow> Some s | Some c \<Rightarrow> context_switch stk rp rn c n s } }"

definition yield :: "(nat \<Rightarrow> u32) \<Rightarrow> reg \<Rightarrow> reg \<Rightarrow> sched \<Rightarrow> sched option" where
  "yield stk rp rn s =
     (case current_proc s of None \<Rightarrow> Some s
      | Some c \<Rightarrow> do {
          s \<leftarrow> upd_process c (\<lambda>p. p\<lparr>state := PROC_READY\<rparr>) s;
          schedule stk rp rn s })"

definition process_exit :: "(nat \<Rightarrow> u32) \<Rightarrow> reg \<Rightarrow> reg \<Rightarrow> sched \<Rightarrow> sched option" where
  "process_exit stk rp rn s =
     (case current_proc s of None \<Rightarrow> Some s
      | Some c \<Rightarrow> do {
          s \<leftarrow> upd_process c (\<lambda>p. p\<lparr>state := PROC_UNUSED\<rparr>) s;
          schedule stk rp rn (s\<lparr>current_proc := NULL\<rparr>) })"

section \<open>Invariant\<close>

text \<open>Slot \<open>i\<close> has number \<open>i\<close>, a slot in use has its own trap frame, and the current process, and no other,
  is running.\<close>

definition sched_ok :: "sched \<Rightarrow> bool" where
  "sched_ok s \<longleftrightarrow> length (processes s) = MAX_PROCESSES \<and>
     (\<forall>i < MAX_PROCESSES. pid (processes s ! i) = int i \<and>
        (state (processes s ! i) \<noteq> PROC_UNUSED \<longrightarrow> trap_frame (processes s ! i) = Some i) \<and>
        (state (processes s ! i) = PROC_RUNNING \<longleftrightarrow> current_proc s = Some i)) \<and>
     (\<forall>c. current_proc s = Some c \<longrightarrow> c < MAX_PROCESSES)"

abbreviation pstate :: "sched \<Rightarrow> nat \<Rightarrow> proc_state" where
  "pstate s i \<equiv> state (processes s ! i)"

lemma find_slot_ok:
  assumes "length (processes s) = MAX_PROCESSES" "set is \<subseteq> {..<MAX_PROCESSES}"
  shows "find_slot st is s = Some (find (\<lambda>i. pstate s i = st) is)"
  using assms(2) by (induction "is") (use assms(1) in \<open>auto simp: process_at_def\<close>)

text \<open>The cyclic order in which \<open>schedule\<close> looks for a process.\<close>

definition order_from :: "nat ptr \<Rightarrow> nat list" where
  "order_from c = map (\<lambda>i. ((case c of None \<Rightarrow> 0 | Some c \<Rightarrow> Suc c) + i) mod MAX_PROCESSES) [0..<MAX_PROCESSES]"

definition ready_next :: "sched \<Rightarrow> nat ptr" where
  "ready_next s = find (\<lambda>i. pstate s i = PROC_READY \<or> pstate s i = PROC_RUNNING) (order_from (current_proc s))"

text \<open>What \<open>schedule\<close> needs; \<open>yield\<close> calls it with the current process already marked ready.\<close>

definition sched_pre :: "sched \<Rightarrow> bool" where
  "sched_pre s \<longleftrightarrow> length (processes s) = MAX_PROCESSES \<and>
     (\<forall>i < MAX_PROCESSES. pid (processes s ! i) = int i \<and>
        (pstate s i \<noteq> PROC_UNUSED \<longrightarrow> trap_frame (processes s ! i) = Some i) \<and>
        (pstate s i = PROC_RUNNING \<longrightarrow> current_proc s = Some i)) \<and>
     (\<forall>c. current_proc s = Some c \<longrightarrow> c < MAX_PROCESSES \<and> pstate s c \<in> {PROC_READY, PROC_RUNNING})"

lemma sched_pre: "sched_ok s \<Longrightarrow> sched_pre s"
  by (auto simp: sched_ok_def sched_pre_def)

lemma sched_preD:
  assumes "sched_pre s" "i < MAX_PROCESSES"
  shows "pid (processes s ! i) = int i" "pstate s i \<noteq> PROC_UNUSED \<Longrightarrow> trap_frame (processes s ! i) = Some i"
    "pstate s i = PROC_RUNNING \<Longrightarrow> current_proc s = Some i"
  using assms unfolding sched_pre_def by blast+

lemma sched_pre_current:
  "sched_pre s \<Longrightarrow> current_proc s = Some c \<Longrightarrow> c < MAX_PROCESSES \<and> (pstate s c = PROC_READY \<or> pstate s c = PROC_RUNNING)"
  unfolding sched_pre_def by blast

lemma cyclic_hits: "j < (8 :: nat) \<Longrightarrow> \<exists>i < 8. (k + i) mod 8 = j"
proof -
  assume j: "j < (8 :: nat)"
  have "(k + (j + 8 - k mod 8)) mod 8 = (k mod 8 + (j + 8 - k mod 8)) mod 8" by (rule mod_add_left_eq [symmetric])
  also have "\<dots> = j" using j by simp
  finally have "(k + (j + 8 - k mod 8) mod 8) mod 8 = j" by (simp add: mod_add_right_eq)
  then show ?thesis by (metis mod_less_divisor zero_less_numeral)
qed

lemma order_from_set: "set (order_from c) = {..<MAX_PROCESSES}"
proof
  show "set (order_from c) \<subseteq> {..<8}" by (auto simp: order_from_def simp del: upt_conv_Cons)
  show "{..<8} \<subseteq> set (order_from c)"
  proof
    fix j :: nat assume "j \<in> {..<8}"
    then obtain i where "i < 8" "((case c of None \<Rightarrow> 0 | Some c \<Rightarrow> Suc c) + i) mod 8 = j"
      using cyclic_hits [of j "case c of None \<Rightarrow> 0 | Some c \<Rightarrow> Suc c"] by auto
    then show "j \<in> set (order_from c)" unfolding order_from_def set_map by (intro rev_image_eqI [of i]) simp_all
  qed
qed

lemma ready_next_lt:
  assumes "ready_next s = Some n" shows "n < MAX_PROCESSES" "pstate s n \<in> {PROC_READY, PROC_RUNNING}"
proof -
  obtain k where "k < length (order_from (current_proc s))" "n = order_from (current_proc s) ! k"
      "pstate s n \<in> {PROC_READY, PROC_RUNNING}"
    using assms by (auto simp: ready_next_def find_Some_iff)
  then show "n < MAX_PROCESSES" "pstate s n \<in> {PROC_READY, PROC_RUNNING}"
    using order_from_set [of "current_proc s"] nth_mem [of k "order_from (current_proc s)"] by simp_all
qed

text \<open>The slots, apart from the trap frame contents, after scheduling.\<close>

definition switched :: "nat \<Rightarrow> sched \<Rightarrow> sched \<Rightarrow> bool" where
  "switched n s s' \<longleftrightarrow> current_proc s' = Some n \<and> ram s' = ram s \<and> length (processes s') = MAX_PROCESSES \<and>
     (\<forall>i < MAX_PROCESSES. pid (processes s' ! i) = pid (processes s ! i) \<and>
        trap_frame (processes s' ! i) = trap_frame (processes s ! i) \<and>
        pstate s' i = (if i = n then PROC_RUNNING else if current_proc s = Some i then PROC_READY else pstate s i))"

lemma switched_ok:
  assumes "sched_pre s" "switched n s s'" "n < MAX_PROCESSES" "pstate s n \<noteq> PROC_UNUSED"
  shows "sched_ok s'"
proof -
  have "pid (processes s' ! i) = int i \<and> (pstate s' i \<noteq> PROC_UNUSED \<longrightarrow> trap_frame (processes s' ! i) = Some i) \<and>
      (pstate s' i = PROC_RUNNING \<longleftrightarrow> current_proc s' = Some i)" if i: "i < 8" for i
  proof -
    note p = sched_preD [OF assms(1) i] sched_pre_current [OF assms(1), of i]
    have w: "current_proc s' = Some n" "pid (processes s' ! i) = pid (processes s ! i)"
        "trap_frame (processes s' ! i) = trap_frame (processes s ! i)"
        "pstate s' i = (if i = n then PROC_RUNNING else if current_proc s = Some i then PROC_READY else pstate s i)"
      using assms(2) i by (simp_all add: switched_def)
    show ?thesis using p assms(4) unfolding w by (cases "i = n"; cases "current_proc s = Some i") auto
  qed
  then show ?thesis using assms(2,3) by (simp add: sched_ok_def switched_def)
qed

text \<open>Loads fail only if some address cannot be read.\<close>

lemma load_regs_total: "(\<And>a. rdw a \<noteq> None) \<Longrightarrow> load_regs rdw b krs c \<noteq> None"
  by (induction krs arbitrary: c) (auto simp: bind_eq_None_conv)

lemma read_word_total: "dom (ram s) = UNIV \<Longrightarrow> read_word stk s a \<noteq> None"
  by (auto simp: read_word_def split: option.split)

lemma context_switch_cases:
  assumes "length (processes s) = MAX_PROCESSES" "p < MAX_PROCESSES" "n < MAX_PROCESSES"
    and "trap_frame (processes s ! p) = Some p" "trap_frame (processes s ! n) = Some n"
  obtains "context_switch stk rp rn p n s = None" "dom (ram s) \<noteq> UNIV"
  | fr cp where "context_switch stk rp rn p n s = Some (s\<lparr>processes := (processes s)[p := (processes s ! p)\<lparr>frame := fr\<rparr>], cpu := cp\<rparr>)"
proof -
  define c where "c = (cpu s)(rp := frame_addr stk p, rn := frame_addr stk n)"
  define s1 where "s1 = s\<lparr>cpu := c, processes := (processes s)[p := (processes s ! p)\<lparr>frame := c\<rparr>]\<rparr>"
  have run: "context_switch stk rp rn p n s = do { c \<leftarrow> load_regs (read_word stk s1) rn (zip [0..<31] frame_regs) c; Some (s1\<lparr>cpu := c\<rparr>) }"
    using assms by (simp add: context_switch_def process_at_def upd_process_def Let_def s1_def c_def)
  show thesis
  proof (cases "load_regs (read_word stk s1) rn (zip [0..<31] frame_regs) c")
    case None
    have "dom (ram s1) \<noteq> UNIV" using load_regs_total [of "read_word stk s1"] read_word_total None by blast
    then show thesis using that(1) run None by (simp add: s1_def)
  next
    case (Some c')
    then show thesis using that(2) [of c' c] run by (simp add: s1_def)
  qed
qed

lemma schedule_ok:
  assumes pre: "sched_pre s"
  shows "case ready_next s of
      None \<Rightarrow> schedule stk rp rn s = Some s \<and> current_proc s = NULL
    | Some n \<Rightarrow> (schedule stk rp rn s = None \<and> current_proc s \<noteq> NULL \<and> dom (ram s) \<noteq> UNIV) \<or>
        (\<exists>s'. schedule stk rp rn s = Some s' \<and> switched n s s' \<and> (current_proc s = NULL \<longrightarrow> cpu s' = cpu s))"
proof -
  have len: "length (processes s) = 8" using pre by (simp add: sched_pre_def)
  define s1 where "s1 = (case current_proc s of None \<Rightarrow> s
    | Some c \<Rightarrow> s\<lparr>processes := (processes s)[c := (processes s ! c)\<lparr>state := PROC_READY\<rparr>]\<rparr>)"
  have s1: "length (processes s1) = 8" "current_proc s1 = current_proc s" "cpu s1 = cpu s" "ram s1 = ram s"
    using len by (auto simp: s1_def split: option.splits)
  have st1: "processes s1 ! i = (if current_proc s = Some i then (processes s ! i)\<lparr>state := PROC_READY\<rparr> else processes s ! i)" if "i < 8" for i
    using len that by (auto simp: s1_def nth_list_update split: option.splits)
  have mark: "(case current_proc s of None \<Rightarrow> Some s
           | Some c \<Rightarrow> do {
               p \<leftarrow> process_at c s;
               if state p = PROC_RUNNING then upd_process c (\<lambda>p. p\<lparr>state := PROC_READY\<rparr>) s else Some s }) = Some s1"
  proof (cases "current_proc s")
    case (Some c)
    then have c: "c < 8" "pstate s c \<in> {PROC_READY, PROC_RUNNING}" using pre by (auto simp: sched_pre_def)
    have "s\<lparr>processes := (processes s)[c := (processes s ! c)\<lparr>state := PROC_READY\<rparr>]\<rparr> = s" if "pstate s c = PROC_READY"
    proof -
      have "(processes s ! c)\<lparr>state := PROC_READY\<rparr> = processes s ! c" using that by (intro process.equality) simp_all
      then show ?thesis by simp
    qed
    then show ?thesis using Some c len by (auto simp: s1_def process_at_def upd_process_def)
  qed (simp add: s1_def)
  have start: "(case current_proc s1 of None \<Rightarrow> Some 0
           | Some c \<Rightarrow> do { p \<leftarrow> process_at c s1; Some (nat ((pid p + 1) mod int MAX_PROCESSES)) }) =
      Some (case current_proc s of None \<Rightarrow> 0 | Some c \<Rightarrow> Suc c mod 8)"
  proof (cases "current_proc s")
    case (Some c)
    then have "c < 8" "pid (processes s ! c) = int c" using pre by (auto simp: sched_pre_def)
    moreover have "nat ((int c + 1) mod 8) = Suc c mod 8" by (simp add: nat_mod_distrib nat_add_distrib)
    ultimately show ?thesis using Some s1 st1 [of c] by (simp add: process_at_def)
  qed (simp add: s1)
  have order: "map (\<lambda>i. ((case current_proc s of None \<Rightarrow> 0 | Some c \<Rightarrow> Suc c mod 8) + i) mod 8) [0..<8] = order_from (current_proc s)"
    unfolding order_from_def by (rule map_cong) (simp_all add: mod_add_left_eq split: option.split del: upt_conv_Cons)
  have find: "find_slot PROC_READY (order_from (current_proc s)) s1 = Some (ready_next s)"
  proof -
    have "find (\<lambda>i. pstate s1 i = PROC_READY) (order_from (current_proc s)) = ready_next s"
      unfolding ready_next_def
    proof (rule find_cong)
      fix i assume "i \<in> set (order_from (current_proc s))"
      then have i: "i < 8" using order_from_set by blast
      then show "(pstate s1 i = PROC_READY) = (pstate s i = PROC_READY \<or> pstate s i = PROC_RUNNING)"
        using sched_preD(3) [OF pre i] sched_pre_current [OF pre, of i] st1 [OF i]
        by (cases "current_proc s = Some i") auto
    qed simp
    then show ?thesis using find_slot_ok [OF s1(1), of "order_from (current_proc s)"] order_from_set by simp
  qed
  show ?thesis
  proof (cases "ready_next s")
    case None
    have "current_proc s = NULL"
    proof (rule ccontr)
      assume "current_proc s \<noteq> NULL"
      then obtain c where "current_proc s = Some c" by blast
      then have "c \<in> set (order_from (current_proc s))" "pstate s c = PROC_READY \<or> pstate s c = PROC_RUNNING"
        using sched_pre_current [OF pre] order_from_set by blast+
      then show False using None unfolding ready_next_def find_None_iff by blast
    qed
    moreover from this have "s1 = s" by (simp add: s1_def)
    ultimately show ?thesis using None mark start order find by (simp add: schedule_def)
  next
    case (Some n)
    note n = ready_next_lt [OF Some]
    define s2 where "s2 = s1\<lparr>current_proc := Some n, processes := (processes s1)[n := (processes s1 ! n)\<lparr>state := PROC_RUNNING\<rparr>]\<rparr>"
    have up: "upd_process n (\<lambda>p. p\<lparr>state := PROC_RUNNING\<rparr>) (s1\<lparr>current_proc := Some n\<rparr>) = Some s2"
      using n(1) s1(1) by (simp add: upd_process_def s2_def)
    have st2: "processes s2 ! i = (if i = n then (processes s1 ! i)\<lparr>state := PROC_RUNNING\<rparr> else processes s1 ! i)" for i
      using n(1) s1(1) by (simp add: s2_def)
    have sw2: "switched n s s2" unfolding switched_def
      using s1(1,4) st1 st2 by (simp add: s2_def)
    have run: "schedule stk rp rn s = (case current_proc s of None \<Rightarrow> Some s2 | Some c \<Rightarrow> context_switch stk rp rn c n s2)"
      using mark start order find Some up s1(2) by (simp add: schedule_def)
    show ?thesis
    proof (cases "current_proc s")
      case None
      then show ?thesis using run sw2 Some s1(3) by (simp add: s2_def)
    next
      case c: (Some c)
      have cl: "c < 8" "pstate s c \<noteq> PROC_UNUSED" using sched_pre_current [OF pre c] by auto
      have len2: "length (processes s2) = 8" using sw2 by (simp add: switched_def)
      have tf: "trap_frame (processes s2 ! c) = Some c" "trap_frame (processes s2 ! n) = Some n"
        using sched_preD(2) [OF pre cl] sched_preD(2) [OF pre n(1)] n(2) sw2 cl n(1) by (auto simp: switched_def)
      show ?thesis
      proof (cases rule: context_switch_cases [OF len2 cl(1) n(1) tf, of stk rp rn, case_names fault switch])
        case fault
        have "ram s2 = ram s" using sw2 by (simp add: switched_def)
        then show ?thesis using fault run c Some by simp
      next
        case (switch fr cp)
        have "(processes s2)[c := (processes s2 ! c)\<lparr>frame := fr\<rparr>] ! i =
            (if i = c then (processes s2 ! i)\<lparr>frame := fr\<rparr> else processes s2 ! i)" for i
          using cl(1) len2 by (simp add: nth_list_update)
        then have "switched n s (s2\<lparr>processes := (processes s2)[c := (processes s2 ! c)\<lparr>frame := fr\<rparr>], cpu := cp\<rparr>)"
          using sw2 by (simp add: switched_def)
        then show ?thesis using run switch c Some by simp
      qed
    qed
  qed
qed

end
