(* ===== verification/Scheduler_Props.thy ===== *)
theory Scheduler_Props
  imports Scheduler
begin

text \<open>
  The properties of the round-robin scheduler: its reachable states, the choice of the next process,
  freedom from starvation, and what the context switch does to the registers.
\<close>

section \<open>Reachable states\<close>

lemma pre_schedule:
  assumes "sched_pre s"
  shows "schedule stk rp rn s = Some s' \<Longrightarrow> sched_pre s' \<and> (sched_ok s \<or> ready_next s \<noteq> None \<longrightarrow> sched_ok s')"
    and "schedule stk rp rn s = None \<Longrightarrow> current_proc s \<noteq> NULL \<and> dom (ram s) \<noteq> UNIV"
proof -
  note S = schedule_ok [OF assms, of stk rp rn]
  show "sched_pre s' \<and> (sched_ok s \<or> ready_next s \<noteq> None \<longrightarrow> sched_ok s')" if "schedule stk rp rn s = Some s'"
  proof (cases "ready_next s")
    case None then show ?thesis using S assms that by auto
  next
    case (Some n)
    then have "switched n s s'" using S that by auto
    then have "sched_ok s'" using switched_ok [OF assms \<open>switched n s s'\<close>] ready_next_lt [OF Some] by auto
    then show ?thesis using sched_pre by auto
  qed
  show "current_proc s \<noteq> NULL \<and> dom (ram s) \<noteq> UNIV" if "schedule stk rp rn s = None"
    using S that by (cases "ready_next s") auto
qed

lemma ready_next_current:
  assumes "sched_pre s" "current_proc s \<noteq> NULL" shows "ready_next s \<noteq> None"
  using schedule_ok [OF assms(1), of "\<lambda>_. 0" RA GP] assms(2) by (cases "ready_next s") auto

lemma yield_pre:
  assumes ok: "sched_ok s" and c: "current_proc s = Some c"
  defines "s1 \<equiv> s\<lparr>processes := (processes s)[c := (processes s ! c)\<lparr>state := PROC_READY\<rparr>]\<rparr>"
  shows "upd_process c (\<lambda>p. p\<lparr>state := PROC_READY\<rparr>) s = Some s1" "sched_pre s1" "ready_next s1 = ready_next s"
    "switched n s1 s' \<longleftrightarrow> switched n s s'"
proof -
  have len: "length (processes s) = 8" and cl: "c < 8" using ok c by (simp_all add: sched_ok_def)
  note D = sched_preD [OF sched_pre [OF ok]]
  show "upd_process c (\<lambda>p. p\<lparr>state := PROC_READY\<rparr>) s = Some s1" using len cl by (simp add: upd_process_def s1_def)
  have P: "processes s1 ! i = (if i = c then (processes s ! i)\<lparr>state := PROC_READY\<rparr> else processes s ! i)" for i
    using len cl by (simp add: s1_def nth_list_update)
  have curr: "current_proc s1 = Some c" "length (processes s1) = 8" "ram s1 = ram s" using c len by (simp_all add: s1_def)
  have run: "pstate s c = PROC_RUNNING" using ok c cl by (simp add: sched_ok_def)
  have "pid (processes s1 ! i) = int i \<and> (pstate s1 i \<noteq> PROC_UNUSED \<longrightarrow> trap_frame (processes s1 ! i) = Some i) \<and>
      (pstate s1 i = PROC_RUNNING \<longrightarrow> current_proc s1 = Some i)" if "i < 8" for i
    using D [OF that] run c unfolding P curr by (cases "i = c") auto
  then show "sched_pre s1" unfolding sched_pre_def using cl P curr by simp
  show "ready_next s1 = ready_next s" unfolding ready_next_def curr c
    by (rule find_cong) (use P run in auto)
  show "switched n s1 s' \<longleftrightarrow> switched n s s'" unfolding switched_def curr c P using run by auto
qed

lemma yield_ok:
  assumes "sched_ok s"
  shows "(yield stk rp rn s = None \<and> current_proc s \<noteq> NULL \<and> dom (ram s) \<noteq> UNIV) \<or>
    (\<exists>s'. yield stk rp rn s = Some s' \<and> sched_ok s' \<and> ram s' = ram s \<and>
      (case current_proc s of None \<Rightarrow> s' = s | Some c \<Rightarrow> \<exists>n. ready_next s = Some n \<and> switched n s s'))"
proof (cases "current_proc s")
  case None then show ?thesis using assms by (simp add: yield_def)
next
  case (Some c)
  note Y = yield_pre [OF assms Some]
  let ?s1 = "s\<lparr>processes := (processes s)[c := (processes s ! c)\<lparr>state := PROC_READY\<rparr>]\<rparr>"
  obtain n where n: "ready_next s = Some n" using ready_next_current [OF sched_pre [OF assms]] Some by auto
  have run: "yield stk rp rn s = schedule stk rp rn ?s1" using Y(1) Some by (simp add: yield_def)
  show ?thesis
  proof (cases "schedule stk rp rn ?s1")
    case None
    then show ?thesis using pre_schedule(2) [OF Y(2)] run Some by auto
  next
    case s': (Some s')
    then have "switched n ?s1 s'" using schedule_ok [OF Y(2), of stk rp rn] n Y(3) by auto
    moreover have "sched_ok s'" using pre_schedule(1) [OF Y(2) s'] n Y(3) by auto
    ultimately show ?thesis using s' run Y(4) n Some by (auto simp: switched_def)
  qed
qed

lemma process_exit_ok:
  assumes ok: "sched_ok s"
  shows "\<exists>s'. process_exit stk rp rn s = Some s' \<and> sched_ok s' \<and> cpu s' = cpu s \<and>
    (\<forall>c. current_proc s = Some c \<longrightarrow> pstate s' c = PROC_UNUSED \<and> current_proc s' \<noteq> Some c)"
proof (cases "current_proc s")
  case None then show ?thesis using ok by (simp add: process_exit_def)
next
  case (Some c)
  have len: "length (processes s) = 8" and cl: "c < 8" using ok Some by (simp_all add: sched_ok_def)
  note D = sched_preD [OF sched_pre [OF ok]]
  define s1 where "s1 = s\<lparr>processes := (processes s)[c := (processes s ! c)\<lparr>state := PROC_UNUSED\<rparr>], current_proc := NULL\<rparr>"
  have P: "processes s1 ! i = (if i = c then (processes s ! i)\<lparr>state := PROC_UNUSED\<rparr> else processes s ! i)" for i
    using len cl by (simp add: s1_def nth_list_update)
  have s1: "current_proc s1 = NULL" "length (processes s1) = 8" "cpu s1 = cpu s" using len by (simp_all add: s1_def)
  have "pid (processes s1 ! i) = int i \<and> (pstate s1 i \<noteq> PROC_UNUSED \<longrightarrow> trap_frame (processes s1 ! i) = Some i) \<and>
      pstate s1 i \<noteq> PROC_RUNNING" if "i < 8" for i
    using D [OF that] Some unfolding P by (cases "i = c") auto
  then have pre: "sched_pre s1" and ok1: "sched_ok s1" unfolding sched_pre_def sched_ok_def using s1 by simp_all
  have run: "process_exit stk rp rn s = schedule stk rp rn s1"
    using Some len cl by (simp add: process_exit_def upd_process_def s1_def)
  have st: "pstate s1 c = PROC_UNUSED" using P by simp
  show ?thesis
  proof (cases "ready_next s1")
    case None
    then show ?thesis using schedule_ok [OF pre, of stk rp rn] run ok1 s1 st Some by auto
  next
    case n: (Some n)
    then obtain s' where s': "schedule stk rp rn s1 = Some s'" "switched n s1 s'" "cpu s' = cpu s"
      using schedule_ok [OF pre, of stk rp rn] s1 by auto
    have "n \<noteq> c" using ready_next_lt(2) [OF n] st by auto
    then have "pstate s' c = PROC_UNUSED" "current_proc s' \<noteq> Some c" using s'(2) st s1 cl by (auto simp: switched_def)
    moreover have "sched_ok s'" using pre_schedule(1) [OF pre s'(1)] ok1 by auto
    ultimately show ?thesis using run s' Some by simp
  qed
qed

lemma create_process_ok:
  assumes ok: "sched_ok s"
  shows "\<exists>r s'. create_process stk entry s = Some (r, s') \<and> sched_ok s' \<and>
    (case r of None \<Rightarrow> s' = s \<and> (\<forall>i < MAX_PROCESSES. pstate s i \<noteq> PROC_UNUSED)
     | Some i \<Rightarrow> i < MAX_PROCESSES \<and> pstate s i = PROC_UNUSED \<and> (\<forall>j < i. pstate s j \<noteq> PROC_UNUSED) \<and>
         s' = s\<lparr>processes := (processes s)[i := setup_process i (stk i) entry (processes s ! i)]\<rparr>)"
proof -
  have len: "length (processes s) = 8" using ok by (simp add: sched_ok_def)
  have F: "find_slot PROC_UNUSED [0..<8] s = Some (find (\<lambda>i. pstate s i = PROC_UNUSED) [0..<8])"
    by (rule find_slot_ok [OF len]) auto
  show ?thesis
  proof (cases "find (\<lambda>i. pstate s i = PROC_UNUSED) [0..<8]")
    case None
    then have "\<forall>i < 8. pstate s i \<noteq> PROC_UNUSED" unfolding find_None_iff by simp
    then show ?thesis using F None ok by (simp add: create_process_def del: upt_conv_Cons)
  next
    case (Some i)
    then obtain k where "k < 8" "i = [0..<8] ! k" "pstate s i = PROC_UNUSED" "\<forall>j < k. pstate s ([0..<8] ! j) \<noteq> PROC_UNUSED"
      unfolding find_Some_iff by auto
    then have i: "i < 8" "pstate s i = PROC_UNUSED" "\<forall>j < i. pstate s j \<noteq> PROC_UNUSED" by (simp_all del: upt_conv_Cons)
    let ?s' = "s\<lparr>processes := (processes s)[i := setup_process i (stk i) entry (processes s ! i)]\<rparr>"
    have P: "processes ?s' ! j = (if j = i then setup_process i (stk i) entry (processes s ! i) else processes s ! j)" for j
      using len i(1) by (simp add: nth_list_update)
    have su: "pid (setup_process i (stk i) entry p) = pid p" "state (setup_process i (stk i) entry p) = PROC_READY"
      "trap_frame (setup_process i (stk i) entry p) = Some i" for p by (simp_all add: setup_process_def Let_def)
    have "current_proc s \<noteq> Some i" using ok i(1,2) unfolding sched_ok_def by (metis proc_state.distinct(3))
    then have "pid (processes ?s' ! j) = int j \<and> (pstate ?s' j \<noteq> PROC_UNUSED \<longrightarrow> trap_frame (processes ?s' ! j) = Some j) \<and>
        (pstate ?s' j = PROC_RUNNING \<longleftrightarrow> current_proc s = Some j)" if "j < 8" for j
      using ok that su unfolding P sched_ok_def by (cases "j = i") auto
    then have "sched_ok ?s'" using ok len unfolding sched_ok_def by simp
    moreover have "create_process stk entry s = Some (Some i, ?s')"
      using F Some i(1) len by (simp add: create_process_def upd_process_def del: upt_conv_Cons)
    ultimately show ?thesis using i by simp
  qed
qed

lemma init_loop_ok:
  assumes "length (processes s) = MAX_PROCESSES" "set is \<subseteq> {..<MAX_PROCESSES}" "distinct is"
  shows "\<exists>ps. scheduler_init_loop is s = Some (s\<lparr>processes := ps\<rparr>) \<and> length ps = MAX_PROCESSES \<and>
    (\<forall>i. ps ! i = (if i \<in> set is then (processes s ! i)\<lparr>pid := int i, state := PROC_UNUSED, sp := 0, page_table := NULL, trap_frame := NULL\<rparr>
       else processes s ! i))"
  using assms
proof (induction "is" arbitrary: s)
  case Nil then show ?case by (intro exI [of _ "processes s"]) simp
next
  case (Cons i "is")
  let ?f = "\<lambda>p. p\<lparr>pid := int i, state := PROC_UNUSED, sp := 0, page_table := NULL, trap_frame := NULL\<rparr>"
  let ?s = "s\<lparr>processes := (processes s)[i := ?f (processes s ! i)]\<rparr>"
  have up: "upd_process i ?f s = Some ?s" using Cons.prems by (simp add: upd_process_def)
  obtain ps where ps: "scheduler_init_loop is ?s = Some (?s\<lparr>processes := ps\<rparr>)" "length ps = 8"
    "\<forall>j. ps ! j = (if j \<in> set is then (processes ?s ! j)\<lparr>pid := int j, state := PROC_UNUSED, sp := 0, page_table := NULL, trap_frame := NULL\<rparr>
       else processes ?s ! j)"
    using Cons.IH [of ?s] Cons.prems by auto
  show ?case using up ps Cons.prems by (intro exI [of _ ps]) (auto simp: nth_list_update)
qed

lemma scheduler_init_ok:
  assumes "length (processes s) = MAX_PROCESSES"
  shows "\<exists>s'. scheduler_init s = Some s' \<and> sched_ok s' \<and> current_proc s' = NULL \<and> (\<forall>i < MAX_PROCESSES. pstate s' i = PROC_UNUSED)"
proof -
  obtain ps where ps: "scheduler_init_loop [0..<8] s = Some (s\<lparr>processes := ps\<rparr>)" "length ps = 8"
    "\<forall>i. ps ! i = (if i \<in> set [0..<8] then (processes s ! i)\<lparr>pid := int i, state := PROC_UNUSED, sp := 0, page_table := NULL, trap_frame := NULL\<rparr>
       else processes s ! i)"
    using init_loop_ok [OF assms, of "[0..<8]"] distinct_upt by fastforce
  then show ?thesis by (simp add: scheduler_init_def sched_ok_def del: upt_conv_Cons)
qed

inductive rr_reach :: "(nat \<Rightarrow> u32) \<Rightarrow> reg \<Rightarrow> reg \<Rightarrow> sched \<Rightarrow> bool" for stk rp rn where
  init: "length (processes s) = MAX_PROCESSES \<Longrightarrow> scheduler_init s = Some s' \<Longrightarrow> rr_reach stk rp rn s'"
| create: "rr_reach stk rp rn s \<Longrightarrow> create_process stk entry s = Some (r, s') \<Longrightarrow> rr_reach stk rp rn s'"
| schedule: "rr_reach stk rp rn s \<Longrightarrow> schedule stk rp rn s = Some s' \<Longrightarrow> rr_reach stk rp rn s'"
| yield: "rr_reach stk rp rn s \<Longrightarrow> yield stk rp rn s = Some s' \<Longrightarrow> rr_reach stk rp rn s'"
| exit: "rr_reach stk rp rn s \<Longrightarrow> process_exit stk rp rn s = Some s' \<Longrightarrow> rr_reach stk rp rn s'"

lemma rr_reach_ok: "rr_reach stk rp rn s \<Longrightarrow> sched_ok s"
proof (induction rule: rr_reach.induct)
  case (init s s') then show ?case using scheduler_init_ok [of s] by auto
next
  case (create s entry r s') then show ?case using create_process_ok [of s stk entry] by auto
next
  case (schedule s s') then show ?case using pre_schedule(1) [OF sched_pre] by blast
next
  case (yield s s') then show ?case using yield_ok [of s stk rp rn] by auto
next
  case (exit s s') then show ?case using process_exit_ok [of s stk rp rn] by auto
qed

text \<open>C29: in every state reached from \<open>scheduler_init\<close> by creating, scheduling, yielding and exiting, a process
  is running exactly if it is the current one (so at most one runs), slots keep their numbers, and
  processes in use have their own trap frame.  Creating and exiting never fail; scheduling and yielding do not fail if there is no current process, or if
  all of the memory can be read: otherwise a load of the context switch may fault.\<close>

theorem rr_reachable_running:
  assumes "rr_reach stk rp rn s"
  shows "(\<forall>i < 8. (state (processes s ! i) = PROC_RUNNING \<longleftrightarrow> current_proc s = Some i) \<and> pid (processes s ! i) = int i \<and>
      (state (processes s ! i) \<noteq> PROC_UNUSED \<longrightarrow> trap_frame (processes s ! i) = Some i)) \<and>
    process_exit stk rp rn s \<noteq> None \<and> create_process stk entry s \<noteq> None \<and>
    (current_proc s = NULL \<or> dom (ram s) = UNIV \<longrightarrow> schedule stk rp rn s \<noteq> None \<and> yield stk rp rn s \<noteq> None)"
proof -
  have ok: "sched_ok s" by (rule rr_reach_ok [OF assms])
  have "process_exit stk rp rn s \<noteq> None" "create_process stk entry s \<noteq> None"
    using process_exit_ok [OF ok, of stk rp rn] create_process_ok [OF ok, of stk entry] by auto
  moreover have "schedule stk rp rn s \<noteq> None \<and> yield stk rp rn s \<noteq> None" if "current_proc s = NULL \<or> dom (ram s) = UNIV"
  proof
    show "schedule stk rp rn s \<noteq> None"
    proof
      assume "schedule stk rp rn s = None"
      from pre_schedule(2) [OF sched_pre [OF ok] this] that show False by (elim conjE disjE) simp_all
    qed
    show "yield stk rp rn s \<noteq> None" using yield_ok [OF ok, of stk rp rn] that by auto
  qed
  ultimately show ?thesis using ok by (auto simp: sched_ok_def)
qed

section \<open>An example\<close>

definition rr_stk :: "nat \<Rightarrow> u32" where
  "rr_stk i = 0x80200010 + 8212 * of_nat i"

definition rr_blank :: "(u32 \<rightharpoonup> u32) \<Rightarrow> sched" where
  "rr_blank r = \<lparr>processes = replicate 8 \<lparr>pid = 0, state = PROC_UNUSED, sp = 0, page_table = NULL, trap_frame = NULL, frame = (\<lambda>_. 0)\<rparr>,
     current_proc = NULL, cpu = (\<lambda>_. 0), ram = r\<rparr>"

definition rr_demo :: "(u32 \<rightharpoonup> u32) \<Rightarrow> sched option" where
  "rr_demo r = do {
     s \<leftarrow> scheduler_init (rr_blank r);
     (_, s) \<leftarrow> create_process rr_stk 0x80201000 s;
     (_, s) \<leftarrow> create_process rr_stk 0x80202000 s;
     (_, s) \<leftarrow> create_process rr_stk 0x80203000 s;
     schedule rr_stk A5 A4 s }"

definition rr_view :: "sched \<Rightarrow> nat ptr \<times> proc_state list" where
  "rr_view s = (current_proc s, map state (processes s))"

lemma rr_demo_view:
  "map_option rr_view (rr_demo r) = Some (Some 0, [PROC_RUNNING, PROC_READY, PROC_READY,
     PROC_UNUSED, PROC_UNUSED, PROC_UNUSED, PROC_UNUSED, PROC_UNUSED])"
  by code_simp

lemma rr_demo_reach: "rr_demo r = Some s \<Longrightarrow> rr_reach rr_stk A5 A4 s"
proof -
  have blank: "length (processes (rr_blank r)) = 8" by (simp add: rr_blank_def)
  assume "rr_demo r = Some s"
  then obtain s0 r1 s1 r2 s2 r3 s3 where run: "scheduler_init (rr_blank r) = Some s0"
    "create_process rr_stk 0x80201000 s0 = Some (r1, s1)" "create_process rr_stk 0x80202000 s1 = Some (r2, s2)"
    "create_process rr_stk 0x80203000 s2 = Some (r3, s3)" "schedule rr_stk A5 A4 s3 = Some s"
    by (auto simp: rr_demo_def bind_eq_Some_conv)
  show ?thesis
    by (rule rr_reach.schedule [OF rr_reach.create [OF rr_reach.create [OF rr_reach.create
          [OF rr_reach.init [OF blank run(1)] run(2)] run(3)] run(4)] run(5)])
qed

lemma rr_demo_ram: "rr_demo r = Some s \<Longrightarrow> ram s = r"
proof -
  have "map_option ram (rr_demo r) = Some r" by code_simp
  then show "rr_demo r = Some s \<Longrightarrow> ram s = r" by auto
qed

theorem rr_reachable_running_witness:
  "\<exists>s. rr_demo (\<lambda>_. Some 0) = Some s \<and> state (processes s ! 0) = PROC_RUNNING \<and> state (processes s ! 1) \<noteq> PROC_RUNNING \<and>
     yield rr_stk A5 A4 s \<noteq> None"
proof -
  obtain s where s: "rr_demo (\<lambda>_. Some 0) = Some s" "current_proc s = Some 0" using rr_demo_view by (fastforce simp: rr_view_def)
  have "dom (ram s) = UNIV" using rr_demo_ram [OF s(1)] by auto
  then show ?thesis using rr_reachable_running [OF rr_demo_reach [OF s(1)], of 0] s by auto
qed

section \<open>Scheduling\<close>

text \<open>\<open>schedule\<close>, if its context switch does not fault, makes the first process that is ready or running in cyclic order after the current one
  (or from slot 0 when there is none) the running one and marks the process that ran ready; it changes
  nothing exactly when there is none.\<close>

theorem rr_schedule_correct:
  assumes "sched_ok s" "schedule stk rp rn s = Some s'"
  shows "sched_ok s' \<and>
    (case ready_next s of None \<Rightarrow> s' = s
     | Some n \<Rightarrow> current_proc s' = Some n \<and> n < 8 \<and>
         (\<forall>i < 8. state (processes s' ! i) = (if i = n then PROC_RUNNING
            else if current_proc s = Some i then PROC_READY else state (processes s ! i))))"
proof -
  have "sched_ok s'" using pre_schedule(1) [OF sched_pre [OF assms(1)] assms(2)] assms(1) by auto
  then show ?thesis using schedule_ok [OF sched_pre [OF assms(1)], of stk rp rn] assms(2) ready_next_lt(1) [of s]
    by (cases "ready_next s") (auto simp: switched_def)
qed

text \<open>Yielding repeatedly.\<close>

primrec yields :: "(nat \<Rightarrow> u32) \<Rightarrow> reg \<Rightarrow> reg \<Rightarrow> nat \<Rightarrow> sched \<Rightarrow> sched option" where
  "yields stk rp rn 0 s = Some s"
| "yields stk rp rn (Suc k) s = do { s \<leftarrow> yield stk rp rn s; yields stk rp rn k s }"

lemma ready_next_before:
  assumes "current_proc s = Some c" "d < MAX_PROCESSES" "j = (Suc c + d) mod MAX_PROCESSES" "pstate s j = PROC_READY"
    and n: "ready_next s = Some n"
  shows "\<exists>p \<le> d. n = (Suc c + p) mod MAX_PROCESSES"
proof -
  have O: "length (order_from (Some c)) = 8" "\<And>i. i < 8 \<Longrightarrow> order_from (Some c) ! i = (Suc c + i) mod 8"
    by (simp_all add: order_from_def del: upt_conv_Cons)
  obtain p where p: "p < 8" "n = order_from (Some c) ! p"
    "\<forall>i < p. \<not> (pstate s (order_from (Some c) ! i) = PROC_READY \<or> pstate s (order_from (Some c) ! i) = PROC_RUNNING)"
    using n assms(1) O(1) by (auto simp: ready_next_def find_Some_iff)
  have "\<not> d < p" using p(3) assms(2-4) O(2) [of d] by auto
  then show ?thesis using p O(2) by (intro exI [of _ p]) auto
qed

lemma yields_reach:
  assumes "sched_ok s" "current_proc s = Some c" "d < MAX_PROCESSES" "j = (Suc c + d) mod MAX_PROCESSES"
    and "pstate s j = PROC_READY"
  shows "\<exists>k s'. k \<le> Suc d \<and> yields stk rp rn k s = Some s' \<and>
    (current_proc s' = Some j \<or> dom (ram s) \<noteq> UNIV \<and> yield stk rp rn s' = None)"
  using assms
proof (induction d arbitrary: s c rule: less_induct)
  case (less d)
  show ?case
  proof (cases "yield stk rp rn s")
    case None
    then show ?thesis using yield_ok [OF less.prems(1), of stk rp rn] by (intro exI [of _ 0] exI [of _ s]) auto
  next
    case (Some s1)
    then obtain n where s1: "sched_ok s1" "ready_next s = Some n" "switched n s s1" "ram s1 = ram s"
      using yield_ok [OF less.prems(1), of stk rp rn] less.prems(2) by auto
    obtain p where p: "p \<le> d" "n = (Suc c + p) mod 8"
      using ready_next_before [OF less.prems(2-5) s1(2)] by blast
    have curr: "current_proc s1 = Some n" using s1(3) by (simp add: switched_def)
    show ?thesis
    proof (cases "n = j")
      case True
      then show ?thesis using Some curr by (intro exI [of _ "Suc 0"] exI [of _ s1]) simp
    next
      case False
      then have pd: "p < d" using p less.prems(4) by (cases "p = d") auto
      have "j = (Suc c + p + Suc (d - p - 1)) mod 8" using less.prems(4) pd by simp
      also have "\<dots> = (Suc n + (d - p - 1)) mod 8" unfolding p(2)
        by (metis add.assoc add_Suc add_Suc_right mod_add_left_eq)
      finally have j: "j = (Suc n + (d - p - 1)) mod 8" .
      have "j < 8" using less.prems(4) by simp
      moreover have "c \<noteq> j" using less.prems(1,2,5) \<open>j < 8\<close> by (auto simp: sched_ok_def)
      ultimately have "pstate s1 j = PROC_READY" using s1(3) False less.prems(2,5) by (auto simp: switched_def)
      moreover have "d - p - 1 < d" "d - p - 1 < 8" using pd less.prems(3) by simp_all
      ultimately obtain k s' where k: "k \<le> Suc (d - p - 1)" "yields stk rp rn k s1 = Some s'"
        "current_proc s' = Some j \<or> dom (ram s1) \<noteq> UNIV \<and> yield stk rp rn s' = None"
        using less.IH [OF _ s1(1) curr _ j] by blast
      then show ?thesis using Some s1(4) pd by (intro exI [of _ "Suc k"] exI [of _ s']) auto
    qed
  qed
qed

text \<open>C30: a ready process becomes the current one after at most seven yields of the processes that run before it; the only
  way for this not to happen is that one of these yields faults in the context switch, on memory that cannot be read.\<close>

theorem rr_no_starvation:
  assumes "sched_ok s" "current_proc s = Some c" "j < 8" "state (processes s ! j) = PROC_READY"
  shows "\<exists>k s'. k \<le> 7 \<and> yields stk rp rn k s = Some s' \<and>
    (current_proc s' = Some j \<or> dom (ram s) \<noteq> UNIV \<and> yield stk rp rn s' = None)"
proof -
  have c: "c < 8" "c \<noteq> j" using assms by (auto simp: sched_ok_def)
  obtain d where d: "d < 8" "(Suc c + d) mod 8 = j" using cyclic_hits [OF assms(3), of "Suc c"] by blast
  have "d \<noteq> 7" using d(2) c by auto
  then have "Suc d \<le> 7" using d(1) by simp
  then show ?thesis using yields_reach [OF assms(1,2) d(1) d(2) [symmetric] assms(4), of stk rp rn] by (meson le_trans)
qed

theorem rr_no_starvation_witness:
  "\<exists>s k s'. rr_demo (\<lambda>_. Some 0) = Some s \<and> k \<le> 7 \<and> yields rr_stk A5 A4 k s = Some s' \<and> current_proc s' = Some 2"
proof -
  obtain s where s: "rr_demo (\<lambda>_. Some 0) = Some s" "current_proc s = Some 0" "state (processes s ! 2) = PROC_READY"
    using rr_demo_view [of "\<lambda>_. Some 0"] by (auto simp: rr_view_def map_eq_Cons_conv)
  have "dom (ram s) = UNIV" using rr_demo_ram [OF s(1)] by auto
  then show ?thesis using rr_no_starvation [OF rr_reach_ok [OF rr_demo_reach [OF s(1)]] s(2), of 2 rr_stk A5 A4] s(1,3) by auto
qed

section \<open>The context switch\<close>

lemma load_regs_append: "load_regs m b (xs @ ys) c = do { c \<leftarrow> load_regs m b xs c; load_regs m b ys c }"
  by (induction xs arbitrary: c) (auto split: bind_splits)

lemma load_regs_other: "load_regs m b krs c = Some c' \<Longrightarrow> r \<notin> snd ` set krs \<Longrightarrow> c' r = c r"
  by (induction krs arbitrary: c) (auto simp: bind_eq_Some_conv)

lemma load_regs_same: "load_regs m b krs c = Some c' \<Longrightarrow> b \<notin> snd ` set krs \<Longrightarrow> distinct (map snd krs) \<Longrightarrow> (k, r) \<in> set krs \<Longrightarrow>
    m (c b + 4 * of_nat k) = Some (c' r)"
  by (induction krs arbitrary: c) (force simp: bind_eq_Some_conv dest: load_regs_other)+

lemma load_regs_defined:
  "b \<notin> snd ` set krs \<Longrightarrow> \<forall>k \<in> fst ` set krs. m (c b + 4 * of_nat k) \<noteq> None \<Longrightarrow> \<exists>c'. load_regs m b krs c = Some c'"
  by (induction krs arbitrary: c) auto

text \<open>A load behind the one that overwrites the base register takes its address from the loaded value.\<close>

lemma load_regs_lost:
  assumes d: "distinct (map snd (xs @ (kb, b) # ys))" and r: "(k, r) \<in> set ys" and run: "load_regs m b (xs @ (kb, b) # ys) c = Some c'"
  shows "\<exists>v. m (c b + 4 * of_nat kb) = Some v \<and> m (v + 4 * of_nat k) = Some (c' r)"
proof -
  obtain c1 where c1: "load_regs m b xs c = Some c1" "load_regs m b ((kb, b) # ys) c1 = Some c'"
    using run unfolding load_regs_append by (auto simp: bind_eq_Some_conv)
  have b: "c1 b = c b" by (rule load_regs_other [OF c1(1)]) (use d in auto)
  obtain v where v: "m (c b + 4 * of_nat kb) = Some v" "load_regs m b ys (c1(b := v)) = Some c'"
    using c1(2) b by (auto simp: bind_eq_Some_conv)
  have "m ((c1(b := v)) b + 4 * of_nat k) = Some (c' r)" by (rule load_regs_same [OF v(2) _ _ r]) (use d in auto)
  then show ?thesis using v(1) by simp
qed

lemma frame_regs_split:
  assumes "b \<noteq> SP"
  shows "\<exists>xs ys kb. zip [0..<31] frame_regs = xs @ (kb, b) # ys @ [(30, SP)] \<and> kb < 31 \<and> frame_regs ! kb = b"
proof -
  have Z: "zip [0..<31] frame_regs = zip [0..<30] (butlast frame_regs) @ [(30, SP)]" by code_simp
  have "b \<in> set (butlast frame_regs)" using assms by (cases b) (simp_all add: frame_regs_def)
  moreover have len: "length (butlast frame_regs) = 30" by (simp add: frame_regs_def)
  ultimately obtain kb where kb: "kb < 30" "butlast frame_regs ! kb = b" by (metis in_set_conv_nth)
  have "(kb, b) \<in> set (zip [0..<30] (butlast frame_regs))" using kb len by (auto simp: in_set_zip intro!: exI [of _ kb])
  then obtain xs ys where "zip [0..<30] (butlast frame_regs) = xs @ (kb, b) # ys" by (meson split_list)
  moreover have "frame_regs ! kb = b" using kb len by (simp add: nth_butlast)
  ultimately show ?thesis using Z kb(1) by (intro exI [of _ xs] exI [of _ ys] exI [of _ kb]) simp
qed

text \<open>The linker keeps the trap frames apart.\<close>

definition frames_apart :: "(nat \<Rightarrow> u32) \<Rightarrow> bool" where
  "frames_apart stk \<longleftrightarrow> (\<forall>i < MAX_PROCESSES. \<forall>j < MAX_PROCESSES. \<forall>k < 31. \<forall>l < 31.
     frame_addr stk i + 4 * of_nat k = frame_addr stk j + 4 * of_nat l \<longrightarrow> i = j \<and> k = l)"

lemma find_unique: "x \<in> set xs \<Longrightarrow> P x \<Longrightarrow> (\<And>y. y \<in> set xs \<Longrightarrow> P y \<Longrightarrow> y = x) \<Longrightarrow> find P xs = Some x"
  by (cases "find P xs") (metis find_None_iff, metis find_Some_iff nth_mem)

lemma read_word_cpu: "read_word stk (s\<lparr>cpu := c\<rparr>) = read_word stk s"
  by (rule ext) (simp add: read_word_def split: option.split)

lemma read_frame:
  assumes "frames_apart stk" "length (processes s) = MAX_PROCESSES" "i < MAX_PROCESSES" "k < 31"
  shows "read_word stk s (frame_addr stk i + 4 * of_nat k) = Some (frame (processes s ! i) (frame_regs ! k))"
proof -
  have "find (\<lambda>(j, l). frame_addr stk i + 4 * of_nat k = frame_addr stk j + 4 * of_nat l)
      (List.product [0..<length (processes s)] [0..<31]) = Some (i, k)"
  proof (rule find_unique)
    show "(i, k) \<in> set (List.product [0..<length (processes s)] [0..<31])" using assms(2-4) by (simp del: upt_conv_Cons)
    fix y assume y: "y \<in> set (List.product [0..<length (processes s)] [0..<31])"
      "case y of (j, l) \<Rightarrow> frame_addr stk i + 4 * of_nat k = frame_addr stk j + 4 * of_nat l"
    obtain j l where jl: "y = (j, l)" by (cases y)
    have "j < 8" "l < 31" using y(1) assms(2) unfolding jl by (simp_all del: upt_conv_Cons)
    then show "y = (i, k)" using y(2) assms(1,3,4) unfolding jl frames_apart_def by auto
  qed simp
  then show ?thesis by (simp add: read_word_def)
qed

text \<open>Which addresses can be read does not depend on what the trap frames hold.\<close>

lemma read_word_None:
  assumes "length (processes s') = length (processes s)" "ram s' = ram s" "read_word stk s a = None" shows "read_word stk s' a = None"
  using assms by (auto simp: read_word_def split: option.splits)

text \<open>The run of a context switch, with the place where the loads overwrite their base register.\<close>

lemma context_switch_run:
  assumes ok: "sched_ok s" and pn: "prev < MAX_PROCESSES" "nxt < MAX_PROCESSES" "prev \<noteq> nxt"
    and use: "pstate s prev \<noteq> PROC_UNUSED" "pstate s nxt \<noteq> PROC_UNUSED" and stk: "frames_apart stk" and rn: "rn \<noteq> SP"
  obtains c s1 xs kb ys where
    "context_switch stk rp rn prev nxt s = do { c' \<leftarrow> load_regs (read_word stk s1) rn (xs @ (kb, rn) # ys) c; Some (s1\<lparr>cpu := c'\<rparr>) }"
    "distinct (map snd (xs @ (kb, rn) # ys))" "(30, SP) \<in> set ys" "\<forall>k \<in> fst ` set (xs @ (kb, rn) # ys). k < 31"
    "c rn = frame_addr stk nxt" "read_word stk s1 (frame_addr stk nxt + 4 * of_nat kb) = Some (frame (processes s ! nxt) rn)"
    "s1 = s\<lparr>cpu := c, processes := (processes s)[prev := (processes s ! prev)\<lparr>frame := c\<rparr>]\<rparr>" "length (processes s1) = MAX_PROCESSES"
proof -
  have len: "length (processes s) = 8" using ok by (simp add: sched_ok_def)
  have tf: "trap_frame (processes s ! prev) = Some prev" "trap_frame (processes s ! nxt) = Some nxt"
    using ok pn use by (auto simp: sched_ok_def)
  define c where "c = (cpu s)(rp := frame_addr stk prev, rn := frame_addr stk nxt)"
  define s1 where "s1 = s\<lparr>cpu := c, processes := (processes s)[prev := (processes s ! prev)\<lparr>frame := c\<rparr>]\<rparr>"
  obtain xs ys kb where z: "zip [0..<31] frame_regs = xs @ (kb, rn) # ys @ [(30, SP)]" "kb < 31" "frame_regs ! kb = rn"
    using frame_regs_split [OF rn] by blast
  have "context_switch stk rp rn prev nxt s = do { c' \<leftarrow> load_regs (read_word stk s1) rn (xs @ (kb, rn) # ys @ [(30, SP)]) c; Some (s1\<lparr>cpu := c'\<rparr>) }"
    using pn len tf z(1) by (simp add: context_switch_def process_at_def upd_process_def s1_def c_def Let_def)
  moreover have "map snd (zip [0..<31] frame_regs) = frame_regs" "distinct frame_regs" "list_all (\<lambda>k. k < 31) (map fst (zip [0..<31] frame_regs))" by code_simp+
  then have "distinct (map snd (xs @ (kb, rn) # ys @ [(30, SP)]))" "\<forall>k \<in> fst ` set (xs @ (kb, rn) # ys @ [(30, SP)]). k < 31"
    unfolding z(1) by (simp_all only:, auto simp: list_all_iff)
  moreover have "read_word stk s1 (frame_addr stk nxt + 4 * of_nat kb) = Some (frame (processes s ! nxt) rn)"
    using read_frame [OF stk, of s1 nxt kb] pn len z(2,3) by (simp add: s1_def)
  ultimately show thesis using len by (intro that [of s1 xs kb "ys @ [(30, SP)]" c]) (simp_all add: c_def s1_def)
qed

text \<open>C31: the loads of \<open>context_switch\<close> overwrite the register \<open>rn\<close> that holds their base address before they reach
  the stack pointer, whatever register the compiler picks for it.  So the new stack pointer is the word 120 bytes behind the value that \<open>rn\<close> has in the frame of the next
  process.  For a process that has never run this value is 0 (unless \<open>rn\<close> is \<open>ra\<close>): the switch faults if the address 120 cannot be read.  A switch stores in the frame of the
  previous process the address of the next one's frame as the value of \<open>rn\<close>: when a process that had switched to process \<open>q\<close> is resumed, it gets the stack pointer of \<open>q\<close>.\<close>

theorem context_switch_loses_stack:
  assumes "sched_ok s" "prev < 8" "nxt < 8" "prev \<noteq> nxt" "state (processes s ! prev) \<noteq> PROC_UNUSED" "state (processes s ! nxt) \<noteq> PROC_UNUSED"
    and stk: "frames_apart stk" and "rn \<noteq> SP"
  shows "(\<forall>s'. context_switch stk rp rn prev nxt s = Some s' \<longrightarrow>
      read_word stk s' (frame (processes s ! nxt) rn + 120) = Some (cpu s' SP) \<and> frame (processes s' ! prev) rn = frame_addr stk nxt) \<and>
    (frame (processes s ! nxt) = frame (setup_process nxt (stk nxt) entry p) \<and> rn \<noteq> RA \<and> read_word stk s 120 = None \<longrightarrow>
      context_switch stk rp rn prev nxt s = None) \<and>
    (\<forall>q < 8. frame (processes s ! nxt) rn = frame_addr stk q \<longrightarrow>
      (\<exists>s'. context_switch stk rp rn prev nxt s = Some s' \<and> cpu s' SP = frame (processes s' ! q) SP))"
proof -
  obtain c s1 xs kb ys where R:
    "context_switch stk rp rn prev nxt s = do { c' \<leftarrow> load_regs (read_word stk s1) rn (xs @ (kb, rn) # ys) c; Some (s1\<lparr>cpu := c'\<rparr>) }"
    "distinct (map snd (xs @ (kb, rn) # ys))" "(30, SP) \<in> set ys" "\<forall>k \<in> fst ` set (xs @ (kb, rn) # ys). k < 31"
    "c rn = frame_addr stk nxt" "read_word stk s1 (frame_addr stk nxt + 4 * of_nat kb) = Some (frame (processes s ! nxt) rn)"
    "s1 = s\<lparr>cpu := c, processes := (processes s)[prev := (processes s ! prev)\<lparr>frame := c\<rparr>]\<rparr>" "length (processes s1) = 8"
    using context_switch_run [OF assms, of rp] .
  have sp: "read_word stk s' (frame (processes s ! nxt) rn + 120) = Some (cpu s' SP) \<and> frame (processes s' ! prev) rn = frame_addr stk nxt"
    if run: "context_switch stk rp rn prev nxt s = Some s'" for s'
  proof -
    obtain c' where c': "load_regs (read_word stk s1) rn (xs @ (kb, rn) # ys) c = Some c'" "s' = s1\<lparr>cpu := c'\<rparr>"
      using run unfolding R(1) by (auto simp: bind_eq_Some_conv)
    have "read_word stk s1 (frame (processes s ! nxt) rn + 120) = Some (c' SP)"
      using load_regs_lost [OF R(2,3) c'(1)] R(5,6) by simp
    then have "read_word stk s' (frame (processes s ! nxt) rn + 120) = Some (cpu s' SP)" unfolding c'(2) by (simp add: read_word_cpu)
    moreover have "prev < length (processes s)" using assms(2) R(7,8) by simp
    then have "frame (processes s' ! prev) rn = frame_addr stk nxt" unfolding c'(2) R(7) using R(5) by simp
    ultimately show ?thesis by blast
  qed
  have fresh: "context_switch stk rp rn prev nxt s = None"
    if "frame (processes s ! nxt) = frame (setup_process nxt (stk nxt) entry p)" "rn \<noteq> RA" "read_word stk s 120 = None"
  proof (rule ccontr)
    assume "context_switch stk rp rn prev nxt s \<noteq> None"
    then obtain s' where s': "context_switch stk rp rn prev nxt s = Some s'" by blast
    have "length (processes s') = length (processes s)" "ram s' = ram s" using s' R(7) unfolding R(1) by (auto simp: bind_eq_Some_conv)
    then have "read_word stk s' 120 = None" by (rule read_word_None [OF _ _ that(3)])
    moreover have "frame (processes s ! nxt) rn = 0" using that(1,2) assms(8) by (simp add: setup_process_def Let_def)
    ultimately show False using sp [OF s'] by simp
  qed
  have old: "\<exists>s'. context_switch stk rp rn prev nxt s = Some s' \<and> cpu s' SP = frame (processes s' ! q) SP"
    if q: "q < 8" "frame (processes s ! nxt) rn = frame_addr stk q" for q
  proof -
    have rd: "read_word stk s1 (frame_addr stk i + 4 * of_nat k) = Some (frame (processes s1 ! i) (frame_regs ! k))" if "i < 8" "k < 31" for i k
      by (rule read_frame [OF stk R(8) that])
    have notin: "rn \<notin> snd ` set xs" "rn \<notin> snd ` set ys" using R(2) by auto
    have frames: "\<forall>k \<in> fst ` set zs. read_word stk s1 (a + 4 * of_nat k) \<noteq> None"
      if zs: "set zs \<subseteq> set (xs @ (kb, rn) # ys)" "a = frame_addr stk i" "i < 8" for zs a i
    proof
      fix k assume "k \<in> fst ` set zs"
      then have "k < 31" using R(4) image_mono [OF zs(1), of fst] by blast
      then show "read_word stk s1 (a + 4 * of_nat k) \<noteq> None" using rd [OF zs(3)] zs(2) by simp
    qed
    obtain c1 where c1: "load_regs (read_word stk s1) rn xs c = Some c1"
      using load_regs_defined [OF notin(1), of "read_word stk s1" c] frames [of xs "c rn" nxt] R(5) assms(3) by auto
    have b: "c1 rn = frame_addr stk nxt" using load_regs_other [OF c1 notin(1)] R(5) by simp
    obtain c2 where "load_regs (read_word stk s1) rn ys (c1(rn := frame_addr stk q)) = Some c2"
      using load_regs_defined [OF notin(2), of "read_word stk s1" "c1(rn := frame_addr stk q)"] frames [of ys "frame_addr stk q" q] q(1) by auto
    then have "load_regs (read_word stk s1) rn (xs @ (kb, rn) # ys) c = Some c2"
      unfolding load_regs_append using c1 b R(6) q(2) by simp
    then have run: "context_switch stk rp rn prev nxt s = Some (s1\<lparr>cpu := c2\<rparr>)" using R(1) by simp
    have "frame_regs ! 30 = SP" by (simp add: frame_regs_def)
    then have "cpu (s1\<lparr>cpu := c2\<rparr>) SP = frame (processes s1 ! q) SP"
      using sp [OF run] rd [OF q(1), of 30] q(2) by (simp add: read_word_cpu)
    then show ?thesis using run by simp
  qed
  show ?thesis using sp fresh old by blast
qed

lemma rr_stk_apart: "frames_apart rr_stk"
  unfolding frames_apart_def
proof (intro allI impI)
  fix i j k l :: nat
  assume b: "i < 8" "j < 8" "k < 31" "l < 31"
  have inj: "x = y" if "(of_nat x :: u32) = of_nat y" "x < 2 ^ 32" "y < 2 ^ 32" for x y
    using that by (simp add: word_of_nat_eq_iff take_bit_nat_eq_self)
  have A: "frame_addr rr_stk i + 4 * of_nat k = of_nat (0x80200010 + 8212 * i + 8068 + 4 * k)" for i k
    by (simp add: frame_addr_def rr_stk_def)
  assume "frame_addr rr_stk i + 4 * of_nat k = frame_addr rr_stk j + 4 * of_nat l"
  then have "0x80200010 + 8212 * i + 8068 + 4 * k = 0x80200010 + 8212 * j + 8068 + 4 * l"
    unfolding A by (rule inj) (use b in simp_all)
  then have e: "8212 * i + 4 * k = 8212 * j + 4 * l" by simp
  moreover have "\<not> i + 1 \<le> j" "\<not> j + 1 \<le> i" using e b by linarith+
  ultimately show "i = j \<and> k = l" by simp
qed

text \<open>A process that has never run, with nothing readable outside the frames, and one that had switched to process 2.\<close>

theorem context_switch_loses_stack_witness:
  "\<exists>s s'. rr_demo Map.empty = Some s \<and> context_switch rr_stk A5 A4 0 1 s = None \<and>
     context_switch rr_stk A5 A4 0 1 (s\<lparr>processes := (processes s)[1 := (processes s ! 1)\<lparr>frame := (\<lambda>_. 0)(A4 := frame_addr rr_stk 2)\<rparr>]\<rparr>) = Some s' \<and>
     cpu s' SP = frame (processes s' ! 2) SP"
proof -
  have "map_option (\<lambda>s. (state (processes s ! 0), state (processes s ! 1), read_word rr_stk s 120)) (rr_demo Map.empty) =
      Some (PROC_RUNNING, PROC_READY, None)" by code_simp
  then obtain s where s: "rr_demo Map.empty = Some s" "state (processes s ! 0) = PROC_RUNNING" "state (processes s ! 1) = PROC_READY"
    "read_word rr_stk s 120 = None" by auto
  have fr: "frame (processes s ! 1) = frame (setup_process 1 (rr_stk 1) 0x80202000 (processes s ! 1))"
  proof
    fix r
    have "r \<in> set frame_regs" by (cases r) (simp_all add: frame_regs_def)
    moreover have "map_option (\<lambda>s. map (frame (processes s ! 1)) frame_regs) (rr_demo Map.empty) =
        Some (map (frame (setup_process 1 (rr_stk 1) 0x80202000 (processes (rr_blank Map.empty) ! 1))) frame_regs)" by code_simp
    ultimately show "frame (processes s ! 1) r = frame (setup_process 1 (rr_stk 1) 0x80202000 (processes s ! 1)) r"
      using s(1) by (simp add: setup_process_def Let_def)
  qed
  have ok: "sched_ok s" by (rule rr_reach_ok [OF rr_demo_reach [OF s(1)]])
  let ?t = "s\<lparr>processes := (processes s)[1 := (processes s ! 1)\<lparr>frame := (\<lambda>_. 0)(A4 := frame_addr rr_stk 2)\<rparr>]\<rparr>"
  have len: "length (processes s) = 8" using ok by (simp add: sched_ok_def)
  have P: "processes ?t ! i = (if i = 1 then (processes s ! 1)\<lparr>frame := (\<lambda>_. 0)(A4 := frame_addr rr_stk 2)\<rparr> else processes s ! i)" for i
    using len by (simp add: nth_list_update)
  have "sched_ok ?t" using ok unfolding sched_ok_def P by simp
  moreover have u: "state (processes ?t ! 0) \<noteq> PROC_UNUSED" "state (processes ?t ! 1) \<noteq> PROC_UNUSED" and f: "frame (processes ?t ! 1) A4 = frame_addr rr_stk 2"
    unfolding P using s(2,3) by simp_all
  ultimately have "\<forall>q < 8. frame (processes ?t ! 1) A4 = frame_addr rr_stk q \<longrightarrow>
      (\<exists>s'. context_switch rr_stk A5 A4 0 1 ?t = Some s' \<and> cpu s' SP = frame (processes s' ! q) SP)"
    using context_switch_loses_stack [OF _ _ _ _ u rr_stk_apart, of A4 A5] by (simp only: reg.distinct simp_thms) simp
  then obtain s' where "context_switch rr_stk A5 A4 0 1 ?t = Some s'" "cpu s' SP = frame (processes s' ! 2) SP"
    using f by (metis numeral_less_iff semiring_norm(76) semiring_norm(78))
  moreover have "context_switch rr_stk A5 A4 0 1 s = None"
    using context_switch_loses_stack [OF ok, of 0 1 rr_stk A4 A5 "0x80202000" "processes s ! 1"] rr_stk_apart s fr by simp
  ultimately show ?thesis using s(1) by blast
qed

text \<open>\<open>process_exit\<close> frees the slot of the current process and makes another one current, but, since
  \<open>schedule\<close> switches only from a current process, it loads no registers: the exiting process
  goes on running.\<close>

theorem process_exit_no_switch:
  assumes "sched_ok s" "current_proc s = Some c"
  shows "\<exists>s'. process_exit stk rp rn s = Some s' \<and> sched_ok s' \<and> cpu s' = cpu s \<and>
    state (processes s' ! c) = PROC_UNUSED \<and> current_proc s' \<noteq> Some c"
  using process_exit_ok [OF assms(1), of stk rp rn] assms(2) by auto

theorem process_exit_no_switch_witness:
  "\<exists>s s'. rr_demo Map.empty = Some s \<and> process_exit rr_stk A5 A4 s = Some s' \<and> cpu s' = cpu s \<and> state (processes s' ! 0) = PROC_UNUSED"
proof -
  obtain s where s: "rr_demo Map.empty = Some s" "current_proc s = Some 0" using rr_demo_view by (fastforce simp: rr_view_def)
  then show ?thesis using process_exit_no_switch [OF rr_reach_ok [OF rr_demo_reach [OF s(1)]] s(2), of rr_stk A5 A4] by blast
qed

text \<open>The stack pointer that \<open>create_process\<close> (and \<open>cfs_create_process\<close>) gives a new process points into its own trap
  frame, which lies at the top of the same stack: the first pushes overwrite the saved registers.\<close>

lemma create_process_overlap:
  "\<exists>d < sizeof_trap_frame. frame (setup_process i stk entry p) SP = sp (setup_process i stk entry p) + d"
  by (rule exI [of _ 116]) (simp add: setup_process_def)

end
