(* ===== verification/Kstring.thy ===== *)
theory Kstring
  imports Kernel_Prelude
begin

text \<open>
  The string functions of src/kernel.c and the copies of three of them in src/inode.c.  A \<open>char\<close> pointer is
  the list of the bytes from there to the end of the object it points into; running off
  the end is undefined.  Plain \<open>char\<close> is unsigned on RISC-V.
\<close>

section \<open>Functions\<close>

fun strcmp :: "u8 list \<Rightarrow> u8 list \<Rightarrow> int option" where
  "strcmp (a # s1) (b # s2) = (if a \<noteq> 0 \<and> a = b then strcmp s1 s2 else Some (uint a - uint b))"
| "strcmp _ _ = None"

fun strlen_loop :: "int \<Rightarrow> u8 list \<Rightarrow> int option" where
  "strlen_loop len [] = None"
| "strlen_loop len (c # s) = (if c \<noteq> 0 then strlen_loop (len + 1) s else Some len)"

definition strlen :: "u8 list \<Rightarrow> int option" where
  "strlen s = strlen_loop 0 s"

fun strchr :: "u8 list \<Rightarrow> int \<Rightarrow> u8 list ptr option" where
  "strchr [] c = None"
| "strchr (a # s) c =
     (if a \<noteq> 0 then (if uint a = c then Some (Some (a # s)) else strchr s c)
      else Some (if c = 0 then Some (a # s) else NULL))"

text \<open>The inner loop of \<open>strstr\<close>, with the test that follows it.\<close>

fun strstr_match :: "u8 list \<Rightarrow> u8 list \<Rightarrow> bool option" where
  "strstr_match (a # h) (b # n) = (if a \<noteq> 0 \<and> b \<noteq> 0 \<and> a = b then strstr_match h n else Some (b = 0))"
| "strstr_match _ _ = None"

fun strstr_loop :: "u8 list \<Rightarrow> u8 list \<Rightarrow> u8 list ptr option" where
  "strstr_loop [] needle = None"
| "strstr_loop (a # h) needle =
     (if a \<noteq> 0 then do {
        found \<leftarrow> strstr_match (a # h) needle;
        if found then Some (Some (a # h)) else strstr_loop h needle }
      else Some NULL)"

definition strstr :: "u8 list \<Rightarrow> u8 list \<Rightarrow> u8 list ptr option" where
  "strstr haystack needle =
     (case needle of [] \<Rightarrow> None
      | b # _ \<Rightarrow> if b = 0 then Some (Some haystack) else strstr_loop haystack needle)"

fun strcpy :: "u8 list \<Rightarrow> u8 list \<Rightarrow> u8 list option" where
  "strcpy (d # dest) (c # src) =
     (if c \<noteq> 0 then do { dest \<leftarrow> strcpy dest src; Some (c # dest) } else Some (0 # dest))"
| "strcpy _ _ = None"

section \<open>The string an object holds\<close>

abbreviation str_ok :: "u8 list \<Rightarrow> bool" where
  "str_ok s \<equiv> 0 \<in> set s"

definition str_val :: "u8 list \<Rightarrow> u8 list" where
  "str_val s = takeWhile (\<lambda>c. c \<noteq> 0) s"

lemma str_val_Cons [simp]: "str_val [] = []" "str_val (c # s) = (if c = 0 then [] else c # str_val s)"
  by (simp_all add: str_val_def)

lemma str_val_no_nul: "0 \<notin> set (str_val s)"
  by (induction s) auto

lemma str_val_append: "0 \<notin> set xs \<Longrightarrow> str_val (xs @ 0 # ys) = xs"
  by (induction xs) auto

lemma str_val_length: "str_ok s \<Longrightarrow> length (str_val s) < length s"
  by (induction s) auto

lemma uint_pos: "uint (x :: u8) \<noteq> 0 \<Longrightarrow> 0 < uint x"
  by (simp add: order_less_le)

lemma strcmp_total: "str_ok s \<Longrightarrow> str_ok t \<Longrightarrow> \<exists>r. strcmp s t = Some r"
  by (induction s t rule: strcmp.induct) auto

lemma strcmp_eq: "str_ok s \<Longrightarrow> str_ok t \<Longrightarrow> strcmp s t = Some r \<Longrightarrow> r = 0 \<longleftrightarrow> str_val s = str_val t"
  by (induction s t rule: strcmp.induct) (auto simp: word_uint_eq_iff split: if_splits)

lemma strcmp_less:
  "str_ok s \<Longrightarrow> str_ok t \<Longrightarrow> strcmp s t = Some r \<Longrightarrow> r < 0 \<longleftrightarrow> ord_class.lexordp (str_val s) (str_val t)"
  by (induction s t rule: strcmp.induct)
    (auto simp: word_less_def word_uint_eq_iff uint_pos split: if_splits)

lemma strlen_ok: "str_ok s \<Longrightarrow> strlen s = Some (int (length (str_val s)))"
proof -
  have "str_ok s \<Longrightarrow> strlen_loop n s = Some (n + int (length (str_val s)))" for n
    by (induction n s rule: strlen_loop.induct) auto
  then show "str_ok s \<Longrightarrow> strlen s = Some (int (length (str_val s)))" by (simp add: strlen_def)
qed

lemma strcpy_ok:
  "str_ok src \<Longrightarrow> strcpy dst src = (if length (str_val src) < length dst
     then Some (str_val src @ 0 # drop (Suc (length (str_val src))) dst) else None)"
  by (induction dst src rule: strcpy.induct) auto

lemma strstr_match_ok:
  "str_ok h \<Longrightarrow> str_ok n \<Longrightarrow> strstr_match h n = Some (take (length (str_val n)) (str_val h) = str_val n)"
  by (induction h n rule: strstr_match.induct) auto

text \<open>The reference: the first position at which the needle occurs.\<close>

definition occurs_at :: "u8 list \<Rightarrow> u8 list \<Rightarrow> nat \<Rightarrow> bool" where
  "occurs_at xs n i \<longleftrightarrow> take (length n) (drop i xs) = n"

definition first_occurrence :: "u8 list \<Rightarrow> u8 list \<Rightarrow> nat option" where
  "first_occurrence xs n = find (occurs_at xs n) [0..<Suc (length xs)]"

lemma find_map_eq: "find P (map f xs) = map_option f (find (P \<circ> f) xs)"
  by (induction xs) auto

lemma strstr_loop_ok:
  assumes "str_ok h" "str_ok n" "str_val n \<noteq> []"
  shows "strstr_loop h n = Some (map_option (\<lambda>i. drop i h) (find (occurs_at (str_val h) (str_val n)) [0..<length (str_val h)]))"
  using assms(1)
proof (induction h)
  case (Cons a h)
  show ?case
  proof (cases "a = 0")
    case False
    let ?h = "str_val h" and ?n = "str_val n"
    have rest: "find (occurs_at (a # ?h) ?n) [1..<Suc (length ?h)] = map_option Suc (find (occurs_at ?h ?n) [0..<length ?h])"
    proof -
      have "occurs_at (a # ?h) ?n \<circ> Suc = occurs_at ?h ?n" by (simp add: fun_eq_iff occurs_at_def)
      moreover have "[1..<Suc (length ?h)] = map Suc [0..<length ?h]" by (simp add: map_Suc_upt)
      ultimately show ?thesis by (simp only: find_map_eq)
    qed
    have "strstr_loop h n = Some (map_option (\<lambda>i. drop i h) (find (occurs_at ?h ?n) [0..<length ?h]))"
      using Cons False by auto
    moreover have "strstr_match (a # h) n = Some (occurs_at (a # ?h) ?n 0)"
      using strstr_match_ok [OF Cons.prems assms(2)] False by (simp add: occurs_at_def)
    moreover have "[0..<Suc (length ?h)] = 0 # [1..<Suc (length ?h)]" by (simp add: upt_rec)
    ultimately show ?thesis using False rest by (simp add: option.map_comp comp_def)
  qed simp
qed simp

section \<open>Properties\<close>

text \<open>On two terminated strings \<open>strcmp\<close> returns 0 exactly if they are equal and a negative number exactly if the
  first comes before the second in the lexicographic order of unsigned bytes.\<close>

theorem strcmp_correct:
  assumes "str_ok s" "str_ok t"
  shows "\<exists>r. strcmp s t = Some r \<and> (r = 0 \<longleftrightarrow> str_val s = str_val t) \<and>
    (r < 0 \<longleftrightarrow> ord_class.lexordp (str_val s) (str_val t))"
  using strcmp_total [OF assms] strcmp_eq [OF assms] strcmp_less [OF assms] by blast

theorem strcmp_correct_witness: "\<exists>r. strcmp [97, 98, 0, 99] [97, 99, 0] = Some r \<and> r < 0"
  using strcmp_correct [of "[97, 98, 0, 99]" "[97, 99, 0]"] by simp

text \<open>on two terminated strings \<open>strstr\<close> returns the pointer to the first occurrence of the needle in the haystack
  (the haystack itself for an empty needle), and \<open>NULL\<close> exactly if there is none.\<close>

theorem strstr_correct:
  assumes "str_ok h" "str_ok n"
  shows "strstr h n = Some (map_option (\<lambda>i. drop i h) (first_occurrence (str_val h) (str_val n)))"
proof (cases "str_val n = []")
  case True
  then obtain b n' where "n = b # n'" "b = 0" using assms(2) by (cases n) (auto split: if_splits)
  then show ?thesis by (simp add: strstr_def first_occurrence_def occurs_at_def upt_rec)
next
  case False
  then obtain b n' where n: "n = b # n'" "b \<noteq> 0" using assms(2) by (cases n) (auto split: if_splits)
  have "find (occurs_at (str_val h) (str_val n)) [length (str_val h)] = None" using False by (simp add: occurs_at_def)
  moreover have "find P (xs @ ys) = (case find P xs of None \<Rightarrow> find P ys | Some x \<Rightarrow> Some x)" for P and xs ys :: "nat list"
    by (induction xs) auto
  ultimately have "first_occurrence (str_val h) (str_val n) = find (occurs_at (str_val h) (str_val n)) [0..<length (str_val h)]"
    by (simp add: first_occurrence_def split: option.split)
  then show ?thesis using strstr_loop_ok [OF assms False] n by (simp add: strstr_def)
qed

theorem strstr_correct_witness: "strstr [97, 98, 97, 99, 0] [97, 99, 0] = Some (Some [97, 99, 0])"
  using strstr_correct [of "[97, 98, 97, 99, 0]" "[97, 99, 0]"]
  by (simp add: first_occurrence_def occurs_at_def upt_rec)

end
