(* ===== verification/Kbytes.thy ===== *)
theory Kbytes
  imports Kmalloc_Props
begin

text \<open>
  The bytes of the kernel heap that the clients of \<open>kmalloc\<close> read and write, addressed like the heap by
  32-bit offsets, and the contract that keeps the blocks of different clients apart.
\<close>

type_synonym bytes = "u32 \<Rightarrow> u8"

text \<open>The byte loops ``for (j = 0; j < size; j++)'' of the file systems.\<close>

fun read_bytes :: "bytes \<Rightarrow> u32 \<Rightarrow> nat \<Rightarrow> u8 list" where
  "read_bytes m a 0 = []"
| "read_bytes m a (Suc n) = m a # read_bytes m (a + 1) n"

fun write_bytes :: "u32 \<Rightarrow> u8 list \<Rightarrow> bytes \<Rightarrow> bytes" where
  "write_bytes a [] m = m"
| "write_bytes a (b # bs) m = write_bytes (a + 1) bs (m(a := b))"

lemma unat_plus_1: "unat a + 1 < 2 ^ 32 \<Longrightarrow> unat (a + 1 :: u32) = unat a + 1"
  by (simp add: unat_word_ariths)

lemma length_read_bytes [simp]: "length (read_bytes m a n) = n"
  by (induction m a n rule: read_bytes.induct) simp_all

lemma nth_read_bytes: "j < n \<Longrightarrow> read_bytes m a n ! j = m (a + of_nat j)"
  by (induction m a n arbitrary: j rule: read_bytes.induct) (auto simp: nth_Cons algebra_simps split: nat.split)

lemma read_bytes_cong: "(\<And>j. j < n \<Longrightarrow> m (a + of_nat j) = m' (a + of_nat j)) \<Longrightarrow> read_bytes m a n = read_bytes m' a n"
  by (rule nth_equalityI) (simp_all add: nth_read_bytes)

lemma take_read_bytes: "k \<le> n \<Longrightarrow> take k (read_bytes m a n) = read_bytes m a k"
  by (rule nth_equalityI) (simp_all add: nth_read_bytes)

lemma write_bytes_at:
  assumes "unat a + length bs \<le> 2 ^ 32"
  shows "write_bytes a bs m x = (if unat a \<le> unat x \<and> unat x < unat a + length bs then bs ! (unat x - unat a) else m x)"
  using assms
proof (induction a bs m rule: write_bytes.induct)
  case (2 a b bs m)
  show ?case
  proof (cases bs)
    case Nil
    then show ?thesis by (auto simp: word_unat_eq_iff)
  next
    case (Cons b' bs')
    then have u: "unat (a + 1) = unat a + 1" using 2(2) by (intro unat_plus_1) simp
    have "x = a \<longleftrightarrow> unat x = unat a" by (simp add: word_unat_eq_iff)
    then show ?thesis using 2 u by (auto simp: nth_Cons' fun_upd_def)
  qed
qed auto

lemma unat_plus: "unat a + j < 2 ^ 32 \<Longrightarrow> unat (a + of_nat j :: u32) = unat a + j"
  by (simp add: unat_word_ariths unsigned_of_nat take_bit_nat_def)

lemma read_write_same:
  assumes "unat a + length bs \<le> 2 ^ 32" shows "read_bytes (write_bytes a bs m) a (length bs) = bs"
  by (rule nth_equalityI) (use assms in \<open>simp_all add: nth_read_bytes write_bytes_at unat_plus\<close>)

text \<open>Writing into the front of a region.\<close>

lemma read_write_front:
  assumes "unat a + n \<le> 2 ^ 32" "length bs \<le> n"
  shows "read_bytes (write_bytes a bs m) a n = bs @ drop (length bs) (read_bytes m a n)"
  by (rule nth_equalityI) (use assms in \<open>auto simp: nth_read_bytes write_bytes_at unat_plus nth_append\<close>)

lemma read_write_other:
  assumes "unat a + length bs \<le> 2 ^ 32" "unat b + n \<le> 2 ^ 32" "unat a + length bs \<le> unat b \<or> unat b + n \<le> unat a"
  shows "read_bytes (write_bytes a bs m) b n = read_bytes m b n"
  by (rule read_bytes_cong) (use assms in \<open>auto simp: write_bytes_at unat_plus\<close>)

section \<open>Allocated blocks are apart\<close>

locale block_heap = allocator rep alloc dealloc
  for rep :: "(u32 \<rightharpoonup> nat) \<Rightarrow> 's \<Rightarrow> bool" and alloc dealloc +
  assumes blocks_apart: "rep L s \<Longrightarrow> L p = Some m \<Longrightarrow> L q = Some k \<Longrightarrow> p \<noteq> q \<Longrightarrow> unat p + m \<le> unat q \<or> unat q + k \<le> unat p"
    and blocks_inside: "rep L s \<Longrightarrow> L p = Some m \<Longrightarrow> unat p + m < 2 ^ 32"
begin

lemma read_own:
  assumes "rep L s" "L p = Some m" "length bs \<le> n" "n \<le> m"
  shows "read_bytes (write_bytes p bs h) p n = bs @ drop (length bs) (read_bytes h p n)"
  using read_write_front [of p n bs h] blocks_inside [OF assms(1,2)] assms(3,4) by simp

lemma read_foreign:
  assumes "rep L s" "L p = Some m" "L q = Some k" "p \<noteq> q" "length bs \<le> m" "n \<le> k"
  shows "read_bytes (write_bytes p bs h) q n = read_bytes h q n"
  using read_write_other [of p bs q n h] blocks_apart [OF assms(1-4)] blocks_inside [OF assms(1,2)] blocks_inside [OF assms(1,3)]
    assms(5,6) by auto

end

lemma sorted_wrt_pair: "sorted_wrt P xs \<Longrightarrow> x \<in> set xs \<Longrightarrow> y \<in> set xs \<Longrightarrow> x \<noteq> y \<Longrightarrow> P x y \<or> P y x"
  by (induction xs) auto

interpretation kb: block_heap heap_rep kmalloc kfree
proof unfold_locales
  fix L s p m q k
  assume "heap_rep L s" and p: "L p = Some m"
  then obtain bs where bs: "heap_ok bs s" "L = (\<lambda>p. map_of (live 0 bs) (unat p))" by (auto simp: heap_rep_def)
  have pin: "(unat p, m) \<in> set (live 0 bs)" using p bs(2) live_at by simp
  show "unat p + m < 2 ^ 32" using live_bounds [OF pin] bs(1) by (simp add: heap_ok_def)
  assume q: "L q = Some k" and "p \<noteq> q"
  then have "(unat q, k) \<in> set (live 0 bs)" "(unat p, m) \<noteq> (unat q, k)" using bs(2) live_at by (simp_all add: word_unat_eq_iff)
  then show "unat p + m \<le> unat q \<or> unat q + k \<le> unat p"
    using sorted_wrt_pair [OF live_sorted pin, of "(unat q, k)"] by auto
qed

end
