(* ===== verification/Fs.thy ===== *)
theory Fs
  imports Kstring Kbytes
begin

text \<open>
  The RAM file system of src/kernel.c (\<open>fs_init\<close> to \<open>fs_exists\<close>): 32 slots with a name and a block of the
  kernel heap.  \<open>fs_heap\<close> is the allocator's state, \<open>fs_bytes\<close> the bytes of the heap.  The messages that the
  functions print are added in Shell and Boot; here only the listing of \<open>fs_list\<close> is a result.
\<close>

section \<open>State\<close>

abbreviation (input) "MAX_FILES \<equiv> (32 :: nat)"
abbreviation (input) "MAX_FILENAME \<equiv> (64 :: nat)"
abbreviation (input) "MAX_FILESIZE \<equiv> (1024 :: u32)"

record fs_file =
  name :: "u8 list"
  data :: "u32 ptr"
  file_size :: u32
  is_used :: bool

record filesystem =
  files :: "fs_file list"
  file_count :: int
  fs_heap :: kheap
  fs_bytes :: bytes

definition upd_file :: "nat \<Rightarrow> (fs_file \<Rightarrow> fs_file) \<Rightarrow> filesystem \<Rightarrow> filesystem" where
  "upd_file i f s = s\<lparr>files := (files s)[i := f (files s ! i)]\<rparr>"

section \<open>Operations\<close>

definition fs_init :: "filesystem \<Rightarrow> filesystem" where
  "fs_init s = s\<lparr>files := map (\<lambda>f. f\<lparr>is_used := False, data := NULL, file_size := 0\<rparr>) (files s), file_count := 0\<rparr>"

text \<open>The loop with which four functions look for a file by name: the result is the index.\<close>

primrec fs_find :: "u8 list \<Rightarrow> nat list \<Rightarrow> filesystem \<Rightarrow> nat ptr option" where
  "fs_find filename [] s = Some NULL"
| "fs_find filename (i # is) s =
     (if i < length (files s) then
        if is_used (files s ! i) then do {
          c \<leftarrow> strcmp (name (files s ! i)) filename;
          if c = 0 then Some (Some i) else fs_find filename is s }
        else fs_find filename is s
      else None)"

definition fs_exists :: "u8 list \<Rightarrow> filesystem \<Rightarrow> bool option" where
  "fs_exists filename s = do { i \<leftarrow> fs_find filename [0..<MAX_FILES] s; Some (i \<noteq> NULL) }"

text \<open>The loop of \<open>fs_create\<close> over the slots.\<close>

primrec fs_create_loop :: "u8 list \<Rightarrow> u32 \<Rightarrow> nat list \<Rightarrow> filesystem \<Rightarrow> (int \<times> filesystem) option" where
  "fs_create_loop filename sz [] s = Some (- 1, s)"
| "fs_create_loop filename sz (i # is) s =
     (if i < length (files s) then
        if \<not> is_used (files s ! i) then do {
          nm \<leftarrow> strcpy (name (files s ! i)) filename;
          let s = upd_file i (\<lambda>f. f\<lparr>name := nm\<rparr>) s;
          (p, h) \<leftarrow> kmalloc sz (fs_heap s);
          let s = upd_file i (\<lambda>f. f\<lparr>data := p\<rparr>) (s\<lparr>fs_heap := h\<rparr>);
          if p = NULL then Some (- 1, s)
          else Some (int i, upd_file i (\<lambda>f. f\<lparr>file_size := sz, is_used := True\<rparr>) (s\<lparr>file_count := file_count s + 1\<rparr>)) }
        else fs_create_loop filename sz is s
      else None)"

definition fs_create :: "u8 list \<Rightarrow> u32 \<Rightarrow> filesystem \<Rightarrow> (int \<times> filesystem) option" where
  "fs_create filename sz s =
     (if sz > MAX_FILESIZE then Some (- 1, s)
      else do {
        ex \<leftarrow> fs_exists filename s;
        if ex then Some (- 1, s) else fs_create_loop filename sz [0..<MAX_FILES] s })"

text \<open>\<open>buf\<close> is the caller's data, \<open>sz\<close> bytes of which are copied.\<close>

definition fs_write :: "u8 list \<Rightarrow> u8 list \<Rightarrow> u32 \<Rightarrow> filesystem \<Rightarrow> (int \<times> filesystem) option" where
  "fs_write filename buf sz s = do {
     i \<leftarrow> fs_find filename [0..<MAX_FILES] s;
     case i of None \<Rightarrow> Some (- 1, s)
     | Some i \<Rightarrow>
       if sz > file_size (files s ! i) then Some (- 1, s)
       else if length buf < unat sz then None
       else do {
         p \<leftarrow> data (files s ! i);
         Some (0, s\<lparr>fs_bytes := write_bytes p (take (unat sz) buf) (fs_bytes s)\<rparr>) } }"

text \<open>The result holds the bytes that \<open>fs_read\<close> stores in the caller's buffer.\<close>

definition fs_read :: "u8 list \<Rightarrow> u32 \<Rightarrow> filesystem \<Rightarrow> (int \<times> u8 list) option" where
  "fs_read filename sz s = do {
     i \<leftarrow> fs_find filename [0..<MAX_FILES] s;
     case i of None \<Rightarrow> Some (- 1, [])
     | Some i \<Rightarrow> do {
         let read_size = (if sz < file_size (files s ! i) then sz else file_size (files s ! i));
         p \<leftarrow> data (files s ! i);
         Some (uint read_size, read_bytes (fs_bytes s) p (unat read_size)) } }"

definition fs_delete :: "u8 list \<Rightarrow> filesystem \<Rightarrow> (int \<times> filesystem) option" where
  "fs_delete filename s = do {
     i \<leftarrow> fs_find filename [0..<MAX_FILES] s;
     case i of None \<Rightarrow> Some (- 1, s)
     | Some i \<Rightarrow> do {
         h \<leftarrow> kfree (data (files s ! i)) (fs_heap s);
         let s = upd_file i (\<lambda>f. f\<lparr>is_used := False, data := NULL, file_size := 0\<rparr>) (s\<lparr>fs_heap := h\<rparr>);
         Some (0, s\<lparr>file_count := file_count s - 1\<rparr>) } }"

text \<open>What \<open>fs_list\<close> prints: the count and, unless it is zero, a line for every file.\<close>

definition fs_list :: "filesystem \<Rightarrow> int \<times> (u8 list \<times> u32) list" where
  "fs_list s = (file_count s, if file_count s = 0 then []
     else map (\<lambda>f. (str_val (name f), file_size f)) (filter is_used (files s)))"

section \<open>Invariant\<close>

text \<open>The files that exist, by slot; their blocks are allocated, long enough and different.\<close>

definition used :: "filesystem \<Rightarrow> nat list" where
  "used s = filter (\<lambda>i. is_used (files s ! i)) [0..<MAX_FILES]"

definition file_blocks :: "filesystem \<Rightarrow> u32 set" where
  "file_blocks s = {p. \<exists>i \<in> set (used s). data (files s ! i) = Some p}"

definition fname :: "filesystem \<Rightarrow> nat \<Rightarrow> u8 list" where
  "fname s i = str_val (name (files s ! i))"

definition fs_ok :: "(u32 \<rightharpoonup> nat) \<Rightarrow> filesystem \<Rightarrow> bool" where
  "fs_ok L s \<longleftrightarrow> length (files s) = MAX_FILES \<and> heap_rep L (fs_heap s) \<and>
     (\<forall>i < MAX_FILES. length (name (files s ! i)) = MAX_FILENAME) \<and>
     (\<forall>i \<in> set (used s). str_ok (name (files s ! i)) \<and>
        (\<exists>p m. data (files s ! i) = Some p \<and> L p = Some m \<and> unat (file_size (files s ! i)) \<le> m)) \<and>
     inj_on (\<lambda>i. data (files s ! i)) (set (used s)) \<and> inj_on (fname s) (set (used s)) \<and>
     file_count s = int (length (used s))"

text \<open>The abstract file system: the contents of the files by name.\<close>

definition contents :: "filesystem \<Rightarrow> nat \<Rightarrow> u8 list" where
  "contents s i = read_bytes (fs_bytes s) (the (data (files s ! i))) (unat (file_size (files s ! i)))"

definition fs_map :: "filesystem \<Rightarrow> u8 list \<rightharpoonup> u8 list" where
  "fs_map s n = map_option (contents s) (find (\<lambda>i. fname s i = n) (used s))"

lemma fs_find_ok:
  assumes "length (files s) = MAX_FILES" "set is \<subseteq> {..<MAX_FILES}" "str_ok filename"
    and "\<And>i. i \<in> set is \<Longrightarrow> is_used (files s ! i) \<Longrightarrow> str_ok (name (files s ! i))"
  shows "fs_find filename is s = Some (find (\<lambda>i. fname s i = str_val filename) (filter (\<lambda>i. is_used (files s ! i)) is))"
  using assms(2,4)
proof (induction "is")
  case (Cons i "is")
  show ?case
  proof (cases "is_used (files s ! i)")
    case True
    then have nm: "str_ok (name (files s ! i))" using Cons.prems by simp
    then obtain c where c: "strcmp (name (files s ! i)) filename = Some c" using strcmp_total assms(3) by blast
    have "c = 0 \<longleftrightarrow> fname s i = str_val filename" using strcmp_eq [OF nm assms(3) c] by (simp add: fname_def)
    then show ?thesis using Cons True c assms(1) by auto
  qed (use Cons assms(1) in auto)
qed simp

lemma find_used:
  assumes "fs_ok L s" "str_ok filename"
  shows "fs_find filename [0..<MAX_FILES] s = Some (find (\<lambda>i. fname s i = str_val filename) (used s))"
  unfolding used_def by (rule fs_find_ok) (use assms in \<open>auto simp: fs_ok_def used_def\<close>)

lemma fs_map_at:
  assumes "fs_ok L s" "i \<in> set (used s)"
  shows "fs_map s (fname s i) = Some (contents s i)"
proof -
  obtain j where j: "find (\<lambda>j. fname s j = fname s i) (used s) = Some j"
    using assms(2) by (cases "find (\<lambda>j. fname s j = fname s i) (used s)") (auto simp: find_None_iff)
  then have "j \<in> set (used s)" "fname s j = fname s i" by (auto simp: find_Some_iff)
  then have "j = i" using assms by (auto simp: fs_ok_def inj_on_def)
  then show ?thesis using j by (simp add: fs_map_def)
qed

lemma fs_map_none: "fs_map s n = None \<longleftrightarrow> n \<notin> fname s ` set (used s)"
  by (auto simp: fs_map_def find_None_iff)

lemma fs_map_iff:
  assumes "fs_ok L s"
  shows "fs_map s n = Some c \<longleftrightarrow> (\<exists>i \<in> set (used s). fname s i = n \<and> contents s i = c)"
proof
  assume "fs_map s n = Some c"
  then obtain i where "find (\<lambda>i. fname s i = n) (used s) = Some i" "contents s i = c" by (auto simp: fs_map_def)
  then show "\<exists>i \<in> set (used s). fname s i = n \<and> contents s i = c" by (auto simp: find_Some_iff)
next
  assume "\<exists>i \<in> set (used s). fname s i = n \<and> contents s i = c"
  then show "fs_map s n = Some c" using fs_map_at [OF assms] by auto
qed

lemma fs_map_eqI:
  assumes "fs_ok L s" "\<And>n c. (\<exists>i \<in> set (used s). fname s i = n \<and> contents s i = c) \<longleftrightarrow> M n = Some c"
  shows "fs_map s = M"
proof
  fix n show "fs_map s n = M n"
    using fs_map_iff [OF assms(1), of n] assms(2) [of n] by (cases "M n"; cases "fs_map s n") auto
qed

lemma fs_okI:
  assumes "length (files s) = MAX_FILES" "heap_rep L (fs_heap s)"
    and "\<And>i. i < MAX_FILES \<Longrightarrow> length (name (files s ! i)) = MAX_FILENAME"
    and "\<And>i. i \<in> set (used s) \<Longrightarrow> str_ok (name (files s ! i)) \<and>
        (\<exists>p m. data (files s ! i) = Some p \<and> L p = Some m \<and> unat (file_size (files s ! i)) \<le> m)"
    and "inj_on (\<lambda>i. data (files s ! i)) (set (used s))" "inj_on (fname s) (set (used s))"
    and "file_count s = int (length (used s))"
  shows "fs_ok L s"
  using assms unfolding fs_ok_def by blast

lemma fs_okD:
  assumes "fs_ok L s"
  shows "length (files s) = MAX_FILES" "heap_rep L (fs_heap s)" "i < MAX_FILES \<Longrightarrow> length (name (files s ! i)) = MAX_FILENAME"
    "file_count s = int (length (used s))"
  using assms by (simp_all add: fs_ok_def)

lemma fs_ok_blockD:
  "fs_ok L s \<Longrightarrow> i \<in> set (used s) \<Longrightarrow> \<exists>p m. data (files s ! i) = Some p \<and> L p = Some m \<and> unat (file_size (files s ! i)) \<le> m"
  by (simp add: fs_ok_def)

lemma fs_ok_block:
  assumes "fs_ok L s" "i \<in> set (used s)"
  obtains p m where "data (files s ! i) = Some p" "L p = Some m" "unat (file_size (files s ! i)) \<le> m"
  using fs_ok_blockD [OF assms] by blast

lemma fs_ok_name: "fs_ok L s \<Longrightarrow> i \<in> set (used s) \<Longrightarrow> str_ok (name (files s ! i))"
  by (simp add: fs_ok_def)

lemma used_lt: "i \<in> set (used s) \<Longrightarrow> i < MAX_FILES \<and> is_used (files s ! i)"
  by (simp add: used_def del: upt_conv_Cons)

section \<open>Lookup\<close>

lemma lookup_cases:
  assumes "fs_ok L s" "str_ok filename"
  obtains (found) i where "fs_find filename [0..<MAX_FILES] s = Some (Some i)" "i \<in> set (used s)" "fname s i = str_val filename"
      "fs_map s (str_val filename) = Some (contents s i)"
    | (missing) "fs_find filename [0..<MAX_FILES] s = Some NULL" "fs_map s (str_val filename) = None"
proof (cases "find (\<lambda>i. fname s i = str_val filename) (used s)")
  case None
  then show thesis using missing find_used [OF assms] by (simp add: fs_map_def)
next
  case (Some i)
  then have "i \<in> set (used s)" "fname s i = str_val filename" by (auto simp: find_Some_iff)
  then show thesis using found [of i] find_used [OF assms] Some by (simp add: fs_map_def)
qed

section \<open>Reading and writing\<close>

lemma contents_length: "length (contents s i) = unat (file_size (files s ! i))"
  by (simp add: contents_def)

lemma write_ok:
  assumes ok: "fs_ok L s" and i: "i \<in> set (used s)" "data (files s ! i) = Some p"
    and len: "length bs \<le> unat (file_size (files s ! i))"
  defines "s' \<equiv> s\<lparr>fs_bytes := write_bytes p bs (fs_bytes s)\<rparr>"
  shows "fs_ok L s'" "fs_map s' = (fs_map s)(fname s i \<mapsto> bs @ drop (length bs) (contents s i))"
proof -
  have same: "used s' = used s" "fname s' = fname s" "files s' = files s"
    by (simp_all add: s'_def used_def fname_def fun_eq_iff)
  show ok': "fs_ok L s'" using ok unfolding fs_ok_def same by (simp add: s'_def)
  obtain m where m: "L p = Some m" "unat (file_size (files s ! i)) \<le> m" using fs_ok_block [OF ok i(1)] i(2) by auto
  note rep = fs_okD(2) [OF ok]
  have own: "contents s' i = bs @ drop (length bs) (contents s i)"
    using kb.read_own [OF rep m(1) len m(2)] i(2) by (simp add: contents_def s'_def)
  have other: "contents s' j = contents s j" if j: "j \<in> set (used s)" "j \<noteq> i" for j
  proof -
    obtain q k where q: "data (files s ! j) = Some q" "L q = Some k" "unat (file_size (files s ! j)) \<le> k" using fs_ok_block [OF ok j(1)] .
    have "data (files s ! j) \<noteq> data (files s ! i)" using ok j i(1) by (auto simp: fs_ok_def inj_on_def)
    then have "p \<noteq> q" using q(1) i(2) by auto
    then show ?thesis using kb.read_foreign [OF rep m(1) q(2) _ _ q(3), of bs "fs_bytes s"] len m(2) q(1)
      by (simp add: contents_def s'_def)
  qed
  show "fs_map s' = (fs_map s)(fname s i \<mapsto> bs @ drop (length bs) (contents s i))"
  proof (rule fs_map_eqI [OF ok'])
    fix n c
    have inj: "fname s j = fname s i \<longleftrightarrow> j = i" if "j \<in> set (used s)" for j using ok i(1) that by (auto simp: fs_ok_def inj_on_def)
    show "(\<exists>j \<in> set (used s'). fname s' j = n \<and> contents s' j = c) \<longleftrightarrow>
        ((fs_map s)(fname s i \<mapsto> bs @ drop (length bs) (contents s i))) n = Some c"
    proof (cases "n = fname s i")
      case True then show ?thesis unfolding same using own inj i(1) by auto
    next
      case False
      then have "(\<exists>j \<in> set (used s). fname s j = n \<and> contents s' j = c) \<longleftrightarrow> fs_map s n = Some c"
        unfolding fs_map_iff [OF ok] using other by metis
      then show ?thesis unfolding same using False by simp
    qed
  qed
qed

end
