(* ===== verification/Fs_Props.thy ===== *)
theory Fs_Props
  imports Fs
begin

text \<open>
  The RAM file system against its abstraction, a map from names to contents.
\<close>

lemma file_blocks_dom: "fs_ok L s \<Longrightarrow> file_blocks s \<subseteq> dom L"
  using fs_ok_blockD by (fastforce simp: file_blocks_def)

section \<open>Deleting\<close>

lemma used_upd:
  assumes "length (files s) = MAX_FILES" "i < MAX_FILES" "files s' = (files s)[i := f]"
  shows "set (used s') = (if is_used f then insert i (set (used s)) else set (used s) - {i})"
    and "j \<noteq> i \<Longrightarrow> fname s' j = fname s j" "fname s' i = str_val (name f)"
  using assms by (auto simp: used_def fname_def nth_list_update simp del: upt_conv_Cons split: if_splits)

lemma length_used: "length (used s) = card (set (used s))"
  unfolding used_def by (simp add: distinct_card [symmetric] del: upt_conv_Cons)

lemma delete_ok:
  assumes ok: "fs_ok L s" and i: "i \<in> set (used s)" "data (files s ! i) = Some p" and h: "heap_rep (L(p := None)) h"
    and s': "files s' = (files s)[i := (files s ! i)\<lparr>is_used := False, data := NULL, file_size := 0\<rparr>]"
      "fs_heap s' = h" "fs_bytes s' = fs_bytes s" "file_count s' = file_count s - 1"
  shows "fs_ok (L(p := None)) s'" "fs_map s' = (fs_map s)(fname s i := None)" "file_blocks s' = file_blocks s - {p}"
proof -
  have il: "i < 32" using used_lt [OF i(1)] by simp
  note len = fs_okD(1) [OF ok]
  note U = used_upd [OF len il s'(1)]
  have F: "files s' ! j = files s ! j" if "j \<noteq> i" for j using that s'(1) by simp
  have U1: "set (used s') = set (used s) - {i}" using U(1) by simp
  have dj: "data (files s ! j) \<noteq> Some p" if "j \<in> set (used s)" "j \<noteq> i" for j
    using ok i that unfolding fs_ok_def inj_on_def by metis
  show "file_blocks s' = file_blocks s - {p}" unfolding file_blocks_def U1 using F dj i(2) by auto
  have blocks: "str_ok (name (files s' ! j)) \<and>
      (\<exists>q m. data (files s' ! j) = Some q \<and> (L(p := None)) q = Some m \<and> unat (file_size (files s' ! j)) \<le> m)" if "j \<in> set (used s')" for j
  proof -
    have j: "j \<in> set (used s)" "j \<noteq> i" using that U1 by auto
    obtain q m where q: "data (files s ! j) = Some q" "L q = Some m" "unat (file_size (files s ! j)) \<le> m" using fs_ok_block [OF ok j(1)] .
    then have "q \<noteq> p" using dj [OF j] by auto
    then show ?thesis using q F [OF j(2)] fs_ok_name [OF ok j(1)] by simp
  qed
  have "length (name (files s' ! j)) = 64" if "j < 32" for j
    using fs_okD(3) [OF ok that] F [of j] s'(1) len that by (cases "j = i") auto
  moreover have "inj_on (\<lambda>j. data (files s' ! j)) (set (used s'))"
  proof (rule inj_onI)
    fix a b assume "a \<in> set (used s')" "b \<in> set (used s')" and e: "data (files s' ! a) = data (files s' ! b)"
    then have "a \<in> set (used s)" "b \<in> set (used s)" "a \<noteq> i" "b \<noteq> i" using U1 by auto
    then show "a = b" using e F ok by (auto simp: fs_ok_def inj_on_def)
  qed
  moreover have "inj_on (fname s') (set (used s'))"
  proof (rule inj_onI)
    fix a b assume "a \<in> set (used s')" "b \<in> set (used s')" and e: "fname s' a = fname s' b"
    then have "a \<in> set (used s)" "b \<in> set (used s)" "a \<noteq> i" "b \<noteq> i" using U1 by auto
    then show "a = b" using e U(2) ok by (auto simp: fs_ok_def inj_on_def)
  qed
  moreover have "length (used s) = Suc (length (used s'))"
    unfolding length_used U1 using i(1) by (simp only: card_Suc_Diff1 List.finite_set)
  ultimately show ok': "fs_ok (L(p := None)) s'"
    by (intro fs_okI) (use blocks s' h len fs_okD(4) [OF ok] in simp_all)
  have C: "contents s' j = contents s j" if "j \<noteq> i" for j using F [OF that] s'(3) by (simp add: contents_def)
  show "fs_map s' = (fs_map s)(fname s i := None)"
  proof (rule fs_map_eqI [OF ok'])
    fix n c
    have inj: "fname s j = fname s i \<longleftrightarrow> j = i" if "j \<in> set (used s)" for j using ok i(1) that by (auto simp: fs_ok_def inj_on_def)
    have "(\<exists>j \<in> set (used s'). fname s' j = n \<and> contents s' j = c) \<longleftrightarrow>
        (\<exists>j \<in> set (used s). j \<noteq> i \<and> fname s j = n \<and> contents s j = c)" unfolding U1 using U(2) C by auto
    also have "\<dots> \<longleftrightarrow> n \<noteq> fname s i \<and> fs_map s n = Some c" unfolding fs_map_iff [OF ok] using inj by blast
    finally show "(\<exists>j \<in> set (used s'). fname s' j = n \<and> contents s' j = c) \<longleftrightarrow> ((fs_map s)(fname s i := None)) n = Some c" by auto
  qed
qed

section \<open>Creating\<close>

lemma create_loop_find:
  assumes "length (files s) = MAX_FILES" "set is \<subseteq> {..<MAX_FILES}"
  shows "fs_create_loop filename sz is s = (case find (\<lambda>i. \<not> is_used (files s ! i)) is of
      None \<Rightarrow> Some (- 1, s)
    | Some i \<Rightarrow> fs_create_loop filename sz [i] s)"
  using assms(2) by (induction "is") (use assms(1) in auto)

text \<open>A slot that stays unused may change freely.\<close>

lemma unused_ok:
  assumes ok: "fs_ok L s" and i: "i < MAX_FILES" "\<not> is_used (files s ! i)" "\<not> is_used f" "length (name f) = MAX_FILENAME"
    and s': "files s' = (files s)[i := f]" "heap_rep L (fs_heap s')" "fs_bytes s' = fs_bytes s" "file_count s' = file_count s"
  shows "fs_ok L s'" "fs_map s' = fs_map s" "file_blocks s' = file_blocks s"
proof -
  note len = fs_okD(1) [OF ok]
  have F: "files s' ! j = (if j = i then f else files s ! j)" if "j < 32" for j using s'(1) len i(1) that by simp
  have U: "used s' = used s" unfolding used_def by (rule filter_cong) (use F i in auto)
  have ne: "j \<noteq> i" if "j \<in> set (used s)" for j using used_lt [OF that] i(2) by auto
  have same: "files s' ! j = files s ! j" if "j \<in> set (used s)" for j using s'(1) ne [OF that] by simp
  then show "file_blocks s' = file_blocks s" by (simp add: file_blocks_def U)
  from same have N: "fname s' j = fname s j" "contents s' j = contents s j" if "j \<in> set (used s)" for j
    using that s'(3) by (simp_all add: fname_def contents_def)
  have "inj_on (\<lambda>j. data (files s' ! j)) (set (used s))" "inj_on (fname s') (set (used s))"
    using ok same N(1) unfolding fs_ok_def inj_on_def by simp_all
  moreover have "\<forall>j < 32. length (name (files s' ! j)) = 64" using fs_okD(3) [OF ok] F i(4) by simp
  ultimately show ok': "fs_ok L s'"
    by (intro fs_okI) (use s' len fs_okD(4) [OF ok] same fs_ok_name [OF ok] fs_ok_blockD [OF ok] U in simp_all)
  show "fs_map s' = fs_map s"
    by (rule fs_map_eqI [OF ok']) (use N in \<open>auto simp: U fs_map_iff [OF ok]\<close>)
qed

lemma new_file_ok:
  assumes ok: "fs_ok L s" and i: "i < MAX_FILES" "\<not> is_used (files s ! i)"
    and f: "is_used f" "length (name f) = MAX_FILENAME" "str_ok (name f)" "data f = Some p" "unat (file_size f) \<le> m"
      "fs_map s (str_val (name f)) = None"
    and s': "files s' = (files s)[i := f]" "heap_rep (L(p \<mapsto> m)) (fs_heap s')" "p \<notin> dom L" "fs_bytes s' = fs_bytes s"
      "file_count s' = file_count s + 1"
  shows "fs_ok (L(p \<mapsto> m)) s'"
    "fs_map s' = (fs_map s)(str_val (name f) \<mapsto> read_bytes (fs_bytes s) p (unat (file_size f)))"
    "file_blocks s' = insert p (file_blocks s)"
proof -
  note len = fs_okD(1) [OF ok]
  note U = used_upd [OF len i(1) s'(1)]
  have U1: "set (used s') = insert i (set (used s))" using U(1) f(1) by simp
  have ne: "j \<noteq> i" if "j \<in> set (used s)" for j using used_lt [OF that] i(2) by auto
  have F: "files s' ! j = (if j = i then f else files s ! j)" for j using s'(1) len i(1) by (simp add: nth_list_update)
  show "file_blocks s' = insert p (file_blocks s)" unfolding file_blocks_def U1 using F f(4) ne by auto
  have dj: "data (files s ! j) \<noteq> Some p" if "j \<in> set (used s)" for j
    using fs_ok_block [OF ok that] s'(3) by (metis domI option.inject)
  have nj: "fname s j \<noteq> str_val (name f)" if "j \<in> set (used s)" for j
    using f(6) that unfolding fs_map_none by (metis imageI)
  have blocks: "str_ok (name (files s' ! j)) \<and>
      (\<exists>q k. data (files s' ! j) = Some q \<and> (L(p \<mapsto> m)) q = Some k \<and> unat (file_size (files s' ! j)) \<le> k)" if "j \<in> set (used s')" for j
  proof (cases "j = i")
    case True then show ?thesis using F f by simp
  next
    case False
    then have j: "j \<in> set (used s)" using that U1 by auto
    obtain q k where q: "data (files s ! j) = Some q" "L q = Some k" "unat (file_size (files s ! j)) \<le> k" using fs_ok_block [OF ok j] .
    then have "q \<noteq> p" using dj [OF j] by auto
    then show ?thesis using q F [of j] False fs_ok_name [OF ok j] by simp
  qed
  have inj1: "inj_on (\<lambda>j. data (files s' ! j)) (set (used s'))" unfolding U1
  proof (rule inj_on_insert [THEN iffD2], intro conjI)
    show "inj_on (\<lambda>j. data (files s' ! j)) (set (used s))" using ok ne F unfolding fs_ok_def inj_on_def by simp
    show "data (files s' ! i) \<notin> (\<lambda>j. data (files s' ! j)) ` (set (used s) - {i})"
    proof
      assume "data (files s' ! i) \<in> (\<lambda>j. data (files s' ! j)) ` (set (used s) - {i})"
      then obtain j where j: "j \<in> set (used s)" "data (files s' ! i) = data (files s' ! j)" by blast
      then show False using dj [OF j(1)] ne [OF j(1)] F f(4) by simp
    qed
  qed
  have inj2: "inj_on (fname s') (set (used s'))" unfolding U1
  proof (rule inj_on_insert [THEN iffD2], intro conjI)
    show "inj_on (fname s') (set (used s))" using ok ne U(2) unfolding fs_ok_def inj_on_def by metis
    show "fname s' i \<notin> fname s' ` (set (used s) - {i})"
    proof
      assume "fname s' i \<in> fname s' ` (set (used s) - {i})"
      then obtain j where j: "j \<in> set (used s)" "fname s' i = fname s' j" by blast
      then show False using nj [OF j(1)] U(2) [OF ne [OF j(1)]] U(3) by simp
    qed
  qed
  have "length (used s') = Suc (length (used s))"
    unfolding length_used U1 using ne by (metis List.finite_set card_insert_disjoint)
  then show ok': "fs_ok (L(p \<mapsto> m)) s'"
    by (intro fs_okI) (use blocks inj1 inj2 s' len fs_okD(3,4) [OF ok] F f(2) in simp_all)
  have C: "contents s' j = contents s j" if "j \<in> set (used s)" for j using F [of j] ne [OF that] s'(4) by (simp add: contents_def)
  have Ci: "contents s' i = read_bytes (fs_bytes s) p (unat (file_size f))" using F [of i] f(4) s'(4) by (simp add: contents_def)
  show "fs_map s' = (fs_map s)(str_val (name f) \<mapsto> read_bytes (fs_bytes s) p (unat (file_size f)))"
  proof (rule fs_map_eqI [OF ok'])
    fix n c
    have "(\<exists>j \<in> set (used s'). fname s' j = n \<and> contents s' j = c) \<longleftrightarrow>
        str_val (name f) = n \<and> read_bytes (fs_bytes s) p (unat (file_size f)) = c \<or> (\<exists>j \<in> set (used s). fname s j = n \<and> contents s j = c)"
      unfolding U1 using U(2,3) ne C Ci by auto
    then show "(\<exists>j \<in> set (used s'). fname s' j = n \<and> contents s' j = c) \<longleftrightarrow>
        ((fs_map s)(str_val (name f) \<mapsto> read_bytes (fs_bytes s) p (unat (file_size f)))) n = Some c"
      unfolding fs_map_iff [OF ok, symmetric] using f(6) by auto
  qed
qed

lemma card_dom_map:
  assumes "fs_ok L s" shows "card (dom (fs_map s)) = length (used s)"
proof -
  have "dom (fs_map s) = fname s ` set (used s)" unfolding dom_def fs_map_none by blast
  moreover have "inj_on (fname s) (set (used s))" using assms by (simp add: fs_ok_def)
  ultimately show ?thesis by (simp add: card_image length_used)
qed

lemma length_filter_all: "length (filter P xs) = length xs \<longleftrightarrow> (\<forall>x \<in> set xs. P x)"
  by (metis filter_True length_filter_less less_irrefl)

lemma used_full: "length (used s) = MAX_FILES \<longleftrightarrow> (\<forall>i < MAX_FILES. is_used (files s ! i))"
proof -
  have "length [0..<MAX_FILES] = MAX_FILES" by simp
  then show ?thesis unfolding used_def using length_filter_all [of "\<lambda>i. is_used (files s ! i)" "[0..<MAX_FILES]"] by auto
qed

lemma used_bound: "length (used s) \<le> MAX_FILES"
  unfolding used_def by (rule order_trans [OF length_filter_le]) simp

text \<open>One slot: the outcome of the body of the loop of \<open>fs_create\<close> at the free slot \<open>i\<close>.\<close>

lemma create_slot:
  assumes ok: "fs_ok L s" and i: "i < MAX_FILES" "\<not> is_used (files s ! i)" and sz: "sz \<le> MAX_FILESIZE"
    and fn: "str_ok filename" "length (str_val filename) < MAX_FILENAME" "fs_map s (str_val filename) = None"
  shows "\<exists>p h s' L'. kmalloc sz (fs_heap s) = Some (p, h) \<and> fs_ok L' s' \<and>
    fs_create_loop filename sz [i] s = Some (if p = NULL then - 1 else int i, s') \<and>
    (case p of None \<Rightarrow> L' = L \<and> fs_map s' = fs_map s \<and> file_blocks s' = file_blocks s
     | Some q \<Rightarrow> (\<exists>m. L' = L(q \<mapsto> m)) \<and> q \<notin> dom L \<and> file_blocks s' = insert q (file_blocks s) \<and>
         fs_map s' = (fs_map s)(str_val filename \<mapsto> read_bytes (fs_bytes s) q (unat sz))) \<and> fs_bytes s' = fs_bytes s"
proof -
  note len = fs_okD(1) [OF ok]
  note nl = fs_okD(3) [OF ok i(1)]
  obtain nm where nm: "strcpy (name (files s ! i)) filename = Some nm" "str_ok nm" "str_val nm = str_val filename" "length nm = 64"
    using strcpy_ok [OF fn(1), of "name (files s ! i)"] fn(2) nl str_val_append [OF str_val_no_nul] by auto
  obtain p h where p: "kmalloc sz (fs_heap s) = Some (p, h)" using kh.alloc_total [OF fs_okD(2) [OF ok]] by blast
  show ?thesis
  proof (cases p)
    case None
    let ?s = "s\<lparr>files := (files s)[i := (files s ! i)\<lparr>name := nm, data := None\<rparr>], fs_heap := h\<rparr>"
    have "heap_rep L h" using kh.alloc_null [OF fs_okD(2) [OF ok]] p None by simp
    then have "fs_ok L ?s \<and> fs_map ?s = fs_map s \<and> file_blocks ?s = file_blocks s"
      using unused_ok [OF ok i, of "(files s ! i)\<lparr>name := nm, data := None\<rparr>" ?s] nm(4) i(2) by simp
    moreover have "fs_create_loop filename sz [i] s = Some (- 1, ?s)"
      using nm(1) p None i len by (simp add: upd_file_def)
    ultimately show ?thesis using p None by auto
  next
    case (Some q)
    let ?f = "(files s ! i)\<lparr>name := nm, data := Some q, file_size := sz, is_used := True\<rparr>"
    let ?s = "s\<lparr>files := (files s)[i := ?f], file_count := file_count s + 1, fs_heap := h\<rparr>"
    obtain m where m: "q \<notin> dom L" "heap_rep (L(q \<mapsto> m)) h" "unat sz \<le> 2 ^ 32 - 8 \<longrightarrow> unat sz \<le> m"
      using kh.alloc_some [OF fs_okD(2) [OF ok]] p Some by blast
    have "unat sz \<le> 1024" using sz by (simp add: word_le_nat_alt)
    then have "fs_ok (L(q \<mapsto> m)) ?s" "fs_map ?s = (fs_map s)(str_val filename \<mapsto> read_bytes (fs_bytes s) q (unat sz))"
      "file_blocks ?s = insert q (file_blocks s)"
      using new_file_ok [OF ok i, of ?f q m ?s] nm fn(3) m by simp_all
    moreover have "fs_create_loop filename sz [i] s = Some (int i, ?s)"
      using nm(1) p Some i len by (simp add: upd_file_def)
    ultimately show ?thesis
      using p Some by (intro exI [of _ p] exI [of _ h] exI [of _ ?s] exI [of _ "L(q \<mapsto> m)"]) (auto simp: m(1) simp del: fs_create_loop.simps)
  qed
qed

lemma create_ok_cases:
  assumes ok: "fs_ok L s" and fn: "str_ok filename" "length (str_val filename) < MAX_FILENAME"
  obtains (failed) s' where "fs_create filename sz s = Some (- 1, s')" "fs_ok L s'" "fs_map s' = fs_map s" "file_blocks s' = file_blocks s" "fs_bytes s' = fs_bytes s"
      "sz > MAX_FILESIZE \<or> str_val filename \<in> dom (fs_map s) \<or> card (dom (fs_map s)) = MAX_FILES \<or> (\<exists>h. kmalloc sz (fs_heap s) = Some (NULL, h))"
    | (created) i s' q m where "fs_create filename sz s = Some (int i, s')" "fs_ok (L(q \<mapsto> m)) s'" "i < MAX_FILES"
      "sz \<le> MAX_FILESIZE" "str_val filename \<notin> dom (fs_map s)" "card (dom (fs_map s)) < MAX_FILES"
      "fs_map s' = (fs_map s)(str_val filename \<mapsto> read_bytes (fs_bytes s) q (unat sz))" "q \<notin> dom L"
      "file_blocks s' = insert q (file_blocks s)" "fs_bytes s' = fs_bytes s"
proof (cases "sz > MAX_FILESIZE \<or> str_val filename \<in> dom (fs_map s)")
  case True
  then have "fs_create filename sz s = Some (- 1, s)"
    by (rule disjE; cases rule: lookup_cases [OF ok fn(1)]) (auto simp: fs_create_def fs_exists_def domIff)
  then show thesis using True failed [of s] ok by blast
next
  case False
  then have "fs_map s (str_val filename) = None" by (simp add: domIff)
  then have "fs_find filename [0..<MAX_FILES] s = Some NULL" using lookup_cases [OF ok fn(1)] by auto
  then have create: "fs_create filename sz s = fs_create_loop filename sz [0..<MAX_FILES] s"
    using False by (simp add: fs_create_def fs_exists_def)
  have "set [0..<MAX_FILES] \<subseteq> {..<MAX_FILES}" by auto
  note find = create_loop_find [OF fs_okD(1) [OF ok] this, of filename sz]
  show thesis
  proof (cases "find (\<lambda>i. \<not> is_used (files s ! i)) [0..<MAX_FILES]")
    case None
    then have "\<forall>i < MAX_FILES. is_used (files s ! i)" by (simp add: find_None_iff)
    then have "card (dom (fs_map s)) = MAX_FILES" using card_dom_map [OF ok] used_full by simp
    moreover have "fs_create filename sz s = Some (- 1, s)" using create find None by auto
    ultimately show thesis using failed [of s] ok by simp
  next
    case (Some i)
    then have i: "i < MAX_FILES" "\<not> is_used (files s ! i)" by (auto simp: find_Some_iff)
    have "length (used s) \<noteq> MAX_FILES" using used_full i by blast
    then have room: "card (dom (fs_map s)) < MAX_FILES" using used_bound [of s] card_dom_map [OF ok] by simp
    have loop: "fs_create filename sz s = fs_create_loop filename sz [i] s" using create find Some by auto
    have "sz \<le> MAX_FILESIZE" "fs_map s (str_val filename) = None" using False by auto
    then obtain p h s' L' where o: "kmalloc sz (fs_heap s) = Some (p, h)" "fs_ok L' s'"
      "fs_create filename sz s = Some (if p = NULL then - 1 else int i, s')"
      "case p of None \<Rightarrow> L' = L \<and> fs_map s' = fs_map s \<and> file_blocks s' = file_blocks s
       | Some q \<Rightarrow> (\<exists>m. L' = L(q \<mapsto> m)) \<and> q \<notin> dom L \<and> file_blocks s' = insert q (file_blocks s) \<and>
           fs_map s' = (fs_map s)(str_val filename \<mapsto> read_bytes (fs_bytes s) q (unat sz))" "fs_bytes s' = fs_bytes s"
      using create_slot [OF ok i _ fn, of sz] unfolding loop by blast
    show thesis
    proof (cases p)
      case None then show thesis using failed [of s'] o by auto
    next
      case (Some q)
      then obtain m where "L' = L(q \<mapsto> m)" using o(4) by auto
      then show thesis using Some created [of i s' q m] o i(1) room False by (simp add: not_less)
    qed
  qed
qed

section \<open>Reading\<close>

lemma fs_read_ok:
  assumes ok: "fs_ok L s" and fn: "str_ok filename"
  shows "fs_read filename sz s = Some (case fs_map s (str_val filename) of None \<Rightarrow> (- 1, [])
    | Some c \<Rightarrow> (int (min (unat sz) (length c)), take (unat sz) c))"
proof (cases rule: lookup_cases [OF ok fn, case_names found missing])
  case (found i)
  obtain p m where p: "data (files s ! i) = Some p" using fs_ok_block [OF ok found(2)] .
  let ?r = "if sz < file_size (files s ! i) then sz else file_size (files s ! i)"
  have r: "unat ?r = min (unat sz) (length (contents s i))" by (simp add: contents_length word_less_nat_alt min_def)
  have "take (unat sz) (contents s i) = read_bytes (fs_bytes s) p (unat ?r)"
    unfolding r by (simp add: contents_def p take_read_bytes [symmetric] min_def)
  moreover have "fs_read filename sz s = Some (uint ?r, read_bytes (fs_bytes s) p (unat ?r))"
    unfolding fs_read_def found(1) Let_def by (simp only: Option.bind.bind_lunit option.case p)
  moreover have "uint ?r = int (min (unat sz) (length (contents s i)))" unfolding r [symmetric] by simp
  ultimately show ?thesis by (simp only: found(4) option.case)
qed (simp add: fs_read_def)

lemma fs_write_ok:
  assumes ok: "fs_ok L s" and fn: "str_ok filename" and buf: "unat sz \<le> length buf"
  obtains s' where "fs_ok L s'" "fs_write filename buf sz s = Some (case fs_map s (str_val filename) of None \<Rightarrow> - 1
      | Some c \<Rightarrow> if length c < unat sz then - 1 else 0, s')"
    "fs_map s' = (case fs_map s (str_val filename) of None \<Rightarrow> fs_map s
      | Some c \<Rightarrow> if length c < unat sz then fs_map s
          else (fs_map s)(str_val filename \<mapsto> take (unat sz) buf @ drop (unat sz) c))"
proof (cases rule: lookup_cases [OF ok fn, case_names found missing])
  case (found i)
  obtain p m where p: "data (files s ! i) = Some p" using fs_ok_block [OF ok found(2)] .
  show thesis
  proof (cases "length (contents s i) < unat sz")
    case True
    then show thesis using that [of s] ok found by (simp add: fs_write_def contents_length word_less_nat_alt)
  next
    case False
    let ?s = "s\<lparr>fs_bytes := write_bytes p (take (unat sz) buf) (fs_bytes s)\<rparr>"
    have "length (take (unat sz) buf) \<le> unat (file_size (files s ! i))" using False buf by (simp add: contents_length)
    note w = write_ok [OF ok found(2) p this]
    have "fs_write filename buf sz s = Some (0, ?s)" using found p False buf by (simp add: fs_write_def contents_length word_less_nat_alt)
    then show thesis using that [of ?s] w False found buf by (simp add: min_def)
  qed
next
  case missing
  then show thesis using that [of s] ok by (simp add: fs_write_def)
qed

lemma fs_delete_found:
  assumes ok: "fs_ok L s" and i: "fs_find filename [0..<MAX_FILES] s = Some (Some i)" "i \<in> set (used s)"
  shows "\<exists>p s'. data (files s ! i) = Some p \<and> p \<in> file_blocks s \<and> fs_delete filename s = Some (0, s') \<and> fs_ok (L(p := None)) s' \<and>
    fs_map s' = (fs_map s)(fname s i := None) \<and> file_blocks s' = file_blocks s - {p} \<and> fs_bytes s' = fs_bytes s"
proof -
  obtain p m where p: "data (files s ! i) = Some p" "L p = Some m" using fs_ok_block [OF ok i(2)] .
  obtain h where h: "kfree (Some p) (fs_heap s) = Some h" "heap_rep (L(p := None)) h"
    using kh.dealloc_some [OF fs_okD(2) [OF ok]] p(2) by blast
  let ?s = "s\<lparr>files := (files s)[i := (files s ! i)\<lparr>is_used := False, data := NULL, file_size := 0\<rparr>],
    file_count := file_count s - 1, fs_heap := h\<rparr>"
  have "fs_ok (L(p := None)) ?s" "fs_map ?s = (fs_map s)(fname s i := None)" "file_blocks ?s = file_blocks s - {p}"
    by (rule delete_ok [OF ok i(2) p(1) h(2)]; simp)+
  moreover have "fs_delete filename s = Some (0, ?s)" using i(1) p(1) h(1) by (simp add: fs_delete_def upd_file_def)
  moreover have "p \<in> file_blocks s" using i(2) p(1) by (auto simp: file_blocks_def)
  ultimately show ?thesis using p(1) by (intro exI [of _ p] exI [of _ ?s]) simp
qed

lemma fs_delete_ok:
  assumes ok: "fs_ok L s" and fn: "str_ok filename"
  obtains s' L' where "fs_ok L' s'" "fs_map s' = (fs_map s)(str_val filename := None)"
    "fs_delete filename s = Some (if fs_map s (str_val filename) = None then - 1 else 0, s')"
    "if fs_map s (str_val filename) = None then L' = L \<and> file_blocks s' = file_blocks s
     else \<exists>p \<in> file_blocks s. L' = L(p := None) \<and> file_blocks s' = file_blocks s - {p}" "fs_bytes s' = fs_bytes s"
proof (cases rule: lookup_cases [OF ok fn, case_names found missing])
  case (found i)
  then show thesis using fs_delete_found [OF ok found(1,2)] that by auto
next
  case missing
  then have "(fs_map s)(str_val filename := None) = fs_map s" by auto
  then show thesis using that [of L s] ok missing by (simp add: fs_delete_def)
qed

section \<open>Initialisation\<close>

lemma fs_init_ok:
  assumes "length (files s) = MAX_FILES" "\<And>i. i < MAX_FILES \<Longrightarrow> length (name (files s ! i)) = MAX_FILENAME" "heap_rep L (fs_heap s)"
  shows "fs_ok L (fs_init s)" "fs_map (fs_init s) = Map.empty"
proof -
  have "\<not> is_used (files (fs_init s) ! i)" if "i < 32" for i using assms(1) that by (simp add: fs_init_def)
  then have "filter (\<lambda>i. is_used (files (fs_init s) ! i)) [0..<32] = []" unfolding filter_empty_conv by simp
  then have U: "used (fs_init s) = []" unfolding used_def .
  show "fs_ok L (fs_init s)" by (rule fs_okI) (use assms U in \<open>simp_all add: fs_init_def\<close>)
  show "fs_map (fs_init s) = Map.empty" by (simp add: fs_map_def fun_eq_iff U)
qed

text \<open>A booted system, and one in which a file of eight bytes has been created.\<close>

definition boot_fs :: "kheap \<Rightarrow> filesystem" where
  "boot_fs h = fs_init \<lparr>files = replicate MAX_FILES \<lparr>name = replicate MAX_FILENAME 0, data = NULL, file_size = 0, is_used = False\<rparr>,
     file_count = 0, fs_heap = h, fs_bytes = (\<lambda>_. 0)\<rparr>"

lemma boot_fs_ok:
  "\<exists>h h'. memory_init \<lparr>headers = Map.empty, free_list = NULL\<rparr> = Some h \<and> fs_ok Map.empty (boot_fs h) \<and> fs_map (boot_fs h) = Map.empty \<and>
     fs_heap (boot_fs h) = h \<and> kmalloc 8 h = Some (Some 12, h')"
proof -
  obtain h where h: "memory_init \<lparr>headers = Map.empty, free_list = NULL\<rparr> = Some h" "heap_ok [(True, 4194292)] h"
    "heap_rep Map.empty h" using init_heap by blast
  have "unat (round8 8) = 8" by code_simp
  then obtain h' where "kmalloc 8 h = Some (Some 12, h')" using kmalloc_some [OF h(2), of 8] by auto
  moreover have "fs_heap (boot_fs h) = h" by (simp add: boot_fs_def fs_init_def)
  moreover have "fs_ok Map.empty (boot_fs h)" "fs_map (boot_fs h) = Map.empty"
    unfolding boot_fs_def by (rule fs_init_ok; use h(3) in simp)+
  ultimately show ?thesis using h(1) by blast
qed

lemma demo_fs:
  "\<exists>h i s L c. memory_init \<lparr>headers = Map.empty, free_list = NULL\<rparr> = Some h \<and> fs_create [97, 0] 8 (boot_fs h) = Some (int i, s) \<and>
     fs_ok L s \<and> fs_map s = [[97] \<mapsto> c] \<and> length c = 8"
proof -
  obtain h h' where h: "memory_init \<lparr>headers = Map.empty, free_list = NULL\<rparr> = Some h" "fs_ok Map.empty (boot_fs h)"
    "fs_map (boot_fs h) = Map.empty" "fs_heap (boot_fs h) = h" "kmalloc 8 h = Some (Some 12, h')" using boot_fs_ok by blast
  show ?thesis
  proof (cases rule: create_ok_cases [OF h(2), of "[97, 0]" 8, case_names str len failed created])
    case (failed s)
    then show ?thesis using h by simp
  next
    case (created i s q m)
    then show ?thesis using h length_read_bytes [of "fs_bytes (boot_fs h)" q 8] by auto
  qed simp_all
qed

section \<open>Reachable states\<close>

inductive fs_reach :: "filesystem \<Rightarrow> bool" where
  boot: "memory_init h0 = Some h \<Longrightarrow> fs_reach (boot_fs h)"
| make: "fs_reach s \<Longrightarrow> str_ok fn \<Longrightarrow> length (str_val fn) < MAX_FILENAME \<Longrightarrow> fs_create fn sz s = Some (r, s') \<Longrightarrow> fs_reach s'"
| store: "fs_reach s \<Longrightarrow> str_ok fn \<Longrightarrow> unat sz \<le> length buf \<Longrightarrow> fs_write fn buf sz s = Some (r, s') \<Longrightarrow> fs_reach s'"
| remove: "fs_reach s \<Longrightarrow> str_ok fn \<Longrightarrow> fs_delete fn s = Some (r, s') \<Longrightarrow> fs_reach s'"

definition fs_wf :: "filesystem \<Rightarrow> bool" where
  "fs_wf s \<longleftrightarrow> (\<exists>L. fs_ok L s) \<and> (\<forall>c \<in> ran (fs_map s). length c \<le> 1024)"

lemma fs_wf_upd: "\<forall>c \<in> ran M. length c \<le> 1024 \<Longrightarrow> length d \<le> 1024 \<Longrightarrow> \<forall>c \<in> ran (M(n \<mapsto> d)). length c \<le> 1024"
  by (auto simp: ran_def)

lemma fs_wf_create:
  assumes "fs_wf s" "str_ok fn" "length (str_val fn) < MAX_FILENAME"
  shows "\<exists>r s'. fs_create fn sz s = Some (r, s') \<and> fs_wf s'"
proof -
  obtain L where L: "fs_ok L s" "\<forall>c \<in> ran (fs_map s). length c \<le> 1024" using assms(1) by (auto simp: fs_wf_def)
  show ?thesis
  proof (cases rule: create_ok_cases [OF L(1) assms(2,3), of sz, case_names failed created])
    case (failed s') then show ?thesis using L(2) by (auto simp: fs_wf_def)
  next
    case (created i s' q m)
    then have "length (read_bytes (fs_bytes s) q (unat sz)) \<le> 1024" by (simp add: word_le_nat_alt)
    then show ?thesis using created(1,2,7) fs_wf_upd [OF L(2), of "read_bytes (fs_bytes s) q (unat sz)" "str_val fn"] by (auto simp: fs_wf_def)
  qed
qed

lemma fs_create_long:
  assumes ok: "fs_ok L s" and fn: "str_ok filename" "MAX_FILENAME \<le> length (str_val filename)"
  shows "fs_create filename sz s = (if sz > MAX_FILESIZE \<or> card (dom (fs_map s)) = MAX_FILES then Some (- 1, s) else None)"
proof -
  have "length (fname s i) < MAX_FILENAME" if "i \<in> set (used s)" for i
    using fs_ok_name [OF ok that] fs_okD(3) [OF ok, of i] that str_val_length [of "name (files s ! i)"] by (simp add: fname_def used_def)
  then have "fs_find filename [0..<MAX_FILES] s = Some NULL"
    using lookup_cases [OF ok fn(1)] fn(2) by (metis not_less)
  then have create: "\<not> sz > MAX_FILESIZE \<Longrightarrow> fs_create filename sz s = fs_create_loop filename sz [0..<MAX_FILES] s"
    by (simp add: fs_create_def fs_exists_def)
  have "set [0..<MAX_FILES] \<subseteq> {..<MAX_FILES}" by auto
  note find = create_loop_find [OF fs_okD(1) [OF ok] this, of filename sz]
  show ?thesis
  proof (cases "find (\<lambda>i. \<not> is_used (files s ! i)) [0..<MAX_FILES]")
    case None
    then have "\<forall>i < MAX_FILES. is_used (files s ! i)" by (simp add: find_None_iff)
    then have "card (dom (fs_map s)) = MAX_FILES" using card_dom_map [OF ok] used_full by simp
    then show ?thesis using create find None by (auto simp: fs_create_def)
  next
    case (Some i)
    then have i: "i < MAX_FILES" "\<not> is_used (files s ! i)" by (auto simp: find_Some_iff)
    then have "length (used s) \<noteq> MAX_FILES" using used_full by blast
    then have "card (dom (fs_map s)) \<noteq> MAX_FILES" using card_dom_map [OF ok] by simp
    moreover have "fs_create_loop filename sz [i] s = None"
      using i fs_okD(1,3) [OF ok] fn by (simp add: strcpy_ok)
    ultimately show ?thesis using create find Some by (auto simp: fs_create_def)
  qed
qed

lemma fs_wf_write:
  assumes "fs_wf s" "str_ok fn" "unat sz \<le> length buf"
  shows "\<exists>r s'. fs_write fn buf sz s = Some (r, s') \<and> fs_wf s'"
proof -
  obtain L where L: "fs_ok L s" "\<forall>c \<in> ran (fs_map s). length c \<le> 1024" using assms(1) by (auto simp: fs_wf_def)
  have old: "length c \<le> 1024" if "fs_map s (str_val fn) = Some c" for c using L(2) that by (auto simp: ran_def)
  obtain s' where s': "fs_ok L s'" "fs_write fn buf sz s = Some (case fs_map s (str_val fn) of None \<Rightarrow> - 1
      | Some c \<Rightarrow> if length c < unat sz then - 1 else 0, s')"
    "fs_map s' = (case fs_map s (str_val fn) of None \<Rightarrow> fs_map s
      | Some c \<Rightarrow> if length c < unat sz then fs_map s else (fs_map s)(str_val fn \<mapsto> take (unat sz) buf @ drop (unat sz) c))"
    using fs_write_ok [OF L(1) assms(2,3)] .
  have "\<forall>c \<in> ran (fs_map s'). length c \<le> 1024"
  proof (cases "fs_map s (str_val fn)")
    case (Some c)
    then show ?thesis using s'(3) L(2) old [OF Some] assms(3) fs_wf_upd [OF L(2), of "take (unat sz) buf @ drop (unat sz) c" "str_val fn"] by auto
  qed (use s'(3) L(2) in simp)
  then show ?thesis using s'(1,2) by (auto simp: fs_wf_def)
qed

lemma fs_wf_delete:
  assumes "fs_wf s" "str_ok fn" shows "\<exists>r s'. fs_delete fn s = Some (r, s') \<and> fs_wf s'"
proof -
  obtain L where L: "fs_ok L s" "\<forall>c \<in> ran (fs_map s). length c \<le> 1024" using assms(1) by (auto simp: fs_wf_def)
  obtain s' L' where s': "fs_ok L' s'" "fs_map s' = (fs_map s)(str_val fn := None)"
    "fs_delete fn s = Some (if fs_map s (str_val fn) = None then - 1 else 0, s')" using fs_delete_ok [OF L(1) assms(2)] .
  have "\<forall>c \<in> ran (fs_map s'). length c \<le> 1024" using L(2) s'(2) by (auto simp: ran_def split: if_splits)
  then show ?thesis using s'(1,3) by (auto simp: fs_wf_def)
qed

section \<open>Properties\<close>

text \<open>C32: \<open>fs_create\<close> creates a file of the requested size in the abstract map and returns its slot; it
  returns \<open>-1\<close> only for a size over 1024, a name that exists, a full table or a failed \<open>kmalloc\<close>, and then the map is
  unchanged (even though the name of a free slot may have been overwritten).  In both cases the invariant holds again.\<close>

theorem fs_create_refines:
  assumes "fs_ok L s" "str_ok filename" "length (str_val filename) < MAX_FILENAME"
  shows "\<exists>r s' L'. fs_create filename sz s = Some (r, s') \<and> fs_ok L' s' \<and>
    (if r = - 1 then L' = L \<and> fs_map s' = fs_map s \<and>
       (sz > MAX_FILESIZE \<or> str_val filename \<in> dom (fs_map s) \<or> card (dom (fs_map s)) = MAX_FILES \<or>
        (\<exists>h. kmalloc sz (fs_heap s) = Some (NULL, h)))
     else 0 \<le> r \<and> r < 32 \<and> sz \<le> MAX_FILESIZE \<and> str_val filename \<notin> dom (fs_map s) \<and> card (dom (fs_map s)) < MAX_FILES \<and>
       (\<exists>c. length c = unat sz \<and> fs_map s' = (fs_map s)(str_val filename \<mapsto> c)))"
proof (cases rule: create_ok_cases [OF assms, of sz, case_names failed created])
  case (failed s')
  then show ?thesis by (intro exI [of _ "- 1"] exI [of _ s'] exI [of _ L]) simp
next
  case (created i s' q m)
  have "\<exists>c. length c = unat sz \<and> fs_map s' = (fs_map s)(str_val filename \<mapsto> c)"
    unfolding created(7) by (rule exI [of _ "read_bytes (fs_bytes s) q (unat sz)"]) simp
  then show ?thesis using created by (intro exI [of _ "int i"] exI [of _ s'] exI [of _ "L(q \<mapsto> m)"]) simp
qed

theorem fs_create_refines_witness:
  "\<exists>h r s c. memory_init \<lparr>headers = Map.empty, free_list = NULL\<rparr> = Some h \<and> fs_create [97, 0] 8 (boot_fs h) = Some (r, s) \<and>
     0 \<le> r \<and> fs_map s = [[97] \<mapsto> c] \<and> length c = 8"
proof -
  obtain h h' where h: "memory_init \<lparr>headers = Map.empty, free_list = NULL\<rparr> = Some h" "fs_ok Map.empty (boot_fs h)"
    "fs_map (boot_fs h) = Map.empty" "fs_heap (boot_fs h) = h" "kmalloc 8 h = Some (Some 12, h')" using boot_fs_ok by blast
  then show ?thesis using fs_create_refines [OF h(2), of "[97, 0]" 8] by (auto split: if_splits)
qed

text \<open>C33: what \<open>fs_write\<close> accepts is what a later \<open>fs_read\<close> of the same length returns, it is refused exactly if the
  file does not exist or is shorter than the data, and reading any other file returns what it returned before.\<close>

theorem fs_write_read:
  assumes "fs_ok L s" "str_ok filename" "str_ok other" "unat sz \<le> length buf"
  shows "\<exists>r s'. fs_write filename buf sz s = Some (r, s') \<and> fs_ok L s' \<and> r \<in> {0, - 1} \<and>
    (r = 0 \<longleftrightarrow> (\<exists>c. fs_map s (str_val filename) = Some c \<and> unat sz \<le> length c)) \<and>
    (r = 0 \<longrightarrow> fs_read filename sz s' = Some (uint sz, take (unat sz) buf)) \<and>
    (r = - 1 \<or> str_val other \<noteq> str_val filename \<longrightarrow> fs_read other k s' = fs_read other k s)"
proof -
  obtain s' where s': "fs_ok L s'" "fs_write filename buf sz s = Some (case fs_map s (str_val filename) of None \<Rightarrow> - 1
      | Some c \<Rightarrow> if length c < unat sz then - 1 else 0, s')"
    "fs_map s' = (case fs_map s (str_val filename) of None \<Rightarrow> fs_map s
      | Some c \<Rightarrow> if length c < unat sz then fs_map s
          else (fs_map s)(str_val filename \<mapsto> take (unat sz) buf @ drop (unat sz) c))"
    using fs_write_ok [OF assms(1,2,4)] .
  show ?thesis
    using s' fs_read_ok [OF s'(1) assms(2), of sz] fs_read_ok [OF s'(1) assms(3), of k] fs_read_ok [OF assms(1,3), of k] assms(4)
    by (cases "fs_map s (str_val filename)") auto
qed

theorem fs_write_read_witness:
  "\<exists>h i s r s'. memory_init \<lparr>headers = Map.empty, free_list = NULL\<rparr> = Some h \<and> fs_create [97, 0] 8 (boot_fs h) = Some (int i, s) \<and>
     fs_write [97, 0] [1, 2, 3] 3 s = Some (r, s') \<and> r = 0 \<and> fs_read [97, 0] 3 s' = Some (3, [1, 2, 3])"
proof -
  obtain h i s L c where h: "memory_init \<lparr>headers = Map.empty, free_list = NULL\<rparr> = Some h" "fs_create [97, 0] 8 (boot_fs h) = Some (int i, s)"
    "fs_ok L s" "fs_map s = [[97] \<mapsto> c]" "length c = 8" using demo_fs by blast
  show ?thesis using fs_write_read [OF h(3), of "[97, 0]" "[97, 0]" 3 "[1, 2, 3]"] h by auto
qed

text \<open>C34: \<open>fs_delete\<close> of an existing name removes exactly that file, gives the data block of that file's slot (and no
  other block) back to the heap and returns 0; for a name that does not exist it returns \<open>-1\<close> and changes nothing.  The invariant
  holds again.\<close>

theorem fs_delete_refines:
  assumes "fs_ok L s" "str_ok filename"
  shows "if str_val filename \<in> dom (fs_map s)
    then \<exists>i p s'. i \<in> set (used s) \<and> fname s i = str_val filename \<and> data (files s ! i) = Some p \<and> p \<in> dom L \<and>
      fs_delete filename s = Some (0, s') \<and> fs_ok (L(p := None)) s' \<and> fs_map s' = (fs_map s)(str_val filename := None)
    else fs_delete filename s = Some (- 1, s)"
proof (cases rule: lookup_cases [OF assms, case_names found missing])
  case (found i)
  obtain p s' where p: "data (files s ! i) = Some p" "p \<in> file_blocks s" "fs_delete filename s = Some (0, s')"
    "fs_ok (L(p := None)) s'" "fs_map s' = (fs_map s)(fname s i := None)" using fs_delete_found [OF assms(1) found(1,2)] by blast
  then have "p \<in> dom L" using file_blocks_dom [OF assms(1)] by blast
  then show ?thesis using p found by (simp add: domI) blast
next
  case missing
  then show ?thesis by (simp add: fs_delete_def domIff)
qed

theorem fs_delete_refines_witness:
  "\<exists>h i s s'. memory_init \<lparr>headers = Map.empty, free_list = NULL\<rparr> = Some h \<and> fs_create [97, 0] 8 (boot_fs h) = Some (int i, s) \<and>
     fs_delete [97, 0] s = Some (0, s') \<and> fs_map s' = Map.empty"
proof -
  obtain h i s L c where h: "memory_init \<lparr>headers = Map.empty, free_list = NULL\<rparr> = Some h" "fs_create [97, 0] 8 (boot_fs h) = Some (int i, s)"
    "fs_ok L s" "fs_map s = [[97] \<mapsto> c]" "length c = 8" using demo_fs by blast
  then show ?thesis using fs_delete_refines [OF h(3), of "[97, 0]"] by auto
qed

text \<open>C20: every state that the operations reach from the booted file system is well-formed (32 slots with terminated names
  of 64 bytes, the used ones with different names and with separate allocated blocks that hold their sizes, the count exact, no
  file over 1024 bytes).  In such a state writing, reading, deleting and testing for a file return, given a terminated name and a
  buffer of at least the given size; \<open>fs_create\<close> is undefined exactly when it would store a name of 64 or more characters, that is,
  for such a name with a size of at most 1024 while a slot is free.\<close>

theorem fs_reach_wellformed:
  assumes "fs_reach s"
  shows "fs_wf s \<and> (\<forall>fn buf sz. str_ok fn \<and> unat sz \<le> length buf \<longrightarrow>
    fs_write fn buf sz s \<noteq> None \<and> fs_read fn sz s \<noteq> None \<and> fs_delete fn s \<noteq> None \<and> fs_exists fn s \<noteq> None \<and>
    (fs_create fn sz s = None \<longleftrightarrow> 64 \<le> length (str_val fn) \<and> sz \<le> 1024 \<and> card (dom (fs_map s)) \<noteq> 32))"
proof -
  have wf: "fs_wf s" using assms
  proof (induction rule: fs_reach.induct)
    case (boot h0 h)
    then have h: "heap_rep Map.empty h" using init_heap [of h0] by auto
    have "fs_ok Map.empty (boot_fs h)" "fs_map (boot_fs h) = Map.empty" unfolding boot_fs_def by (rule fs_init_ok; use h in simp)+
    then show ?case by (auto simp: fs_wf_def)
  next
    case (make s fn sz r s') then show ?case using fs_wf_create [of s fn sz] by auto
  next
    case (store s fn sz buf r s') then show ?case using fs_wf_write [of s fn sz buf] by auto
  next
    case (remove s fn r s') then show ?case using fs_wf_delete [of s fn] by auto
  qed
  then obtain L where L: "fs_ok L s" by (auto simp: fs_wf_def)
  have "fs_read fn sz s \<noteq> None \<and> fs_exists fn s \<noteq> None" if "str_ok fn" for fn sz
    using fs_read_ok [OF L that] find_used [OF L that] by (simp add: fs_exists_def)
  moreover have "fs_create fn sz s = None \<longleftrightarrow> 64 \<le> length (str_val fn) \<and> sz \<le> 1024 \<and> card (dom (fs_map s)) \<noteq> 32"
    if "str_ok fn" for fn sz
    using that fs_wf_create [OF wf that, of sz] fs_create_long [OF L that, of sz] by (cases "length (str_val fn) < 64") (auto simp: not_less)
  moreover have "fs_write fn buf sz s \<noteq> None" if "str_ok fn" "unat sz \<le> length buf" for fn buf sz
    using fs_wf_write [OF wf that] by auto
  moreover have "fs_delete fn s \<noteq> None" if "str_ok fn" for fn using fs_wf_delete [OF wf that] by auto
  ultimately show ?thesis using wf by blast
qed

theorem fs_reach_wellformed_witness:
  "\<exists>h i s. memory_init \<lparr>headers = Map.empty, free_list = NULL\<rparr> = Some h \<and> fs_create [97, 0] 8 (boot_fs h) = Some (int i, s) \<and>
     fs_wf s \<and> fs_delete [97, 0] s \<noteq> None"
proof -
  obtain h i s where h: "memory_init \<lparr>headers = Map.empty, free_list = NULL\<rparr> = Some h" "fs_create [97, 0] 8 (boot_fs h) = Some (int i, s)"
    using demo_fs by blast
  have "fs_reach s" by (rule fs_reach.make [OF fs_reach.boot [OF h(1)] _ _ h(2)]) simp_all
  note wf = fs_reach_wellformed [OF this]
  have "fs_delete [97, 0] s \<noteq> None" using conjunct2 [OF wf, rule_format, of "[97, 0]" 0 "[]"] by simp
  then show ?thesis using h conjunct1 [OF wf] by blast
qed

end
