(* ===== verification/Btree.thy ===== *)
theory Btree
  imports Kmalloc_Props
begin

text \<open>
  The B-tree of src/btree.h and src/btree.c.  A node is an object of the kernel heap: \<open>bt_nodes\<close> holds the
  nodes that are allocated, by address, and \<open>bt_heap\<close> the state of the allocator.  The arrays of a node are lists of
  their declared length, and reading or writing outside them is undefined (\<open>None\<close>), as is following a null or
  freed pointer.  A value is a pointer to some type \<open>'v\<close>.
\<close>

section \<open>Arrays\<close>

definition array_get :: "'a list \<Rightarrow> int \<Rightarrow> 'a option" where
  "array_get xs i = (if 0 \<le> i \<and> i < int (length xs) then Some (xs ! nat i) else None)"

definition array_set :: "'a list \<Rightarrow> int \<Rightarrow> 'a \<Rightarrow> 'a list option" where
  "array_set xs i x = (if 0 \<le> i \<and> i < int (length xs) then Some (xs[nat i := x]) else None)"

section \<open>Data\<close>

abbreviation (input) "BTREE_ORDER \<equiv> (5 :: nat)"
abbreviation (input) "BTREE_MIN_KEYS \<equiv> (2 :: int)"
abbreviation (input) "BTREE_MAX_KEYS \<equiv> (4 :: nat)"

record 'v btree_node =
  num_keys :: int
  keys :: "u32 list"
  vals :: "'v ptr list"
  children :: "u32 ptr list"
  parent :: "u32 ptr"
  is_leaf :: bool

record btree =
  root :: "u32 ptr"
  height :: int
  num_nodes :: int

record 'v bt_mem =
  bt_nodes :: "u32 \<rightharpoonup> 'v btree_node"
  bt_heap :: kheap

text \<open>Access to a node through a pointer, and assignment to an element of one of its arrays.\<close>

definition node_at :: "u32 ptr \<Rightarrow> 'v bt_mem \<Rightarrow> 'v btree_node option" where
  "node_at p m = fetch (bt_nodes m) p"

definition upd_node :: "u32 ptr \<Rightarrow> ('v btree_node \<Rightarrow> 'v btree_node option) \<Rightarrow> 'v bt_mem \<Rightarrow> 'v bt_mem option" where
  "upd_node p f m = do {
     n \<leftarrow> fetch (bt_nodes m) p;
     n \<leftarrow> f n;
     h \<leftarrow> modify p (\<lambda>_. n) (bt_nodes m);
     Some (m\<lparr>bt_nodes := h\<rparr>) }"

definition set_key :: "int \<Rightarrow> u32 \<Rightarrow> 'v btree_node \<Rightarrow> 'v btree_node option" where
  "set_key i k n = do { ks \<leftarrow> array_set (keys n) i k; Some (n\<lparr>keys := ks\<rparr>) }"

definition set_value :: "int \<Rightarrow> 'v ptr \<Rightarrow> 'v btree_node \<Rightarrow> 'v btree_node option" where
  "set_value i v n = do { vs \<leftarrow> array_set (vals n) i v; Some (n\<lparr>vals := vs\<rparr>) }"

definition set_child :: "int \<Rightarrow> u32 ptr \<Rightarrow> 'v btree_node \<Rightarrow> 'v btree_node option" where
  "set_child i c n = do { cs \<leftarrow> array_set (children n) i c; Some (n\<lparr>children := cs\<rparr>) }"

section \<open>Creation and search\<close>

definition btree_init :: "btree \<Rightarrow> btree" where
  "btree_init tree = tree\<lparr>root := NULL, height := 0, num_nodes := 0\<rparr>"

definition sizeof_btree_node :: u32 where
  "sizeof_btree_node = 64"

definition btree_node_create :: "bool \<Rightarrow> 'v bt_mem \<Rightarrow> (u32 ptr \<times> 'v bt_mem) option" where
  "btree_node_create leaf m = do {
     (node, h) \<leftarrow> kmalloc sizeof_btree_node (bt_heap m);
     let m = m\<lparr>bt_heap := h\<rparr>;
     case node of None \<Rightarrow> Some (NULL, m)
     | Some a \<Rightarrow> Some (node, m\<lparr>bt_nodes := (bt_nodes m)(a \<mapsto>
         \<lparr>num_keys = 0, keys = replicate BTREE_MAX_KEYS 0, vals = replicate BTREE_MAX_KEYS NULL,
          children = replicate BTREE_ORDER NULL, parent = NULL, is_leaf = leaf\<rparr>)\<rparr>) }"

text \<open>The loop of \<open>find_key_index\<close>, which \<open>btree_search\<close> repeats.\<close>

function find_key_loop :: "u32 \<Rightarrow> 'v btree_node \<Rightarrow> int \<Rightarrow> int option" where
  "find_key_loop key n i =
     (if i < num_keys n then do {
        k \<leftarrow> array_get (keys n) i;
        if k < key then find_key_loop key n (i + 1) else Some i }
      else Some i)"
  by auto
termination by (relation "measure (\<lambda>(key, n, i). nat (num_keys n - i))") auto

declare find_key_loop.simps [simp del]

definition find_key_index :: "'v btree_node \<Rightarrow> u32 \<Rightarrow> int option" where
  "find_key_index n key = find_key_loop key n 0"

text \<open>The test ``i < node->num_keys and key == node->keys[i]''.\<close>

definition key_here :: "u32 \<Rightarrow> 'v btree_node \<Rightarrow> int \<Rightarrow> bool option" where
  "key_here key n i = (if i < num_keys n then do { k \<leftarrow> array_get (keys n) i; Some (k = key) } else Some False)"

partial_function (option) btree_search_loop :: "u32 \<Rightarrow> 'v bt_mem \<Rightarrow> u32 ptr \<Rightarrow> 'v ptr option" where
  "btree_search_loop key m node =
     (if node = NULL then Some NULL
      else do {
        n \<leftarrow> node_at node m;
        i \<leftarrow> find_key_loop key n 0;
        here \<leftarrow> key_here key n i;
        if here then array_get (vals n) i
        else if is_leaf n then Some NULL
        else do {
          c \<leftarrow> array_get (children n) i;
          btree_search_loop key m c } })"

definition btree_search :: "btree \<Rightarrow> u32 \<Rightarrow> 'v bt_mem \<Rightarrow> 'v ptr option" where
  "btree_search tree key m = (if root tree = NULL then Some NULL else btree_search_loop key m (root tree))"

section \<open>Splitting and insertion\<close>

text \<open>The loops of \<open>btree_split_child\<close>, over the vals of their counters.\<close>

primrec split_copy_keys :: "u32 ptr \<Rightarrow> u32 ptr \<Rightarrow> int list \<Rightarrow> 'v bt_mem \<Rightarrow> 'v bt_mem option" where
  "split_copy_keys new_node child [] m = Some m"
| "split_copy_keys new_node child (i # is) m = do {
     c \<leftarrow> node_at child m;
     k \<leftarrow> array_get (keys c) (i + BTREE_MIN_KEYS + 1);
     m \<leftarrow> upd_node new_node (set_key i k) m;
     c \<leftarrow> node_at child m;
     v \<leftarrow> array_get (vals c) (i + BTREE_MIN_KEYS + 1);
     m \<leftarrow> upd_node new_node (set_value i v) m;
     split_copy_keys new_node child is m }"

primrec split_copy_children :: "u32 ptr \<Rightarrow> u32 ptr \<Rightarrow> int list \<Rightarrow> 'v bt_mem \<Rightarrow> 'v bt_mem option" where
  "split_copy_children new_node child [] m = Some m"
| "split_copy_children new_node child (i # is) m = do {
     c \<leftarrow> node_at child m;
     p \<leftarrow> array_get (children c) (i + BTREE_MIN_KEYS + 1);
     m \<leftarrow> upd_node new_node (set_child i p) m;
     m \<leftarrow> (if p \<noteq> NULL then upd_node p (\<lambda>n. Some (n\<lparr>parent := new_node\<rparr>)) m else Some m);
     split_copy_children new_node child is m }"

function split_shift_children :: "int \<Rightarrow> int \<Rightarrow> 'v btree_node \<Rightarrow> 'v btree_node option" where
  "split_shift_children i index n =
     (if i > index then do {
        c \<leftarrow> array_get (children n) i;
        n \<leftarrow> set_child (i + 1) c n;
        split_shift_children (i - 1) index n }
      else Some n)"
  by auto
termination by (relation "measure (\<lambda>(i, index, n). nat (i - index))") auto

function split_shift_keys :: "int \<Rightarrow> int \<Rightarrow> 'v btree_node \<Rightarrow> 'v btree_node option" where
  "split_shift_keys i index n =
     (if i \<ge> index then do {
        k \<leftarrow> array_get (keys n) i;
        n \<leftarrow> set_key (i + 1) k n;
        v \<leftarrow> array_get (vals n) i;
        n \<leftarrow> set_value (i + 1) v n;
        split_shift_keys (i - 1) index n }
      else Some n)"
  by auto
termination by (relation "measure (\<lambda>(i, index, n). nat (i - index + 1))") auto

declare split_shift_children.simps [simp del] split_shift_keys.simps [simp del]

definition btree_split_child :: "u32 ptr \<Rightarrow> int \<Rightarrow> u32 ptr \<Rightarrow> 'v bt_mem \<Rightarrow> 'v bt_mem option" where
  "btree_split_child par index child m = do {
     c \<leftarrow> node_at child m;
     (new_node, m) \<leftarrow> btree_node_create (is_leaf c) m;
     if new_node = NULL then Some m
     else do {
       m \<leftarrow> upd_node new_node (\<lambda>n. Some (n\<lparr>num_keys := BTREE_MIN_KEYS\<rparr>)) m;
       m \<leftarrow> split_copy_keys new_node child [0..BTREE_MIN_KEYS - 1] m;
       c \<leftarrow> node_at child m;
       m \<leftarrow> (if \<not> is_leaf c then split_copy_children new_node child [0..BTREE_MIN_KEYS] m else Some m);
       m \<leftarrow> upd_node child (\<lambda>n. Some (n\<lparr>num_keys := BTREE_MIN_KEYS\<rparr>)) m;
       m \<leftarrow> upd_node par (\<lambda>n. split_shift_children (num_keys n) index n) m;
       m \<leftarrow> upd_node par (set_child (index + 1) new_node) m;
       m \<leftarrow> upd_node new_node (\<lambda>n. Some (n\<lparr>parent := par\<rparr>)) m;
       m \<leftarrow> upd_node par (\<lambda>n. split_shift_keys (num_keys n - 1) index n) m;
       c \<leftarrow> node_at child m;
       k \<leftarrow> array_get (keys c) BTREE_MIN_KEYS;
       m \<leftarrow> upd_node par (set_key index k) m;
       c \<leftarrow> node_at child m;
       v \<leftarrow> array_get (vals c) BTREE_MIN_KEYS;
       m \<leftarrow> upd_node par (set_value index v) m;
       upd_node par (\<lambda>n. Some (n\<lparr>num_keys := num_keys n + 1\<rparr>)) m } }"

text \<open>The loops of \<open>btree_insert_non_full\<close>: in a leaf the greater entries move up, in an inner node only the
  index moves.\<close>

function insert_shift :: "u32 \<Rightarrow> int \<Rightarrow> 'v btree_node \<Rightarrow> (int \<times> 'v btree_node) option" where
  "insert_shift key i n =
     (if i \<ge> 0 then do {
        k \<leftarrow> array_get (keys n) i;
        if key < k then do {
          n \<leftarrow> set_key (i + 1) k n;
          v \<leftarrow> array_get (vals n) i;
          n \<leftarrow> set_value (i + 1) v n;
          insert_shift key (i - 1) n }
        else Some (i, n) }
      else Some (i, n))"
  by auto
termination by (relation "measure (\<lambda>(key, i, n). nat (i + 1))") auto

function insert_index :: "u32 \<Rightarrow> int \<Rightarrow> 'v btree_node \<Rightarrow> int option" where
  "insert_index key i n =
     (if i \<ge> 0 then do {
        k \<leftarrow> array_get (keys n) i;
        if key < k then insert_index key (i - 1) n else Some i }
      else Some i)"
  by auto
termination by (relation "measure (\<lambda>(key, i, n). nat (i + 1))") auto

declare insert_shift.simps [simp del] insert_index.simps [simp del]

definition insert_leaf :: "u32 \<Rightarrow> 'v ptr \<Rightarrow> 'v btree_node \<Rightarrow> 'v btree_node option" where
  "insert_leaf key value n = do {
     (i, n) \<leftarrow> insert_shift key (num_keys n - 1) n;
     n \<leftarrow> set_key (i + 1) key n;
     n \<leftarrow> set_value (i + 1) value n;
     Some (n\<lparr>num_keys := num_keys n + 1\<rparr>) }"

partial_function (option) btree_insert_non_full :: "u32 ptr \<Rightarrow> u32 \<Rightarrow> 'v ptr \<Rightarrow> 'v bt_mem \<Rightarrow> 'v bt_mem option" where
  "btree_insert_non_full node key value m = do {
     n \<leftarrow> node_at node m;
     if is_leaf n then upd_node node (insert_leaf key value) m
     else do {
       i \<leftarrow> insert_index key (num_keys n - 1) n;
       let i = i + 1;
       p \<leftarrow> array_get (children n) i;
       c \<leftarrow> node_at p m;
       (i, m) \<leftarrow>
         (if num_keys c = int BTREE_MAX_KEYS then do {
            m \<leftarrow> btree_split_child node i p m;
            n \<leftarrow> node_at node m;
            k \<leftarrow> array_get (keys n) i;
            Some (if key > k then i + 1 else i, m) }
          else Some (i, m));
       n \<leftarrow> node_at node m;
       p \<leftarrow> array_get (children n) i;
       btree_insert_non_full p key value m } }"

definition btree_insert :: "btree \<Rightarrow> u32 \<Rightarrow> 'v ptr \<Rightarrow> 'v bt_mem \<Rightarrow> (int \<times> btree \<times> 'v bt_mem) option" where
  "btree_insert tree key value m = do {
     found \<leftarrow> btree_search tree key m;
     if found \<noteq> NULL then Some (- 1, tree, m)
     else if root tree = NULL then do {
       (r, m) \<leftarrow> btree_node_create True m;
       let tree = tree\<lparr>root := r\<rparr>;
       if r = NULL then Some (- 1, tree, m)
       else do {
         m \<leftarrow> upd_node r (set_key 0 key) m;
         m \<leftarrow> upd_node r (set_value 0 value) m;
         m \<leftarrow> upd_node r (\<lambda>n. Some (n\<lparr>num_keys := 1\<rparr>)) m;
         Some (0, tree\<lparr>num_nodes := 1, height := 1\<rparr>, m) } }
     else do {
       n \<leftarrow> node_at (root tree) m;
       if num_keys n = int BTREE_MAX_KEYS then do {
         (new_root, m) \<leftarrow> btree_node_create False m;
         if new_root = NULL then Some (- 1, tree, m)
         else do {
           m \<leftarrow> upd_node new_root (set_child 0 (root tree)) m;
           m \<leftarrow> upd_node (root tree) (\<lambda>n. Some (n\<lparr>parent := new_root\<rparr>)) m;
           m \<leftarrow> btree_split_child new_root 0 (root tree) m;
           let tree = tree\<lparr>root := new_root, height := height tree + 1\<rparr>;
           m \<leftarrow> btree_insert_non_full (root tree) key value m;
           Some (0, tree\<lparr>num_nodes := num_nodes tree + 1\<rparr>, m) } }
       else do {
         m \<leftarrow> btree_insert_non_full (root tree) key value m;
         Some (0, tree\<lparr>num_nodes := num_nodes tree + 1\<rparr>, m) } } }"

section \<open>Neighbours and merging\<close>

partial_function (option) last_leaf :: "'v bt_mem \<Rightarrow> u32 ptr \<Rightarrow> 'v btree_node option" where
  "last_leaf m p = do {
     n \<leftarrow> node_at p m;
     if is_leaf n then Some n else do { c \<leftarrow> array_get (children n) (num_keys n); last_leaf m c } }"

definition get_predecessor :: "'v btree_node \<Rightarrow> int \<Rightarrow> 'v bt_mem \<Rightarrow> (u32 \<times> 'v ptr) option" where
  "get_predecessor node idx m = do {
     p \<leftarrow> array_get (children node) idx;
     c \<leftarrow> last_leaf m p;
     k \<leftarrow> array_get (keys c) (num_keys c - 1);
     v \<leftarrow> array_get (vals c) (num_keys c - 1);
     Some (k, v) }"

partial_function (option) first_leaf :: "'v bt_mem \<Rightarrow> u32 ptr \<Rightarrow> 'v btree_node option" where
  "first_leaf m p = do {
     n \<leftarrow> node_at p m;
     if is_leaf n then Some n else do { c \<leftarrow> array_get (children n) 0; first_leaf m c } }"

definition get_successor :: "'v btree_node \<Rightarrow> int \<Rightarrow> 'v bt_mem \<Rightarrow> (u32 \<times> 'v ptr) option" where
  "get_successor node idx m = do {
     p \<leftarrow> array_get (children node) (idx + 1);
     c \<leftarrow> first_leaf m p;
     k \<leftarrow> array_get (keys c) 0;
     v \<leftarrow> array_get (vals c) 0;
     Some (k, v) }"

primrec merge_copy_keys :: "u32 ptr \<Rightarrow> u32 ptr \<Rightarrow> int list \<Rightarrow> 'v bt_mem \<Rightarrow> 'v bt_mem option" where
  "merge_copy_keys child sibling [] m = Some m"
| "merge_copy_keys child sibling (i # is) m = do {
     s \<leftarrow> node_at sibling m;
     k \<leftarrow> array_get (keys s) i;
     m \<leftarrow> upd_node child (set_key (i + BTREE_MIN_KEYS + 1) k) m;
     s \<leftarrow> node_at sibling m;
     v \<leftarrow> array_get (vals s) i;
     m \<leftarrow> upd_node child (set_value (i + BTREE_MIN_KEYS + 1) v) m;
     merge_copy_keys child sibling is m }"

primrec merge_copy_children :: "u32 ptr \<Rightarrow> u32 ptr \<Rightarrow> int list \<Rightarrow> 'v bt_mem \<Rightarrow> 'v bt_mem option" where
  "merge_copy_children child sibling [] m = Some m"
| "merge_copy_children child sibling (i # is) m = do {
     s \<leftarrow> node_at sibling m;
     p \<leftarrow> array_get (children s) i;
     m \<leftarrow> upd_node child (set_child (i + BTREE_MIN_KEYS + 1) p) m;
     m \<leftarrow> (if p \<noteq> NULL then upd_node p (\<lambda>n. Some (n\<lparr>parent := child\<rparr>)) m else Some m);
     merge_copy_children child sibling is m }"

text \<open>The two loops that close the gap in the parent.\<close>

primrec merge_shift_keys :: "int list \<Rightarrow> 'v btree_node \<Rightarrow> 'v btree_node option" where
  "merge_shift_keys [] n = Some n"
| "merge_shift_keys (i # is) n = do {
     k \<leftarrow> array_get (keys n) i;
     n \<leftarrow> set_key (i - 1) k n;
     v \<leftarrow> array_get (vals n) i;
     n \<leftarrow> set_value (i - 1) v n;
     merge_shift_keys is n }"

primrec merge_shift_children :: "int list \<Rightarrow> 'v btree_node \<Rightarrow> 'v btree_node option" where
  "merge_shift_children [] n = Some n"
| "merge_shift_children (i # is) n = do {
     c \<leftarrow> array_get (children n) i;
     n \<leftarrow> set_child (i - 1) c n;
     merge_shift_children is n }"

definition free_node :: "u32 ptr \<Rightarrow> 'v bt_mem \<Rightarrow> 'v bt_mem option" where
  "free_node p m = do {
     h \<leftarrow> kfree p (bt_heap m);
     Some (m\<lparr>bt_heap := h, bt_nodes := (case p of None \<Rightarrow> bt_nodes m | Some a \<Rightarrow> (bt_nodes m)(a := None))\<rparr>) }"

definition btree_merge_children :: "u32 ptr \<Rightarrow> int \<Rightarrow> 'v bt_mem \<Rightarrow> 'v bt_mem option" where
  "btree_merge_children par index m = do {
     n \<leftarrow> node_at par m;
     child \<leftarrow> array_get (children n) index;
     sibling \<leftarrow> array_get (children n) (index + 1);
     k \<leftarrow> array_get (keys n) index;
     m \<leftarrow> upd_node child (set_key BTREE_MIN_KEYS k) m;
     n \<leftarrow> node_at par m;
     v \<leftarrow> array_get (vals n) index;
     m \<leftarrow> upd_node child (set_value BTREE_MIN_KEYS v) m;
     s \<leftarrow> node_at sibling m;
     m \<leftarrow> merge_copy_keys child sibling [0..num_keys s - 1] m;
     c \<leftarrow> node_at child m;
     s \<leftarrow> node_at sibling m;
     m \<leftarrow> (if \<not> is_leaf c then merge_copy_children child sibling [0..num_keys s] m else Some m);
     s \<leftarrow> node_at sibling m;
     m \<leftarrow> upd_node child (\<lambda>c. Some (c\<lparr>num_keys := num_keys c + (num_keys s + 1)\<rparr>)) m;
     m \<leftarrow> upd_node par (\<lambda>n. merge_shift_keys [index + 1..num_keys n - 1] n) m;
     m \<leftarrow> upd_node par (\<lambda>n. merge_shift_children [index + 2..num_keys n] n) m;
     m \<leftarrow> upd_node par (\<lambda>n. Some (n\<lparr>num_keys := num_keys n - 1\<rparr>)) m;
     free_node sibling m }"

section \<open>Deletion\<close>

primrec delete_shift :: "int list \<Rightarrow> 'v btree_node \<Rightarrow> 'v btree_node option" where
  "delete_shift [] n = Some n"
| "delete_shift (j # js) n = do {
     k \<leftarrow> array_get (keys n) (j + 1);
     n \<leftarrow> set_key j k n;
     v \<leftarrow> array_get (vals n) (j + 1);
     n \<leftarrow> set_value j v n;
     delete_shift js n }"

definition delete_leaf_node :: "u32 \<Rightarrow> 'v btree_node \<Rightarrow> 'v btree_node option" where
  "delete_leaf_node key n = do {
     i \<leftarrow> find_key_index n key;
     here \<leftarrow> key_here key n i;
     if here then do {
       n \<leftarrow> delete_shift [i..num_keys n - 2] n;
       Some (n\<lparr>num_keys := num_keys n - 1\<rparr>) }
     else Some n }"

partial_function (option) btree_delete_loop :: "btree \<Rightarrow> u32 \<Rightarrow> 'v bt_mem \<Rightarrow> u32 ptr \<Rightarrow> (int \<times> btree \<times> 'v bt_mem) option" where
  "btree_delete_loop tree key m node =
     (if node = NULL then Some (- 1, tree, m)
      else do {
        n \<leftarrow> node_at node m;
        i \<leftarrow> find_key_index n key;
        here \<leftarrow> key_here key n i;
        if here then
          if is_leaf n then do {
            m \<leftarrow> upd_node node (delete_leaf_node key) m;
            Some (0, tree\<lparr>num_nodes := num_nodes tree - 1\<rparr>, m) }
          else Some (- 1, tree, m)
        else if is_leaf n then Some (- 1, tree, m)
        else do {
          c \<leftarrow> array_get (children n) i;
          btree_delete_loop tree key m c } })"

definition btree_delete :: "btree \<Rightarrow> u32 \<Rightarrow> 'v bt_mem \<Rightarrow> (int \<times> btree \<times> 'v bt_mem) option" where
  "btree_delete tree key m =
     (if root tree = NULL then Some (- 1, tree, m) else btree_delete_loop tree key m (root tree))"

section \<open>Traversal, destruction and printing\<close>

text \<open>\<open>traverse_loop\<close> is the rest of a call of \<open>traverse_recursive\<close> from index \<open>i\<close> on; the callback acts on the
  state \<open>s\<close> of its owner.\<close>

partial_function (option) traverse_loop ::
    "(u32 \<Rightarrow> 'v ptr \<Rightarrow> 's \<Rightarrow> 's) \<Rightarrow> 'v bt_mem \<Rightarrow> u32 ptr \<Rightarrow> int \<Rightarrow> 's \<Rightarrow> 's option" where
  "traverse_loop cb m node i s =
     (if node = NULL then Some s
      else do {
        n \<leftarrow> node_at node m;
        s \<leftarrow> (if is_leaf n then Some s else do {
               c \<leftarrow> array_get (children n) i;
               traverse_loop cb m c 0 s });
        if i < num_keys n then do {
          k \<leftarrow> array_get (keys n) i;
          v \<leftarrow> array_get (vals n) i;
          traverse_loop cb m node (i + 1) (cb k v s) }
        else Some s })"

definition btree_traverse :: "btree \<Rightarrow> (u32 \<Rightarrow> 'v ptr \<Rightarrow> 's \<Rightarrow> 's) \<Rightarrow> 'v bt_mem \<Rightarrow> 's \<Rightarrow> 's option" where
  "btree_traverse tree cb m s = traverse_loop cb m (root tree) 0 s"

partial_function (option) destroy_loop :: "u32 ptr \<Rightarrow> int \<Rightarrow> 'v bt_mem \<Rightarrow> 'v bt_mem option" where
  "destroy_loop node i m =
     (if node = NULL then Some m
      else do {
        n \<leftarrow> node_at node m;
        if \<not> is_leaf n \<and> i \<le> num_keys n then do {
          c \<leftarrow> array_get (children n) i;
          m \<leftarrow> destroy_loop c 0 m;
          destroy_loop node (i + 1) m }
        else free_node node m })"

definition btree_destroy :: "btree \<Rightarrow> 'v bt_mem \<Rightarrow> (btree \<times> 'v bt_mem) option" where
  "btree_destroy tree m = do {
     m \<leftarrow> destroy_loop (root tree) 0 m;
     Some (tree\<lparr>root := NULL, height := 0, num_nodes := 0\<rparr>, m) }"

text \<open>What \<open>btree_print\<close> prints: the two counters, and a line with the level and the keys of every node.\<close>

partial_function (option) print_loop :: "'v bt_mem \<Rightarrow> u32 ptr \<Rightarrow> int \<Rightarrow> int \<Rightarrow> (int \<times> u32 list) list option" where
  "print_loop m node level i =
     (if node = NULL then Some []
      else do {
        n \<leftarrow> node_at node m;
        line \<leftarrow> (if i = 0 then
                  if num_keys n \<le> int (length (keys n)) then Some [(level, take (nat (num_keys n)) (keys n))] else None
                else Some []);
        if \<not> is_leaf n \<and> i \<le> num_keys n then do {
          c \<leftarrow> array_get (children n) i;
          ls \<leftarrow> print_loop m c (level + 1) 0;
          ls' \<leftarrow> print_loop m node level (i + 1);
          Some (line @ ls @ ls') }
        else Some line })"

definition btree_print :: "btree \<Rightarrow> 'v bt_mem \<Rightarrow> (int \<times> int \<times> (int \<times> u32 list) list) option" where
  "btree_print tree m = do { ls \<leftarrow> print_loop m (root tree) 0 0; Some (height tree, num_nodes tree, ls) }"

end
