(* ===== verification/Btree_Rep.thy ===== *)
theory Btree_Rep
  imports Btree
begin

text \<open>
  The abstract B-tree that a heap of nodes represents: a tree that keeps the address and the entries of every
  node, its in-order list of entries and the order of the keys.  The lemmas say how a change below one child shows
  in the in-order list, so that search, insertion and deletion can be proved by induction on the tree.
\<close>

section \<open>Trees\<close>

datatype 'v bt = BLeaf (addr: u32) (entries: "(u32 \<times> 'v ptr) list") |
  BNode (addr: u32) (entries: "(u32 \<times> 'v ptr) list") "'v bt list"

text \<open>The entries of the node between the lists of its children.\<close>

fun weave :: "'a list list \<Rightarrow> 'a list \<Rightarrow> 'a list" where
  "weave (x # xs) (y # ys) = x @ y # weave xs ys"
| "weave (x # xs) [] = x"
| "weave [] ys = []"

fun inorder :: "'v bt \<Rightarrow> (u32 \<times> 'v ptr) list" where
  "inorder (BLeaf a kvs) = kvs"
| "inorder (BNode a kvs ts) = weave (map inorder ts) kvs"

fun addrs :: "'v bt \<Rightarrow> u32 list" where
  "addrs (BLeaf a kvs) = [a]"
| "addrs (BNode a kvs ts) = a # concat (map addrs ts)"

text \<open>The keys that stand in leaves.\<close>

fun leaf_keys :: "'v bt \<Rightarrow> u32 set" where
  "leaf_keys (BLeaf a kvs) = fst ` set kvs"
| "leaf_keys (BNode a kvs ts) = (\<Union>t \<in> set ts. leaf_keys t)"

section \<open>Representation\<close>

definition node_rep :: "'v btree_node \<Rightarrow> (u32 \<times> 'v ptr) list \<Rightarrow> bool" where
  "node_rep n kvs \<longleftrightarrow> num_keys n = int (length kvs) \<and> length kvs \<le> BTREE_MAX_KEYS \<and>
     length (keys n) = BTREE_MAX_KEYS \<and> length (vals n) = BTREE_MAX_KEYS \<and> length (children n) = BTREE_ORDER \<and>
     take (length kvs) (keys n) = map fst kvs \<and> take (length kvs) (vals n) = map snd kvs"

fun bt_rep :: "(u32 \<rightharpoonup> 'v btree_node) \<Rightarrow> 'v bt \<Rightarrow> bool" where
  "bt_rep h (BLeaf a kvs) = (\<exists>n. h a = Some n \<and> node_rep n kvs \<and> is_leaf n)"
| "bt_rep h (BNode a kvs ts) =
     ((\<exists>n. h a = Some n \<and> node_rep n kvs \<and> \<not> is_leaf n \<and> take (length ts) (children n) = map (Some \<circ> addr) ts) \<and>
      length ts = length kvs + 1 \<and> (\<forall>t \<in> set ts. bt_rep h t))"

abbreviation key_sorted :: "(u32 \<times> 'v) list \<Rightarrow> bool" where
  "key_sorted xs \<equiv> sorted_wrt (<) (map fst xs)"

definition bt_ok :: "(u32 \<rightharpoonup> 'v btree_node) \<Rightarrow> 'v bt \<Rightarrow> bool" where
  "bt_ok h t \<longleftrightarrow> bt_rep h t \<and> distinct (addrs t) \<and> key_sorted (inorder t)"

lemma addr_in_addrs [simp]: "addr t \<in> set (addrs t)"
  by (cases t) auto

lemma bt_rep_frame: "bt_rep h t \<Longrightarrow> (\<And>a. a \<in> set (addrs t) \<Longrightarrow> h' a = h a) \<Longrightarrow> bt_rep h' t"
proof (induction t)
  case (BNode a kvs ts)
  then have "bt_rep h' t" if "t \<in> set ts" for t using that by auto
  then show ?case using BNode.prems by auto
qed simp

section \<open>Entries of a node\<close>

lemma array_get_nth: "i < length xs \<Longrightarrow> array_get xs (int i) = Some (xs ! i)"
  by (simp add: array_get_def)

lemma array_get_take: "take (length ys) xs = ys \<Longrightarrow> i < length ys \<Longrightarrow> array_get xs (int i) = Some (ys ! i)"
  by (metis array_get_nth length_take min_less_iff_conj nth_take)

lemma node_rep_key: "node_rep n kvs \<Longrightarrow> i < length kvs \<Longrightarrow> array_get (keys n) (int i) = Some (fst (kvs ! i))"
  using array_get_take [of "map fst kvs" "keys n" i] by (simp add: node_rep_def)

lemma node_rep_val: "node_rep n kvs \<Longrightarrow> i < length kvs \<Longrightarrow> array_get (vals n) (int i) = Some (snd (kvs ! i))"
  using array_get_take [of "map snd kvs" "vals n" i] by (simp add: node_rep_def)

text \<open>The number of keys below \<open>key\<close>.\<close>

definition below :: "u32 \<Rightarrow> (u32 \<times> 'v) list \<Rightarrow> nat" where
  "below key kvs = length (takeWhile (\<lambda>x. fst x < key) kvs)"

lemma below_le: "below key kvs \<le> length kvs"
  unfolding below_def by (rule length_takeWhile_le)

lemma below_less: "i < below key kvs \<Longrightarrow> fst (kvs ! i) < key"
  unfolding below_def by (metis nth_mem set_takeWhileD takeWhile_nth)

lemma below_at: "below key kvs < length kvs \<Longrightarrow> key \<le> fst (kvs ! below key kvs)"
  unfolding below_def using nth_length_takeWhile [of "\<lambda>x. fst x < key" kvs] by simp

lemma find_key_loop_ok:
  assumes n: "node_rep n kvs" and "i \<le> below key kvs"
  shows "find_key_loop key n (int i) = Some (int (below key kvs))"
  using assms(2)
proof (induction "below key kvs - i" arbitrary: i)
  case 0
  then have i: "i = below key kvs" by simp
  have nk: "num_keys n = int (length kvs)" using n by (simp add: node_rep_def)
  show ?case
  proof (cases "i < length kvs")
    case True
    then show ?thesis using node_rep_key [OF n True] below_at [of key kvs] i nk by (subst find_key_loop.simps) auto
  qed (use i nk in \<open>subst find_key_loop.simps, simp\<close>)
next
  case (Suc d)
  then have i: "i < below key kvs" by simp
  then have il: "i < length kvs" using below_le [of key kvs] by simp
  have nk: "num_keys n = int (length kvs)" using n by (simp add: node_rep_def)
  have "find_key_loop key n (int (Suc i)) = Some (int (below key kvs))" using Suc(2) i by (intro Suc(1)) auto
  then show ?case using node_rep_key [OF n il] below_less [OF i] nk il
    by (subst find_key_loop.simps) (simp add: add.commute)
qed

lemma find_key_index_ok: "node_rep n kvs \<Longrightarrow> find_key_index n key = Some (int (below key kvs))"
  using find_key_loop_ok [of n kvs 0 key] by (simp add: find_key_index_def)

lemma find_key_loop_0: "node_rep n kvs \<Longrightarrow> find_key_loop key n 0 = Some (int (below key kvs))"
  using find_key_loop_ok [of n kvs 0 key] by simp

lemma key_here_ok:
  assumes "node_rep n kvs"
  shows "key_here key n (int (below key kvs)) = Some (below key kvs < length kvs \<and> fst (kvs ! below key kvs) = key)"
proof (cases "below key kvs < length kvs")
  case True
  then show ?thesis using node_rep_key [OF assms True] assms by (simp add: key_here_def node_rep_def)
qed (use assms in \<open>simp add: key_here_def node_rep_def\<close>)

lemma key_not_here:
  "node_rep n kvs \<Longrightarrow> \<not> (below key kvs < length kvs \<and> fst (kvs ! below key kvs) = key) \<Longrightarrow> key_here key n (int (below key kvs)) = Some False"
  using key_here_ok [of n kvs key] by auto

lemma child_at:
  assumes "take (length ts) (children n) = map (Some \<circ> addr) ts" "i < length ts"
  shows "array_get (children n) (int i) = Some (Some (addr (ts ! i)))"
proof -
  show ?thesis using array_get_take [of "map (Some \<circ> addr) ts" "children n" i] assms by simp
qed

section \<open>Sorted entries\<close>

lemma key_sorted_append: "key_sorted (xs @ ys) \<longleftrightarrow> key_sorted xs \<and> key_sorted ys \<and> (\<forall>x \<in> set xs. \<forall>y \<in> set ys. fst x < fst y)"
  by (simp add: sorted_wrt_append)

lemma key_sorted_distinct: "key_sorted xs \<Longrightarrow> distinct (map fst xs)"
  by (metis strict_sorted_iff)

lemma weave_set: "length xs = length ys + 1 \<Longrightarrow> set ys \<subseteq> set (weave xs ys)"
  by (induction xs ys rule: weave.induct) auto

lemma weave_set_nth: "length xs = length ys + 1 \<Longrightarrow> j < length xs \<Longrightarrow> set (xs ! j) \<subseteq> set (weave xs ys)"
  by (induction xs ys arbitrary: j rule: weave.induct) (auto simp: nth_Cons split: nat.splits)

lemma weave_split:
  assumes "length xs = length ys + 1" "i \<le> length ys"
  obtains pre post where "\<forall>x. weave (xs[i := x]) ys = pre @ x @ post" "weave xs ys = pre @ xs ! i @ post"
    "pre = [] \<or> 0 < i \<and> last pre = ys ! (i - 1)" "post = [] \<or> i < length ys \<and> hd post = ys ! i"
    "set (take i ys) \<subseteq> set pre" "set (drop i ys) \<subseteq> set post"
    "\<forall>j < length xs. j \<noteq> i \<longrightarrow> set (xs ! j) \<subseteq> set pre \<union> set post"
  using assms
proof (induction i arbitrary: xs ys thesis)
  case 0
  then obtain x xs' where xs: "xs = x # xs'" by (cases xs) auto
  show ?case
  proof (cases ys)
    case Nil
    then show ?thesis using 0(1) [of "[]" "[]"] 0(2) xs by simp
  next
    case (Cons y ys')
    have "set ys' \<subseteq> set (weave xs' ys')" using 0(2) xs Cons by (intro weave_set) simp
    moreover have "set (xs ! j) \<subseteq> set (weave xs' ys')" if "j < length xs" "j \<noteq> 0" for j
      using weave_set_nth [of xs' ys' "j - 1"] 0(2) xs Cons that by (cases j) auto
    ultimately show ?thesis using 0(1) [of "[]" "y # weave xs' ys'"] xs Cons by auto
  qed
next
  case (Suc i)
  obtain x xs' where x: "xs = x # xs'" using Suc.prems by (cases xs) auto
  obtain y ys' where y: "ys = y # ys'" using Suc.prems by (cases ys) auto
  note xy = x y
  then have l: "length xs' = length ys' + 1" "i \<le> length ys'" using Suc.prems by auto
  obtain pre post where p: "\<forall>z. weave (xs'[i := z]) ys' = pre @ z @ post" "weave xs' ys' = pre @ xs' ! i @ post"
    "pre = [] \<or> 0 < i \<and> last pre = ys' ! (i - 1)" "post = [] \<or> i < length ys' \<and> hd post = ys' ! i"
    "set (take i ys') \<subseteq> set pre" "set (drop i ys') \<subseteq> set post"
    "\<forall>j < length xs'. j \<noteq> i \<longrightarrow> set (xs' ! j) \<subseteq> set pre \<union> set post"
    using Suc.IH [OF _ l] by blast
  show ?case
  proof (rule Suc.prems(1) [of "x @ y # pre" post])
    show "x @ y # pre = [] \<or> 0 < Suc i \<and> last (x @ y # pre) = ys ! (Suc i - 1)"
    proof (cases "pre = []")
      case True
      show ?thesis
      proof (cases i)
        case (Suc j)
        then have "ys' \<noteq> []" using l(2) by auto
        then have "take i ys' \<noteq> []" using Suc by simp
        then show ?thesis using p(5) True by (simp add: subset_empty)
      qed (use True xy in simp)
    next
      case False
      then show ?thesis using p(3) xy by (auto simp: nth_Cons')
    qed
    show "\<forall>j < length xs. j \<noteq> Suc i \<longrightarrow> set (xs ! j) \<subseteq> set (x @ y # pre) \<union> set post"
    proof (intro allI impI)
      fix j assume "j < length xs" "j \<noteq> Suc i"
      then show "set (xs ! j) \<subseteq> set (x @ y # pre) \<union> set post" using p(7) xy by (cases j) auto
    qed
  qed (use p xy in auto)
qed

text \<open>Everything before the child at index \<open>below key kvs\<close> is smaller than \<open>key\<close>, everything after it greater.\<close>

lemma descend:
  assumes s: "key_sorted (weave xs kvs)" and l: "length xs = length kvs + 1"
    and nh: "\<not> (below key kvs < length kvs \<and> fst (kvs ! below key kvs) = key)"
  obtains pre post where "\<forall>x. weave (xs[below key kvs := x]) kvs = pre @ x @ post"
    "weave xs kvs = pre @ xs ! below key kvs @ post"
    "\<forall>x \<in> set pre. fst x < key" "\<forall>x \<in> set post. key < fst x" "set kvs \<subseteq> set pre \<union> set post"
    "\<forall>j < length xs. j \<noteq> below key kvs \<longrightarrow> set (xs ! j) \<subseteq> set pre \<union> set post"
proof -
  let ?i = "below key kvs"
  obtain pre post where p: "\<forall>x. weave (xs[?i := x]) kvs = pre @ x @ post" "weave xs kvs = pre @ xs ! ?i @ post"
    "pre = [] \<or> 0 < ?i \<and> last pre = kvs ! (?i - 1)" "post = [] \<or> ?i < length kvs \<and> hd post = kvs ! ?i"
    "set (take ?i kvs) \<subseteq> set pre" "set (drop ?i kvs) \<subseteq> set post"
    "\<forall>j < length xs. j \<noteq> ?i \<longrightarrow> set (xs ! j) \<subseteq> set pre \<union> set post"
    using weave_split [OF l below_le [of key]] .
  have sp: "key_sorted pre" "key_sorted post" using s unfolding p(2) key_sorted_append by auto
  show thesis
  proof (rule that [OF p(1,2) _ _ _ p(7)]; (intro ballI)?)
    fix x assume x: "x \<in> set pre"
    then have "pre \<noteq> []" by auto
    then have "fst (last pre) < key" using p(3) below_less [of "?i - 1" key kvs] by auto
    moreover have "fst x \<le> fst (last pre)"
    proof -
      obtain a b where ab: "pre = a @ [b]" using \<open>pre \<noteq> []\<close> rev_exhaust by blast
      then show ?thesis using sp(1) x by (auto simp: sorted_wrt_append intro: less_imp_le)
    qed
    ultimately show "fst x < key" by simp
  next
    fix x assume x: "x \<in> set post"
    then obtain y ys where y: "post = y # ys" by (cases post) auto
    then have "key < fst y" using p(4) nh below_at [of key kvs] by (auto simp: order_less_le)
    moreover have "fst y \<le> fst x" using sp(2) x y by auto
    ultimately show "key < fst x" by simp
  next
    have "set kvs = set (take ?i kvs) \<union> set (drop ?i kvs)" by (metis append_take_drop_id set_append)
    then show "set kvs \<subseteq> set pre \<union> set post" using p(5,6) by auto
  qed
qed

lemma map_of_middle:
  assumes "\<forall>x \<in> set pre. fst x < key" "\<forall>x \<in> set post. key < fst (x :: u32 \<times> 'v)"
  shows "map_of (pre @ mid @ post) key = map_of mid key"
proof -
  have "map_of pre key = None" "map_of post key = None"
    using assms by (auto simp: map_of_eq_None_iff)
  then show ?thesis by (simp add: map_add_def split: option.split)
qed

lemma sorted_child:
  assumes "key_sorted (inorder (BNode a kvs ts))" "length ts = length kvs + 1" "t \<in> set ts"
  shows "key_sorted (inorder t)"
proof -
  obtain i where i: "i < length ts" "ts ! i = t" using assms(3) by (auto simp: in_set_conv_nth)
  obtain pre post where "weave (map inorder ts) kvs = pre @ map inorder ts ! i @ post"
    by (rule weave_split [of "map inorder ts" kvs i]) (use assms(2) i in auto)
  then show ?thesis using assms(1) i by (simp add: sorted_wrt_append)
qed

lemma bt_ok_child:
  assumes "bt_ok h (BNode a kvs ts)" "t \<in> set ts" shows "bt_ok h t"
proof -
  have "key_sorted (inorder t)" using sorted_child [of a kvs ts t] assms by (auto simp: bt_ok_def)
  moreover have "distinct (addrs t)" using assms by (auto simp: bt_ok_def distinct_concat_iff)
  ultimately show ?thesis using assms by (simp add: bt_ok_def)
qed

end
