(* ===== verification/Btree_Walk.thy ===== *)
theory Btree_Walk
  imports Btree_Rep
begin

text \<open>
  The operations that do not change the nodes: search, the neighbours of a key, traversal; and \<open>btree_destroy\<close>, which
  walks the tree while freeing it.
\<close>

section \<open>Search\<close>

lemma below_Cons: "below key (x # kvs) = (if fst x < key then Suc (below key kvs) else 0)" "below key [] = 0"
  by (simp_all add: below_def)

lemma not_here:
  assumes "key_sorted kvs" "\<not> (below key kvs < length kvs \<and> fst (kvs ! below key kvs) = key)"
  shows "key \<notin> fst ` set kvs"
  using assms by (induction kvs) (auto simp: below_Cons split: if_splits)

lemma here_map_of:
  assumes "key_sorted xs" "set kvs \<subseteq> set xs" "i < length kvs" "fst (kvs ! i) = key"
  shows "map_of xs key = Some (snd (kvs ! i))"
proof -
  have "kvs ! i \<in> set xs" using assms(2,3) by auto
  then show ?thesis using map_of_is_SomeI [OF key_sorted_distinct [OF assms(1)], of key "snd (kvs ! i)"] assms(4) by (cases "kvs ! i") auto
qed

definition stored :: "(u32 \<times> 'v ptr) list \<Rightarrow> u32 \<Rightarrow> 'v ptr" where
  "stored xs key = (case map_of xs key of None \<Rightarrow> NULL | Some v \<Rightarrow> v)"

lemma btree_search_loop_ok:
  "bt_ok (bt_nodes m) t \<Longrightarrow> btree_search_loop key m (Some (addr t)) = Some (stored (inorder t) key)"
proof (induction t)
  case (BLeaf a kvs)
  then obtain n where n: "bt_nodes m a = Some n" "node_rep n kvs" "is_leaf n" and s: "key_sorted kvs" by (auto simp: bt_ok_def)
  let ?i = "below key kvs"
  show ?case
  proof (cases "?i < length kvs \<and> fst (kvs ! ?i) = key")
    case True
    then have "map_of kvs key = Some (snd (kvs ! ?i))" by (intro here_map_of [OF s subset_refl]) auto
    then show ?thesis using True n find_key_loop_0 [OF n(2)] key_here_ok [OF n(2)] node_rep_val [OF n(2)]
      by (subst btree_search_loop.simps) (simp add: node_at_def stored_def)
  next
    case False
    then have "map_of kvs key = None" using not_here [OF s False] by (simp add: map_of_eq_None_iff)
    then show ?thesis using n find_key_loop_0 [OF n(2)] key_not_here [OF n(2) False]
      by (subst btree_search_loop.simps) (simp add: node_at_def stored_def)
  qed
next
  case (BNode a kvs ts)
  then obtain n where n: "bt_nodes m a = Some n" "node_rep n kvs" "\<not> is_leaf n" "take (length ts) (children n) = map (Some \<circ> addr) ts"
    and l: "length ts = length kvs + 1" and s: "key_sorted (weave (map inorder ts) kvs)" by (auto simp: bt_ok_def)
  let ?i = "below key kvs"
  show ?case
  proof (cases "?i < length kvs \<and> fst (kvs ! ?i) = key")
    case True
    have "set kvs \<subseteq> set (weave (map inorder ts) kvs)" using l by (intro weave_set) simp
    then have "map_of (weave (map inorder ts) kvs) key = Some (snd (kvs ! ?i))" using True by (intro here_map_of [OF s]) auto
    then show ?thesis using True n find_key_loop_0 [OF n(2)] key_here_ok [OF n(2)] node_rep_val [OF n(2)]
      by (subst btree_search_loop.simps) (simp add: node_at_def stored_def)
  next
    case False
    have i: "?i < length ts" using below_le [of key kvs] l by simp
    then have t: "ts ! ?i \<in> set ts" by simp
    obtain pre post where p: "weave (map inorder ts) kvs = pre @ map inorder ts ! ?i @ post"
      "\<forall>x \<in> set pre. fst x < key" "\<forall>x \<in> set post. key < fst x"
      by (rule descend [OF s _ False]) (use l in auto)
    have "stored (weave (map inorder ts) kvs) key = stored (inorder (ts ! ?i)) key"
      using map_of_middle [OF p(2,3)] p(1) i by (simp add: stored_def)
    then show ?thesis
      using n find_key_loop_0 [OF n(2)] key_not_here [OF n(2) False] child_at [OF n(4) i] BNode.IH [OF t bt_ok_child [OF BNode.prems t]]
      by (subst btree_search_loop.simps) (simp add: node_at_def)
  qed
qed

section \<open>Neighbours\<close>

lemma weave_last: "length xs = length ys + 1 \<Longrightarrow> last xs \<noteq> [] \<Longrightarrow> weave xs ys \<noteq> [] \<and> last (weave xs ys) = last (last xs)"
  by (induction xs ys rule: weave.induct) auto

lemma weave_hd: "length xs = length ys + 1 \<Longrightarrow> hd xs \<noteq> [] \<Longrightarrow> weave xs ys \<noteq> [] \<and> hd (weave xs ys) = hd (hd xs)"
  by (cases xs; cases ys) auto

text \<open>No leaf is empty.\<close>

fun leaves_filled :: "'v bt \<Rightarrow> bool" where
  "leaves_filled (BLeaf a kvs) = (kvs \<noteq> [])"
| "leaves_filled (BNode a kvs ts) = (\<forall>t \<in> set ts. leaves_filled t)"

lemma last_leaf_ok:
  "bt_rep (bt_nodes m) t \<Longrightarrow> leaves_filled t \<Longrightarrow>
     \<exists>n kvs. last_leaf m (Some (addr t)) = Some n \<and> node_rep n kvs \<and> kvs \<noteq> [] \<and> inorder t \<noteq> [] \<and> last (inorder t) = last kvs"
proof (induction t)
  case (BLeaf a kvs)
  then show ?case by (subst last_leaf.simps) (auto simp: node_at_def)
next
  case (BNode a kvs ts)
  then obtain n where n: "bt_nodes m a = Some n" "node_rep n kvs" "\<not> is_leaf n" "take (length ts) (children n) = map (Some \<circ> addr) ts"
    and l: "length ts = length kvs + 1" by auto
  have ne: "ts \<noteq> []" using l by auto
  then have lt: "last ts = ts ! length kvs" using l by (simp add: last_conv_nth)
  from ne have t: "last ts \<in> set ts" by simp
  obtain n' kvs' where o: "last_leaf m (Some (addr (last ts))) = Some n'" "node_rep n' kvs'" "kvs' \<noteq> []" "inorder (last ts) \<noteq> []"
    "last (inorder (last ts)) = last kvs'" using BNode.IH [OF t] BNode.prems t by auto
  have "array_get (children n) (num_keys n) = Some (Some (addr (last ts)))"
    using child_at [OF n(4), of "length kvs"] l lt n(2) by (simp add: node_rep_def)
  then have "last_leaf m (Some a) = Some n'" using n o(1) by (subst last_leaf.simps) (simp add: node_at_def)
  moreover have "inorder (BNode a kvs ts) \<noteq> [] \<and> last (inorder (BNode a kvs ts)) = last kvs'"
    using weave_last [of "map inorder ts" kvs] l ne o(4,5) by (simp add: last_map)
  ultimately show ?case using o(2,3) by auto
qed

lemma first_leaf_ok:
  "bt_rep (bt_nodes m) t \<Longrightarrow> leaves_filled t \<Longrightarrow>
     \<exists>n kvs. first_leaf m (Some (addr t)) = Some n \<and> node_rep n kvs \<and> kvs \<noteq> [] \<and> inorder t \<noteq> [] \<and> hd (inorder t) = hd kvs"
proof (induction t)
  case (BLeaf a kvs)
  then show ?case by (subst first_leaf.simps) (auto simp: node_at_def)
next
  case (BNode a kvs ts)
  then obtain n where n: "bt_nodes m a = Some n" "node_rep n kvs" "\<not> is_leaf n" "take (length ts) (children n) = map (Some \<circ> addr) ts"
    and l: "length ts = length kvs + 1" by auto
  have ne: "ts \<noteq> []" using l by auto
  then have lt: "hd ts = ts ! 0" by (rule hd_conv_nth)
  from ne have t: "hd ts \<in> set ts" by simp
  obtain n' kvs' where o: "first_leaf m (Some (addr (hd ts))) = Some n'" "node_rep n' kvs'" "kvs' \<noteq> []" "inorder (hd ts) \<noteq> []"
    "hd (inorder (hd ts)) = hd kvs'" using BNode.IH [OF t] BNode.prems t by auto
  have "array_get (children n) 0 = Some (Some (addr (hd ts)))"
    using child_at [OF n(4), of 0] l lt by simp
  then have "first_leaf m (Some a) = Some n'" using n o(1) by (subst first_leaf.simps) (simp add: node_at_def)
  moreover have "inorder (BNode a kvs ts) \<noteq> [] \<and> hd (inorder (BNode a kvs ts)) = hd kvs'"
    using weave_hd [of "map inorder ts" kvs] l ne o(4,5) by (simp add: hd_map)
  ultimately show ?case using o(2,3) by auto
qed

section \<open>Traversal\<close>

text \<open>The part of the in-order list that a call visits from the child with index \<open>i\<close> on.\<close>

lemma weave_drop: "i < length xs \<Longrightarrow> length xs = length ys + 1 \<Longrightarrow>
  weave (drop i xs) (drop i ys) = xs ! i @ (if i < length ys then ys ! i # weave (drop (Suc i) xs) (drop (Suc i) ys) else [])"
  by (auto simp: Cons_nth_drop_Suc [symmetric])

abbreviation run :: "(u32 \<Rightarrow> 'v ptr \<Rightarrow> 's \<Rightarrow> 's) \<Rightarrow> (u32 \<times> 'v ptr) list \<Rightarrow> 's \<Rightarrow> 's" where
  "run cb \<equiv> fold (\<lambda>x. cb (fst x) (snd x))"

lemma traverse_leaf:
  assumes "bt_nodes m a = Some n" "node_rep n kvs" "is_leaf n" "i \<le> length kvs"
  shows "traverse_loop cb m (Some a) (int i) s = Some (run cb (drop i kvs) s)"
  using assms(4)
proof (induction "length kvs - i" arbitrary: i s)
  case 0
  then show ?case using assms by (subst traverse_loop.simps) (simp add: node_at_def node_rep_def)
next
  case (Suc d)
  then have i: "i < length kvs" by simp
  have "traverse_loop cb m (Some a) (int (Suc i)) s' = Some (run cb (drop (Suc i) kvs) s')" for s' using Suc(2) i by (intro Suc(1)) auto
  then show ?case using assms node_rep_key [OF assms(2) i] node_rep_val [OF assms(2) i] i
    by (subst traverse_loop.simps) (simp add: node_at_def node_rep_def Cons_nth_drop_Suc [symmetric] add.commute)
qed

lemma traverse_loop_ok:
  "bt_rep (bt_nodes m) t \<Longrightarrow> traverse_loop cb m (Some (addr t)) 0 s = Some (run cb (inorder t) s)"
proof (induction t arbitrary: s)
  case (BLeaf a kvs)
  then show ?case using traverse_leaf [of m a _ kvs 0 cb s] by auto
next
  case (BNode a kvs ts)
  then obtain n where n: "bt_nodes m a = Some n" "node_rep n kvs" "\<not> is_leaf n" "take (length ts) (children n) = map (Some \<circ> addr) ts"
    and l: "length ts = length kvs + 1" and r: "\<forall>t \<in> set ts. bt_rep (bt_nodes m) t" by auto
  have nk: "num_keys n = int (length kvs)" using n(2) by (simp add: node_rep_def)
  have "traverse_loop cb m (Some a) (int i) s = Some (run cb (weave (drop i (map inorder ts)) (drop i kvs)) s)" if "i \<le> length kvs" for i
    using that
  proof (induction "length kvs - i" arbitrary: i s)
    case 0
    then have i: "i = length kvs" "i < length ts" using l by auto
    then have "traverse_loop cb m (Some (addr (ts ! i))) 0 s = Some (run cb (inorder (ts ! i)) s)" using BNode.IH r by simp
    then show ?case using n nk i weave_drop [of i "map inorder ts" kvs] l child_at [OF n(4) i(2)]
      by (subst traverse_loop.simps) (simp add: node_at_def)
  next
    case (Suc d)
    then have i: "i < length kvs" "i < length ts" using l by auto
    then have "traverse_loop cb m (Some (addr (ts ! i))) 0 s = Some (run cb (inorder (ts ! i)) s)" using BNode.IH r by simp
    moreover have "traverse_loop cb m (Some a) (int (Suc i)) s' = Some (run cb (weave (drop (Suc i) (map inorder ts)) (drop (Suc i) kvs)) s')" for s'
      using Suc(2) i by (intro Suc(1)) auto
    ultimately show ?case
      using n nk i weave_drop [of i "map inorder ts" kvs] l child_at [OF n(4) i(2)] node_rep_key [OF n(2) i(1)] node_rep_val [OF n(2) i(1)]
      by (subst traverse_loop.simps) (simp add: node_at_def add.commute drop_map)
  qed
  from this [of 0] show ?case by simp
qed

end
