(* ===== verification/Btree_Update.thy ===== *)
theory Btree_Update
  imports Btree_Walk
begin

text \<open>
  Insertion into and deletion from a leaf, along the path of a key.
\<close>

section \<open>One leaf\<close>

text \<open>Insertion of a new key in a sorted list of entries.\<close>

definition put :: "u32 \<Rightarrow> 'v \<Rightarrow> (u32 \<times> 'v) list \<Rightarrow> (u32 \<times> 'v) list" where
  "put key v xs = filter (\<lambda>x. fst x < key) xs @ (key, v) # filter (\<lambda>x. key < fst x) xs"

lemma length_4: "length xs = 4 \<Longrightarrow> \<exists>a b c d. xs = [a, b, c, d]"
  by (auto simp: numeral_eq_Suc length_Suc_conv)

lemma length_less_4: "length xs < 4 \<Longrightarrow> xs = [] \<or> (\<exists>a. xs = [a]) \<or> (\<exists>a b. xs = [a, b]) \<or> (\<exists>a b c. xs = [a, b, c])"
  by (auto simp: numeral_eq_Suc less_Suc_eq length_Suc_conv)

lemmas node_write = set_key_def set_value_def array_get_def array_set_def

lemma insert_leaf_ok:
  assumes n: "node_rep n kvs" and len: "length kvs < 4" and s: "key_sorted kvs" and new: "key \<notin> fst ` set kvs"
  shows "\<exists>n'. insert_leaf key v n = Some n' \<and> node_rep n' (put key v kvs) \<and> is_leaf n' = is_leaf n"
proof -
  obtain k0 k1 k2 k3 where k: "keys n = [k0, k1, k2, k3]" using n length_4 unfolding node_rep_def by blast
  obtain v0 v1 v2 v3 where v: "vals n = [v0, v1, v2, v3]" using n length_4 unfolding node_rep_def by blast
  note [simp] = insert_shift.simps node_write
  consider "kvs = []" | x where "kvs = [x]" | x y where "kvs = [x, y]" | x y z where "kvs = [x, y, z]"
    using length_less_4 [OF len] by blast
  then show ?thesis
  proof cases
    case 1
    then show ?thesis using n k v by (simp add: insert_leaf_def node_rep_def put_def)
  next
    case 2
    then show ?thesis using n k v s new
      by (cases "key < k0") (auto simp: insert_leaf_def node_rep_def put_def numeral_eq_Suc)
  next
    case 3
    then show ?thesis using n k v s new
      by (cases "key < k0"; cases "key < k1") (auto simp: insert_leaf_def node_rep_def put_def numeral_eq_Suc)
  next
    case 4
    then show ?thesis using n k v s new
      by (cases "key < k0"; cases "key < k1"; cases "key < k2") (auto simp: insert_leaf_def node_rep_def put_def numeral_eq_Suc)
  qed
qed

lemma delete_leaf_ok:
  assumes n: "node_rep n kvs" and s: "key_sorted kvs" and old: "key \<in> fst ` set kvs"
  shows "\<exists>n'. delete_leaf_node key n = Some n' \<and> node_rep n' (filter (\<lambda>x. fst x \<noteq> key) kvs) \<and> is_leaf n' = is_leaf n"
proof -
  obtain k0 k1 k2 k3 where k: "keys n = [k0, k1, k2, k3]" using n length_4 unfolding node_rep_def by blast
  obtain v0 v1 v2 v3 where v: "vals n = [v0, v1, v2, v3]" using n length_4 unfolding node_rep_def by blast
  have here: "below key kvs < length kvs \<and> fst (kvs ! below key kvs) = key" using not_here [OF s] old by blast
  have start: "delete_leaf_node key n = do {
      n \<leftarrow> delete_shift [int (below key kvs)..num_keys n - 2] n;
      Some (n\<lparr>num_keys := num_keys n - 1\<rparr>) }"
    using find_key_index_ok [OF n] key_here_ok [OF n, of key] here by (simp add: delete_leaf_node_def)
  note [simp] = node_write below_Cons upto.simps
  have "length kvs < 4 \<or> length kvs = 4" using n by (auto simp: node_rep_def)
  then consider x where "kvs = [x]" | x y where "kvs = [x, y]" | x y z where "kvs = [x, y, z]" | x y z w where "kvs = [x, y, z, w]"
    using length_less_4 [of kvs] length_4 [of kvs] here by (metis list.size(3) not_less_zero)
  then show ?thesis
  proof cases
    case 1
    then show ?thesis using n k v s here by (auto simp: start node_rep_def numeral_eq_Suc)
  next
    case 2
    then show ?thesis using n k v s here by (auto simp: start node_rep_def numeral_eq_Suc split: if_splits)
  next
    case 3
    then show ?thesis using n k v s here by (auto simp: start node_rep_def numeral_eq_Suc split: if_splits)
  next
    case 4
    then show ?thesis using n k v s here by (auto simp: start node_rep_def numeral_eq_Suc split: if_splits)
  qed
qed

section \<open>One child\<close>

lemma distinct_concat_disjoint:
  "distinct (concat xss) \<Longrightarrow> i < length xss \<Longrightarrow> j < length xss \<Longrightarrow> i \<noteq> j \<Longrightarrow> set (xss ! i) \<inter> set (xss ! j) = {}"
proof (induction xss arbitrary: i j)
  case (Cons xs xss)
  have rest: "set xs \<inter> set (xss ! k) = {}" if "k < length xss" for k using Cons.prems(1) nth_mem [OF that] by auto
  show ?case
  proof (cases i; cases j)
    fix i' j' assume ij: "i = Suc i'" "j = Suc j'"
    then show ?thesis using Cons.IH [of i' j'] Cons.prems by simp
  qed (use Cons.prems rest in \<open>auto simp: Int_commute\<close>)
qed simp

text \<open>A change of a leaf below the child \<open>i\<close> that keeps its addresses.\<close>

lemma child_update:
  assumes r: "bt_rep h (BNode a kvs ts)" and d: "distinct (addrs (BNode a kvs ts))" and i: "i < length ts"
    and t': "bt_rep h' t'" "addrs t' = addrs (ts ! i)" "addr t' = addr (ts ! i)"
    and same: "\<And>x. x \<notin> set (addrs (ts ! i)) \<Longrightarrow> h' x = h x"
  shows "bt_rep h' (BNode a kvs (ts[i := t']))" "addrs (BNode a kvs (ts[i := t'])) = addrs (BNode a kvs ts)"
proof -
  have mem: "ts ! i \<in> set ts" using i by simp
  have a: "a \<notin> set (addrs (ts ! i))" using d mem by auto
  have other: "bt_rep h' (ts ! j)" if j: "j < length ts" "j \<noteq> i" for j
  proof (rule bt_rep_frame)
    show "bt_rep h (ts ! j)" using r j(1) by auto
    have "set (map addrs ts ! j) \<inter> set (map addrs ts ! i) = {}"
      using d i j by (intro distinct_concat_disjoint) auto
    then show "h' x = h x" if "x \<in> set (addrs (ts ! j))" for x using that same i j(1) by auto
  qed
  have "bt_rep h' t" if "t \<in> set (ts[i := t'])" for t
    using that other t'(1) i by (auto simp: in_set_conv_nth nth_list_update split: if_splits)
  moreover have "map (Some \<circ> addr) (ts[i := t']) = map (Some \<circ> addr) ts" using t'(3) i by (simp add: map_update list_update_same_conv)
  ultimately show "bt_rep h' (BNode a kvs (ts[i := t']))" using r same [OF a] by auto
  have "map addrs (ts[i := t']) = map addrs ts" using t'(2) i by (simp add: map_update list_update_same_conv)
  then show "addrs (BNode a kvs (ts[i := t'])) = addrs (BNode a kvs ts)" by simp
qed

lemma addr_cong: "addrs t' = addrs t \<Longrightarrow> addr t' = addr t"
  by (cases t; cases t') auto

lemma put_middle:
  assumes "\<forall>x \<in> set pre. fst x < key" "\<forall>x \<in> set post. key < fst x"
  shows "put key v (pre @ mid @ post) = pre @ put key v mid @ post"
proof -
  have "filter (\<lambda>x. fst x < key) pre = pre" "filter (\<lambda>x. key < fst x) post = post" using assms by simp_all
  moreover have "filter (\<lambda>x. key < fst x) pre = []" "filter (\<lambda>x. fst x < key) post = []" using assms by (auto simp: filter_empty_conv)
  ultimately show ?thesis by (simp add: put_def)
qed

lemma delete_middle:
  assumes "\<forall>x \<in> set pre. fst x < key" "\<forall>x \<in> set post. key < fst (x :: u32 \<times> 'v)"
  shows "filter (\<lambda>x. fst x \<noteq> key) (pre @ mid @ post) = pre @ filter (\<lambda>x. fst x \<noteq> key) mid @ post"
proof -
  have "filter (\<lambda>x. fst x \<noteq> key) pre = pre" "filter (\<lambda>x. fst x \<noteq> key) post = post" using assms by (auto intro!: filter_True)
  then show ?thesis by simp
qed

lemma weave_sorted_keys: "key_sorted (weave xs kvs) \<Longrightarrow> length xs = length kvs + 1 \<Longrightarrow> key_sorted kvs"
proof (induction xs kvs rule: weave.induct)
  case (1 x xs y ys)
  then show ?case using weave_set [of xs ys] by (auto simp: sorted_wrt_append)
qed simp_all

section \<open>Insertion\<close>

text \<open>No node on the path of the key is full.\<close>

fun room :: "u32 \<Rightarrow> 'v bt \<Rightarrow> bool" where
  "room key (BLeaf a kvs) = (length kvs < BTREE_MAX_KEYS)"
| "room key (BNode a kvs ts) = (length kvs < BTREE_MAX_KEYS \<and> (\<forall>t \<in> set ts. t = ts ! below key kvs \<longrightarrow> room key t))"

lemma room_entries: "room key t \<Longrightarrow> length (entries t) < BTREE_MAX_KEYS"
  by (cases t) auto

lemma bt_rep_node: "bt_rep h t \<Longrightarrow> \<exists>n. h (addr t) = Some n \<and> node_rep n (entries t)"
  by (cases t) auto

lemma insert_index_ok:
  assumes n: "node_rep n kvs" and s: "key_sorted kvs" and new: "key \<notin> fst ` set kvs" and "below key kvs \<le> i" "i \<le> length kvs"
  shows "insert_index key (int i - 1) n = Some (int (below key kvs) - 1)"
  using assms(4,5)
proof (induction "i - below key kvs" arbitrary: i)
  case 0
  then have i: "i = below key kvs" by simp
  show ?case
  proof (cases i)
    case 0
    then show ?thesis using i by (subst insert_index.simps) simp
  next
    case (Suc j)
    then have "fst (kvs ! j) < key" "j < length kvs" using below_less [of j key kvs] i below_le [of key kvs] by auto
    then show ?thesis using node_rep_key [OF n, of j] Suc i by (subst insert_index.simps) auto
  qed
next
  case (Suc d)
  then obtain j where j: "i = Suc j" "below key kvs \<le> j" "j < length kvs" by (cases i) auto
  have "key < fst (kvs ! j)"
  proof -
    have b: "below key kvs < length kvs" using j by simp
    have "key \<le> fst (kvs ! below key kvs)" using below_at [OF b] .
    also have "\<dots> \<le> fst (kvs ! j)" using s j sorted_wrt_nth_less [of "(<)" "map fst kvs" "below key kvs" j]
      by (cases "below key kvs = j") auto
    finally show ?thesis using new j(3) by (auto simp: order_less_le)
  qed
  moreover have "insert_index key (int j - 1) n = Some (int (below key kvs) - 1)" using Suc(2) j by (intro Suc(1)) auto
  ultimately show ?case using node_rep_key [OF n j(3)] j(1) by (subst insert_index.simps) simp
qed

lemma upd_node_ok: "bt_nodes m a = Some n \<Longrightarrow> f n = Some n' \<Longrightarrow> upd_node (Some a) f m = Some (m\<lparr>bt_nodes := (bt_nodes m)(a \<mapsto> n')\<rparr>)"
  by (simp add: upd_node_def)

lemma insert_non_full_ok:
  "bt_ok (bt_nodes m) t \<Longrightarrow> room key t \<Longrightarrow> key \<notin> fst ` set (inorder t) \<Longrightarrow>
    \<exists>m' t'. btree_insert_non_full (Some (addr t)) key v m = Some m' \<and> bt_rep (bt_nodes m') t' \<and> addrs t' = addrs t \<and>
      inorder t' = put key v (inorder t) \<and> (\<forall>x. x \<notin> set (addrs t) \<longrightarrow> bt_nodes m' x = bt_nodes m x) \<and> bt_heap m' = bt_heap m"
proof (induction t)
  case (BLeaf a kvs)
  then obtain n where n: "bt_nodes m a = Some n" "node_rep n kvs" "is_leaf n" and s: "key_sorted kvs" by (auto simp: bt_ok_def)
  obtain n' where n': "insert_leaf key v n = Some n'" "node_rep n' (put key v kvs)" "is_leaf n'"
    using insert_leaf_ok [OF n(2) _ s, of key v] BLeaf.prems n(3) by auto
  have "btree_insert_non_full (Some a) key v m = Some (m\<lparr>bt_nodes := (bt_nodes m)(a \<mapsto> n')\<rparr>)"
    using n upd_node_ok [OF n(1), of "insert_leaf key v"] n'(1) by (subst btree_insert_non_full.simps) (simp add: node_at_def)
  then show ?case using n' by (auto intro!: exI [of _ "BLeaf a (put key v kvs)"])
next
  case (BNode a kvs ts)
  then obtain n where n: "bt_nodes m a = Some n" "node_rep n kvs" "\<not> is_leaf n" "take (length ts) (children n) = map (Some \<circ> addr) ts"
    and l: "length ts = length kvs + 1" and s: "key_sorted (weave (map inorder ts) kvs)"
    and d: "distinct (addrs (BNode a kvs ts))" and r: "bt_rep (bt_nodes m) (BNode a kvs ts)" by (auto simp: bt_ok_def)
  let ?i = "below key kvs"
  have i: "?i < length ts" using below_le [of key kvs] l by simp
  then have t: "ts ! ?i \<in> set ts" by simp
  have new: "key \<notin> fst ` set kvs" using BNode.prems(3) weave_set [of "map inorder ts" kvs] l by auto
  then have False: "\<not> (?i < length kvs \<and> fst (kvs ! ?i) = key)" by (metis imageI nth_mem)
  obtain pre post where p: "\<forall>x. weave ((map inorder ts)[?i := x]) kvs = pre @ x @ post" "weave (map inorder ts) kvs = pre @ map inorder ts ! ?i @ post"
    "\<forall>x \<in> set pre. fst x < key" "\<forall>x \<in> set post. key < fst x"
    by (rule descend [OF s _ False]) (use l in auto)
  have rm: "room key (ts ! ?i)" using BNode.prems(2) t by auto
  have "key \<notin> fst ` set (inorder (ts ! ?i))" using BNode.prems(3) p(2) i by auto
  then obtain m' t' where o: "btree_insert_non_full (Some (addr (ts ! ?i))) key v m = Some m'" "bt_rep (bt_nodes m') t'"
    "addrs t' = addrs (ts ! ?i)" "inorder t' = put key v (inorder (ts ! ?i))"
    "\<forall>x. x \<notin> set (addrs (ts ! ?i)) \<longrightarrow> bt_nodes m' x = bt_nodes m x" "bt_heap m' = bt_heap m"
    using BNode.IH [OF t bt_ok_child [OF BNode.prems(1) t] rm] by blast
  obtain c where c: "bt_nodes m (addr (ts ! ?i)) = Some c" "num_keys c \<noteq> 4"
    using bt_rep_node [of "bt_nodes m" "ts ! ?i"] r t room_entries [OF rm] by (auto simp: node_rep_def)
  have idx: "insert_index key (num_keys n - 1) n = Some (int ?i - 1)"
    using insert_index_ok [OF n(2) weave_sorted_keys [OF s] new below_le] l n(2) by (simp add: node_rep_def)
  have step: "btree_insert_non_full (Some a) key v m = Some m'"
    using n idx child_at [OF n(4) i] c o(1) by (subst btree_insert_non_full.simps) (simp add: node_at_def)
  have "inorder (BNode a kvs (ts[?i := t'])) = put key v (inorder (BNode a kvs ts))"
    using p i o(4) put_middle [OF p(3,4), of v "inorder (ts ! ?i)"] by (simp add: map_update)
  moreover have "bt_rep (bt_nodes m') (BNode a kvs (ts[?i := t']))" "addrs (BNode a kvs (ts[?i := t'])) = addrs (BNode a kvs ts)"
    using child_update [OF r d i o(2,3) addr_cong [OF o(3)]] o(5) by blast+
  moreover have "\<forall>x. x \<notin> set (addrs (BNode a kvs ts)) \<longrightarrow> bt_nodes m' x = bt_nodes m x" using o(5) t by auto
  ultimately show ?case using step o(6)
    by (intro exI [of _ m'] exI [of _ "BNode a kvs (ts[?i := t'])"]) (simp del: bt_rep.simps inorder.simps addrs.simps)
qed

section \<open>Deletion\<close>

lemma leaf_keys_inorder: "bt_rep h t \<Longrightarrow> leaf_keys t \<subseteq> fst ` set (inorder t)"
proof (induction t)
  case (BNode a kvs ts)
  have "leaf_keys t \<subseteq> fst ` set (inorder (BNode a kvs ts))" if t: "t \<in> set ts" for t
  proof -
    obtain j where j: "j < length ts" "ts ! j = t" using t by (auto simp: in_set_conv_nth)
    then have "set (inorder t) \<subseteq> set (inorder (BNode a kvs ts))"
      using weave_set_nth [of "map inorder ts" kvs j] BNode.prems by auto
    moreover have "leaf_keys t \<subseteq> fst ` set (inorder t)" using BNode.IH [OF t] BNode.prems t by simp
    ultimately show ?thesis by (meson image_mono subset_trans)
  qed
  then show ?case by (simp only: leaf_keys.simps UN_least)
qed simp

lemma here_not_leaf:
  assumes "bt_ok h (BNode a kvs ts)" "key \<in> fst ` set kvs" shows "key \<notin> leaf_keys (BNode a kvs ts)"
proof
  assume "key \<in> leaf_keys (BNode a kvs ts)"
  then obtain j where j: "j < length ts" "key \<in> leaf_keys (ts ! j)" by (auto simp: in_set_conv_nth)
  then have k: "key \<in> fst ` set (inorder (ts ! j))" using leaf_keys_inorder [of h "ts ! j"] assms(1) by (auto simp: bt_ok_def)
  have l: "length (map inorder ts) = length kvs + 1" "j \<le> length kvs" using assms(1) j(1) by (auto simp: bt_ok_def)
  obtain pre post where p: "weave (map inorder ts) kvs = pre @ map inorder ts ! j @ post"
    "set (take j kvs) \<subseteq> set pre" "set (drop j kvs) \<subseteq> set post" by (rule weave_split [OF l])
  have "set kvs = set (take j kvs) \<union> set (drop j kvs)" by (metis append_take_drop_id set_append)
  then have "set kvs \<subseteq> set pre \<union> set post" using p(2,3) by blast
  moreover obtain x where "x \<in> set kvs" and key: "fst x = key" using assms(2) by auto
  ultimately have x: "x \<in> set pre \<union> set post" by blast
  obtain y where y: "y \<in> set (inorder (ts ! j))" "fst y = key" using k by auto
  have "key_sorted (pre @ inorder (ts ! j) @ post)" using assms(1) p(1) j(1) by (simp add: bt_ok_def)
  then have "\<forall>x \<in> set pre. fst x < fst y" "\<forall>x \<in> set post. fst y < fst x" using y(1) unfolding key_sorted_append by auto
  then show False using x key y(2) by auto
qed

lemma leaf_keys_descend:
  assumes r: "bt_rep h (BNode a kvs ts)" and i: "below key kvs < length ts"
    and p: "\<forall>x \<in> set pre. fst x < key" "\<forall>x \<in> set post. key < fst x"
      "\<forall>j < length (map inorder ts). j \<noteq> below key kvs \<longrightarrow> set (map inorder ts ! j) \<subseteq> set pre \<union> set post"
  shows "key \<in> leaf_keys (BNode a kvs ts) \<longleftrightarrow> key \<in> leaf_keys (ts ! below key kvs)"
proof -
  have "key \<notin> leaf_keys (ts ! j)" if j: "j < length ts" "j \<noteq> below key kvs" for j
  proof -
    have "leaf_keys (ts ! j) \<subseteq> fst ` set (inorder (ts ! j))" using r j(1) by (intro leaf_keys_inorder) auto
    moreover have "set (inorder (ts ! j)) \<subseteq> set pre \<union> set post" using p(3) j by simp
    ultimately show ?thesis using p(1,2) by fastforce
  qed
  then show ?thesis using i unfolding leaf_keys.simps UN_iff by (metis in_set_conv_nth)
qed

lemma delete_loop_ok:
  "bt_ok (bt_nodes m) t \<Longrightarrow>
    \<exists>m' t'. btree_delete_loop tree key m (Some (addr t)) =
        Some (if key \<in> leaf_keys t then (0, tree\<lparr>num_nodes := num_nodes tree - 1\<rparr>, m') else (- 1, tree, m)) \<and>
      (key \<in> leaf_keys t \<longrightarrow> bt_rep (bt_nodes m') t' \<and> addrs t' = addrs t \<and> inorder t' = filter (\<lambda>x. fst x \<noteq> key) (inorder t) \<and>
        (\<forall>x. x \<notin> set (addrs t) \<longrightarrow> bt_nodes m' x = bt_nodes m x) \<and> bt_heap m' = bt_heap m)"
proof (induction t)
  case (BLeaf a kvs)
  then obtain n where n: "bt_nodes m a = Some n" "node_rep n kvs" "is_leaf n" and s: "key_sorted kvs" by (auto simp: bt_ok_def)
  let ?i = "below key kvs"
  show ?case
  proof (cases "?i < length kvs \<and> fst (kvs ! ?i) = key")
    case True
    then have k: "key \<in> fst ` set kvs" by (metis imageI nth_mem)
    obtain n' where n': "delete_leaf_node key n = Some n'" "node_rep n' (filter (\<lambda>x. fst x \<noteq> key) kvs)" "is_leaf n'"
      using delete_leaf_ok [OF n(2) s k] n(3) by auto
    have "btree_delete_loop tree key m (Some a) = Some (0, tree\<lparr>num_nodes := num_nodes tree - 1\<rparr>, m\<lparr>bt_nodes := (bt_nodes m)(a \<mapsto> n')\<rparr>)"
      using n find_key_index_ok [OF n(2)] key_here_ok [OF n(2), of key] True upd_node_ok [OF n(1), of "delete_leaf_node key"] n'(1)
      by (subst btree_delete_loop.simps) (simp add: node_at_def)
    then show ?thesis using k n'(2,3) by (auto intro!: exI [of _ "BLeaf a (filter (\<lambda>x. fst x \<noteq> key) kvs)"])
  next
    case False
    then have "key \<notin> leaf_keys (BLeaf a kvs)" using not_here [OF s False] by simp
    moreover have "btree_delete_loop tree key m (Some a) = Some (- 1, tree, m)"
      using n find_key_index_ok [OF n(2)] key_not_here [OF n(2) False] by (subst btree_delete_loop.simps) (simp add: node_at_def)
    ultimately show ?thesis by simp
  qed
next
  case (BNode a kvs ts)
  then obtain n where n: "bt_nodes m a = Some n" "node_rep n kvs" "\<not> is_leaf n" "take (length ts) (children n) = map (Some \<circ> addr) ts"
    and l: "length ts = length kvs + 1" and s: "key_sorted (weave (map inorder ts) kvs)"
    and d: "distinct (addrs (BNode a kvs ts))" and r: "bt_rep (bt_nodes m) (BNode a kvs ts)" by (auto simp: bt_ok_def)
  let ?i = "below key kvs"
  show ?case
  proof (cases "?i < length kvs \<and> fst (kvs ! ?i) = key")
    case True
    then have "key \<in> fst ` set kvs" by (metis imageI nth_mem)
    then have "key \<notin> leaf_keys (BNode a kvs ts)" using here_not_leaf [OF BNode.prems] by simp
    moreover have "btree_delete_loop tree key m (Some a) = Some (- 1, tree, m)"
      using n find_key_index_ok [OF n(2)] key_here_ok [OF n(2), of key] True by (subst btree_delete_loop.simps) (simp add: node_at_def)
    ultimately show ?thesis by simp
  next
    case False
    have i: "?i < length ts" using below_le [of key kvs] l by simp
    then have t: "ts ! ?i \<in> set ts" by simp
    obtain pre post where p: "\<forall>x. weave ((map inorder ts)[?i := x]) kvs = pre @ x @ post" "weave (map inorder ts) kvs = pre @ map inorder ts ! ?i @ post"
      "\<forall>x \<in> set pre. fst x < key" "\<forall>x \<in> set post. key < fst x"
      "\<forall>j < length (map inorder ts). j \<noteq> ?i \<longrightarrow> set (map inorder ts ! j) \<subseteq> set pre \<union> set post"
      by (rule descend [OF s _ False]) (use l in auto)
    note lk = leaf_keys_descend [OF r i p(3-5)]
    have step: "btree_delete_loop tree key m (Some a) = btree_delete_loop tree key m (Some (addr (ts ! ?i)))"
      using n find_key_index_ok [OF n(2)] key_not_here [OF n(2) False] child_at [OF n(4) i]
      by (subst btree_delete_loop.simps) (simp add: node_at_def)
    obtain m' t' where o: "btree_delete_loop tree key m (Some (addr (ts ! ?i))) =
        Some (if key \<in> leaf_keys (ts ! ?i) then (0, tree\<lparr>num_nodes := num_nodes tree - 1\<rparr>, m') else (- 1, tree, m))"
      "key \<in> leaf_keys (ts ! ?i) \<Longrightarrow> bt_rep (bt_nodes m') t' \<and> addrs t' = addrs (ts ! ?i) \<and>
        inorder t' = filter (\<lambda>x. fst x \<noteq> key) (inorder (ts ! ?i)) \<and>
        (\<forall>x. x \<notin> set (addrs (ts ! ?i)) \<longrightarrow> bt_nodes m' x = bt_nodes m x) \<and> bt_heap m' = bt_heap m"
      using BNode.IH [OF t bt_ok_child [OF BNode.prems t]] by blast
    show ?thesis
    proof (cases "key \<in> leaf_keys (ts ! ?i)")
      case True
      note o' = o(2) [OF True]
      have "inorder (BNode a kvs (ts[?i := t'])) = filter (\<lambda>x. fst x \<noteq> key) (inorder (BNode a kvs ts))"
        using p i o' delete_middle [OF p(3,4), of "inorder (ts ! ?i)"] by (simp add: map_update)
      moreover have "bt_rep (bt_nodes m') (BNode a kvs (ts[?i := t']))" "addrs (BNode a kvs (ts[?i := t'])) = addrs (BNode a kvs ts)"
        using child_update [OF r d i, of "bt_nodes m'" t'] o' addr_cong by blast+
      moreover have "\<forall>x. x \<notin> set (addrs (BNode a kvs ts)) \<longrightarrow> bt_nodes m' x = bt_nodes m x" using o' t by auto
      ultimately show ?thesis using step o(1) True lk o'
        by (intro exI [of _ m'] exI [of _ "BNode a kvs (ts[?i := t'])"]) (simp del: bt_rep.simps inorder.simps addrs.simps leaf_keys.simps)
    next
      case False
      then show ?thesis using step o(1) lk by simp
    qed
  qed
qed

section \<open>Destruction\<close>

lemma free_node_ok:
  assumes "heap_rep L (bt_heap m)" "a \<in> dom L"
  shows "\<exists>m'. free_node (Some a) m = Some m' \<and> bt_nodes m' = (bt_nodes m)(a := None) \<and> heap_rep (L(a := None)) (bt_heap m')"
  using kh.dealloc_some [OF assms] by (auto simp: free_node_def)

lemma restrict_upd_None: "(f |` (- S))(a := None) = f |` (- insert a S)"
  by (auto simp: restrict_map_def)

lemma restrict_UNIV [simp]: "f |` UNIV = f"
  by (simp add: restrict_map_def)

lemma upd_None_restrict: "f(a := None) = f |` (- {a})"
  by (auto simp: restrict_map_def)

lemma destroy_loop_ok:
  "bt_rep (bt_nodes m) t \<Longrightarrow> distinct (addrs t) \<Longrightarrow> heap_rep L (bt_heap m) \<Longrightarrow> set (addrs t) \<subseteq> dom L \<Longrightarrow>
    \<exists>m'. destroy_loop (Some (addr t)) 0 m = Some m' \<and> bt_nodes m' = bt_nodes m |` (- set (addrs t)) \<and>
      heap_rep (L |` (- set (addrs t))) (bt_heap m')"
proof (induction t arbitrary: m L)
  case (BLeaf a kvs)
  then obtain n where n: "bt_nodes m a = Some n" "is_leaf n" by auto
  obtain m' where m': "free_node (Some a) m = Some m'" "bt_nodes m' = (bt_nodes m)(a := None)" "heap_rep (L(a := None)) (bt_heap m')"
    using free_node_ok [of L m a] BLeaf.prems by auto
  then show ?case using n by (subst destroy_loop.simps) (auto simp: node_at_def upd_None_restrict)
next
  case (BNode a kvs ts)
  then obtain n where n: "bt_nodes m a = Some n" "node_rep n kvs" "\<not> is_leaf n" "take (length ts) (children n) = map (Some \<circ> addr) ts"
    and l: "length ts = length kvs + 1" and r: "\<forall>t \<in> set ts. bt_rep (bt_nodes m) t" by auto
  have nk: "num_keys n = int (length kvs)" using n(2) by (simp add: node_rep_def)
  let ?S = "\<lambda>i. set (concat (map addrs (take i ts)))"
  have aS: "a \<notin> ?S i" for i using BNode.prems(2) by (auto dest: in_set_takeD)
  have all: "?S (length ts) = set (concat (map addrs ts))" by simp
  have "\<exists>m'. destroy_loop (Some a) (int i) mi = Some m' \<and> bt_nodes m' = bt_nodes m |` (- set (addrs (BNode a kvs ts))) \<and>
      heap_rep (L |` (- set (addrs (BNode a kvs ts)))) (bt_heap m')"
    if "i \<le> length ts" "bt_nodes mi = bt_nodes m |` (- ?S i)" "heap_rep (L |` (- ?S i)) (bt_heap mi)" for i mi
    using that
  proof (induction "length ts - i" arbitrary: i mi)
    case 0
    then have i: "i = length ts" by simp
    have S: "set (addrs (BNode a kvs ts)) = insert a (?S i)" using i by simp
    have "a \<in> dom (L |` (- ?S i))" using BNode.prems(4) aS by auto
    from free_node_ok [OF 0(4) this] obtain m' where m': "free_node (Some a) mi = Some m'" "bt_nodes m' = (bt_nodes mi)(a := None)"
      "heap_rep ((L |` (- ?S i))(a := None)) (bt_heap m')" by blast
    have "bt_nodes mi a = Some n" using 0(3) n(1) aS by simp
    then have "destroy_loop (Some a) (int i) mi = Some m'" using i nk l m'(1) by (subst destroy_loop.simps) (simp add: node_at_def)
    moreover note m'(2,3) [unfolded 0(3) restrict_upd_None]
    ultimately show ?case unfolding S by blast
  next
    case (Suc d)
    then have i: "i < length ts" by simp
    then have t: "ts ! i \<in> set ts" by simp
    have disj: "set (addrs (ts ! i)) \<inter> ?S i = {}"
    proof -
      have "set (addrs (ts ! i)) \<inter> set (addrs u) = {}" if u: "u \<in> set (take i ts)" for u
      proof -
        obtain j where j: "j < i" "u = ts ! j" using u by (metis in_set_conv_nth length_take min_less_iff_conj nth_take)
        have "set (map addrs ts ! i) \<inter> set (map addrs ts ! j) = {}"
          using BNode.prems(2) i j(1) by (intro distinct_concat_disjoint) auto
        then show ?thesis using i j by simp
      qed
      then show ?thesis unfolding set_concat set_map by blast
    qed
    have S: "?S (Suc i) = ?S i \<union> set (addrs (ts ! i))" using i by (auto simp: take_Suc_conv_app_nth)
    have "bt_rep (bt_nodes mi) (ts ! i)"
      by (rule bt_rep_frame [of "bt_nodes m"]) (use r t Suc.prems(2) disj in \<open>auto simp: restrict_map_def\<close>)
    moreover have "distinct (addrs (ts ! i))" using BNode.prems(2) t by (auto simp: distinct_concat_iff)
    moreover have "set (addrs (ts ! i)) \<subseteq> dom (L |` (- ?S i))" using BNode.prems(4) t disj by auto
    ultimately obtain m' where m': "destroy_loop (Some (addr (ts ! i))) 0 mi = Some m'"
      "bt_nodes m' = bt_nodes mi |` (- set (addrs (ts ! i)))" "heap_rep (L |` (- ?S i) |` (- set (addrs (ts ! i)))) (bt_heap m')"
      using BNode.IH [OF t _ _ Suc.prems(3)] by blast
    have next_m: "bt_nodes m' = bt_nodes m |` (- ?S (Suc i))" "heap_rep (L |` (- ?S (Suc i))) (bt_heap m')"
      using m'(2,3) Suc.prems(2) unfolding S by (simp_all add: restrict_restrict)
    have next_i: "d = length ts - Suc i" "Suc i \<le> length ts" using Suc(2) i by simp_all
    obtain m'' where "destroy_loop (Some a) (int (Suc i)) m' = Some m''" "bt_nodes m'' = bt_nodes m |` (- set (addrs (BNode a kvs ts)))"
      "heap_rep (L |` (- set (addrs (BNode a kvs ts)))) (bt_heap m'')" using Suc(1) [OF next_i next_m] by blast
    moreover have "bt_nodes mi a = Some n" using Suc.prems(2) n(1) aS by simp
    ultimately show ?case using n nk l i child_at [OF n(4) i] m'(1)
      by (subst destroy_loop.simps) (simp add: node_at_def add.commute)
  qed
  from this [of 0 m] show ?case using BNode.prems(3) by simp
qed

end
