(* ===== verification/Btree_Props.thy ===== *)
theory Btree_Props
  imports Btree_Update
begin

text \<open>
  The B-tree as a map from keys to values: the contract of its operations, and where the code leaves it.
\<close>

section \<open>The tree in the heap\<close>

definition btree_rep :: "(u32 \<rightharpoonup> nat) \<Rightarrow> 'v bt option \<Rightarrow> btree \<Rightarrow> 'v bt_mem \<Rightarrow> bool" where
  "btree_rep L T tree m \<longleftrightarrow> heap_rep L (bt_heap m) \<and> root tree = map_option addr T \<and>
     (case T of None \<Rightarrow> True | Some t \<Rightarrow> bt_ok (bt_nodes m) t \<and> set (addrs t) \<subseteq> dom L)"

definition tree_entries :: "'v bt option \<Rightarrow> (u32 \<times> 'v ptr) list" where
  "tree_entries T = (case T of None \<Rightarrow> [] | Some t \<Rightarrow> inorder t)"

lemma map_of_put:
  assumes "key \<notin> fst ` set xs"
  shows "map_of (put key v xs) = (map_of xs)(key \<mapsto> v)"
proof
  fix k
  have *: "map_of (filter P xs) k = map_of xs k" if "\<And>x. x \<in> set xs \<Longrightarrow> fst x = k \<Longrightarrow> P x" for P
    using that by (induction xs) auto
  have no: "map_of (filter P xs) k = None" if "\<And>x. x \<in> set xs \<Longrightarrow> fst x = k \<Longrightarrow> \<not> P x" for P
    using that by (auto simp: map_of_eq_None_iff)
  consider "k < key" | "k = key" | "key < k" by force
  then show "map_of (put key v xs) k = ((map_of xs)(key \<mapsto> v)) k"
  proof cases
    case 1
    then show ?thesis using * [of "\<lambda>x. fst x < key"] no [of "\<lambda>x. key < fst x"] by (auto simp: put_def map_add_def split: option.split)
  next
    case 2
    then show ?thesis using no [of "\<lambda>x. fst x < key"] by (auto simp: put_def map_add_def split: option.split)
  next
    case 3
    then show ?thesis using no [of "\<lambda>x. fst x < key"] * [of "\<lambda>x. key < fst x"] by (auto simp: put_def map_add_def split: option.split)
  qed
qed

lemma sorted_put: "key_sorted xs \<Longrightarrow> key_sorted (put key v xs)"
  by (auto simp: put_def sorted_wrt_append sorted_wrt_map sorted_wrt_filter)

lemma map_of_delete: "map_of (filter (\<lambda>x. fst x \<noteq> key) xs) = (map_of xs)(key := None)"
  by (induction xs) auto

lemma sorted_delete: "key_sorted xs \<Longrightarrow> key_sorted (filter P xs)"
  by (simp add: sorted_wrt_map sorted_wrt_filter)

lemma btree_search_ok: "btree_rep L T tree m \<Longrightarrow> btree_search tree key m = Some (stored (tree_entries T) key)"
  using btree_search_loop_ok [of m] by (auto simp: btree_rep_def btree_search_def tree_entries_def stored_def split: option.splits)

lemma node_create_ok:
  assumes "heap_rep L (bt_heap m)"
  obtains (failed) h where "btree_node_create leaf m = Some (NULL, m\<lparr>bt_heap := h\<rparr>)" "heap_rep L h" "kmalloc sizeof_btree_node (bt_heap m) = Some (NULL, h)"
    | (created) a h k where "btree_node_create leaf m = Some (Some a, m\<lparr>bt_nodes := (bt_nodes m)(a \<mapsto>
         \<lparr>num_keys = 0, keys = replicate BTREE_MAX_KEYS 0, vals = replicate BTREE_MAX_KEYS NULL,
          children = replicate BTREE_ORDER NULL, parent = NULL, is_leaf = leaf\<rparr>), bt_heap := h\<rparr>)" "a \<notin> dom L" "heap_rep (L(a \<mapsto> k)) h"
proof -
  obtain p h where p: "kmalloc sizeof_btree_node (bt_heap m) = Some (p, h)" using kh.alloc_total [OF assms] by blast
  show thesis
  proof (cases p)
    case None
    then show thesis using failed [of h] kh.alloc_null [OF assms] p by (simp add: btree_node_create_def)
  next
    case (Some a)
    then obtain k where k: "a \<notin> dom L" "heap_rep (L(a \<mapsto> k)) h" using kh.alloc_some [OF assms, of sizeof_btree_node a h] p by auto
    have "btree_node_create leaf m = Some (Some a, m\<lparr>bt_nodes := (bt_nodes m)(a \<mapsto>
         \<lparr>num_keys = 0, keys = replicate BTREE_MAX_KEYS 0, vals = replicate BTREE_MAX_KEYS NULL,
          children = replicate BTREE_ORDER NULL, parent = NULL, is_leaf = leaf\<rparr>), bt_heap := h\<rparr>)"
      using Some p by (simp add: btree_node_create_def)
    then show thesis by (rule created) (rule k)+
  qed
qed

section \<open>Insertion\<close>

text \<open>The first insertion creates the root.\<close>

lemma insert_first:
  assumes r: "btree_rep L None tree m"
  obtains (failed) h where "btree_insert tree key v m = Some (- 1, tree, m\<lparr>bt_heap := h\<rparr>)" "btree_rep L None tree (m\<lparr>bt_heap := h\<rparr>)"
      "kmalloc sizeof_btree_node (bt_heap m) = Some (NULL, h)"
    | (created) tree' m' L' a where "btree_insert tree key v m = Some (0, tree', m')" "btree_rep L' (Some (BLeaf a [(key, v)])) tree' m'"
proof -
  have rt: "root tree = NULL" and h: "heap_rep L (bt_heap m)" using r by (auto simp: btree_rep_def)
  have t: "tree\<lparr>root := NULL\<rparr> = tree" using rt by (cases tree) simp
  show thesis
  proof (cases rule: node_create_ok [OF h, of True, case_names failed created])
    case (failed h')
    have "btree_rep L None tree (m\<lparr>bt_heap := h'\<rparr>)" using failed(2) rt by (simp add: btree_rep_def)
    then show thesis using that(1) [of h'] failed t by (simp add: btree_insert_def btree_search_def rt)
  next
    case (created a h' k)
    let ?n = "\<lparr>num_keys = 1, keys = [key, 0, 0, 0], vals = [v, NULL, NULL, NULL], children = replicate 5 NULL, parent = NULL, is_leaf = True\<rparr>"
    let ?m = "m\<lparr>bt_nodes := (bt_nodes m)(a \<mapsto> ?n), bt_heap := h'\<rparr>"
    have "btree_insert tree key v m = Some (0, tree\<lparr>root := Some a, height := 1, num_nodes := 1\<rparr>, ?m)"
      using created(1) by (simp add: btree_insert_def btree_search_def rt upd_node_def node_write numeral_eq_Suc)
    moreover have "btree_rep (L(a \<mapsto> k)) (Some (BLeaf a [(key, v)])) (tree\<lparr>root := Some a, height := 1, num_nodes := 1\<rparr>) ?m"
      using created(2,3) by (simp add: btree_rep_def bt_ok_def node_rep_def)
    ultimately show thesis by (rule that(2))
  qed
qed

lemma insert_room:
  assumes r: "btree_rep L (Some t) tree m" and rm: "room key t" and new: "key \<notin> fst ` set (inorder t)"
  shows "\<exists>m' t'. btree_insert tree key v m = Some (0, tree\<lparr>num_nodes := num_nodes tree + 1\<rparr>, m') \<and>
    btree_rep L (Some t') (tree\<lparr>num_nodes := num_nodes tree + 1\<rparr>) m' \<and> inorder t' = put key v (inorder t)"
proof -
  have ok: "bt_ok (bt_nodes m) t" and rt: "root tree = Some (addr t)" and dom: "set (addrs t) \<subseteq> dom L" "heap_rep L (bt_heap m)"
    using r by (auto simp: btree_rep_def)
  obtain n where n: "bt_nodes m (addr t) = Some n" "num_keys n \<noteq> 4"
    using bt_rep_node [of "bt_nodes m" t] ok room_entries [OF rm] by (auto simp: node_rep_def bt_ok_def)
  obtain m' t' where o: "btree_insert_non_full (Some (addr t)) key v m = Some m'" "bt_rep (bt_nodes m') t'" "addrs t' = addrs t"
    "inorder t' = put key v (inorder t)" "bt_heap m' = bt_heap m" using insert_non_full_ok [OF ok rm new] by blast
  have "map_of (inorder t) key = None" using new by (simp add: map_of_eq_None_iff)
  then have "btree_insert tree key v m = Some (0, tree\<lparr>num_nodes := num_nodes tree + 1\<rparr>, m')"
    using btree_search_ok [OF r, of key] rt n o(1) by (simp add: btree_insert_def node_at_def tree_entries_def stored_def)
  moreover have "btree_rep L (Some t') (tree\<lparr>num_nodes := num_nodes tree + 1\<rparr>) m'"
    using o dom rt ok sorted_put [of "inorder t" key v] addr_cong [OF o(3)] by (simp add: btree_rep_def bt_ok_def)
  ultimately show ?thesis using o(4) by blast
qed

section \<open>Full nodes\<close>

lemma insert_leaf_full:
  assumes "node_rep n kvs" "length kvs = BTREE_MAX_KEYS" shows "insert_leaf key v n = None"
proof -
  have n: "length (keys n) = 4" "num_keys n = 4" using assms by (auto simp: node_rep_def)
  then show ?thesis by (simp add: insert_leaf_def insert_shift.simps [of key 3] node_write)
qed

lemma split_full:
  assumes c: "bt_nodes m a = Some c" "length (keys c) = 4" "length (vals c) = 4" and h: "heap_rep L (bt_heap m)" and a: "a \<in> dom L"
  shows "btree_split_child par i (Some a) m = None \<or>
    (\<exists>h. btree_split_child par i (Some a) m = Some (m\<lparr>bt_heap := h\<rparr>) \<and> heap_rep L h)"
proof (cases rule: node_create_ok [OF h, of "is_leaf c", case_names failed created])
  case (failed h')
  then show ?thesis using c by (auto simp: btree_split_child_def node_at_def)
next
  case (created b h' k)
  then have "b \<noteq> a" using a by auto
  then have "btree_split_child par i (Some a) m = None"
    using c created(1) by (simp add: btree_split_child_def node_at_def upd_node_def node_write upto.simps numeral_eq_Suc)
  then show ?thesis by simp
qed

text \<open>A full leaf as the only child of a root without keys, the state after a failed split.\<close>

lemma insert_unsplit:
  assumes m: "bt_nodes m b = Some n" "num_keys n = 0" "\<not> is_leaf n" "keys n = replicate 4 0" "children n = [Some a, NULL, NULL, NULL, NULL]"
    and c: "bt_nodes m a = Some c" "node_rep c kvs" "length kvs = 4" "is_leaf c"
    and h: "heap_rep L (bt_heap m)" "a \<in> dom L"
  shows "btree_insert_non_full (Some b) key v m = None"
proof -
  have nl: "length (keys c) = 4" "length (vals c) = 4" "num_keys c = 4" using c by (auto simp: node_rep_def)
  have null: "btree_insert_non_full NULL key v m = None" for m :: "'a bt_mem"
    by (subst btree_insert_non_full.simps) (simp add: node_at_def)
  have leaf: "btree_insert_non_full (Some a) key v (m\<lparr>bt_heap := h'\<rparr>) = None" for h'
    using c insert_leaf_full [OF c(2,3)] by (subst btree_insert_non_full.simps) (simp add: node_at_def upd_node_def)
  have "btree_insert_non_full (Some b) key v m = do {
      m \<leftarrow> btree_split_child (Some b) 0 (Some a) m;
      n \<leftarrow> node_at (Some b) m;
      k \<leftarrow> array_get (keys n) 0;
      let i = (if key > k then 1 else 0);
      n \<leftarrow> node_at (Some b) m;
      p \<leftarrow> array_get (children n) i;
      btree_insert_non_full p key v m }"
    using m c(1) nl(3) by (subst btree_insert_non_full.simps) (simp add: node_at_def insert_index.simps [of key "- 1"] array_get_def Let_def cong: if_cong)
  then show ?thesis using split_full [OF c(1) nl(1,2) h, of "Some b" 0] m null leaf by (auto simp: node_at_def array_get_def numeral_eq_Suc)
qed

lemma insert_full_leaf:
  assumes r: "btree_rep L (Some (BLeaf a kvs)) tree m" and full: "length kvs = BTREE_MAX_KEYS" and new: "key \<notin> fst ` set kvs"
  shows "btree_insert tree key v m = None \<or>
    (\<exists>h. btree_insert tree key v m = Some (- 1, tree, m\<lparr>bt_heap := h\<rparr>) \<and> kmalloc sizeof_btree_node (bt_heap m) = Some (NULL, h))"
proof -
  obtain c where c: "bt_nodes m a = Some c" "node_rep c kvs" "is_leaf c" and rt: "root tree = Some a"
    and a: "a \<in> dom L" and h: "heap_rep L (bt_heap m)" using r by (auto simp: btree_rep_def bt_ok_def)
  have nl: "length (keys c) = 4" "length (vals c) = 4" "num_keys c = 4" using c full by (auto simp: node_rep_def)
  have s: "btree_search tree key m = Some NULL"
    using btree_search_ok [OF r, of key] new map_of_eq_None_iff [of kvs key] by (simp add: tree_entries_def stored_def)
  show ?thesis
  proof (cases rule: node_create_ok [OF h, of False, case_names failed created])
    case (failed h')
    then show ?thesis using s rt c nl by (auto simp: btree_insert_def node_at_def)
  next
    case (created b h' k)
    then have ba: "b \<noteq> a" using a by auto
    let ?n = "\<lparr>num_keys = 0, keys = replicate 4 0, vals = replicate 4 NULL, children = [Some a, NULL, NULL, NULL, NULL], parent = NULL, is_leaf = False\<rparr>"
    let ?m = "m\<lparr>bt_heap := h', bt_nodes := (bt_nodes m)(b \<mapsto> ?n, a \<mapsto> c\<lparr>parent := Some b\<rparr>)\<rparr>"
    have c': "bt_nodes ?m a = Some (c\<lparr>parent := Some b\<rparr>)" "node_rep (c\<lparr>parent := Some b\<rparr>) kvs" using c(2) by (simp_all add: node_rep_def)
    have h': "heap_rep (L(b \<mapsto> k)) (bt_heap ?m)" "a \<in> dom (L(b \<mapsto> k))" using created(3) a by auto
    have "btree_insert_non_full (Some b) key v (?m\<lparr>bt_heap := h''\<rparr>) = None" if "heap_rep (L(b \<mapsto> k)) h''" for h''
      by (rule insert_unsplit [where n = ?n and c = "c\<lparr>parent := Some b\<rparr>" and kvs = kvs and L = "L(b \<mapsto> k)"])
        (use ba c' c(3) full that h'(2) in auto)
    moreover have "btree_insert tree key v m = do {
        m \<leftarrow> btree_split_child (Some b) 0 (Some a) ?m;
        m \<leftarrow> btree_insert_non_full (Some b) key v m;
        Some (0, tree\<lparr>root := Some b, height := height tree + 1, num_nodes := num_nodes tree + 1\<rparr>, m) }"
      using s rt c nl(3) created(1) ba
      by (simp add: btree_insert_def node_at_def upd_node_def set_child_def array_set_def Let_def numeral_eq_Suc)
    ultimately show ?thesis using split_full [OF c'(1) _ _ h', of "Some b" 0] nl by auto
  qed
qed

text \<open>Two concrete trees: one of height two, and a full leaf.\<close>

definition demo_node :: "(u32 \<times> u32 ptr) list \<Rightarrow> u32 ptr list \<Rightarrow> u32 btree_node" where
  "demo_node kvs cs = \<lparr>num_keys = int (length kvs), keys = map fst kvs @ replicate (4 - length kvs) 0,
     vals = map snd kvs @ replicate (4 - length kvs) NULL, children = cs @ replicate (5 - length cs) NULL, parent = NULL, is_leaf = (cs = [])\<rparr>"

definition demo_tree :: "u32 bt" where
  "demo_tree = BNode 12 [(10, Some 1)] [BLeaf 88 [(5, Some 2)], BLeaf 228 [(20, Some 3), (30, Some 4)]]"

definition demo_mem :: "kheap \<Rightarrow> u32 bt_mem" where
  "demo_mem h = \<lparr>bt_nodes = [12 \<mapsto> demo_node [(10, Some 1)] [Some 88, Some 228], 88 \<mapsto> demo_node [(5, Some 2)] [],
     228 \<mapsto> demo_node [(20, Some 3), (30, Some 4)] []], bt_heap = h\<rparr>"

definition full_mem :: "kheap \<Rightarrow> u32 bt_mem" where
  "full_mem h = \<lparr>bt_nodes = [12 \<mapsto> demo_node [(1, Some 1), (2, Some 2), (3, Some 3), (4, Some 4)] []], bt_heap = h\<rparr>"

lemma demo_bt_rep: "bt_rep (bt_nodes (demo_mem h)) demo_tree" "distinct (addrs demo_tree)" "key_sorted (inorder demo_tree)"
  by (simp_all add: demo_tree_def demo_mem_def demo_node_def node_rep_def)

lemma demo_live: "\<exists>h L. kmalloc_demo = Some h \<and> heap_rep L h \<and> {12, 88, 228} \<subseteq> dom L"
proof -
  obtain h where h: "kmalloc_demo = Some h" "heap_ok [(False, 64), (False, 128), (False, 256), (False, 8), (True, 4193788)] h"
    using demo_heap by blast
  let ?L = "\<lambda>p. map_of (live 0 [(False, 64), (False, 128), (False, 256), (False, 8), (True, 4193788)]) (unat (p :: u32))"
  have "heap_rep ?L h" using h(2) unfolding heap_rep_def by blast
  moreover have "{12, 88, 228} \<subseteq> dom ?L" by (simp add: dom_def)
  ultimately show ?thesis using h(1) by blast
qed

lemma demo_btree_rep: "\<exists>h L. kmalloc_demo = Some h \<and> btree_rep L (Some demo_tree) \<lparr>root = Some 12, height = 2, num_nodes = 4\<rparr> (demo_mem h)"
proof -
  obtain h L where h: "kmalloc_demo = Some h" "heap_rep L h" "{12, 88, 228} \<subseteq> dom L" using demo_live by blast
  have "bt_heap (demo_mem h) = h" "addr demo_tree = 12" "set (addrs demo_tree) = {12, 88, 228}"
    by (simp_all add: demo_mem_def demo_tree_def)
  then have "btree_rep L (Some demo_tree) \<lparr>root = Some 12, height = 2, num_nodes = 4\<rparr> (demo_mem h)"
    using h demo_bt_rep(1) [of h] demo_bt_rep(2,3) by (simp add: btree_rep_def bt_ok_def)
  then show ?thesis using h(1) by blast
qed

lemma full_btree_rep:
  "\<exists>h L. kmalloc_demo = Some h \<and>
    btree_rep L (Some (BLeaf 12 [(1, Some 1), (2, Some 2), (3, Some 3), (4, Some 4)])) \<lparr>root = Some 12, height = 1, num_nodes = 4\<rparr> (full_mem h)"
proof -
  obtain h L where h: "kmalloc_demo = Some h" "heap_rep L h" "{12, 88, 228} \<subseteq> dom L" using demo_live by blast
  then show ?thesis by (auto simp: btree_rep_def bt_ok_def full_mem_def demo_node_def node_rep_def)
qed

section \<open>Properties\<close>

text \<open>On a well-formed B-tree of any height \<open>btree_search\<close> terminates, follows only
  valid pointers and returns the value that the in-order map holds for the key, or \<open>NULL\<close>.\<close>

theorem btree_search_correct:
  assumes "btree_rep L T tree m"
  shows "btree_search tree key m = Some (case map_of (tree_entries T) key of None \<Rightarrow> NULL | Some v \<Rightarrow> v)"
  using btree_search_ok [OF assms] by (simp add: stored_def)

theorem btree_search_correct_witness:
  "\<exists>h. kmalloc_demo = Some h \<and> btree_search \<lparr>root = Some 12, height = 2, num_nodes = 4\<rparr> 30 (demo_mem h) = Some (Some 4)"
proof -
  obtain h L where h: "kmalloc_demo = Some h" "btree_rep L (Some demo_tree) \<lparr>root = Some 12, height = 2, num_nodes = 4\<rparr> (demo_mem h)"
    using demo_btree_rep by blast
  have "btree_search \<lparr>root = Some 12, height = 2, num_nodes = 4\<rparr> 30 (demo_mem h) = Some (Some 4)"
    unfolding btree_search_correct [OF h(2)] by (simp add: tree_entries_def demo_tree_def)
  then show ?thesis using h(1) by blast
qed

text \<open>C35: if no node on the path of the key is full and all values are non-null, \<open>btree_insert\<close> adds a new key
  to the map and leaves a well-formed tree, and for a key that is present it returns \<open>-1\<close> and changes nothing.  Otherwise it fails with \<open>-1\<close>
  only when the root has to be created and \<open>kmalloc\<close> fails.\<close>

theorem btree_insert_correct:
  assumes r: "btree_rep L T tree m" and nn: "NULL \<notin> snd ` set (tree_entries T)" and rm: "\<forall>t. T = Some t \<longrightarrow> room key t"
  shows "\<exists>r tree' m' L' T'. btree_insert tree key v m = Some (r, tree', m') \<and> btree_rep L' T' tree' m' \<and>
    (if key \<in> dom (map_of (tree_entries T)) then r = - 1 \<and> T' = T \<and> m' = m \<and> tree' = tree
     else if r = - 1 then T = None \<and> T' = None \<and> (\<exists>h. kmalloc sizeof_btree_node (bt_heap m) = Some (NULL, h))
     else r = 0 \<and> map_of (tree_entries T') = (map_of (tree_entries T))(key \<mapsto> v))"
proof (cases "key \<in> dom (map_of (tree_entries T))")
  case True
  then obtain w where w: "map_of (tree_entries T) key = Some w" by auto
  then have "w \<noteq> NULL" using nn map_of_SomeD [OF w] by (metis imageI snd_conv)
  then have "btree_insert tree key v m = Some (- 1, tree, m)" using btree_search_ok [OF r, of key] w by (simp add: btree_insert_def stored_def)
  then show ?thesis using True r by auto
next
  case False
  show ?thesis
  proof (cases T)
    case None
    show ?thesis
    proof (cases rule: insert_first [OF r [unfolded None], of key v, case_names failed created])
      case (failed h)
      then show ?thesis using None by (auto simp: tree_entries_def intro!: exI [of _ L] exI [of _ None])
    next
      case (created tree' m' L' a)
      then show ?thesis using None
        by (intro exI [of _ 0] exI [of _ tree'] exI [of _ m'] exI [of _ L'] exI [of _ "Some (BLeaf a [(key, v)])"]) (auto simp: tree_entries_def)
    qed
  next
    case (Some t)
    have new: "key \<notin> fst ` set (inorder t)" using False Some by (simp add: tree_entries_def domIff map_of_eq_None_iff)
    obtain m' t' where o: "btree_insert tree key v m = Some (0, tree\<lparr>num_nodes := num_nodes tree + 1\<rparr>, m')"
      "btree_rep L (Some t') (tree\<lparr>num_nodes := num_nodes tree + 1\<rparr>) m'" "inorder t' = put key v (inorder t)"
      using insert_room [OF r [unfolded Some], of key v] rm Some new by auto
    have "map_of (tree_entries (Some t')) = (map_of (tree_entries T))(key \<mapsto> v)"
      using o(3) map_of_put [OF new, of v] Some by (simp add: tree_entries_def)
    then show ?thesis using o(1,2) False
      by (intro exI [of _ 0] exI [of _ "tree\<lparr>num_nodes := num_nodes tree + 1\<rparr>"] exI [of _ m'] exI [of _ L] exI [of _ "Some t'"]) auto
  qed
qed

theorem btree_insert_correct_witness:
  "\<exists>h tree' m' L' T'. kmalloc_demo = Some h \<and>
     btree_insert \<lparr>root = Some 12, height = 2, num_nodes = 4\<rparr> 7 (Some 9) (demo_mem h) = Some (0, tree', m') \<and>
     btree_rep L' T' tree' m' \<and> map_of (tree_entries T') = (map_of (tree_entries (Some demo_tree)))(7 \<mapsto> Some 9)"
proof -
  obtain h L where h: "kmalloc_demo = Some h" "btree_rep L (Some demo_tree) \<lparr>root = Some 12, height = 2, num_nodes = 4\<rparr> (demo_mem h)"
    using demo_btree_rep by blast
  have "NULL \<notin> snd ` set (tree_entries (Some demo_tree))" "\<forall>t. Some demo_tree = Some t \<longrightarrow> room 7 t"
    "7 \<notin> dom (map_of (tree_entries (Some demo_tree)))"
    by (simp_all add: tree_entries_def demo_tree_def below_def)
  then show ?thesis using btree_insert_correct [OF h(2), of 7 "Some 9"] h(1) by (auto split: if_splits)
qed

text \<open>C36: \<open>btree_delete\<close> removes a key that stands in a leaf from the map, keeps every other key
  and leaves a well-formed tree; for a key of an inner node, or a missing one, it returns \<open>-1\<close> and changes nothing.\<close>

theorem btree_delete_correct:
  assumes r: "btree_rep L T tree m"
  shows "\<exists>r tree' m' T'. btree_delete tree key m = Some (r, tree', m') \<and> btree_rep L T' tree' m' \<and>
    (if \<exists>t. T = Some t \<and> key \<in> leaf_keys t then r = 0 \<and> map_of (tree_entries T') = (map_of (tree_entries T))(key := None)
     else r = - 1 \<and> T' = T \<and> tree' = tree \<and> m' = m)"
proof (cases T)
  case None
  then have "btree_delete tree key m = Some (- 1, tree, m)" using r by (simp add: btree_delete_def btree_rep_def)
  then show ?thesis using r None by auto
next
  case (Some t)
  then have ok: "bt_ok (bt_nodes m) t" and rt: "root tree = Some (addr t)" and dom: "set (addrs t) \<subseteq> dom L" "heap_rep L (bt_heap m)"
    using r by (auto simp: btree_rep_def)
  let ?tree = "tree\<lparr>num_nodes := num_nodes tree - 1\<rparr>"
  obtain m' t' where o: "btree_delete tree key m = Some (if key \<in> leaf_keys t then (0, ?tree, m') else (- 1, tree, m))"
    "key \<in> leaf_keys t \<longrightarrow> bt_rep (bt_nodes m') t' \<and> addrs t' = addrs t \<and> inorder t' = filter (\<lambda>x. fst x \<noteq> key) (inorder t) \<and>
      bt_heap m' = bt_heap m"
    using delete_loop_ok [OF ok, of tree key] rt unfolding btree_delete_def by auto
  show ?thesis
  proof (cases "key \<in> leaf_keys t")
    case True
    then have "btree_rep L (Some t') ?tree m'" using o(2) dom rt ok addr_cong [of t' t] sorted_delete [of "inorder t"]
      by (simp add: btree_rep_def bt_ok_def)
    moreover have "map_of (tree_entries (Some t')) = (map_of (tree_entries T))(key := None)"
      using o(2) True Some by (simp add: tree_entries_def map_of_delete)
    ultimately show ?thesis using True o(1) Some by (intro exI [of _ 0] exI [of _ ?tree] exI [of _ m'] exI [of _ "Some t'"]) simp
  next
    case False
    then show ?thesis using o(1) r Some by auto
  qed
qed

theorem btree_delete_correct_witness:
  "\<exists>h tree' m' L T'. kmalloc_demo = Some h \<and> btree_delete \<lparr>root = Some 12, height = 2, num_nodes = 4\<rparr> 20 (demo_mem h) = Some (0, tree', m') \<and>
     btree_rep L T' tree' m' \<and> map_of (tree_entries T') = (map_of (tree_entries (Some demo_tree)))(20 := None)"
proof -
  obtain h L where h: "kmalloc_demo = Some h" "btree_rep L (Some demo_tree) \<lparr>root = Some 12, height = 2, num_nodes = 4\<rparr> (demo_mem h)"
    using demo_btree_rep by blast
  have "20 \<in> leaf_keys demo_tree" by (simp add: demo_tree_def)
  then obtain tree' m' T' where "btree_delete \<lparr>root = Some 12, height = 2, num_nodes = 4\<rparr> 20 (demo_mem h) = Some (0, tree', m')"
    "btree_rep L T' tree' m'" "map_of (tree_entries T') = (map_of (tree_entries (Some demo_tree)))(20 := None)"
    using btree_delete_correct [OF h(2), of 20] by auto
  then show ?thesis using h(1) by blast
qed

text \<open>\<open>btree_traverse\<close> calls the callback once for every entry of the tree, in increasing order of the keys.\<close>

theorem btree_traverse_sorted:
  assumes "btree_rep L T tree m"
  shows "btree_traverse tree cb m s = Some (fold (\<lambda>x. cb (fst x) (snd x)) (tree_entries T) s) \<and>
    sorted_wrt (<) (map fst (tree_entries T))"
proof (cases T)
  case None
  then show ?thesis using assms by (auto simp: btree_traverse_def tree_entries_def btree_rep_def traverse_loop.simps)
next
  case (Some t)
  then show ?thesis using assms traverse_loop_ok [of m t cb s] by (auto simp: btree_traverse_def tree_entries_def btree_rep_def bt_ok_def)
qed

theorem btree_traverse_sorted_witness:
  "\<exists>h. kmalloc_demo = Some h \<and>
     btree_traverse \<lparr>root = Some 12, height = 2, num_nodes = 4\<rparr> (\<lambda>k v ks. ks @ [k]) (demo_mem h) [] = Some [5, 10, 20, 30]"
proof -
  obtain h L where h: "kmalloc_demo = Some h" "btree_rep L (Some demo_tree) \<lparr>root = Some 12, height = 2, num_nodes = 4\<rparr> (demo_mem h)"
    using demo_btree_rep by blast
  have "btree_traverse \<lparr>root = Some 12, height = 2, num_nodes = 4\<rparr> (\<lambda>k v ks. ks @ [k]) (demo_mem h) [] = Some [5, 10, 20, 30]"
    using btree_traverse_sorted [OF h(2), of "\<lambda>k v ks. ks @ [k]" "[]"] by (simp add: tree_entries_def demo_tree_def)
  then show ?thesis using h(1) by blast
qed

text \<open>\<open>btree_destroy\<close> frees every node of the tree exactly once, and no other block of the heap, without
  reading a freed node.\<close>

theorem btree_destroy_frees:
  assumes "btree_rep L (Some t) tree m"
  shows "\<exists>tree' m'. btree_destroy tree m = Some (tree', m') \<and> btree_rep (L |` (- set (addrs t))) None tree' m' \<and>
    bt_nodes m' = bt_nodes m |` (- set (addrs t))"
proof -
  obtain m' where "destroy_loop (root tree) 0 m = Some m'" "bt_nodes m' = bt_nodes m |` (- set (addrs t))"
    "heap_rep (L |` (- set (addrs t))) (bt_heap m')"
    using destroy_loop_ok [of m t L] assms by (auto simp: btree_rep_def bt_ok_def)
  then show ?thesis by (simp add: btree_destroy_def btree_rep_def)
qed

theorem btree_destroy_frees_witness:
  "\<exists>h L tree' m'. kmalloc_demo = Some h \<and> btree_destroy \<lparr>root = Some 12, height = 2, num_nodes = 4\<rparr> (demo_mem h) = Some (tree', m') \<and>
     btree_rep (L |` (- {12, 88, 228})) None tree' m' \<and> bt_nodes m' = Map.empty"
proof -
  obtain h L where h: "kmalloc_demo = Some h" "btree_rep L (Some demo_tree) \<lparr>root = Some 12, height = 2, num_nodes = 4\<rparr> (demo_mem h)"
    using demo_btree_rep by blast
  have a: "set (addrs demo_tree) = {12, 88, 228}" by (simp add: demo_tree_def)
  have "bt_nodes (demo_mem h) |` (- {12, 88, 228}) = Map.empty" by (auto simp: demo_mem_def restrict_map_def)
  then show ?thesis using btree_destroy_frees [OF h(2)] h(1) unfolding a by auto
qed

text \<open>C37: an insertion of a new key into a tree whose root is a full leaf never succeeds: if the new root can be
  allocated, the split of the old one accesses \<open>keys[4]\<close> of an array with four elements (or the insertion writes there or follows a null pointer, when the
  second allocation fails).\<close>

theorem btree_fifth_insert_undefined:
  assumes r: "btree_rep L (Some (BLeaf a kvs)) tree m" and full: "length kvs = BTREE_MAX_KEYS" and new: "key \<notin> fst ` set kvs"
  shows "btree_insert tree key v m = None \<or>
    (\<exists>h. btree_insert tree key v m = Some (- 1, tree, m\<lparr>bt_heap := h\<rparr>) \<and> kmalloc sizeof_btree_node (bt_heap m) = Some (NULL, h))"
  by (rule insert_full_leaf [OF assms])

theorem btree_fifth_insert_undefined_witness:
  "\<exists>h. kmalloc_demo = Some h \<and> btree_insert \<lparr>root = Some 12, height = 1, num_nodes = 4\<rparr> 5 (Some 5) (full_mem h) = None"
proof -
  obtain h L where h: "kmalloc_demo = Some h"
    "btree_rep L (Some (BLeaf 12 [(1, Some 1), (2, Some 2), (3, Some 3), (4, Some 4)])) \<lparr>root = Some 12, height = 1, num_nodes = 4\<rparr> (full_mem h)"
    using full_btree_rep by blast
  obtain h' where h': "kmalloc_demo = Some h'" "heap_ok [(False, 64), (False, 128), (False, 256), (False, 8), (True, 4193788)] h'"
    using demo_heap by blast
  have "unat (round8 64) = 64" by code_simp
  then have "\<exists>p h''. kmalloc sizeof_btree_node h' = Some (Some p, h'')"
    using kmalloc_some [OF h'(2), of 64] by (auto simp: sizeof_btree_node_def)
  moreover have "h' = h" using h(1) h'(1) by (metis option.inject)
  moreover have "bt_heap (full_mem h) = h" by (simp add: full_mem_def)
  ultimately have "btree_insert \<lparr>root = Some 12, height = 1, num_nodes = 4\<rparr> 5 (Some 5) (full_mem h) = None"
    using btree_fifth_insert_undefined [OF h(2), of 5 "Some 5"] by auto
  then show ?thesis using h(1) by blast
qed

text \<open>\<open>btree_merge_children\<close> on two neighbours of which the right one holds at least the minimum of two keys writes
  past the array of the left one.\<close>

theorem btree_merge_overflow:
  assumes r: "bt_rep (bt_nodes m) (BNode a kvs ts)" and d: "distinct (addrs (BNode a kvs ts))" and i: "i < length kvs"
    and full: "2 \<le> length (entries (ts ! Suc i))"
  shows "btree_merge_children (Some a) (int i) m = None"
proof -
  obtain n where n: "bt_nodes m a = Some n" "node_rep n kvs" "take (length ts) (children n) = map (Some \<circ> addr) ts"
    and l: "length ts = length kvs + 1" using r by auto
  have il: "i < length ts" "Suc i < length ts" using i l by auto
  obtain c where c: "bt_nodes m (addr (ts ! i)) = Some c" "node_rep c (entries (ts ! i))" using bt_rep_node [of "bt_nodes m" "ts ! i"] r il by auto
  obtain s where s: "bt_nodes m (addr (ts ! Suc i)) = Some s" "node_rep s (entries (ts ! Suc i))"
    using bt_rep_node [of "bt_nodes m" "ts ! Suc i"] r il by auto
  have "set (map addrs ts ! i) \<inter> set (map addrs ts ! Suc i) = {}" using d il by (intro distinct_concat_disjoint) auto
  then have ne: "addr (ts ! i) \<noteq> addr (ts ! Suc i)" using il by (metis addr_in_addrs disjoint_iff nth_map)
  have len: "length (keys c) = 4" "length (vals c) = 4" "length (keys s) = 4" "length (vals s) = 4" "2 \<le> num_keys s"
    using c(2) s(2) full by (auto simp: node_rep_def)
  have "[0..num_keys s - 1] = 0 # 1 # [2..num_keys s - 1]" using len(5) by (simp add: upto.simps)
  moreover have "addr (ts ! i) \<noteq> a" using d nth_mem [OF il(1)] addr_in_addrs [of "ts ! i"] by auto
  ultimately show ?thesis
    using n c s ne len child_at [OF n(3) il(1)] child_at [OF n(3) il(2)] node_rep_key [OF n(2) i] node_rep_val [OF n(2) i]
    by (simp add: btree_merge_children_def node_at_def upd_node_def node_write add.commute)
qed

theorem btree_merge_overflow_witness: "btree_merge_children (Some 12) 0 (demo_mem h) = None"
  using btree_merge_overflow [of "demo_mem h" 12 "[(10, Some 1)]" "[BLeaf 88 [(5, Some 2)], BLeaf 228 [(20, Some 3), (30, Some 4)]]" 0]
    demo_bt_rep(1) [of h] demo_bt_rep(2,3) by (simp add: demo_tree_def)

end
