(* ===== verification/Inode.thy ===== *)
theory Inode
  imports Btree_Props Kbytes Kstring
begin

text \<open>
  The i-node file system of src/inode.h and src/inode.c: a table of 256 i-nodes, two bitmaps, a storage area
  of 1024 blocks of 512 bytes in the kernel heap, and two B-trees, from i-node numbers and from hashes of names to i-nodes.
  A pointer to an i-node is its index in the table.  \<open>tree_mem\<close> holds the B-tree nodes and the allocator, \<open>disk\<close> the bytes
  of the heap.  The time stamps of an i-node, which the code never touches, and the messages are not modelled.
\<close>

unbundle bit_operations_syntax

section \<open>Data\<close>

abbreviation (input) "MAX_INODE_COUNT \<equiv> (256 :: nat)"
abbreviation (input) "MAX_FILENAME_LEN \<equiv> (64 :: int)"
abbreviation (input) "DIRECT_BLOCKS \<equiv> (10 :: nat)"
abbreviation (input) "FS_BLOCK_SIZE \<equiv> (512 :: u32)"
abbreviation (input) "MAX_BLOCKS \<equiv> (1024 :: nat)"
abbreviation (input) "PERM_READ \<equiv> (4 :: u32)"
abbreviation (input) "PERM_WRITE \<equiv> (2 :: u32)"

record inode =
  inode_num :: u32
  itype :: u32
  isize :: u32
  permissions :: u32
  link_count :: u32
  block_count :: u32
  direct_blocks :: "u32 list"
  indirect_block :: u32
  double_indirect_block :: u32
  in_use :: bool

record btree_filesystem =
  inode_tree :: btree
  name_tree :: btree
  inodes :: "inode list"
  block_storage :: "u32 ptr"
  block_bitmap :: "u32 list"
  inode_bitmap :: "u32 list"
  total_inodes :: int
  free_inodes :: int
  total_blocks :: int
  free_blocks :: int
  tree_mem :: "nat bt_mem"
  disk :: bytes

text \<open>Access to an i-node through a pointer.\<close>

definition inode_at :: "nat \<Rightarrow> btree_filesystem \<Rightarrow> inode option" where
  "inode_at p fs = (if p < length (inodes fs) then Some (inodes fs ! p) else None)"

definition upd_inode :: "nat \<Rightarrow> (inode \<Rightarrow> inode) \<Rightarrow> btree_filesystem \<Rightarrow> btree_filesystem option" where
  "upd_inode p f fs = (if p < length (inodes fs) then Some (fs\<lparr>inodes := (inodes fs)[p := f (inodes fs ! p)]\<rparr>) else None)"

section \<open>Hashing\<close>

fun hash_loop :: "u32 \<Rightarrow> u8 list \<Rightarrow> u32 option" where
  "hash_loop hash [] = None"
| "hash_loop hash (c # str) = (if c \<noteq> 0 then hash_loop ((push_bit 5 hash + hash) + ucast c) str else Some hash)"

definition hash_string :: "u8 list \<Rightarrow> u32 option" where
  "hash_string str = hash_loop 5381 str"

section \<open>Bitmaps\<close>

definition bitmap_init :: "u32 list \<Rightarrow> nat \<Rightarrow> u32 list option" where
  "bitmap_init bitmap sz = (if sz \<le> length bitmap then Some (replicate sz 0 @ drop sz bitmap) else None)"

definition bit_mask :: "nat \<Rightarrow> u32" where
  "bit_mask k = push_bit (k mod 32) 1"

definition bitmap_set :: "u32 list \<Rightarrow> nat \<Rightarrow> u32 list option" where
  "bitmap_set bitmap k = do {
     w \<leftarrow> array_get bitmap (int (k div 32));
     array_set bitmap (int (k div 32)) (w OR bit_mask k) }"

definition bitmap_clear :: "u32 list \<Rightarrow> nat \<Rightarrow> u32 list option" where
  "bitmap_clear bitmap k = do {
     w \<leftarrow> array_get bitmap (int (k div 32));
     array_set bitmap (int (k div 32)) (w AND NOT (bit_mask k)) }"

definition bitmap_test :: "u32 list \<Rightarrow> nat \<Rightarrow> bool option" where
  "bitmap_test bitmap k = do {
     w \<leftarrow> array_get bitmap (int (k div 32));
     Some (w AND bit_mask k \<noteq> 0) }"

text \<open>The loop over the bits, whose result is the index of the first clear one; it serves \<open>bitmap_find_free\<close> and \<open>block_alloc\<close>.\<close>

primrec find_free_loop :: "u32 list \<Rightarrow> nat list \<Rightarrow> nat ptr option" where
  "find_free_loop bitmap [] = Some NULL"
| "find_free_loop bitmap (i # is) = do {
     b \<leftarrow> bitmap_test bitmap i;
     if \<not> b then Some (Some i) else find_free_loop bitmap is }"

definition bitmap_find_free :: "u32 list \<Rightarrow> nat \<Rightarrow> int option" where
  "bitmap_find_free bitmap max_bits = do {
     i \<leftarrow> find_free_loop bitmap [0..<max_bits];
     Some (case i of None \<Rightarrow> - 1 | Some i \<Rightarrow> int i) }"

section \<open>Initialisation\<close>

text \<open>A failed allocation of the storage ends in \<open>PANIC\<close>, which does not return: also \<open>None\<close>.\<close>

definition inode_fs_init :: "btree_filesystem \<Rightarrow> btree_filesystem option" where
  "inode_fs_init fs = do {
     let fs = fs\<lparr>inode_tree := btree_init (inode_tree fs), name_tree := btree_init (name_tree fs)\<rparr>;
     (p, h) \<leftarrow> kmalloc (FS_BLOCK_SIZE * of_nat MAX_BLOCKS) (bt_heap (tree_mem fs));
     let fs = fs\<lparr>tree_mem := (tree_mem fs)\<lparr>bt_heap := h\<rparr>, block_storage := p\<rparr>;
     if p = NULL then None
     else do {
       bm \<leftarrow> bitmap_init (block_bitmap fs) (MAX_BLOCKS div 32);
       im \<leftarrow> bitmap_init (inode_bitmap fs) (MAX_INODE_COUNT div 32);
       if length (inodes fs) < MAX_INODE_COUNT then None
       else Some (fs\<lparr>block_bitmap := bm, inode_bitmap := im,
         inodes := map (\<lambda>i. if i < MAX_INODE_COUNT then (inodes fs ! i)\<lparr>in_use := False, inode_num := of_nat i\<rparr> else inodes fs ! i)
           [0..<length (inodes fs)],
         total_inodes := int MAX_INODE_COUNT, free_inodes := int MAX_INODE_COUNT,
         total_blocks := int MAX_BLOCKS, free_blocks := int MAX_BLOCKS\<rparr>) } }"

section \<open>Blocks\<close>

definition block_get_ptr :: "btree_filesystem \<Rightarrow> u32 \<Rightarrow> u32 ptr" where
  "block_get_ptr fs block_num =
     (if block_num = 0 \<or> block_num \<ge> of_nat MAX_BLOCKS then NULL
      else map_option (\<lambda>s. s + block_num * FS_BLOCK_SIZE) (block_storage fs))"

definition block_alloc :: "btree_filesystem \<Rightarrow> (u32 \<times> btree_filesystem) option" where
  "block_alloc fs = do {
     i \<leftarrow> find_free_loop (block_bitmap fs) [1..<MAX_BLOCKS];
     case i of None \<Rightarrow> Some (0, fs)
     | Some i \<Rightarrow> do {
         bm \<leftarrow> bitmap_set (block_bitmap fs) i;
         let fs = fs\<lparr>block_bitmap := bm, free_blocks := free_blocks fs - 1\<rparr>;
         let fs = (case block_get_ptr fs (of_nat i) of None \<Rightarrow> fs
                   | Some p \<Rightarrow> fs\<lparr>disk := write_bytes p (replicate (unat FS_BLOCK_SIZE) 0) (disk fs)\<rparr>);
         Some (of_nat i, fs) } }"

definition block_free :: "u32 \<Rightarrow> btree_filesystem \<Rightarrow> btree_filesystem option" where
  "block_free block_num fs =
     (if block_num = 0 \<or> block_num \<ge> of_nat MAX_BLOCKS then Some fs
      else do {
        bm \<leftarrow> bitmap_clear (block_bitmap fs) (unat block_num);
        Some (fs\<lparr>block_bitmap := bm, free_blocks := free_blocks fs + 1\<rparr>) })"

definition block_is_allocated :: "u32 \<Rightarrow> btree_filesystem \<Rightarrow> bool option" where
  "block_is_allocated block_num fs = bitmap_test (block_bitmap fs) (unat block_num)"

section \<open>I-nodes\<close>

definition inode_alloc :: "u32 \<Rightarrow> btree_filesystem \<Rightarrow> (nat ptr \<times> btree_filesystem) option" where
  "inode_alloc ty fs = do {
     num \<leftarrow> bitmap_find_free (inode_bitmap fs) MAX_INODE_COUNT;
     if num < 0 then Some (NULL, fs)
     else do {
       im \<leftarrow> bitmap_set (inode_bitmap fs) (nat num);
       let fs = fs\<lparr>inode_bitmap := im\<rparr>;
       fs \<leftarrow> upd_inode (nat num) (\<lambda>ino. ino\<lparr>inode_num := word_of_int num, itype := ty, isize := 0, permissions := PERM_READ OR PERM_WRITE,
         link_count := 1, block_count := 0, in_use := True, direct_blocks := replicate DIRECT_BLOCKS 0,
         indirect_block := 0, double_indirect_block := 0\<rparr>) fs;
       (r, tree, m) \<leftarrow> btree_insert (inode_tree fs) (word_of_int num) (Some (nat num)) (tree_mem fs);
       Some (Some (nat num), fs\<lparr>inode_tree := tree, tree_mem := m, free_inodes := free_inodes fs - 1\<rparr>) } }"

primrec free_blocks_loop :: "inode \<Rightarrow> nat list \<Rightarrow> btree_filesystem \<Rightarrow> btree_filesystem option" where
  "free_blocks_loop ino [] fs = Some fs"
| "free_blocks_loop ino (i # is) fs =
     (if of_nat i < block_count ino then do {
        b \<leftarrow> array_get (direct_blocks ino) (int i);
        fs \<leftarrow> (if b > 0 then block_free b fs else Some fs);
        free_blocks_loop ino is fs }
      else Some fs)"

definition inode_free :: "nat ptr \<Rightarrow> btree_filesystem \<Rightarrow> btree_filesystem option" where
  "inode_free p fs =
     (case p of None \<Rightarrow> Some fs
      | Some i \<Rightarrow> do {
          ino \<leftarrow> inode_at i fs;
          if \<not> in_use ino then Some fs
          else do {
            fs \<leftarrow> free_blocks_loop ino [0..<DIRECT_BLOCKS] fs;
            (r, tree, m) \<leftarrow> btree_delete (inode_tree fs) (inode_num ino) (tree_mem fs);
            let fs = fs\<lparr>inode_tree := tree, tree_mem := m\<rparr>;
            im \<leftarrow> bitmap_clear (inode_bitmap fs) (unat (inode_num ino));
            fs \<leftarrow> upd_inode i (\<lambda>ino. ino\<lparr>in_use := False\<rparr>) (fs\<lparr>inode_bitmap := im\<rparr>);
            Some (fs\<lparr>free_inodes := free_inodes fs + 1\<rparr>) } })"

definition inode_get :: "u32 \<Rightarrow> btree_filesystem \<Rightarrow> nat ptr option" where
  "inode_get num fs = btree_search (inode_tree fs) num (tree_mem fs)"

section \<open>Reading and writing\<close>

text \<open>The bounds that both loops compute: index and offset of the block, and the number of bytes in it.\<close>

definition chunk :: "u32 \<Rightarrow> u32 \<Rightarrow> u32 \<Rightarrow> u32 \<times> u32 \<times> u32" where
  "chunk offset sz bytes_done =
     (let block_offset = (offset + bytes_done) mod FS_BLOCK_SIZE;
          n = FS_BLOCK_SIZE - block_offset
      in ((offset + bytes_done) div FS_BLOCK_SIZE, block_offset, if n > sz - bytes_done then sz - bytes_done else n))"

text \<open>\<open>buf\<close> is what has been stored in the caller's buffer.\<close>

partial_function (option) inode_read_loop ::
    "inode \<Rightarrow> btree_filesystem \<Rightarrow> u32 \<Rightarrow> u32 \<Rightarrow> u32 \<Rightarrow> u8 list \<Rightarrow> (u32 \<times> u8 list) option" where
  "inode_read_loop ino fs offset sz bytes_read buf =
     (if bytes_read < sz then
        (case chunk offset sz bytes_read of (block_idx, block_offset, bytes_to_read) \<Rightarrow>
           if block_idx \<ge> of_nat DIRECT_BLOCKS then Some (bytes_read, buf)
           else do {
             block_num \<leftarrow> array_get (direct_blocks ino) (uint block_idx);
             if block_num = 0 then Some (bytes_read, buf)
             else (case block_get_ptr fs block_num of None \<Rightarrow> Some (bytes_read, buf)
               | Some p \<Rightarrow> inode_read_loop ino fs offset sz (bytes_read + bytes_to_read)
                   (buf @ read_bytes (disk fs) (p + block_offset) (unat bytes_to_read))) })
      else Some (bytes_read, buf))"

definition inode_read :: "nat ptr \<Rightarrow> u32 \<Rightarrow> u32 \<Rightarrow> btree_filesystem \<Rightarrow> (u32 \<times> u8 list) option" where
  "inode_read p offset sz fs =
     (case p of None \<Rightarrow> Some (0, [])
      | Some i \<Rightarrow> do {
          ino \<leftarrow> inode_at i fs;
          if offset \<ge> isize ino then Some (0, [])
          else inode_read_loop ino fs offset (if offset + sz > isize ino then isize ino - offset else sz) 0 [] })"

text \<open>The bytes from position \<open>n\<close> of the caller's data.\<close>

definition data_at :: "u8 list \<Rightarrow> u32 \<Rightarrow> u32 \<Rightarrow> u8 list option" where
  "data_at buf n k = (if unat n + unat k \<le> length buf then Some (take (unat k) (drop (unat n) buf)) else None)"

text \<open>``Allocate block if needed'': whether there is a block for the index.\<close>

definition assign_block :: "nat \<Rightarrow> u32 \<Rightarrow> inode \<Rightarrow> inode" where
  "assign_block i b ino = ino\<lparr>direct_blocks := (direct_blocks ino)[i := b], block_count := block_count ino + 1\<rparr>"

definition get_block :: "nat \<Rightarrow> u32 \<Rightarrow> u32 \<Rightarrow> btree_filesystem \<Rightarrow> (bool \<times> btree_filesystem) option" where
  "get_block p block_idx b fs =
     (if b = 0 then do {
        (new_block, fs) \<leftarrow> block_alloc fs;
        if new_block = 0 then Some (False, fs)
        else do {
          fs \<leftarrow> upd_inode p (assign_block (unat block_idx) new_block) fs;
          Some (True, fs) } }
      else Some (True, fs))"

partial_function (option) inode_write_loop ::
    "nat \<Rightarrow> u8 list \<Rightarrow> u32 \<Rightarrow> u32 \<Rightarrow> u32 \<Rightarrow> btree_filesystem \<Rightarrow> (u32 \<times> btree_filesystem) option" where
  "inode_write_loop i buf offset sz bytes_written fs =
     (if bytes_written < sz then
        (case chunk offset sz bytes_written of (block_idx, block_offset, bytes_to_write) \<Rightarrow>
           if block_idx \<ge> of_nat DIRECT_BLOCKS then Some (bytes_written, fs)
           else do {
             ino \<leftarrow> inode_at i fs;
             b \<leftarrow> array_get (direct_blocks ino) (uint block_idx);
             (ok, fs) \<leftarrow> get_block i block_idx b fs;
             if \<not> ok then Some (bytes_written, fs)
             else do {
               ino \<leftarrow> inode_at i fs;
               block_num \<leftarrow> array_get (direct_blocks ino) (uint block_idx);
               case block_get_ptr fs block_num of None \<Rightarrow> Some (bytes_written, fs)
               | Some p \<Rightarrow> do {
                   bs \<leftarrow> data_at buf bytes_written bytes_to_write;
                   inode_write_loop i buf offset sz (bytes_written + bytes_to_write)
                     (fs\<lparr>disk := write_bytes (p + block_offset) bs (disk fs)\<rparr>) } } })
      else Some (bytes_written, fs))"

definition inode_write :: "nat ptr \<Rightarrow> u8 list ptr \<Rightarrow> u32 \<Rightarrow> u32 \<Rightarrow> btree_filesystem \<Rightarrow> (u32 \<times> btree_filesystem) option" where
  "inode_write p buf offset sz fs =
     (case (p, buf) of (Some i, Some buf) \<Rightarrow> do {
          (n, fs) \<leftarrow> inode_write_loop i buf offset sz 0 fs;
          ino \<leftarrow> inode_at i fs;
          fs \<leftarrow> (if offset + n > isize ino then upd_inode i (\<lambda>ino. ino\<lparr>isize := offset + n\<rparr>) fs else Some fs);
          Some (n, fs) }
      | _ \<Rightarrow> Some (0, fs))"

text \<open>The loop of \<open>inode_truncate\<close> from the index \<open>i\<close> on.\<close>

primrec truncate_loop :: "nat \<Rightarrow> nat list \<Rightarrow> btree_filesystem \<Rightarrow> btree_filesystem option" where
  "truncate_loop i [] fs = Some fs"
| "truncate_loop i (j # js) fs = do {
     ino \<leftarrow> inode_at i fs;
     if of_nat j < block_count ino then do {
       b \<leftarrow> array_get (direct_blocks ino) (int j);
       fs \<leftarrow> (if b > 0 then do {
                fs \<leftarrow> block_free b fs;
                upd_inode i (\<lambda>ino. ino\<lparr>direct_blocks := (direct_blocks ino)[j := 0]\<rparr>) fs }
              else Some fs);
       truncate_loop i js fs }
     else Some fs }"

definition inode_truncate :: "nat ptr \<Rightarrow> u32 \<Rightarrow> btree_filesystem \<Rightarrow> (int \<times> btree_filesystem) option" where
  "inode_truncate p new_size fs =
     (case p of None \<Rightarrow> Some (- 1, fs)
      | Some i \<Rightarrow> do {
          ino \<leftarrow> inode_at i fs;
          if new_size \<ge> isize ino then Some (0, fs)
          else do {
            let new_blocks = (new_size + FS_BLOCK_SIZE - 1) div FS_BLOCK_SIZE;
            fs \<leftarrow> truncate_loop i [unat new_blocks..<DIRECT_BLOCKS] fs;
            fs \<leftarrow> upd_inode i (\<lambda>ino. ino\<lparr>isize := new_size, block_count := new_blocks\<rparr>) fs;
            Some (0, fs) } })"

section \<open>Files by name\<close>

definition name_lookup :: "u8 list \<Rightarrow> btree_filesystem \<Rightarrow> (u32 \<times> nat ptr) option" where
  "name_lookup filename fs = do {
     hash \<leftarrow> hash_string filename;
     p \<leftarrow> btree_search (name_tree fs) hash (tree_mem fs);
     Some (hash, p) }"

definition btree_fs_create :: "u8 list \<Rightarrow> u32 \<Rightarrow> btree_filesystem \<Rightarrow> (int \<times> btree_filesystem) option" where
  "btree_fs_create filename ty fs = do {
     len \<leftarrow> strlen filename;
     if len \<ge> MAX_FILENAME_LEN then Some (- 1, fs)
     else do {
       (hash, existing) \<leftarrow> name_lookup filename fs;
       if existing \<noteq> NULL then Some (- 1, fs)
       else do {
         (p, fs) \<leftarrow> inode_alloc ty fs;
         case p of None \<Rightarrow> Some (- 1, fs)
         | Some i \<Rightarrow> do {
             (r, tree, m) \<leftarrow> btree_insert (name_tree fs) hash p (tree_mem fs);
             let fs = fs\<lparr>name_tree := tree, tree_mem := m\<rparr>;
             ino \<leftarrow> inode_at i fs;
             Some (uint (inode_num ino), fs) } } } }"

definition btree_fs_open :: "u8 list \<Rightarrow> btree_filesystem \<Rightarrow> int option" where
  "btree_fs_open filename fs = do {
     (hash, p) \<leftarrow> name_lookup filename fs;
     case p of None \<Rightarrow> Some (- 1)
     | Some i \<Rightarrow> do { ino \<leftarrow> inode_at i fs; Some (uint (inode_num ino)) } }"

text \<open>The common start of \<open>btree_fs_read\<close>, \<open>btree_fs_write\<close> and \<open>btree_fs_stat\<close>.\<close>

definition open_inode :: "u8 list \<Rightarrow> btree_filesystem \<Rightarrow> nat ptr option" where
  "open_inode filename fs = do {
     num \<leftarrow> btree_fs_open filename fs;
     if num < 0 then Some NULL else inode_get (word_of_int num) fs }"

definition btree_fs_read :: "u8 list \<Rightarrow> u32 \<Rightarrow> btree_filesystem \<Rightarrow> (int \<times> u8 list) option" where
  "btree_fs_read filename sz fs = do {
     p \<leftarrow> open_inode filename fs;
     if p = NULL then Some (- 1, [])
     else do { (n, buf) \<leftarrow> inode_read p 0 sz fs; Some (uint n, buf) } }"

definition btree_fs_write :: "u8 list \<Rightarrow> u8 list ptr \<Rightarrow> u32 \<Rightarrow> btree_filesystem \<Rightarrow> (int \<times> btree_filesystem) option" where
  "btree_fs_write filename buf sz fs = do {
     p \<leftarrow> open_inode filename fs;
     if p = NULL then Some (- 1, fs)
     else do { (n, fs) \<leftarrow> inode_write p buf 0 sz fs; Some (uint n, fs) } }"

definition btree_fs_delete :: "u8 list \<Rightarrow> btree_filesystem \<Rightarrow> (int \<times> btree_filesystem) option" where
  "btree_fs_delete filename fs = do {
     (hash, p) \<leftarrow> name_lookup filename fs;
     if p = NULL then Some (- 1, fs)
     else do {
       (r, tree, m) \<leftarrow> btree_delete (name_tree fs) hash (tree_mem fs);
       fs \<leftarrow> inode_free p (fs\<lparr>name_tree := tree, tree_mem := m\<rparr>);
       Some (0, fs) } }"

text \<open>The lines of \<open>btree_fs_list\<close>: number, size, blocks and type of every i-node in use that the name tree holds.\<close>

definition list_callback ::
    "btree_filesystem \<Rightarrow> u32 \<Rightarrow> nat ptr \<Rightarrow> (u32 \<times> u32 \<times> u32 \<times> u32) list option \<Rightarrow> (u32 \<times> u32 \<times> u32 \<times> u32) list option" where
  "list_callback fs key v out =
     (case v of None \<Rightarrow> out
      | Some i \<Rightarrow> do {
          ls \<leftarrow> out;
          ino \<leftarrow> inode_at i fs;
          Some (if in_use ino then ls @ [(inode_num ino, isize ino, block_count ino, itype ino)] else ls) })"

definition btree_fs_list :: "btree_filesystem \<Rightarrow> (u32 \<times> u32 \<times> u32 \<times> u32) list option" where
  "btree_fs_list fs = do { out \<leftarrow> btree_traverse (name_tree fs) (list_callback fs) (tree_mem fs) (Some []); out }"

text \<open>The values that \<open>inode_print\<close> and \<open>fs_print_stats\<close> print.\<close>

definition inode_print :: "inode \<Rightarrow> u32 list \<times> u32 list" where
  "inode_print ino =
     ([inode_num ino, itype ino, isize ino, block_count ino, permissions ino, link_count ino],
      take (min DIRECT_BLOCKS (unat (block_count ino))) (direct_blocks ino))"

definition btree_fs_stat :: "u8 list \<Rightarrow> btree_filesystem \<Rightarrow> (u32 list \<times> u32 list) option option" where
  "btree_fs_stat filename fs = do {
     p \<leftarrow> open_inode filename fs;
     case p of None \<Rightarrow> Some None
     | Some i \<Rightarrow> do { ino \<leftarrow> inode_at i fs; Some (Some (inode_print ino)) } }"

definition fs_print_stats :: "btree_filesystem \<Rightarrow> int list" where
  "fs_print_stats fs = [total_inodes fs, free_inodes fs, total_inodes fs - free_inodes fs,
     total_blocks fs, free_blocks fs, total_blocks fs - free_blocks fs, uint FS_BLOCK_SIZE,
     total_blocks fs * uint FS_BLOCK_SIZE div 1024, (total_blocks fs - free_blocks fs) * uint FS_BLOCK_SIZE div 1024]"

end
