(* ===== verification/Inode_Rep.thy ===== *)
theory Inode_Rep
  imports Inode
begin

text \<open>
  The blocks of the i-nodes: bitmaps as sets of bits, the invariant that every block belongs to one place of
  one i-node and is marked as used, and the bytes of a file as a function of the position.
\<close>

unbundle bit_operations_syntax

section \<open>Bitmaps\<close>

definition bm_bit :: "u32 list \<Rightarrow> nat \<Rightarrow> bool" where
  "bm_bit bm k \<longleftrightarrow> bit (bm ! (k div 32)) (k mod 32)"

lemma bit_mask_iff: "bit (bit_mask k) j \<longleftrightarrow> j = k mod 32"
  by (auto simp: bit_mask_def bit_exp_iff possible_bit_def)

lemma and_mask_iff: "w AND bit_mask k \<noteq> 0 \<longleftrightarrow> bit w (k mod 32)"
proof
  assume "w AND bit_mask k \<noteq> 0"
  then obtain j where "bit (w AND bit_mask k) j" by (auto simp: bit_eq_iff)
  then show "bit w (k mod 32)" by (auto simp: bit_and_iff bit_mask_iff)
next
  assume "bit w (k mod 32)"
  then have "bit (w AND bit_mask k) (k mod 32)" by (simp add: bit_and_iff bit_mask_iff)
  then show "w AND bit_mask k \<noteq> 0" by auto
qed

lemma div_mod_eq: "(j :: nat) div 32 = k div 32 \<Longrightarrow> j mod 32 = k mod 32 \<longleftrightarrow> j = k"
  by (metis div_mod_decomp)

lemma bitmap_test_ok: "k div 32 < length bm \<Longrightarrow> bitmap_test bm k = Some (bm_bit bm k)"
  using and_mask_iff [of "bm ! (k div 32)" k] by (simp add: bitmap_test_def array_get_nth bm_bit_def)

lemma bitmap_set_ok:
  assumes "k div 32 < length bm"
  shows "\<exists>bm'. bitmap_set bm k = Some bm' \<and> length bm' = length bm \<and> (\<forall>j. bm_bit bm' j \<longleftrightarrow> j = k \<or> bm_bit bm j)"
proof -
  let ?bm = "bm[k div 32 := bm ! (k div 32) OR bit_mask k]"
  have "bm_bit ?bm j \<longleftrightarrow> j = k \<or> bm_bit bm j" for j
    using assms div_mod_eq [of j k] by (cases "j div 32 = k div 32") (auto simp: bm_bit_def bit_or_iff bit_mask_iff)
  then show ?thesis using assms by (auto simp: bitmap_set_def array_get_def array_set_def)
qed

lemma bitmap_clear_ok:
  assumes "k div 32 < length bm"
  shows "\<exists>bm'. bitmap_clear bm k = Some bm' \<and> length bm' = length bm \<and> (\<forall>j. bm_bit bm' j \<longleftrightarrow> j \<noteq> k \<and> bm_bit bm j)"
proof -
  let ?bm = "bm[k div 32 := bm ! (k div 32) AND NOT (bit_mask k)]"
  have "bm_bit ?bm j \<longleftrightarrow> j \<noteq> k \<and> bm_bit bm j" for j
    using assms div_mod_eq [of j k] by (cases "j div 32 = k div 32") (auto simp: bm_bit_def bit_and_iff bit_not_iff bit_mask_iff)
  then show ?thesis using assms by (auto simp: bitmap_clear_def array_get_def array_set_def)
qed

lemma find_free_ok:
  "(\<And>i. i \<in> set is \<Longrightarrow> i div 32 < length bm) \<Longrightarrow> find_free_loop bm is = Some (find (\<lambda>i. \<not> bm_bit bm i) is)"
  by (induction "is") (auto simp: bitmap_test_ok)

section \<open>Invariant\<close>

definition blk :: "btree_filesystem \<Rightarrow> nat \<times> nat \<Rightarrow> u32" where
  "blk fs x = direct_blocks (inodes fs ! fst x) ! snd x"

definition owned :: "btree_filesystem \<Rightarrow> (nat \<times> nat) set" where
  "owned fs = {x. fst x < MAX_INODE_COUNT \<and> snd x < DIRECT_BLOCKS \<and> in_use (inodes fs ! fst x) \<and> blk fs x \<noteq> 0}"

abbreviation clear_bits :: "btree_filesystem \<Rightarrow> nat set" where
  "clear_bits fs \<equiv> {b. b < MAX_BLOCKS \<and> \<not> bm_bit (block_bitmap fs) b}"

definition storage :: "btree_filesystem \<Rightarrow> u32" where
  "storage fs = the (block_storage fs)"

definition ifs_ok :: "btree_filesystem \<Rightarrow> bool" where
  "ifs_ok fs \<longleftrightarrow> length (block_bitmap fs) = 32 \<and> length (inodes fs) = MAX_INODE_COUNT \<and>
     (\<forall>p < MAX_INODE_COUNT. in_use (inodes fs ! p) \<longrightarrow> length (direct_blocks (inodes fs ! p)) = DIRECT_BLOCKS) \<and>
     block_storage fs \<noteq> NULL \<and> unat (storage fs) + 512 * 1024 \<le> 2 ^ 32 \<and>
     (\<forall>x \<in> owned fs. unat (blk fs x) < MAX_BLOCKS \<and> bm_bit (block_bitmap fs) (unat (blk fs x))) \<and>
     inj_on (blk fs) (owned fs) \<and> free_blocks fs = int (card (clear_bits fs))"

text \<open>The contents of a block, and the byte of a file at a position.\<close>

definition block_bytes :: "btree_filesystem \<Rightarrow> u32 \<Rightarrow> u8 list" where
  "block_bytes fs b = read_bytes (disk fs) (storage fs + b * 512) 512"

definition byte_at :: "btree_filesystem \<Rightarrow> nat \<Rightarrow> nat \<Rightarrow> u8 option" where
  "byte_at fs p k = (if k div 512 < DIRECT_BLOCKS \<and> blk fs (p, k div 512) \<noteq> 0
     then Some (block_bytes fs (blk fs (p, k div 512)) ! (k mod 512)) else None)"

lemma ifs_okD:
  assumes "ifs_ok fs"
  shows "length (block_bitmap fs) = 32" "length (inodes fs) = 256" "block_storage fs = Some (storage fs)"
    "unat (storage fs) + 512 * 1024 \<le> 2 ^ 32" "inj_on (blk fs) (owned fs)" "free_blocks fs = int (card (clear_bits fs))"
  using assms by (auto simp: ifs_ok_def storage_def)

lemma ifs_ok_len: "ifs_ok fs \<Longrightarrow> p < 256 \<Longrightarrow> in_use (inodes fs ! p) \<Longrightarrow> length (direct_blocks (inodes fs ! p)) = 10"
  by (simp add: ifs_ok_def)

lemma owned_block:
  assumes "ifs_ok fs" "x \<in> owned fs"
  shows "unat (blk fs x) < 1024" "bm_bit (block_bitmap fs) (unat (blk fs x))" "blk fs x \<noteq> 0"
  using assms unfolding ifs_ok_def by (blast, blast, simp add: owned_def)

section \<open>Addresses of blocks\<close>

lemma block_addr:
  assumes "unat (s :: u32) + 512 * 1024 \<le> 2 ^ 32" "unat (b :: u32) < 1024" "k < 512"
  shows "unat (s + b * 512 + of_nat k) = unat s + unat b * 512 + k"
proof -
  have b: "unat (b * 512) = unat b * 512" using assms(2) by (simp add: unat_word_ariths)
  have "unat (s + b * 512) = unat s + unat b * 512" using assms b by (subst unat_word_ariths) simp
  then show ?thesis using assms by (subst unat_plus) auto
qed

lemma block_start:
  assumes "unat (s :: u32) + 512 * 1024 \<le> 2 ^ 32" "unat (b :: u32) < 1024"
  shows "unat (s + b * 512) = unat s + unat b * 512"
  using block_addr [OF assms, of 0] by simp

lemma read_write_mid:
  assumes "unat a + n \<le> 2 ^ 32" "k + length bs \<le> n" "k < n"
  shows "read_bytes (write_bytes (a + of_nat k) bs m) a n = take k (read_bytes m a n) @ bs @ drop (k + length bs) (read_bytes m a n)"
proof (rule nth_equalityI)
  fix j assume "j < length (read_bytes (write_bytes (a + of_nat k) bs m) a n)"
  then have j: "j < n" by simp
  have u: "unat (a + of_nat k) = unat a + k" "unat (a + of_nat j) = unat a + j" using assms j by (simp_all add: unat_plus)
  show "read_bytes (write_bytes (a + of_nat k) bs m) a n ! j = (take k (read_bytes m a n) @ bs @ drop (k + length bs) (read_bytes m a n)) ! j"
    using assms j u by (auto simp: nth_read_bytes write_bytes_at nth_append)
qed (use assms in simp)

lemma block_write:
  assumes s: "unat (s :: u32) + 512 * 1024 \<le> 2 ^ 32" and b: "unat (b :: u32) < 1024" "unat (c :: u32) < 1024"
    and k: "k + length bs \<le> 512" "k < 512"
  shows "read_bytes (write_bytes (s + b * 512 + of_nat k) bs m) (s + c * 512) 512 =
    (if c = b then take k (read_bytes m (s + b * 512) 512) @ bs @ drop (k + length bs) (read_bytes m (s + b * 512) 512)
     else read_bytes m (s + c * 512) 512)"
proof (cases "c = b")
  case True
  have "unat (s + b * 512) + 512 \<le> 2 ^ 32" using block_start [OF s b(1)] s b(1) by simp
  then show ?thesis using True read_write_mid [of "s + b * 512" 512 k bs m] k by simp
next
  case False
  then have "unat c \<noteq> unat b" by (simp add: word_unat_eq_iff)
  then have "unat c * 512 + 512 \<le> unat b * 512 \<or> unat b * 512 + 512 \<le> unat c * 512" by linarith
  then have "read_bytes (write_bytes (s + b * 512 + of_nat k) bs m) (s + c * 512) 512 = read_bytes m (s + c * 512) 512"
    using block_addr [OF s b(1) k(2)] block_start [OF s b(2)] s b k by (intro read_write_other) auto
  then show ?thesis using False by simp
qed

lemma block_get_ptr_ok:
  assumes "ifs_ok fs" "unat b < 1024" "b \<noteq> 0" shows "block_get_ptr fs b = Some (storage fs + b * 512)"
proof -
  have "\<not> b \<ge> of_nat 1024" using assms(2) by (simp add: word_le_nat_alt)
  then show ?thesis using assms(3) ifs_okD(3) [OF assms(1)] by (simp add: block_get_ptr_def)
qed

section \<open>Allocation\<close>

text \<open>What an operation on the i-node \<open>p\<close> leaves alone.\<close>

definition frame :: "nat \<Rightarrow> btree_filesystem \<Rightarrow> btree_filesystem \<Rightarrow> bool" where
  "frame p fs fs' \<longleftrightarrow> inode_tree fs' = inode_tree fs \<and> name_tree fs' = name_tree fs \<and> tree_mem fs' = tree_mem fs \<and>
     inode_bitmap fs' = inode_bitmap fs \<and> free_inodes fs' = free_inodes fs \<and> block_storage fs' = block_storage fs \<and>
     (\<forall>q. q \<noteq> p \<longrightarrow> inodes fs' ! q = inodes fs ! q) \<and>
     in_use (inodes fs' ! p) = in_use (inodes fs ! p) \<and> inode_num (inodes fs' ! p) = inode_num (inodes fs ! p) \<and>
     isize (inodes fs' ! p) = isize (inodes fs ! p)"

lemma frame_refl: "frame p fs fs"
  by (simp add: frame_def)

lemma frame_trans: "frame p fs fs' \<Longrightarrow> frame p fs' fs'' \<Longrightarrow> frame p fs fs''"
  by (auto simp: frame_def)

lemma frame_in_use: "frame p fs fs' \<Longrightarrow> in_use (inodes fs' ! q) = in_use (inodes fs ! q)"
  by (cases "q = p") (auto simp: frame_def)

lemma frame_storage: "frame p fs fs' \<Longrightarrow> storage fs' = storage fs"
  by (simp add: frame_def storage_def)

lemma block_alloc_cases:
  assumes "ifs_ok fs"
  obtains (full) "block_alloc fs = Some (0, fs)" "clear_bits fs \<subseteq> {0}"
    | (got) b bm where "b \<in> clear_bits fs" "b \<noteq> 0" "\<forall>c. 0 < c \<and> c < b \<longrightarrow> c \<notin> clear_bits fs" "length bm = 32"
      "\<forall>j. bm_bit bm j \<longleftrightarrow> j = b \<or> bm_bit (block_bitmap fs) j"
      "block_alloc fs = Some (of_nat b, fs\<lparr>block_bitmap := bm, free_blocks := free_blocks fs - 1,
         disk := write_bytes (storage fs + of_nat b * 512) (replicate 512 0) (disk fs)\<rparr>)"
proof -
  let ?P = "\<lambda>i. \<not> bm_bit (block_bitmap fs) i"
  have find: "find_free_loop (block_bitmap fs) [1..<1024] = Some (find ?P [1..<1024])"
    by (rule find_free_ok) (use ifs_okD(1) [OF assms] in auto)
  show thesis
  proof (cases "find ?P [1..<1024]")
    case None
    then have "\<forall>i \<in> {1..<1024}. bm_bit (block_bitmap fs) i" unfolding find_None_iff by auto
    then have "clear_bits fs \<subseteq> {0}" by (force simp: not_less_eq_eq)
    then show thesis using full find None by (simp add: block_alloc_def)
  next
    case (Some b)
    then obtain j where j: "j < length [1..<1024]" "b = [1..<1024] ! j" "?P b" "\<forall>k < j. \<not> ?P ([1..<1024] ! k)"
      unfolding find_Some_iff by blast
    then have b: "b = Suc j" "b < 1024" by (auto simp del: upt_Suc)
    have least: "\<forall>c. 0 < c \<and> c < b \<longrightarrow> c \<notin> clear_bits fs"
    proof (intro allI impI)
      fix c assume c: "0 < c \<and> c < b"
      then have "[1..<1024] ! (c - 1) = c" using b by (subst nth_upt) auto
      then show "c \<notin> clear_bits fs" using j(4) c b by (auto dest: spec [of _ "c - 1"])
    qed
    obtain bm where bm: "bitmap_set (block_bitmap fs) b = Some bm" "length bm = 32" "\<forall>j. bm_bit bm j \<longleftrightarrow> j = b \<or> bm_bit (block_bitmap fs) j"
      using bitmap_set_ok [of b "block_bitmap fs"] ifs_okD(1) [OF assms] less_mult_imp_div_less [of b 32 32] b(2) by auto
    have u: "unat (of_nat b :: u32) = b" using b(2) by (simp add: unsigned_of_nat take_bit_nat_eq_self)
    have "block_get_ptr (fs\<lparr>block_bitmap := bm, free_blocks := free_blocks fs - 1\<rparr>) (of_nat b) = block_get_ptr fs (of_nat b)"
      by (simp add: block_get_ptr_def)
    also have "\<dots> = Some (storage fs + of_nat b * 512)"
      using block_get_ptr_ok [OF assms, of "of_nat b"] u b by (metis Zero_not_Suc unat_0)
    finally have "block_alloc fs = Some (of_nat b, fs\<lparr>block_bitmap := bm, free_blocks := free_blocks fs - 1,
         disk := write_bytes (storage fs + of_nat b * 512) (replicate 512 0) (disk fs)\<rparr>)"
      using find Some bm(1) by (simp add: block_alloc_def)
    then show thesis using got [of b bm] j(3) b least bm(2,3) by simp
  qed
qed

lemma storage_write:
  assumes ok: "ifs_ok fs" and b: "unat b < 1024" "unat c < 1024" and k: "k + length bs \<le> 512" "k < 512"
    and fs': "block_storage fs' = block_storage fs" "disk fs' = write_bytes (storage fs + b * 512 + of_nat k) bs (disk fs)"
  shows "block_bytes fs' c = (if c = b then take k (block_bytes fs b) @ bs @ drop (k + length bs) (block_bytes fs b) else block_bytes fs c)"
  using block_write [OF ifs_okD(4) [OF ok] b k] fs' by (simp add: block_bytes_def storage_def)

lemma block_bytes_length [simp]: "length (block_bytes fs b) = 512"
  by (simp add: block_bytes_def)

lemma card_clear:
  assumes "b \<in> clear_bits fs" "\<forall>j. bm_bit (block_bitmap fs') j \<longleftrightarrow> j = b \<or> bm_bit (block_bitmap fs) j"
  shows "card (clear_bits fs) = Suc (card (clear_bits fs'))"
proof -
  have "clear_bits fs' = clear_bits fs - {b}" using assms(2) by auto
  moreover have "finite (clear_bits fs)" by simp
  ultimately show ?thesis using card_Suc_Diff1 [OF _ assms(1)] by simp
qed

text \<open>A new block for the place \<open>i\<close> of the i-node \<open>p\<close>.\<close>

lemma owned_assign:
  assumes "p < 256" "i < 10" "in_use (inodes fs ! p)" "blk fs' = (blk fs)((p, i) := b)" "b \<noteq> 0"
    "\<And>q. in_use (inodes fs' ! q) = in_use (inodes fs ! q)"
  shows "owned fs' = insert (p, i) (owned fs)"
  using assms by (auto simp: owned_def)

lemma ensure_block:
  assumes ok: "ifs_ok fs" and p: "p < 256" "in_use (inodes fs ! p)" and i: "i < 10" "blk fs (p, i) = 0"
  obtains (full) "block_alloc fs = Some (0, fs)" "clear_bits fs \<subseteq> {0}"
    | (got) b fs1 fs2 where "block_alloc fs = Some (b, fs1)" "b \<noteq> 0" "unat b < 1024" "upd_inode p (assign_block i b) fs1 = Some fs2"
      "ifs_ok fs2" "frame p fs fs2" "blk fs2 = (blk fs)((p, i) := b)" "\<forall>x \<in> owned fs. blk fs x \<noteq> b"
      "\<forall>c. unat c < 1024 \<longrightarrow> block_bytes fs2 c = (if c = b then replicate 512 0 else block_bytes fs c)"
proof (cases rule: block_alloc_cases [OF ok, case_names full got])
  case full
  then show thesis by (rule that(1))
next
  case (got b bm)
  note len = ifs_okD(2) [OF ok]
  have u: "unat (of_nat b :: u32) = b" using got(1) by (simp add: unsigned_of_nat take_bit_nat_eq_self)
  have b0: "(of_nat b :: u32) \<noteq> 0" using u got(2) by (metis unat_0)
  let ?b = "of_nat b :: u32"
  let ?fs1 = "fs\<lparr>block_bitmap := bm, free_blocks := free_blocks fs - 1,
         disk := write_bytes (storage fs + ?b * 512) (replicate 512 0) (disk fs)\<rparr>"
  let ?fs2 = "?fs1\<lparr>inodes := (inodes fs)[p := assign_block i ?b (inodes fs ! p)]\<rparr>"
  have upd: "upd_inode p (assign_block i ?b) ?fs1 = Some ?fs2" using p len by (simp add: upd_inode_def)
  have fr: "frame p fs ?fs2" using p(1) len by (simp add: frame_def assign_block_def)
  have il: "i < length (direct_blocks (inodes fs ! p))" using ifs_ok_len [OF ok p] i(1) by simp
  have blk2: "blk ?fs2 = (blk fs)((p, i) := ?b)"
  proof
    fix x show "blk ?fs2 x = ((blk fs)((p, i) := ?b)) x"
      using p(1) len il by (cases x; cases "fst x = p"; cases "snd x = i") (auto simp: blk_def assign_block_def)
  qed
  have own: "owned ?fs2 = insert (p, i) (owned fs)" by (rule owned_assign) (use p i blk2 b0 frame_in_use [OF fr] in auto)
  have new: "\<forall>x \<in> owned fs. blk fs x \<noteq> ?b" using owned_block(2) [OF ok] got(1) u by fastforce
  have notin: "(p, i) \<notin> owned fs" using i(2) by (simp add: owned_def)
  have bits: "\<forall>j. bm_bit (block_bitmap ?fs2) j \<longleftrightarrow> j = b \<or> bm_bit (block_bitmap fs) j" using got(5) by simp
  have "ifs_ok ?fs2"
    unfolding ifs_ok_def
  proof (intro conjI)
    show "\<forall>q < 256. in_use (inodes ?fs2 ! q) \<longrightarrow> length (direct_blocks (inodes ?fs2 ! q)) = 10"
      using ifs_ok_len [OF ok] p(1) len by (auto simp: nth_list_update assign_block_def)
    show "\<forall>x \<in> owned ?fs2. unat (blk ?fs2 x) < 1024 \<and> bm_bit (block_bitmap ?fs2) (unat (blk ?fs2 x))"
    proof
      fix x assume "x \<in> owned ?fs2"
      then have x: "x = (p, i) \<or> x \<in> owned fs \<and> x \<noteq> (p, i)" unfolding own using notin by auto
      then show "unat (blk ?fs2 x) < 1024 \<and> bm_bit (block_bitmap ?fs2) (unat (blk ?fs2 x))"
        unfolding blk2 using u got(1) bits owned_block(1,2) [OF ok, of x] by auto
    qed
    show "inj_on (blk ?fs2) (owned ?fs2)" unfolding blk2 own
      using ifs_okD(5) [OF ok] new notin by (auto simp: inj_on_def)
    have "card (clear_bits fs) = Suc (card (clear_bits ?fs2))" by (rule card_clear [OF got(1) bits])
    then show "free_blocks ?fs2 = int (card (clear_bits ?fs2))" using ifs_okD(6) [OF ok] by simp
  qed (use got(4) len ifs_okD(3,4) [OF ok] frame_storage [OF fr] in simp_all)
  moreover have "\<forall>c. unat c < 1024 \<longrightarrow> block_bytes ?fs2 c = (if c = ?b then replicate 512 0 else block_bytes fs c)"
    using storage_write [OF ok, of ?b _ 0 "replicate 512 0" ?fs2] u got(1) by auto
  ultimately show thesis using that(2) [of ?b ?fs1 ?fs2] got(1,6) u b0 upd fr blk2 new by simp
qed

end
