(* ===== verification/Inode_IO.thy ===== *)
theory Inode_IO
  imports Inode_Rep
begin

text \<open>
  The loops of \<open>inode_read\<close> and \<open>inode_write\<close>, block by block, in terms of the bytes of the files.
\<close>

section \<open>Bytes\<close>

lemma div_cases:
  assumes "k div 512 = i" shows "(k :: nat) = i * 512 + k mod 512"
  using assms by (metis div_mod_decomp)

lemma owned_place: "p < 256 \<Longrightarrow> in_use (inodes fs ! p) \<Longrightarrow> i < 10 \<Longrightarrow> blk fs (p, i) \<noteq> 0 \<Longrightarrow> (p, i) \<in> owned fs"
  by (simp add: owned_def)

lemma byte_ensure:
  assumes ok: "ifs_ok fs" and blk2: "blk fs2 = (blk fs)((p, i) := b)" and b: "b \<noteq> 0" and i: "i < 10"
    and bytes: "\<forall>c. unat c < 1024 \<longrightarrow> block_bytes fs2 c = (if c = b then replicate 512 0 else block_bytes fs c)"
    and new: "unat b < 1024" "\<forall>x \<in> owned fs. blk fs x \<noteq> b" and q: "q < 256" "in_use (inodes fs ! q)"
  shows "byte_at fs2 q k = (if q = p \<and> k div 512 = i then Some 0 else byte_at fs q k)"
proof (cases "q = p \<and> k div 512 = i")
  case True
  then show ?thesis using blk2 b i bytes new(1) by (simp add: byte_at_def)
next
  case False
  then have same: "blk fs2 (q, k div 512) = blk fs (q, k div 512)" using blk2 by auto
  show ?thesis
  proof (cases "k div 512 < 10 \<and> blk fs (q, k div 512) \<noteq> 0")
    case True
    then have o: "(q, k div 512) \<in> owned fs" using q by (simp add: owned_place)
    have "unat (blk fs (q, k div 512)) < 1024" "blk fs (q, k div 512) \<noteq> b" using owned_block(1) [OF ok o] new(2) o by auto
    then have "block_bytes fs2 (blk fs (q, k div 512)) = block_bytes fs (blk fs (q, k div 512))" using bytes by simp
    then show ?thesis using same \<open>\<not> (q = p \<and> k div 512 = i)\<close> by (auto simp: byte_at_def)
  next
    case False
    then show ?thesis using same \<open>\<not> (q = p \<and> k div 512 = i)\<close> by (auto simp: byte_at_def)
  qed
qed

lemma blk_disk [simp]: "blk (fs\<lparr>disk := d\<rparr>) = blk fs" "owned (fs\<lparr>disk := d\<rparr>) = owned fs" "storage (fs\<lparr>disk := d\<rparr>) = storage fs"
  by (simp_all add: blk_def owned_def storage_def fun_eq_iff)

lemma ifs_ok_disk: "ifs_ok fs \<Longrightarrow> ifs_ok (fs\<lparr>disk := d\<rparr>)"
  by (simp add: ifs_ok_def)

lemma byte_write:
  assumes ok: "ifs_ok fs" and p: "p < 256" "in_use (inodes fs ! p)" and i: "i < 10" "blk fs (p, i) \<noteq> 0"
    and k: "off + length bs \<le> 512" "off < 512" and q: "q < 256" "in_use (inodes fs ! q)"
  shows "byte_at (fs\<lparr>disk := write_bytes (storage fs + blk fs (p, i) * 512 + of_nat off) bs (disk fs)\<rparr>) q k =
    (if q = p \<and> i * 512 + off \<le> k \<and> k < i * 512 + off + length bs then Some (bs ! (k - (i * 512 + off))) else byte_at fs q k)"
    (is "byte_at ?fs q k = ?r")
proof (cases "k div 512 < 10 \<and> blk fs (q, k div 512) \<noteq> 0")
  case False
  have "\<not> (q = p \<and> i * 512 + off \<le> k \<and> k < i * 512 + off + length bs)"
  proof
    assume a: "q = p \<and> i * 512 + off \<le> k \<and> k < i * 512 + off + length bs"
    then have "k div 512 = i" using k by (intro div_nat_eqI) auto
    then show False using False a i by simp
  qed
  then show ?thesis using False by (auto simp: byte_at_def)
next
  case True
  have op: "(p, i) \<in> owned fs" "(q, k div 512) \<in> owned fs" using p q i True by (simp_all add: owned_place)
  have u: "unat (blk fs (p, i)) < 1024" "unat (blk fs (q, k div 512)) < 1024" using owned_block(1) [OF ok] op by auto
  have w: "block_bytes ?fs (blk fs (q, k div 512)) = (if blk fs (q, k div 512) = blk fs (p, i)
      then take off (block_bytes fs (blk fs (p, i))) @ bs @ drop (off + length bs) (block_bytes fs (blk fs (p, i)))
      else block_bytes fs (blk fs (q, k div 512)))"
    by (rule storage_write [OF ok u k]) simp_all
  have same: "blk fs (q, k div 512) = blk fs (p, i) \<longleftrightarrow> q = p \<and> k div 512 = i"
    using ifs_okD(5) [OF ok] op by (auto simp: inj_on_def)
  show ?thesis
  proof (cases "q = p \<and> k div 512 = i")
    case here: True
    then have kk: "k = i * 512 + k mod 512" using div_cases by blast
    then have "byte_at ?fs q k = Some ((take off (block_bytes fs (blk fs (p, i))) @ bs @ drop (off + length bs) (block_bytes fs (blk fs (p, i)))) ! (k mod 512))"
      using here True w by (simp add: byte_at_def)
    also have "\<dots> = (if off \<le> k mod 512 \<and> k mod 512 < off + length bs then Some (bs ! (k mod 512 - off)) else byte_at fs q k)"
      using here True k by (auto simp: nth_append byte_at_def)
    also have "\<dots> = ?r"
    proof -
      have "i * 512 + off \<le> k \<longleftrightarrow> off \<le> k mod 512" "k < i * 512 + off + length bs \<longleftrightarrow> k mod 512 < off + length bs"
        "k - (i * 512 + off) = k mod 512 - off" using kk by linarith+
      then show ?thesis using here by simp
    qed
    finally show ?thesis .
  next
    case other: False
    have "\<not> (q = p \<and> i * 512 + off \<le> k \<and> k < i * 512 + off + length bs)"
    proof
      assume a: "q = p \<and> i * 512 + off \<le> k \<and> k < i * 512 + off + length bs"
      then have "k div 512 = i" using k by (intro div_nat_eqI) auto
      then show False using other a by simp
    qed
    then show ?thesis using other w same True by (auto simp: byte_at_def)
  qed
qed

section \<open>Chunks\<close>

lemma chunk_ok:
  assumes "unat offset + unat sz < 2 ^ 32" "unat d < unat sz" "chunk offset sz d = (idx, off, n)"
  shows "unat idx = (unat offset + unat d) div 512" "unat off = (unat offset + unat d) mod 512" "unat off < 512"
    "unat n = min (512 - unat off) (unat sz - unat d)" "unat (d + n) = unat d + unat n" "0 < unat n"
    "unat (d + n) \<le> unat sz" "unat sz - unat (d + n) < unat sz - unat d"
proof -
  have o: "unat (offset + d) = unat offset + unat d" using assms(1,2) by (subst unat_word_ariths) simp
  show i: "unat idx = (unat offset + unat d) div 512" and f: "unat off = (unat offset + unat d) mod 512"
    using assms(3) o by (auto simp: chunk_def Let_def unat_div unat_mod)
  then show lt: "unat off < 512" by simp
  have "off < 512" using lt by (simp add: word_less_nat_alt)
  then have a: "unat (512 - off) = 512 - unat off" using unat_sub [of off 512] by (simp add: order_less_imp_le)
  have b: "unat (sz - d) = unat sz - unat d" using assms(2) by (simp add: unat_sub word_le_nat_alt)
  have "n = (if 512 - off > sz - d then sz - d else 512 - off)" using assms(3) by (auto simp: chunk_def Let_def)
  then show n: "unat n = min (512 - unat off) (unat sz - unat d)" using a b by (auto simp: word_less_nat_alt min_def)
  show s: "unat (d + n) = unat d + unat n" using n assms(1,2) by (subst unat_word_ariths) (simp add: min_def)
  show pos: "0 < unat n" using n lt assms(2) by simp
  show "unat (d + n) \<le> unat sz" "unat sz - unat (d + n) < unat sz - unat d" using s pos n assms(2) by linarith+
qed

section \<open>Reading\<close>

text \<open>The bytes of a file from \<open>a\<close> to \<open>b\<close>, up to the first position that has no block.\<close>

definition available :: "btree_filesystem \<Rightarrow> nat \<Rightarrow> nat \<Rightarrow> nat \<Rightarrow> u8 list" where
  "available fs p a b = map the (takeWhile (\<lambda>x. x \<noteq> None) (map (byte_at fs p) [a..<b]))"

lemma available_hole: "byte_at fs p a = None \<Longrightarrow> available fs p a b = []"
  by (cases "a < b") (simp_all add: available_def upt_conv_Cons)

lemma available_split:
  assumes "a \<le> c" "c \<le> b" "\<And>k. a \<le> k \<Longrightarrow> k < c \<Longrightarrow> byte_at fs p k \<noteq> None"
  shows "available fs p a b = map (\<lambda>k. the (byte_at fs p k)) [a..<c] @ available fs p c b"
proof -
  have "[a..<b] = [a..<c] @ [c..<b]" using assms(1,2) by (metis le_Suc_ex upt_add_eq_append)
  moreover have "takeWhile (\<lambda>x. x \<noteq> None) (map (byte_at fs p) [a..<c] @ ys) = map (byte_at fs p) [a..<c] @ takeWhile (\<lambda>x. x \<noteq> None) ys" for ys
    by (rule takeWhile_append2) (use assms(3) in auto)
  ultimately show ?thesis by (simp add: available_def comp_def)
qed

lemma read_block:
  assumes "off + n \<le> 512"
  shows "read_bytes (disk fs) (storage fs + b * 512 + of_nat off) n = take n (drop off (block_bytes fs b))"
  by (rule nth_equalityI) (use assms in \<open>simp_all add: nth_read_bytes block_bytes_def add.assoc\<close>)

lemma byte_in_block:
  assumes "k div 512 < 10" "blk fs (p, k div 512) \<noteq> 0"
  shows "byte_at fs p k = Some (block_bytes fs (blk fs (p, k div 512)) ! (k mod 512))"
  using assms by (simp add: byte_at_def)

lemma direct_block_at:
  assumes "ifs_ok fs" "p < 256" "in_use (inodes fs ! p)" "unat idx < 10"
  shows "array_get (direct_blocks (inodes fs ! p)) (uint idx) = Some (blk fs (p, unat idx))"
  using ifs_ok_len [OF assms(1-3)] assms(4) array_get_nth [of "unat idx" "direct_blocks (inodes fs ! p)"] by (simp add: blk_def)

lemma chunk_div:
  assumes "(a :: nat) \<le> k" "k < a + n" "a mod 512 + n \<le> 512"
  shows "k div 512 = a div 512" "k mod 512 = a mod 512 + (k - a)"
proof -
  obtain q r where a: "a = q * 512 + r" "r < 512" by (metis div_mod_decomp mod_less_divisor zero_less_numeral)
  then have qr: "a div 512 = q" "a mod 512 = r" by simp_all
  then have "k div 512 = q" using assms a by (intro div_nat_eqI) auto
  moreover have "k mod 512 = k - k div 512 * 512" by (rule modulo_nat_def)
  ultimately show "k div 512 = a div 512" "k mod 512 = a mod 512 + (k - a)" using assms(1) a qr by auto
qed

lemma read_loop_ok:
  assumes ok: "ifs_ok fs" and p: "p < 256" "in_use (inodes fs ! p)" and w: "unat offset + unat sz < 2 ^ 32"
  shows "unat d \<le> unat sz \<Longrightarrow> inode_read_loop (inodes fs ! p) fs offset sz d buf =
    (let bs = available fs p (unat offset + unat d) (unat offset + unat sz) in Some (d + of_nat (length bs), buf @ bs))"
proof (induction "unat sz - unat d" arbitrary: d buf rule: less_induct)
  case less
  let ?a = "unat offset + unat d"
  let ?b = "unat offset + unat sz"
  show ?case
  proof (cases "d < sz")
    case False
    then have "unat d = unat sz" using less.prems by (simp add: word_less_nat_alt)
    then show ?thesis using False by (subst inode_read_loop.simps) (simp add: available_def)
  next
    case True
    then have lt: "unat d < unat sz" by (simp add: word_less_nat_alt)
    obtain idx off n where c: "chunk offset sz d = (idx, off, n)" by (metis prod_cases3)
    note ch = chunk_ok [OF w lt c]
    have ten: "idx \<ge> of_nat 10 \<longleftrightarrow> \<not> unat idx < 10" by (simp add: word_le_nat_alt not_less)
    show ?thesis
    proof (cases "unat idx < 10 \<and> blk fs (p, unat idx) \<noteq> 0")
      case False
      then have "byte_at fs p ?a = None" using ch(1) by (auto simp: byte_at_def)
      then have "available fs p ?a ?b = []" by (rule available_hole)
      then show ?thesis using True c ten False direct_block_at [OF ok p, of idx]
        by (subst inode_read_loop.simps) (cases "unat idx < 10"; simp)
    next
      case here: True
      let ?B = "blk fs (p, unat idx)"
      have own: "(p, unat idx) \<in> owned fs" using here p by (simp add: owned_place)
      have ptr: "block_get_ptr fs ?B = Some (storage fs + ?B * 512)" using block_get_ptr_ok [OF ok owned_block(1) [OF ok own]] here by simp
      have "unat off + unat n \<le> 512" using ch(3,4) by linarith
      then have fits: "?a mod 512 + unat n \<le> 512" using ch(2) by simp
      have byte: "byte_at fs p k = Some (block_bytes fs ?B ! (k mod 512))" "k mod 512 = unat off + (k - ?a)" if "?a \<le> k" "k < ?a + unat n" for k
        using byte_in_block [of k fs p] chunk_div [OF that fits] here ch(1,2) by simp_all
      have bytes: "read_bytes (disk fs) (storage fs + ?B * 512 + off) (unat n) = map (\<lambda>k. the (byte_at fs p k)) [?a..<?a + unat n]"
      proof (rule nth_equalityI)
        fix j assume "j < length (read_bytes (disk fs) (storage fs + ?B * 512 + off) (unat n))"
        then have j: "j < unat n" by simp
        have "read_bytes (disk fs) (storage fs + ?B * 512 + of_nat (unat off)) (unat n) ! j = block_bytes fs ?B ! (unat off + j)"
          unfolding read_block [of "unat off" "unat n", OF fits [folded ch(2)]] using j ch(3) by (simp add: less_imp_le)
        then show "read_bytes (disk fs) (storage fs + ?B * 512 + off) (unat n) ! j = map (\<lambda>k. the (byte_at fs p k)) [?a..<?a + unat n] ! j"
          using byte [of "?a + j"] j by simp
      qed simp
      have split: "available fs p ?a ?b = map (\<lambda>k. the (byte_at fs p k)) [?a..<?a + unat n] @ available fs p (?a + unat n) ?b"
        by (rule available_split) (use ch(4) lt byte in auto)
      have IH: "inode_read_loop (inodes fs ! p) fs offset sz (d + n) buf' =
        (let bs = available fs p (unat offset + unat (d + n)) ?b in Some (d + n + of_nat (length bs), buf' @ bs))" for buf'
        by (rule less.hyps [OF ch(8,7)])
      have "inode_read_loop (inodes fs ! p) fs offset sz d buf =
          inode_read_loop (inodes fs ! p) fs offset sz (d + n) (buf @ read_bytes (disk fs) (storage fs + ?B * 512 + off) (unat n))"
        using True c ten here direct_block_at [OF ok p, of idx] ptr by (subst inode_read_loop.simps) simp
      then show ?thesis unfolding IH bytes split Let_def ch(5) by (simp add: add.assoc algebra_simps)
    qed
  qed
qed

section \<open>Writing\<close>

text \<open>\<open>wrote p a b f fs fs'\<close>: the bytes \<open>f\<close> have been written to the positions from \<open>a\<close> to \<open>b\<close>; elsewhere in the file a new block may
  have filled a hole with zeros, and the other files are the same.\<close>

definition wrote :: "nat \<Rightarrow> nat \<Rightarrow> nat \<Rightarrow> (nat \<Rightarrow> u8) \<Rightarrow> btree_filesystem \<Rightarrow> btree_filesystem \<Rightarrow> bool" where
  "wrote p a b f fs fs' \<longleftrightarrow>
     (\<forall>k. a \<le> k \<and> k < b \<longrightarrow> byte_at fs' p k = Some (f k)) \<and>
     (\<forall>k. \<not> (a \<le> k \<and> k < b) \<longrightarrow> byte_at fs' p k = byte_at fs p k \<or> byte_at fs p k = None \<and> byte_at fs' p k = Some 0) \<and>
     (\<forall>q < MAX_INODE_COUNT. q \<noteq> p \<and> in_use (inodes fs ! q) \<longrightarrow> byte_at fs' q = byte_at fs q)"

lemma wrote_refl: "wrote p a a f fs fs"
  by (auto simp: wrote_def)

lemma wrote_trans:
  assumes "wrote p a b f fs fs'" "wrote p b c f fs' fs''" "a \<le> b" "b \<le> c" "frame p fs fs'"
  shows "wrote p a c f fs fs''"
  unfolding wrote_def
proof (intro conjI allI impI)
  fix k assume k: "a \<le> k \<and> k < c"
  show "byte_at fs'' p k = Some (f k)"
  proof (cases "k < b")
    case True
    then have "byte_at fs' p k = Some (f k)" "\<not> (b \<le> k \<and> k < c)" using assms(1) k by (auto simp: wrote_def)
    then show ?thesis using assms(2) unfolding wrote_def by (metis option.distinct(1))
  next
    case False
    then show ?thesis using assms(2) k by (simp add: wrote_def)
  qed
next
  fix k assume k: "\<not> (a \<le> k \<and> k < c)"
  then have "\<not> (a \<le> k \<and> k < b)" "\<not> (b \<le> k \<and> k < c)" using assms(3,4) by auto
  then show "byte_at fs'' p k = byte_at fs p k \<or> byte_at fs p k = None \<and> byte_at fs'' p k = Some 0"
    using assms(1,2) unfolding wrote_def by (metis option.distinct(1))
next
  fix q assume q: "q < 256" "q \<noteq> p \<and> in_use (inodes fs ! q)"
  then have "in_use (inodes fs' ! q)" using frame_in_use [OF assms(5)] by simp
  then show "byte_at fs'' q = byte_at fs q" using assms(1,2) q by (simp add: wrote_def)
qed

text \<open>One round of the loop, after the block exists.\<close>

lemma write_chunk:
  assumes ok: "ifs_ok fs" and p: "p < 256" "in_use (inodes fs ! p)" and i: "i < 10" "blk fs (p, i) \<noteq> 0"
    and off: "off + length bs \<le> 512" "off < 512" and a: "a = i * 512 + off" and f: "\<And>j. j < length bs \<Longrightarrow> bs ! j = f (a + j)"
  defines "fs' \<equiv> fs\<lparr>disk := write_bytes (storage fs + blk fs (p, i) * 512 + of_nat off) bs (disk fs)\<rparr>"
  shows "ifs_ok fs'" "frame p fs fs'" "wrote p a (a + length bs) f fs fs'"
proof -
  show "ifs_ok fs'" unfolding fs'_def by (rule ifs_ok_disk [OF ok])
  show "frame p fs fs'" by (simp add: frame_def fs'_def)
  have b: "byte_at fs' q k = (if q = p \<and> a \<le> k \<and> k < a + length bs then Some (bs ! (k - a)) else byte_at fs q k)"
    if "q < 256" "in_use (inodes fs ! q)" for q k
    unfolding fs'_def a using byte_write [OF ok p i off that] by simp
  show "wrote p a (a + length bs) f fs fs'"
    unfolding wrote_def using b [OF p] b f by (auto simp: fun_eq_iff)
qed

text \<open>The block of the current position: present, newly allocated, or not to be had.\<close>

lemma get_block_ok:
  assumes ok: "ifs_ok fs" and p: "p < 256" "in_use (inodes fs ! p)" and i: "unat idx < 10"
  obtains (none) "get_block p idx (blk fs (p, unat idx)) fs = Some (False, fs)" "clear_bits fs \<subseteq> {0}"
    | (got) fs2 where "get_block p idx (blk fs (p, unat idx)) fs = Some (True, fs2)" "ifs_ok fs2" "frame p fs fs2" "blk fs2 (p, unat idx) \<noteq> 0"
        "wrote p a a f fs fs2"
proof (cases "blk fs (p, unat idx) = 0")
  case False
  then show thesis using got [of fs] ok frame_refl wrote_refl by (simp add: get_block_def)
next
  case True
  show thesis
  proof (cases rule: ensure_block [OF ok p i True, case_names full got])
    case full
    then show thesis using none True by (simp add: get_block_def)
  next
    case (got b fs1 fs2)
    have b: "byte_at fs2 q k = (if q = p \<and> k div 512 = unat idx then Some 0 else byte_at fs q k)" if "q < 256" "in_use (inodes fs ! q)" for q k
      by (rule byte_ensure [OF ok got(7,2) i got(9,3,8) that])
    have "wrote p a a f fs fs2" unfolding wrote_def using b [OF p] b True by (auto simp: fun_eq_iff byte_at_def)
    then show thesis using that(2) [of fs2] got True by (simp add: get_block_def)
  qed
qed

lemma write_loop_ok:
  assumes p: "p < 256" and w: "unat offset + unat sz \<le> 5120" and buf: "unat sz \<le> length buf"
  shows "ifs_ok fs \<Longrightarrow> in_use (inodes fs ! p) \<Longrightarrow> unat d \<le> unat sz \<Longrightarrow>
    \<exists>n fs'. inode_write_loop p buf offset sz d fs = Some (n, fs') \<and> ifs_ok fs' \<and> frame p fs fs' \<and> unat d \<le> unat n \<and> unat n \<le> unat sz \<and>
      (unat n < unat sz \<longrightarrow> clear_bits fs' \<subseteq> {0}) \<and>
      wrote p (unat offset + unat d) (unat offset + unat n) (\<lambda>k. buf ! (k - unat offset)) fs fs'"
proof (induction "unat sz - unat d" arbitrary: d fs rule: less_induct)
  case less
  let ?f = "\<lambda>k. buf ! (k - unat offset)"
  show ?case
  proof (cases "d < sz")
    case False
    then have "inode_write_loop p buf offset sz d fs = Some (d, fs)" by (subst inode_write_loop.simps) simp
    moreover have "unat d = unat sz" using False less.prems(3) by (simp add: word_less_nat_alt)
    ultimately show ?thesis using less.prems(1) frame_refl wrote_refl by auto
  next
    case True
    then have lt: "unat d < unat sz" by (simp add: word_less_nat_alt)
    obtain idx off n where c: "chunk offset sz d = (idx, off, n)" by (metis prod_cases3)
    note ch = chunk_ok [OF _ lt c]
    have w32: "unat offset + unat sz < 2 ^ 32" using w by simp
    note ch = chunk_ok [OF w32 lt c]
    have i: "unat idx < 10" using ch(1) lt w by simp
    have ten: "\<not> of_nat 10 \<le> idx" using i by (simp add: word_le_nat_alt)
    have fits: "unat off + unat n \<le> 512" using ch(3,4) by linarith
    have start: "inode_write_loop p buf offset sz d fs = do {
        (ok, fs) \<leftarrow> get_block p idx (blk fs (p, unat idx)) fs;
        if \<not> ok then Some (d, fs)
        else do {
          ino \<leftarrow> inode_at p fs;
          block_num \<leftarrow> array_get (direct_blocks ino) (uint idx);
          case block_get_ptr fs block_num of None \<Rightarrow> Some (d, fs)
          | Some q \<Rightarrow> do {
              bs \<leftarrow> data_at buf d n;
              inode_write_loop p buf offset sz (d + n) (fs\<lparr>disk := write_bytes (q + off) bs (disk fs)\<rparr>) } } }"
      using True c ten p ifs_okD(2) [OF less.prems(1)] direct_block_at [OF less.prems(1) p less.prems(2) i]
      by (subst inode_write_loop.simps) (simp add: inode_at_def)
    show ?thesis
    proof (cases rule: get_block_ok [OF less.prems(1) p less.prems(2) i, where a = "unat offset + unat d" and f = ?f, case_names none got])
      case none
      then show ?thesis using start less.prems frame_refl wrote_refl by auto
    next
      case (got fs2)
      have use: "in_use (inodes fs2 ! p)" using frame_in_use [OF got(3)] less.prems(2) by simp
      have own: "(p, unat idx) \<in> owned fs2" by (rule owned_place [OF p use i got(4)])
      have ptr: "block_get_ptr fs2 (blk fs2 (p, unat idx)) = Some (storage fs2 + blk fs2 (p, unat idx) * 512)"
        by (rule block_get_ptr_ok [OF got(2) owned_block(1) [OF got(2) own] got(4)])
      let ?bs = "take (unat n) (drop (unat d) buf)"
      have len: "length ?bs = unat n" using ch(4) buf lt by simp
      have data: "data_at buf d n = Some ?bs" using ch(4) buf lt by (simp add: data_at_def)
      have a: "unat offset + unat d = unat idx * 512 + unat off" using ch(1,2) by simp
      define fs3 where "fs3 = fs2\<lparr>disk := write_bytes (storage fs2 + blk fs2 (p, unat idx) * 512 + of_nat (unat off)) ?bs (disk fs2)\<rparr>"
      have f: "?bs ! j = ?f (unat offset + unat d + j)" if "j < length ?bs" for j using that buf lt by (simp add: less_imp_le)
      note st = write_chunk [OF got(2) p use i got(4) _ ch(3) a f, folded fs3_def]
      have st: "ifs_ok fs3" "frame p fs2 fs3" "wrote p (unat offset + unat d) (unat offset + unat d + unat n) ?f fs2 fs3"
        using st fits len by auto
      have step: "inode_write_loop p buf offset sz d fs = inode_write_loop p buf offset sz (d + n) fs3"
        unfolding start using got(1) use ifs_okD(2) [OF got(2)] p direct_block_at [OF got(2) p use i] ptr data by (simp add: inode_at_def fs3_def)
      have fr: "frame p fs fs3" using frame_trans [OF got(3) st(2)] .
      obtain m fs' where o: "inode_write_loop p buf offset sz (d + n) fs3 = Some (m, fs')" "ifs_ok fs'" "frame p fs3 fs'"
        "unat (d + n) \<le> unat m" "unat m \<le> unat sz" "unat m < unat sz \<longrightarrow> clear_bits fs' \<subseteq> {0}"
        "wrote p (unat offset + unat (d + n)) (unat offset + unat m) ?f fs3 fs'"
        using less.hyps [OF ch(8) st(1) _ ch(7)] frame_in_use [OF st(2)] use by blast
      have "wrote p (unat offset + unat d) (unat offset + unat d + unat n) ?f fs fs3"
        using wrote_trans [OF got(5) st(3) _ _ got(3)] by simp
      then have "wrote p (unat offset + unat d) (unat offset + unat m) ?f fs fs'"
        using wrote_trans [OF _ o(7) _ _ fr] o(4) ch(5) by (simp add: add.assoc)
      then show ?thesis using step o(1-6) frame_trans [OF fr o(3)] ch(5) by auto
    qed
  qed
qed

end
