(* ===== verification/Inode_Props.thy ===== *)
theory Inode_Props
  imports Inode_IO
begin

text \<open>
  The properties of blocks and i-nodes.
\<close>

section \<open>Reading\<close>

lemma inode_read_ok:
  assumes ok: "ifs_ok fs" and p: "p < 256" "in_use (inodes fs ! p)" and w: "unat offset + unat sz < 2 ^ 32"
  shows "inode_read (Some p) offset sz fs =
    (let bs = available fs p (unat offset) (min (unat offset + unat sz) (unat (isize (inodes fs ! p)))) in Some (of_nat (length bs), bs))"
proof -
  let ?s = "isize (inodes fs ! p)"
  have at: "inode_at p fs = Some (inodes fs ! p)" using p ifs_okD(2) [OF ok] by (simp add: inode_at_def)
  show ?thesis
  proof (cases "?s \<le> offset")
    case True
    then show ?thesis using at by (simp add: inode_read_def available_def word_le_nat_alt min_def)
  next
    case False
    then have lt: "unat offset < unat ?s" by (simp add: word_le_nat_alt)
    let ?sz = "if offset + sz > ?s then ?s - offset else sz"
    have s: "unat (offset + sz) = unat offset + unat sz" using w by (subst unat_word_ariths) simp
    have d: "unat (?s - offset) = unat ?s - unat offset" using unat_sub [of offset ?s] lt by (simp add: word_le_nat_alt)
    have e: "unat offset + unat ?sz = min (unat offset + unat sz) (unat ?s)" using s d lt by (auto simp: word_less_nat_alt min_def)
    have "unat offset + unat ?sz < 2 ^ 32" using e w by simp
    from read_loop_ok [OF ok p this, of 0 "[]"] have "inode_read_loop (inodes fs ! p) fs offset ?sz 0 [] =
        (let bs = available fs p (unat offset) (unat offset + unat ?sz) in Some (of_nat (length bs), bs))" by (simp del: if_split)
    moreover have "inode_read (Some p) offset sz fs = inode_read_loop (inodes fs ! p) fs offset ?sz 0 []"
      using at False by (simp add: inode_read_def)
    ultimately show ?thesis unfolding e by simp
  qed
qed

lemma available_all:
  assumes "\<And>k. a \<le> k \<Longrightarrow> k < b \<Longrightarrow> byte_at fs p k = Some (f k)"
  shows "available fs p a b = map f [a..<b]"
proof (cases "a \<le> b")
  case True
  have "available fs p a b = map (\<lambda>k. the (byte_at fs p k)) [a..<b] @ available fs p b b"
    by (rule available_split) (use True assms in auto)
  then show ?thesis using assms by (simp add: available_def)
qed (simp add: available_def)

lemma inode_read_cong:
  assumes "ifs_ok fs" "ifs_ok fs'" "p < 256" "in_use (inodes fs ! p)" "inodes fs' ! p = inodes fs ! p" "byte_at fs' p = byte_at fs p"
    "unat offset + unat sz < 2 ^ 32"
  shows "inode_read (Some p) offset sz fs' = inode_read (Some p) offset sz fs"
  using inode_read_ok [OF assms(1,3,4,7)] inode_read_ok [OF assms(2,3) _ assms(7)] assms(4-6) by (simp add: available_def)

section \<open>Writing\<close>

lemma upd_size_ok:
  assumes "ifs_ok fs" "p < 256"
  shows "ifs_ok (fs\<lparr>inodes := (inodes fs)[p := (inodes fs ! p)\<lparr>isize := s\<rparr>]\<rparr>)" (is "ifs_ok ?fs")
    "byte_at (fs\<lparr>inodes := (inodes fs)[p := (inodes fs ! p)\<lparr>isize := s\<rparr>]\<rparr>) = byte_at fs"
proof -
  have i: "direct_blocks (inodes ?fs ! q) = direct_blocks (inodes fs ! q)" "in_use (inodes ?fs ! q) = in_use (inodes fs ! q)" for q
    using assms ifs_okD(2) [OF assms(1)] by (cases "q = p"; simp)+
  have b: "blk ?fs = blk fs" using i(1) by (simp add: blk_def fun_eq_iff)
  have o: "owned ?fs = owned fs" using i(2) b by (simp add: owned_def)
  have st: "storage ?fs = storage fs" by (simp add: storage_def)
  show "ifs_ok ?fs" using assms(1) unfolding ifs_ok_def b o st i by simp
  show "byte_at ?fs = byte_at fs" unfolding fun_eq_iff byte_at_def b block_bytes_def st by simp
qed

lemma inode_write_ok:
  assumes ok: "ifs_ok fs" and p: "p < 256" "in_use (inodes fs ! p)" and w: "unat offset + unat sz \<le> 5120" and buf: "unat sz \<le> length buf"
  shows "\<exists>n fs'. inode_write (Some p) (Some buf) offset sz fs = Some (n, fs') \<and> ifs_ok fs' \<and> unat n \<le> unat sz \<and>
    (unat n < unat sz \<longrightarrow> clear_bits fs' \<subseteq> {0}) \<and> in_use (inodes fs' ! p) \<and>
    unat (isize (inodes fs' ! p)) = max (unat (isize (inodes fs ! p))) (unat offset + unat n) \<and>
    (\<forall>q. q \<noteq> p \<longrightarrow> inodes fs' ! q = inodes fs ! q) \<and>
    wrote p (unat offset) (unat offset + unat n) (\<lambda>k. buf ! (k - unat offset)) fs fs'"
proof -
  obtain n fs1 where o: "inode_write_loop p buf offset sz 0 fs = Some (n, fs1)" "ifs_ok fs1" "frame p fs fs1" "unat n \<le> unat sz"
    "unat n < unat sz \<longrightarrow> clear_bits fs1 \<subseteq> {0}" "wrote p (unat offset) (unat offset + unat n) (\<lambda>k. buf ! (k - unat offset)) fs fs1"
    using write_loop_ok [OF p(1) w buf ok p(2), of 0] by auto
  have len: "length (inodes fs1) = 256" using ifs_okD(2) [OF o(2)] .
  have sz: "isize (inodes fs1 ! p) = isize (inodes fs ! p)" "in_use (inodes fs1 ! p)" using o(3) p(2) by (auto simp: frame_def)
  have on: "unat (offset + n) = unat offset + unat n" using w o(4) by (subst unat_word_ariths) simp
  show ?thesis
  proof (cases "offset + n > isize (inodes fs ! p)")
    case True
    let ?fs = "fs1\<lparr>inodes := (inodes fs1)[p := (inodes fs1 ! p)\<lparr>isize := offset + n\<rparr>]\<rparr>"
    have "inode_write (Some p) (Some buf) offset sz fs = Some (n, ?fs)"
      using o(1) True len p(1) sz(1) by (simp add: inode_write_def inode_at_def upd_inode_def)
    moreover have "wrote p (unat offset) (unat offset + unat n) (\<lambda>k. buf ! (k - unat offset)) fs ?fs"
      using o(6) unfolding wrote_def upd_size_ok(2) [OF o(2) p(1)] .
    moreover have "\<forall>q. q \<noteq> p \<longrightarrow> inodes ?fs ! q = inodes fs ! q" using o(3) by (simp add: frame_def)
    ultimately show ?thesis
      using upd_size_ok(1) [OF o(2) p(1)] o(4,5) True on len p(1) sz by (intro exI [of _ n] exI [of _ ?fs]) (simp add: word_less_nat_alt max_def)
  next
    case False
    have "inode_write (Some p) (Some buf) offset sz fs = Some (n, fs1)"
      using o(1) False len p(1) sz(1) by (simp add: inode_write_def inode_at_def)
    then show ?thesis using o False on sz by (intro exI [of _ n] exI [of _ fs1]) (auto simp: word_less_nat_alt max_def frame_def)
  qed
qed

section \<open>Freeing\<close>

lemma takeWhile_upt: "takeWhile (\<lambda>i. i < c) [0..<n] = [0..<min n c]"
proof (induction n)
  case (Suc n)
  then show ?case by (cases "n < c") (auto simp: takeWhile_append min_def)
qed simp

lemma block_free_ok:
  assumes "length (block_bitmap fs) = 32" "unat b < 1024" "b \<noteq> 0"
  shows "\<exists>bm. block_free b fs = Some (fs\<lparr>block_bitmap := bm, free_blocks := free_blocks fs + 1\<rparr>) \<and> length bm = 32 \<and>
    (\<forall>j. bm_bit bm j \<longleftrightarrow> j \<noteq> unat b \<and> bm_bit (block_bitmap fs) j)"
proof -
  obtain bm where "bitmap_clear (block_bitmap fs) (unat b) = Some bm" "length bm = 32" "\<forall>j. bm_bit bm j \<longleftrightarrow> j \<noteq> unat b \<and> bm_bit (block_bitmap fs) j"
    using bitmap_clear_ok [of "unat b" "block_bitmap fs"] assms less_mult_imp_div_less [of "unat b" 32 32] by auto
  moreover have "\<not> b \<ge> of_nat 1024" using assms(2) by (simp add: word_le_nat_alt)
  ultimately show ?thesis using assms(3) by (auto simp: block_free_def)
qed

lemma free_loop_ok:
  assumes "length (direct_blocks ino) = 10" "distinct is" "set is \<subseteq> {..<10}"
    and "\<And>i. i \<in> set is \<Longrightarrow> direct_blocks ino ! i \<noteq> 0 \<Longrightarrow> unat (direct_blocks ino ! i) < 1024"
  shows "length (block_bitmap fs) = 32 \<Longrightarrow> \<exists>bm. free_blocks_loop ino is fs = Some (fs\<lparr>block_bitmap := bm,
      free_blocks := free_blocks fs + int (length (filter (\<lambda>i. direct_blocks ino ! i \<noteq> 0) (takeWhile (\<lambda>i. i < unat (block_count ino)) is)))\<rparr>) \<and>
    length bm = 32 \<and> (\<forall>j. bm_bit bm j \<longleftrightarrow> bm_bit (block_bitmap fs) j \<and>
      (\<forall>i \<in> set (takeWhile (\<lambda>i. i < unat (block_count ino)) is). direct_blocks ino ! i \<noteq> 0 \<longrightarrow> j \<noteq> unat (direct_blocks ino ! i)))"
  using assms(2-4)
proof (induction "is" arbitrary: fs)
  case Nil
  then show ?case by (intro exI [of _ "block_bitmap fs"]) simp
next
  case (Cons i "is")
  have i: "i < 10" using Cons.prems(3) by simp
  then have lt: "of_nat i < block_count ino \<longleftrightarrow> i < unat (block_count ino)" by (simp add: word_less_nat_alt unsigned_of_nat take_bit_nat_eq_self)
  have get: "array_get (direct_blocks ino) (int i) = Some (direct_blocks ino ! i)" using assms(1) i by (simp add: array_get_nth)
  show ?case
  proof (cases "i < unat (block_count ino)")
    case False
    then show ?thesis using lt Cons.prems(1) by (intro exI [of _ "block_bitmap fs"]) simp
  next
    case True
    show ?thesis
    proof (cases "direct_blocks ino ! i = 0")
      case zero: True
      then show ?thesis using Cons.IH [of fs] Cons.prems True lt get by simp
    next
      case False
      obtain bm where bm: "block_free (direct_blocks ino ! i) fs = Some (fs\<lparr>block_bitmap := bm, free_blocks := free_blocks fs + 1\<rparr>)" "length bm = 32"
        "\<forall>j. bm_bit bm j \<longleftrightarrow> j \<noteq> unat (direct_blocks ino ! i) \<and> bm_bit (block_bitmap fs) j"
        using block_free_ok [OF Cons.prems(1)] Cons.prems(4) False by (metis list.set_intros(1))
      have pos: "0 < direct_blocks ino ! i" using False by (simp add: word_gt_0)
      from Cons.IH [of "fs\<lparr>block_bitmap := bm, free_blocks := free_blocks fs + 1\<rparr>"] Cons.prems bm(2) obtain bm' where
        "free_blocks_loop ino is (fs\<lparr>block_bitmap := bm, free_blocks := free_blocks fs + 1\<rparr>) = Some (fs\<lparr>block_bitmap := bm',
           free_blocks := free_blocks fs + 1 + int (length (filter (\<lambda>i. direct_blocks ino ! i \<noteq> 0) (takeWhile (\<lambda>i. i < unat (block_count ino)) is)))\<rparr>)"
        "length bm' = 32" "\<forall>j. bm_bit bm' j \<longleftrightarrow> bm_bit bm j \<and>
          (\<forall>i \<in> set (takeWhile (\<lambda>i. i < unat (block_count ino)) is). direct_blocks ino ! i \<noteq> 0 \<longrightarrow> j \<noteq> unat (direct_blocks ino ! i))"
        by auto
      then show ?thesis using True lt get False bm(1,3) pos by (intro exI [of _ bm']) auto
    qed
  qed
qed

text \<open>The blocks that \<open>inode_free\<close> frees: those at the indices below the block count.\<close>

definition freed :: "btree_filesystem \<Rightarrow> nat \<Rightarrow> nat set" where
  "freed fs p = (\<lambda>i. unat (blk fs (p, i))) ` {i. i < min DIRECT_BLOCKS (unat (block_count (inodes fs ! p))) \<and> blk fs (p, i) \<noteq> 0}"

lemma freed_ok:
  assumes ok: "ifs_ok fs" and p: "p < 256" "in_use (inodes fs ! p)"
  obtains bm where "free_blocks_loop (inodes fs ! p) [0..<10] fs = Some (fs\<lparr>block_bitmap := bm, free_blocks := free_blocks fs + int (card (freed fs p))\<rparr>)"
    "length bm = 32" "\<forall>j. bm_bit bm j \<longleftrightarrow> bm_bit (block_bitmap fs) j \<and> j \<notin> freed fs p"
    "freed fs p \<subseteq> {b. b < 1024 \<and> bm_bit (block_bitmap fs) b}"
proof -
  let ?ino = "inodes fs ! p"
  let ?n = "min 10 (unat (block_count ?ino))"
  let ?I = "{i. i < ?n \<and> blk fs (p, i) \<noteq> 0}"
  have own: "(p, i) \<in> owned fs" if "i < 10" "direct_blocks ?ino ! i \<noteq> 0" for i using that p by (simp add: owned_def blk_def)
  have tw: "takeWhile (\<lambda>i. i < unat (block_count ?ino)) [0..<10] = [0..<?n]" by (rule takeWhile_upt)
  have I: "?I = set (filter (\<lambda>i. direct_blocks ?ino ! i \<noteq> 0) [0..<?n])" by (auto simp: blk_def)
  have inj: "inj_on (\<lambda>i. unat (blk fs (p, i))) ?I"
  proof (rule inj_onI)
    fix i j assume "i \<in> ?I" "j \<in> ?I" "unat (blk fs (p, i)) = unat (blk fs (p, j))"
    moreover from this(1,2) have "(p, i) \<in> owned fs" "(p, j) \<in> owned fs" using own by (auto simp: blk_def)
    ultimately have "blk fs (p, i) = blk fs (p, j)" "(p, i) \<in> owned fs" "(p, j) \<in> owned fs" by (simp_all add: word_unat_eq_iff)
    from inj_onD [OF ifs_okD(5) [OF ok] this] show "i = j" by simp
  qed
  have "card (freed fs p) = card ?I" unfolding freed_def using card_image [OF inj] .
  also have "\<dots> = length (filter (\<lambda>i. direct_blocks ?ino ! i \<noteq> 0) [0..<?n])" unfolding I by (rule distinct_card) simp
  finally have card: "card (freed fs p) = length (filter (\<lambda>i. direct_blocks ?ino ! i \<noteq> 0) [0..<?n])" .
  have "\<exists>bm. free_blocks_loop ?ino [0..<10] fs = Some (fs\<lparr>block_bitmap := bm,
      free_blocks := free_blocks fs + int (length (filter (\<lambda>i. direct_blocks ?ino ! i \<noteq> 0) [0..<?n]))\<rparr>) \<and>
    length bm = 32 \<and> (\<forall>j. bm_bit bm j \<longleftrightarrow> bm_bit (block_bitmap fs) j \<and>
      (\<forall>i \<in> set [0..<?n]. direct_blocks ?ino ! i \<noteq> 0 \<longrightarrow> j \<noteq> unat (direct_blocks ?ino ! i)))"
    unfolding tw [symmetric]
    by (rule free_loop_ok) (use ifs_ok_len [OF ok p] ifs_okD(1) [OF ok] own owned_block(1) [OF ok] in \<open>auto simp: blk_def\<close>)
  then obtain bm where bm: "free_blocks_loop ?ino [0..<10] fs = Some (fs\<lparr>block_bitmap := bm,
      free_blocks := free_blocks fs + int (card (freed fs p))\<rparr>)" "length bm = 32"
    "\<forall>j. bm_bit bm j \<longleftrightarrow> bm_bit (block_bitmap fs) j \<and>
      (\<forall>i \<in> set [0..<?n]. direct_blocks ?ino ! i \<noteq> 0 \<longrightarrow> j \<noteq> unat (direct_blocks ?ino ! i))" unfolding card by blast
  have "(\<forall>i \<in> set [0..<?n]. direct_blocks ?ino ! i \<noteq> 0 \<longrightarrow> j \<noteq> unat (direct_blocks ?ino ! i)) \<longleftrightarrow> j \<notin> freed fs p" for j
    by (auto simp: freed_def blk_def)
  then have "\<forall>j. bm_bit bm j \<longleftrightarrow> bm_bit (block_bitmap fs) j \<and> j \<notin> freed fs p" using bm(3) by simp
  moreover have "freed fs p \<subseteq> {b. b < 1024 \<and> bm_bit (block_bitmap fs) b}"
  proof
    fix b assume "b \<in> freed fs p"
    then obtain i where i: "i < 10" "blk fs (p, i) \<noteq> 0" "b = unat (blk fs (p, i))" by (auto simp: freed_def)
    then have "(p, i) \<in> owned fs" using own [of i] by (simp add: blk_def)
    then show "b \<in> {b. b < 1024 \<and> bm_bit (block_bitmap fs) b}" using owned_block(1,2) [OF ok, of "(p, i)"] i(3) by simp
  qed
  ultimately show thesis using that bm(1,2) by blast
qed

lemma btree_delete_returns:
  assumes "btree_rep L T tree m" shows "\<exists>r tree' m'. btree_delete tree key m = Some (r, tree', m')"
proof (cases T)
  case None
  then show ?thesis using assms by (simp add: btree_rep_def btree_delete_def)
next
  case (Some t)
  then have "bt_ok (bt_nodes m) t" "root tree = Some (addr t)" using assms by (auto simp: btree_rep_def)
  then show ?thesis using delete_loop_ok [of m t tree key] by (auto simp: btree_delete_def split: if_splits)
qed

lemma inode_free_ok:
  assumes ok: "ifs_ok fs" and p: "p < 256" "in_use (inodes fs ! p)" and t: "btree_rep L T (inode_tree fs) (tree_mem fs)"
    and im: "length (inode_bitmap fs) = 8" "unat (inode_num (inodes fs ! p)) < 256"
  shows "\<exists>fs'. inode_free (Some p) fs = Some fs' \<and> ifs_ok fs' \<and> \<not> in_use (inodes fs' ! p) \<and> (\<forall>q. q \<noteq> p \<longrightarrow> inodes fs' ! q = inodes fs ! q) \<and>
    clear_bits fs' = clear_bits fs \<union> freed fs p \<and> free_inodes fs' = free_inodes fs + 1 \<and> owned fs' = {x \<in> owned fs. fst x \<noteq> p} \<and>
    blk fs' = blk fs \<and> (\<forall>j. bm_bit (inode_bitmap fs') j \<longleftrightarrow> j \<noteq> unat (inode_num (inodes fs ! p)) \<and> bm_bit (inode_bitmap fs) j) \<and>
    length (inode_bitmap fs') = 8 \<and> name_tree fs' = name_tree fs \<and> disk fs' = disk fs \<and> block_storage fs' = block_storage fs \<and>
    inode_num (inodes fs' ! p) = inode_num (inodes fs ! p) \<and>
    (\<exists>r. btree_delete (inode_tree fs) (inode_num (inodes fs ! p)) (tree_mem fs) = Some (r, inode_tree fs', tree_mem fs'))"
proof -
  obtain bm where bm: "free_blocks_loop (inodes fs ! p) [0..<10] fs = Some (fs\<lparr>block_bitmap := bm, free_blocks := free_blocks fs + int (card (freed fs p))\<rparr>)"
    "length bm = 32" "\<forall>j. bm_bit bm j \<longleftrightarrow> bm_bit (block_bitmap fs) j \<and> j \<notin> freed fs p"
    "freed fs p \<subseteq> {b. b < 1024 \<and> bm_bit (block_bitmap fs) b}" using freed_ok [OF ok p] .
  obtain r tree m where d: "btree_delete (inode_tree fs) (inode_num (inodes fs ! p)) (tree_mem fs) = Some (r, tree, m)"
    using btree_delete_returns [OF t] by blast
  obtain im' where im': "bitmap_clear (inode_bitmap fs) (unat (inode_num (inodes fs ! p))) = Some im'"
    "length im' = 8" "\<forall>j. bm_bit im' j \<longleftrightarrow> j \<noteq> unat (inode_num (inodes fs ! p)) \<and> bm_bit (inode_bitmap fs) j"
    using bitmap_clear_ok [of "unat (inode_num (inodes fs ! p))" "inode_bitmap fs"] im less_mult_imp_div_less [of "unat (inode_num (inodes fs ! p))" 8 32] by auto
  note len = ifs_okD(2) [OF ok]
  let ?fs = "fs\<lparr>inode_tree := tree, inodes := (inodes fs)[p := (inodes fs ! p)\<lparr>in_use := False\<rparr>], block_bitmap := bm, inode_bitmap := im',
    free_inodes := free_inodes fs + 1, free_blocks := free_blocks fs + int (card (freed fs p)), tree_mem := m\<rparr>"
  have run: "inode_free (Some p) fs = Some ?fs"
    using p len bm(1) d im'(1) by (simp add: inode_free_def inode_at_def upd_inode_def)
  have i: "direct_blocks (inodes ?fs ! q) = direct_blocks (inodes fs ! q)" "in_use (inodes ?fs ! q) \<longleftrightarrow> q \<noteq> p \<and> in_use (inodes fs ! q)" for q
    using p(1) len by (cases "q = p"; simp)+
  have b: "blk ?fs = blk fs" using i(1) by (simp add: blk_def fun_eq_iff)
  have o: "owned ?fs = {x \<in> owned fs. fst x \<noteq> p}" unfolding owned_def b i(2) by auto
  have clear: "clear_bits ?fs = clear_bits fs \<union> freed fs p" using bm(3,4) by auto
  have card: "card (clear_bits ?fs) = card (clear_bits fs) + card (freed fs p)"
    unfolding clear by (rule card_Un_disjoint) (use bm(4) finite_subset [OF bm(4)] in auto)
  have keep: "bm_bit bm (unat (blk fs x))" if x: "x \<in> owned fs" "fst x \<noteq> p" for x
  proof -
    have "unat (blk fs x) \<noteq> unat (blk fs (p, i))" if i: "(p, i) \<in> owned fs" for i
      using inj_onD [OF ifs_okD(5) [OF ok] _ x(1) i] x(2) by (auto simp: word_unat_eq_iff [symmetric])
    then have "unat (blk fs x) \<notin> freed fs p" using p by (auto simp: freed_def owned_def)
    then show ?thesis using bm(3) owned_block(2) [OF ok x(1)] by simp
  qed
  have "ifs_ok ?fs" unfolding ifs_ok_def
  proof (intro conjI)
    show "\<forall>q < 256. in_use (inodes ?fs ! q) \<longrightarrow> length (direct_blocks (inodes ?fs ! q)) = 10" unfolding i using ifs_ok_len [OF ok] by simp
    show "\<forall>x \<in> owned ?fs. unat (blk ?fs x) < 1024 \<and> bm_bit (block_bitmap ?fs) (unat (blk ?fs x))"
      unfolding o b using owned_block(1) [OF ok] keep by simp
    show "inj_on (blk ?fs) (owned ?fs)" unfolding o b by (rule inj_on_subset [OF ifs_okD(5) [OF ok]]) auto
    show "free_blocks ?fs = int (card (clear_bits ?fs))" unfolding card using ifs_okD(6) [OF ok] by simp
  qed (use bm(2) len ok in \<open>auto simp: storage_def ifs_ok_def\<close>)
  then show ?thesis using run clear o b im'(2,3) p(1) len d by (intro exI [of _ ?fs]) simp
qed

section \<open>Concrete states\<close>

definition demo_inode :: "u32 list \<Rightarrow> u32 \<Rightarrow> inode" where
  "demo_inode bs n = \<lparr>inode_num = 0, itype = 1, isize = 0, permissions = 6, link_count = 1, block_count = n, direct_blocks = bs,
     indirect_block = 0, double_indirect_block = 0, in_use = True\<rparr>"

definition demo_ifs :: "u32 \<Rightarrow> u32 list \<Rightarrow> u32 \<Rightarrow> int \<Rightarrow> kheap \<Rightarrow> btree_filesystem" where
  "demo_ifs bm bs n free h = \<lparr>inode_tree = \<lparr>root = NULL, height = 0, num_nodes = 0\<rparr>, name_tree = \<lparr>root = NULL, height = 0, num_nodes = 0\<rparr>,
     inodes = demo_inode bs n # replicate 255 ((demo_inode bs n)\<lparr>in_use := False\<rparr>), block_storage = Some 12,
     block_bitmap = bm # replicate 31 0, inode_bitmap = 1 # replicate 7 0, total_inodes = 256, free_inodes = 255, total_blocks = 1024,
     free_blocks = free, tree_mem = \<lparr>bt_nodes = Map.empty, bt_heap = h\<rparr>, disk = (\<lambda>_. 0)\<rparr>"

definition no_heap :: kheap where
  "no_heap = \<lparr>headers = Map.empty, free_list = NULL\<rparr>"

lemma demo_in_use: "q < 256 \<Longrightarrow> in_use (inodes (demo_ifs bm bs n free h) ! q) \<longleftrightarrow> q = 0"
  by (cases q) (simp_all add: demo_ifs_def demo_inode_def)

text \<open>The i-node 0 without blocks, and with one block at the index 1 as after a write at the offset 512.\<close>

lemma empty_ifs_ok: "ifs_ok (demo_ifs 0 (replicate 10 0) 0 1024 h)" (is "ifs_ok ?fs")
proof -
  have o: "owned ?fs = {}" by (auto simp: owned_def demo_in_use) (simp add: blk_def demo_ifs_def demo_inode_def)
  have "\<not> bm_bit (block_bitmap ?fs) b" if "b < 1024" for b
  proof -
    have "block_bitmap ?fs = replicate 32 0" by (simp add: demo_ifs_def numeral_eq_Suc)
    then show ?thesis using less_mult_imp_div_less [of b 32 32] that by (simp add: bm_bit_def)
  qed
  then have "clear_bits ?fs = {..<1024}" by auto
  then show ?thesis unfolding ifs_ok_def o using demo_in_use [of _ 0 "replicate 10 0" 0 1024 h]
    by (simp add: storage_def) (simp add: demo_ifs_def demo_inode_def)
qed

lemma sparse_ifs_ok: "ifs_ok (demo_ifs 2 [0, 1, 0, 0, 0, 0, 0, 0, 0, 0] 1 1023 h)" (is "ifs_ok ?fs")
  "owned (demo_ifs 2 [0, 1, 0, 0, 0, 0, 0, 0, 0, 0] 1 1023 h) = {(0, 1)}"
proof -
  have z: "inodes ?fs ! 0 = demo_inode [0, 1, 0, 0, 0, 0, 0, 0, 0, 0] 1" by (simp add: demo_ifs_def)
  show o: "owned ?fs = {(0, 1)}"
    by (auto simp: owned_def demo_in_use z blk_def demo_inode_def nth_Cons' split: if_splits)
  have bit: "bm_bit (block_bitmap ?fs) b \<longleftrightarrow> b = 1" if "b < 1024" for b
  proof (cases "b div 32")
    case 0
    then have "b < 32" by (simp add: div_eq_0_iff)
    then show ?thesis using 0 bit_exp_iff [of 1 b, where 'a = "32 word"] by (auto simp: bm_bit_def demo_ifs_def possible_bit_def)
  next
    case (Suc k)
    then have "k < 31" "b \<noteq> 1" using less_mult_imp_div_less [of b 32 32] that by auto
    then show ?thesis using Suc by (simp add: bm_bit_def demo_ifs_def)
  qed
  then have "clear_bits ?fs = {..<1024} - {1}" by auto
  then have "card (clear_bits ?fs) = 1023" by simp
  moreover have "blk ?fs (0, 1) = 1" by (simp add: blk_def z demo_inode_def)
  moreover have "length (direct_blocks (inodes ?fs ! q)) = 10" if "q < 256" "in_use (inodes ?fs ! q)" for q
    using that by (simp add: demo_in_use z demo_inode_def)
  ultimately show "ifs_ok ?fs" unfolding ifs_ok_def o using bit [of 1]
    by (simp add: storage_def) (simp add: demo_ifs_def)
qed

section \<open>Properties\<close>

text \<open>C38: a write within the ten direct blocks returns, keeps the invariant, and stores a prefix of the data, all of it unless
  the blocks run out; reading back at the same offset returns exactly what was stored, and no read of another file changes.\<close>

theorem inode_write_read:
  assumes "ifs_ok fs" "p < MAX_INODE_COUNT" "in_use (inodes fs ! p)" "unat offset + unat sz \<le> 5120" "unat sz \<le> length buf"
  shows "\<exists>n fs'. inode_write (Some p) (Some buf) offset sz fs = Some (n, fs') \<and> ifs_ok fs' \<and> unat n \<le> unat sz \<and>
    (unat n < unat sz \<longrightarrow> clear_bits fs' \<subseteq> {0}) \<and>
    inode_read (Some p) offset n fs' = Some (n, take (unat n) buf) \<and>
    (\<forall>q u k. q < MAX_INODE_COUNT \<and> q \<noteq> p \<and> in_use (inodes fs ! q) \<and> unat u + unat k < 2 ^ 32 \<longrightarrow>
      inode_read (Some q) u k fs' = inode_read (Some q) u k fs)"
proof -
  obtain n fs' where o: "inode_write (Some p) (Some buf) offset sz fs = Some (n, fs')" "ifs_ok fs'" "unat n \<le> unat sz"
    "unat n < unat sz \<longrightarrow> clear_bits fs' \<subseteq> {0}" "in_use (inodes fs' ! p)"
    "unat (isize (inodes fs' ! p)) = max (unat (isize (inodes fs ! p))) (unat offset + unat n)" "\<forall>q. q \<noteq> p \<longrightarrow> inodes fs' ! q = inodes fs ! q"
    "wrote p (unat offset) (unat offset + unat n) (\<lambda>k. buf ! (k - unat offset)) fs fs'" using inode_write_ok [OF assms] by blast
  have "available fs' p (unat offset) (unat offset + unat n) = map (\<lambda>k. buf ! (k - unat offset)) [unat offset..<unat offset + unat n]"
    by (rule available_all) (use o(8) in \<open>simp add: wrote_def\<close>)
  also have "\<dots> = take (unat n) buf" by (rule nth_equalityI) (use o(3) assms(5) in simp_all)
  finally have "available fs' p (unat offset) (min (unat offset + unat n) (unat (isize (inodes fs' ! p)))) = take (unat n) buf"
    using o(6) by simp
  then have "inode_read (Some p) offset n fs' = Some (n, take (unat n) buf)"
    using inode_read_ok [OF o(2) assms(2) o(5), of offset n] assms(4,5) o(3) by simp
  moreover have "inode_read (Some q) u k fs' = inode_read (Some q) u k fs"
    if "q < 256" "q \<noteq> p" "in_use (inodes fs ! q)" "unat u + unat k < 2 ^ 32" for q u k
    using inode_read_cong [OF assms(1) o(2) that(1,3) _ _ that(4)] o(7,8) that by (simp add: wrote_def)
  ultimately show ?thesis using o(1-4) by blast
qed

theorem inode_write_read_witness:
  "\<exists>n fs'. inode_write (Some 0) (Some [7, 8, 9]) 510 3 (demo_ifs 0 (replicate 10 0) 0 1024 no_heap) = Some (n, fs') \<and>
     inode_read (Some 0) 510 n fs' = Some (n, take (unat n) [7, 8, 9])"
  using inode_write_read [OF empty_ifs_ok [of no_heap], of 0 510 3 "[7, 8, 9]"] demo_in_use [of 0] by auto

text \<open>\<open>block_alloc\<close> returns the lowest free block from 1 on, marks it, counts it and clears its bytes, and
  the contents of every block in use are unchanged; it returns 0 and changes nothing exactly if no block is free.\<close>

theorem block_alloc_correct:
  assumes "ifs_ok fs"
  shows "if clear_bits fs \<subseteq> {0} then block_alloc fs = Some (0, fs)
    else \<exists>b fs'. block_alloc fs = Some (b, fs') \<and> unat b = Min (clear_bits fs - {0}) \<and> clear_bits fs' = clear_bits fs - {unat b} \<and>
      free_blocks fs' = free_blocks fs - 1 \<and> block_bytes fs' b = replicate 512 0 \<and> (\<forall>x \<in> owned fs. block_bytes fs' (blk fs x) = block_bytes fs (blk fs x))"
proof (cases rule: block_alloc_cases [OF assms, case_names full got])
  case full
  then show ?thesis by simp
next
  case (got b bm)
  let ?b = "of_nat b :: u32"
  let ?fs = "fs\<lparr>block_bitmap := bm, free_blocks := free_blocks fs - 1, disk := write_bytes (storage fs + ?b * 512) (replicate 512 0) (disk fs)\<rparr>"
  have u: "unat ?b = b" using got(1) by (simp add: unsigned_of_nat take_bit_nat_eq_self)
  have min: "Min (clear_bits fs - {0}) = b"
  proof (rule Min_eqI)
    fix c assume c: "c \<in> clear_bits fs - {0}"
    show "b \<le> c"
    proof (rule ccontr)
      assume "\<not> b \<le> c"
      then have "0 < c \<and> c < b" using c by auto
      then show False using got(3) c by blast
    qed
  qed (use got(1,2) in auto)
  have bytes: "block_bytes ?fs c = (if c = ?b then replicate 512 0 else block_bytes fs c)" if "unat c < 1024" for c
    using storage_write [OF assms _ that, of ?b 0 "replicate 512 0" ?fs] u got(1) by simp
  have clear: "clear_bits ?fs = clear_bits fs - {unat ?b}" using got(5) u by auto
  have keep: "block_bytes ?fs (blk fs x) = block_bytes fs (blk fs x)" if "x \<in> owned fs" for x
    using bytes [OF owned_block(1) [OF assms that]] owned_block(2) [OF assms that] got(1) u by auto
  have "\<not> clear_bits fs \<subseteq> {0}" using got(1,2) by blast
  then show ?thesis using got(6) min u clear keep bytes [of ?b] got(1) by (intro if_not_P [THEN iffD2]) auto
qed

theorem block_alloc_correct_witness:
  "\<exists>b fs'. block_alloc (demo_ifs 0 (replicate 10 0) 0 1024 no_heap) = Some (b, fs') \<and> free_blocks fs' = 1023 \<and> block_bytes fs' b = replicate 512 0"
proof -
  have "free_blocks (demo_ifs 0 (replicate 10 0) 0 1024 no_heap) = 1024" by (simp add: demo_ifs_def)
  moreover from this have card: "card (clear_bits (demo_ifs 0 (replicate 10 0) 0 1024 no_heap)) = 1024"
    using ifs_okD(6) [OF empty_ifs_ok [of no_heap]] by simp
  have "\<not> clear_bits (demo_ifs 0 (replicate 10 0) 0 1024 no_heap) \<subseteq> {0}"
  proof
    assume s: "clear_bits (demo_ifs 0 (replicate 10 0) 0 1024 no_heap) \<subseteq> {0}"
    have "card (clear_bits (demo_ifs 0 (replicate 10 0) 0 1024 no_heap)) \<le> card {0 :: nat}" by (rule card_mono [OF _ s]) simp
    then show False using card by simp
  qed
  ultimately show ?thesis using block_alloc_correct [OF empty_ifs_ok [of no_heap]] by auto
qed

text \<open>C39: \<open>inode_free\<close> frees exactly the blocks at the indices below \<open>block_count\<close>.  As \<open>block_count\<close> counts
  blocks, a file with a hole has a block at a higher index: that block stays marked as used and belongs to no file any more.\<close>

theorem inode_free_leaks:
  assumes "ifs_ok fs" "p < MAX_INODE_COUNT" "in_use (inodes fs ! p)" "btree_rep L T (inode_tree fs) (tree_mem fs)"
    and "length (inode_bitmap fs) = 8" "unat (inode_num (inodes fs ! p)) < MAX_INODE_COUNT"
  shows "\<exists>fs'. inode_free (Some p) fs = Some fs' \<and> ifs_ok fs' \<and> \<not> in_use (inodes fs' ! p) \<and>
    clear_bits fs' = clear_bits fs \<union> freed fs p \<and>
    (\<forall>i. (p, i) \<in> owned fs \<and> unat (block_count (inodes fs ! p)) \<le> i \<longrightarrow>
      bm_bit (block_bitmap fs') (unat (blk fs (p, i))) \<and> blk fs (p, i) \<notin> blk fs' ` owned fs')"
proof -
  obtain fs' where o: "inode_free (Some p) fs = Some fs'" "ifs_ok fs'" "\<not> in_use (inodes fs' ! p)" "clear_bits fs' = clear_bits fs \<union> freed fs p"
    "owned fs' = {x \<in> owned fs. fst x \<noteq> p}" "blk fs' = blk fs" using inode_free_ok [OF assms] by blast
  have "bm_bit (block_bitmap fs') (unat (blk fs (p, i))) \<and> blk fs (p, i) \<notin> blk fs' ` owned fs'"
    if i: "(p, i) \<in> owned fs" "unat (block_count (inodes fs ! p)) \<le> i" for i
  proof
    note inj = inj_onD [OF ifs_okD(5) [OF assms(1)]]
    have "unat (blk fs (p, i)) \<notin> freed fs p"
    proof
      assume "unat (blk fs (p, i)) \<in> freed fs p"
      then obtain j where j: "j < 10" "j < unat (block_count (inodes fs ! p))" "blk fs (p, j) \<noteq> 0" "blk fs (p, i) = blk fs (p, j)"
        by (auto simp: freed_def word_unat_eq_iff)
      then have "(p, j) \<in> owned fs" using assms(2,3) by (simp add: owned_def)
      then show False using inj [OF j(4) i(1)] i(2) j(2) by simp
    qed
    moreover have "unat (blk fs (p, i)) < 1024" "bm_bit (block_bitmap fs) (unat (blk fs (p, i)))" using owned_block(1,2) [OF assms(1) i(1)] by auto
    ultimately have "unat (blk fs (p, i)) \<notin> clear_bits fs'" unfolding o(4) by simp
    then show "bm_bit (block_bitmap fs') (unat (blk fs (p, i)))" using \<open>unat (blk fs (p, i)) < 1024\<close> by simp
    show "blk fs (p, i) \<notin> blk fs' ` owned fs'" unfolding o(5,6) using inj [OF _ i(1)] by fastforce
  qed
  then show ?thesis using o(1-4) by blast
qed

theorem inode_free_leaks_witness:
  "\<exists>h fs'. memory_init \<lparr>headers = Map.empty, free_list = NULL\<rparr> = Some h \<and>
     inode_free (Some 0) (demo_ifs 2 [0, 1, 0, 0, 0, 0, 0, 0, 0, 0] 1 1023 h) = Some fs' \<and> bm_bit (block_bitmap fs') 1 \<and> 1 \<notin> blk fs' ` owned fs'"
proof -
  obtain h where h: "memory_init \<lparr>headers = Map.empty, free_list = NULL\<rparr> = Some h" "heap_rep Map.empty h" using init_heap by blast
  let ?fs = "demo_ifs 2 [0, 1, 0, 0, 0, 0, 0, 0, 0, 0] 1 1023 h"
  have "in_use (inodes ?fs ! 0)" "btree_rep Map.empty None (inode_tree ?fs) (tree_mem ?fs)" "length (inode_bitmap ?fs) = 8"
    "unat (inode_num (inodes ?fs ! 0)) < 256" "blk ?fs (0, 1) = 1" "unat (block_count (inodes ?fs ! 0)) = 1"
    using h(2) by (simp_all add: demo_ifs_def demo_inode_def btree_rep_def blk_def)
  then show ?thesis using inode_free_leaks [OF sparse_ifs_ok(1) [of h], of 0 Map.empty None] sparse_ifs_ok(2) [of h] h(1) by fastforce
qed

text \<open>A write that starts beyond the direct blocks stores nothing, but \<open>inode_write\<close> still raises the size of the
  file to the offset: the file then claims bytes that no block holds.\<close>

theorem inode_write_past_limit:
  assumes "p < length (inodes fs)" "5120 \<le> unat offset" "isize (inodes fs ! p) < offset" "0 < sz"
  shows "inode_write (Some p) (Some buf) offset sz fs = Some (0, fs\<lparr>inodes := (inodes fs)[p := (inodes fs ! p)\<lparr>isize := offset\<rparr>]\<rparr>)"
proof -
  have "10 \<le> unat offset div 512" using assms(2) by linarith
  then have "of_nat 10 \<le> offset div 512" by (simp add: word_le_nat_alt unat_div)
  then have "inode_write_loop p buf offset sz 0 fs = Some (0, fs)"
    using assms(4) by (subst inode_write_loop.simps) (simp add: chunk_def Let_def)
  then show ?thesis using assms(1,3) by (simp add: inode_write_def inode_at_def upd_inode_def)
qed

theorem inode_write_past_limit_witness:
  "\<exists>fs'. inode_write (Some 0) (Some [1]) 6000 1 (demo_ifs 0 (replicate 10 0) 0 1024 no_heap) = Some (0, fs') \<and> isize (inodes fs' ! 0) = 6000"
  using inode_write_past_limit [of 0 "demo_ifs 0 (replicate 10 0) 0 1024 no_heap" 6000 1 "[1]"] by (simp add: demo_ifs_def demo_inode_def)

end
