(* ===== verification/Heap_Room.thy ===== *)
theory Heap_Room
  imports Kbytes
begin

text \<open>
  When \<open>kmalloc\<close> must succeed: the contract for the clients that do not test its result.  A heap has room for \<open>k\<close> bytes
  if it has a free block of that size; a request uses up its size, a header and the rounding.
\<close>

section \<open>The interface\<close>

locale roomy_heap = block_heap rep alloc dealloc
  for rep :: "(u32 \<rightharpoonup> nat) \<Rightarrow> 's \<Rightarrow> bool" and alloc dealloc +
  fixes room :: "nat \<Rightarrow> (u32 \<rightharpoonup> nat) \<Rightarrow> 's \<Rightarrow> bool"
  assumes room_rep: "room k L s \<Longrightarrow> rep L s"
    and room_mono: "room k L s \<Longrightarrow> j \<le> k \<Longrightarrow> room j L s"
    and room_alloc: "room (unat n + 20 + k) L s \<Longrightarrow> n \<noteq> 0 \<Longrightarrow> unat n \<le> 2 ^ 32 - 8 \<Longrightarrow>
      \<exists>p m s'. alloc n s = Some (Some p, s') \<and> p \<notin> dom L \<and> unat n \<le> m \<and> room k (L(p \<mapsto> m)) s'"
begin

text \<open>A new block, filled: the data can be read back and nothing else has changed.\<close>

lemma alloc_fill:
  assumes "room (length bs + 20 + k) L s" "bs \<noteq> []" "length bs \<le> 2 ^ 32 - 8"
  obtains p m s' where "alloc (of_nat (length bs)) s = Some (Some p, s')" "p \<notin> dom L" "length bs \<le> m" "room k (L(p \<mapsto> m)) s'"
    "read_bytes (write_bytes p bs h) p (length bs) = bs"
    "\<forall>q n i. L q = Some n \<longrightarrow> i \<le> n \<longrightarrow> read_bytes (write_bytes p bs h) q i = read_bytes h q i"
proof -
  have u: "unat (of_nat (length bs) :: u32) = length bs" using assms(3) by (simp add: unsigned_of_nat take_bit_nat_eq_self)
  then have "(of_nat (length bs) :: u32) \<noteq> 0" using assms(2) by auto
  with u obtain p m s' where a: "alloc (of_nat (length bs)) s = Some (Some p, s')" "p \<notin> dom L" "length bs \<le> m" "room k (L(p \<mapsto> m)) s'"
    using room_alloc [of "of_nat (length bs)" k L s] assms(1,3) by auto
  note rep = room_rep [OF a(4)]
  have "read_bytes (write_bytes p bs h) p (length bs) = bs"
    using read_own [OF rep, of p m bs "length bs" h] a(3) by simp
  moreover have "read_bytes (write_bytes p bs h) q i = read_bytes h q i" if "L q = Some n" "i \<le> n" for q n i
  proof -
    have "p \<noteq> q" using that(1) a(2) by auto
    then show ?thesis using read_foreign [OF rep, of p m q n bs i h] that a(3) by simp
  qed
  ultimately show thesis using that [of p s' m] a by blast
qed

end

section \<open>The kernel heap\<close>

definition heap_room :: "nat \<Rightarrow> (u32 \<rightharpoonup> nat) \<Rightarrow> kheap \<Rightarrow> bool" where
  "heap_room k L s \<longleftrightarrow> (\<exists>bs. heap_ok bs s \<and> L = (\<lambda>p. map_of (live 0 bs) (unat p)) \<and> (\<exists>m \<ge> k. (True, m) \<in> set bs))"

lemma fit_room:
  "fit n a bs = Some (p, bs') \<Longrightarrow> (True, m) \<in> set bs \<Longrightarrow> n + 13 + k \<le> m \<Longrightarrow> \<exists>m' \<ge> k. (True, m') \<in> set bs'"
proof (induction n a bs arbitrary: bs' rule: fit.induct)
  case (2 n a f l bs)
  show ?case
  proof (cases "f \<and> n \<le> l")
    case True
    show ?thesis
    proof (cases "(True, m) = (f, l)")
      case True
      then show ?thesis using 2(2,4) by (auto intro!: exI [of _ "l - n - 12"])
    next
      case False
      then have "(True, m) \<in> set bs" using 2(3) by auto
      then show ?thesis using 2(2,4) True by (auto intro!: exI [of _ m])
    qed
  next
    case False
    then obtain cs where cs: "fit n (a + 12 + l) bs = Some (p, cs)" "bs' = (f, l) # cs" using 2(2) by auto
    show ?thesis
    proof (cases "(True, m) \<in> set bs")
      case True
      then show ?thesis using 2(1) [OF False cs(1) True 2(4)] cs(2) by auto
    next
      assume "(True, m) \<notin> set bs"
      then have "(True, m) = (f, l)" using 2(3) by auto
      then show ?thesis using False 2(4) by simp
    qed
  qed
qed simp

lemma map_of_live_eq:
  assumes "heap_ok bs s" "kmalloc n s = Some (Some p, s')" "n \<noteq> 0" "fit (unat (round8 n)) 0 bs = Some (a, bs')"
  shows "heap_ok bs' s' \<and> (\<exists>m. (\<lambda>q. map_of (live 0 bs') (unat q)) = (\<lambda>q. map_of (live 0 bs) (unat q))(p \<mapsto> m) \<and>
    unat (round8 n) \<le> m \<and> p \<notin> dom (\<lambda>q. map_of (live 0 bs) (unat q)))"
proof -
  have ok: "heap_ok bs' s'" and p: "p = of_nat a" using kmalloc_some [OF assms(1,3,4)] assms(2) by auto
  obtain m where m: "unat (round8 n) \<le> m" "set (live 0 bs') = insert (a, m) (set (live 0 bs))"
    "a + m \<le> span bs" "\<forall>(q, k) \<in> set (live 0 bs). q + k + 12 \<le> a \<or> a + m + 12 \<le> q"
    using fit_live [OF assms(4)] by auto
  have u: "unat p = a" using m(3) assms(1) p by (simp add: heap_ok_def)
  have new: "a \<notin> fst ` set (live 0 bs)" using m(4) by force
  have "map_of (live 0 bs') = (map_of (live 0 bs))(a \<mapsto> m)"
    by (rule map_of_insert [OF live_distinct live_distinct m(2) new])
  then have "(\<lambda>q. map_of (live 0 bs') (unat q)) = (\<lambda>q. map_of (live 0 bs) (unat q))(p \<mapsto> m)"
    using u by (auto simp: fun_eq_iff word_unat_eq_iff)
  moreover have "p \<notin> dom (\<lambda>q. map_of (live 0 bs) (unat q))" using new u by (simp add: domIff map_of_eq_None_iff)
  ultimately show ?thesis using ok m(1) by blast
qed

lemma heap_room_mono: "heap_room k L s \<Longrightarrow> j \<le> k \<Longrightarrow> heap_room j L s"
proof -
  assume "heap_room k L s" "j \<le> k"
  then obtain bs m where "heap_ok bs s \<and> L = (\<lambda>p. map_of (live 0 bs) (unat p))" "k \<le> m" "(True, m) \<in> set bs"
    unfolding heap_room_def by blast
  then show ?thesis unfolding heap_room_def using \<open>j \<le> k\<close> order_trans by blast
qed

lemma heap_rep_inside:
  assumes "heap_rep L s" "L p = Some m" shows "unat p + m \<le> HEAP_SIZE"
proof -
  obtain bs where bs: "heap_ok bs s" "L = (\<lambda>p. map_of (live 0 bs) (unat p))" using assms(1) by (auto simp: heap_rep_def)
  then have "(unat p, m) \<in> set (live 0 bs)" using assms(2) live_at by simp
  then show ?thesis using live_bounds [of "unat p" m 0 bs] bs(1) by (simp add: heap_ok_def)
qed

text \<open>Writing back what is there changes nothing.\<close>

lemma write_front_only:
  assumes "unat p + n \<le> 2 ^ 32" "length bs \<le> n"
  shows "write_bytes p (bs @ drop (length bs) (read_bytes m p n)) m = write_bytes p bs m"
proof
  fix x
  have "read_bytes m p n ! (unat x - unat p) = m x" if "unat p \<le> unat x" "unat x < unat p + n"
  proof -
    have "of_nat (unat x - unat p) = x - p" using that(1) by (simp add: of_nat_diff)
    then show ?thesis using that by (simp add: nth_read_bytes)
  qed
  then show "write_bytes p (bs @ drop (length bs) (read_bytes m p n)) m x = write_bytes p bs m x"
    using assms by (auto simp: write_bytes_at nth_append)
qed

interpretation kr: roomy_heap heap_rep kmalloc kfree heap_room
proof unfold_locales
  show "heap_rep L s" if "heap_room k L s" for k L s using that by (auto simp: heap_room_def heap_rep_def)
  show "heap_room j L s" if "heap_room k L s" "j \<le> k" for j k L s by (rule heap_room_mono [OF that])
  fix n :: u32 and k L s
  assume room: "heap_room (unat n + 20 + k) L s" and n: "n \<noteq> 0" "unat n \<le> 2 ^ 32 - 8"
  then obtain bs m where bs: "heap_ok bs s" "L = (\<lambda>p. map_of (live 0 bs) (unat p))" "unat n + 20 + k \<le> m" "(True, m) \<in> set bs"
    by (auto simp: heap_room_def)
  have r: "unat n \<le> unat (round8 n)" "unat (round8 n) \<le> unat n + 7" using round8_exact [OF n(2)] by simp_all
  have "\<not> m < unat (round8 n)" using bs(3) r by linarith
  then have "fit (unat (round8 n)) 0 bs \<noteq> None" using bs(4) by (auto simp: fit_None_iff)
  then obtain a bs' where f: "fit (unat (round8 n)) 0 bs = Some (a, bs')" by auto
  then obtain s' where s': "kmalloc n s = Some (Some (of_nat a), s')" using kmalloc_some [OF bs(1) n(1) f] by auto
  obtain l where l: "heap_ok bs' s'" "(\<lambda>q. map_of (live 0 bs') (unat q)) = L(of_nat a \<mapsto> l)" "unat (round8 n) \<le> l" "of_nat a \<notin> dom L"
    using map_of_live_eq [OF bs(1) s' n(1) f] bs(2) by auto
  have "\<exists>m' \<ge> k. (True, m') \<in> set bs'" using fit_room [OF f bs(4)] bs(3) r(2) by simp
  then have "heap_room k (L(of_nat a \<mapsto> l)) s'" unfolding heap_room_def l(2) [symmetric] using l(1) by blast
  then show "\<exists>p m s'. kmalloc n s = Some (Some p, s') \<and> p \<notin> dom L \<and> unat n \<le> m \<and> heap_room k (L(p \<mapsto> m)) s'"
    using s' l(3,4) r(1) by (meson order_trans)
qed

end
