(* ===== verification/Inode_Dir.thy ===== *)
theory Inode_Dir
  imports Inode_Props Heap_Room
begin

text \<open>
  The two B-trees of the i-node file system in one memory.  What the file system needs of a tree is stated as the interface
  \<open>shared_map\<close>, a map from keys to pointers that shares its memory with others; trees that are
  empty or a single leaf implement it, and code that starts from empty trees reaches no others.
\<close>

section \<open>The interface\<close>

locale shared_map =
  fixes rep :: "(u32 \<rightharpoonup> nat) \<Rightarrow> u32 ptr \<Rightarrow> (u32 \<times> 'v ptr) list \<Rightarrow> 't \<Rightarrow> 'm \<Rightarrow> bool"
    and space :: "nat \<Rightarrow> (u32 \<rightharpoonup> nat) \<Rightarrow> 'm \<Rightarrow> bool"
    and lookup :: "'t \<Rightarrow> u32 \<Rightarrow> 'm \<Rightarrow> 'v ptr option"
    and add :: "'t \<Rightarrow> u32 \<Rightarrow> 'v ptr \<Rightarrow> 'm \<Rightarrow> (int \<times> 't \<times> 'm) option"
    and remove :: "'t \<Rightarrow> u32 \<Rightarrow> 'm \<Rightarrow> (int \<times> 't \<times> 'm) option"
  assumes rep_sorted: "rep L A xs t m \<Longrightarrow> key_sorted xs"
    and rep_length: "rep L A xs t m \<Longrightarrow> length xs \<le> 4"
    and lookup_law: "rep L A xs t m \<Longrightarrow> lookup t key m = Some (stored xs key)"
    and add_law: "rep L A xs t m \<Longrightarrow> key \<notin> fst ` set xs \<Longrightarrow> length xs < 4 \<Longrightarrow> (A = NULL \<longrightarrow> space (84 + j) L m) \<Longrightarrow>
      \<exists>t' m' L' A'. add t key v m = Some (0, t', m') \<and> A' \<noteq> NULL \<and> rep L' A' (put key v xs) t' m' \<and>
        (if A = NULL then space j L' m' else L' = L \<and> A' = A \<and> (\<forall>i. space i L m \<longrightarrow> space i L m')) \<and>
        (\<forall>B ys u. rep L B ys u m \<and> (B = NULL \<or> B \<noteq> A) \<longrightarrow> rep L' B ys u m' \<and> (B = NULL \<or> B \<noteq> A'))"
    and add_full: "rep L A xs t m \<Longrightarrow> key \<notin> fst ` set xs \<Longrightarrow> length xs = 4 \<Longrightarrow> space 84 L m \<Longrightarrow> add t key v m = None"
    and remove_law: "rep L A xs t m \<Longrightarrow> key \<in> fst ` set xs \<Longrightarrow>
      \<exists>t' m'. remove t key m = Some (0, t', m') \<and> rep L A (filter (\<lambda>x. fst x \<noteq> key) xs) t' m' \<and> (\<forall>i. space i L m \<longrightarrow> space i L m') \<and>
        (\<forall>B ys u. rep L B ys u m \<and> (B = NULL \<or> B \<noteq> A) \<longrightarrow> rep L B ys u m')"
begin

lemma lookup_set:
  assumes "rep L A xs t m" "(key, v) \<in> set xs" shows "lookup t key m = Some v"
proof -
  have "map_of xs key = Some v" using map_of_is_SomeI [OF key_sorted_distinct [OF rep_sorted [OF assms(1)]] assms(2)] .
  then show ?thesis using lookup_law [OF assms(1)] by (simp add: stored_def)
qed

lemma lookup_none:
  assumes "rep L A xs t m" "key \<notin> fst ` set xs" shows "lookup t key m = Some NULL"
  using lookup_law [OF assms(1), of key] assms(2) by (simp add: stored_def map_of_eq_None_iff [THEN iffD2])

lemma rep_card: "rep L A xs t m \<Longrightarrow> card (set xs) = length xs"
  using key_sorted_distinct [OF rep_sorted] by (metis distinct_card distinct_map)

text \<open>Two maps in one memory, both without a node and with space for three, or both with a node of their own and space for one more.\<close>

lemma add_both:
  assumes r: "rep L A xs t m" "rep L B ys u m" and s: "space (if A = NULL then 252 else 84) L m" "A = NULL \<longleftrightarrow> B = NULL" "A = NULL \<or> A \<noteq> B"
    and k: "key \<notin> fst ` set xs" "length xs < 4" "hash \<notin> fst ` set ys" "length ys < 4"
  shows "\<exists>t' m1 u' m' L' A' B'. add t key v m = Some (0, t', m1) \<and> add u hash w m1 = Some (0, u', m') \<and>
    rep L' A' (put key v xs) t' m' \<and> rep L' B' (put hash w ys) u' m' \<and> space 84 L' m' \<and> A' \<noteq> NULL \<and> B' \<noteq> NULL \<and> A' \<noteq> B'"
proof -
  have start: "A = NULL \<longrightarrow> space (84 + 168) L m" using s(1) by auto
  obtain t' m1 L1 A' where a: "add t key v m = Some (0, t', m1)" "A' \<noteq> NULL" "rep L1 A' (put key v xs) t' m1"
    "if A = NULL then space 168 L1 m1 else L1 = L \<and> A' = A \<and> (\<forall>i. space i L m \<longrightarrow> space i L m1)"
    "\<forall>B ys u. rep L B ys u m \<and> (B = NULL \<or> B \<noteq> A) \<longrightarrow> rep L1 B ys u m1 \<and> (B = NULL \<or> B \<noteq> A')"
    using add_law [OF r(1) k(1,2) start, of v] by (elim exE conjE) (rule that)
  have B: "rep L1 B ys u m1" "B = NULL \<or> B \<noteq> A'" using a(5) r(2) s(2,3) by blast+
  have sp: "B = NULL \<longrightarrow> space (84 + 84) L1 m1" using a(4) s(2) by simp
  obtain u' m' L' B' where b: "add u hash w m1 = Some (0, u', m')" "B' \<noteq> NULL" "rep L' B' (put hash w ys) u' m'"
    "if B = NULL then space 84 L' m' else L' = L1 \<and> B' = B \<and> (\<forall>i. space i L1 m1 \<longrightarrow> space i L1 m')"
    "\<forall>C zs x. rep L1 C zs x m1 \<and> (C = NULL \<or> C \<noteq> B) \<longrightarrow> rep L' C zs x m' \<and> (C = NULL \<or> C \<noteq> B')"
    using add_law [OF B(1) k(3,4) sp, of w] by (elim exE conjE) (rule that)
  have A: "rep L' A' (put key v xs) t' m'" "A' \<noteq> B'" using b(5) a(2,3) B(2) by blast+
  have "space 84 L' m'" using a(4) b(4) s(1,2) by (auto split: if_splits)
  then show ?thesis using a(1,2) b(1,2,3) A by blast
qed

lemma remove_both:
  assumes r: "rep L A xs t m" "rep L B ys u m" and s: "space 84 L m" "A \<noteq> NULL" "B \<noteq> NULL" "A \<noteq> B"
    and k: "key \<in> fst ` set xs" "hash \<in> fst ` set ys"
  shows "\<exists>u' m1 t' m'. remove u hash m = Some (0, u', m1) \<and> remove t key m1 = Some (0, t', m') \<and> rep L A xs t m1 \<and>
    rep L A (filter (\<lambda>x. fst x \<noteq> key) xs) t' m' \<and> rep L B (filter (\<lambda>x. fst x \<noteq> hash) ys) u' m' \<and> space 84 L m'"
proof -
  obtain u' m1 where b: "remove u hash m = Some (0, u', m1)" "rep L B (filter (\<lambda>x. fst x \<noteq> hash) ys) u' m1" "space 84 L m1"
    "\<forall>C zs x. rep L C zs x m \<and> (C = NULL \<or> C \<noteq> B) \<longrightarrow> rep L C zs x m1" using remove_law [OF r(2) k(2)] s(1) by blast
  have A: "rep L A xs t m1" using b(4) r(1) s(4) by blast
  obtain t' m' where a: "remove t key m1 = Some (0, t', m')" "rep L A (filter (\<lambda>x. fst x \<noteq> key) xs) t' m'" "space 84 L m'"
    "\<forall>C zs x. rep L C zs x m1 \<and> (C = NULL \<or> C \<noteq> A) \<longrightarrow> rep L C zs x m'" using remove_law [OF A k(1)] b(3) by blast
  have "rep L B (filter (\<lambda>x. fst x \<noteq> hash) ys) u' m'" using a(4) b(2) s(4) by blast
  then show ?thesis using a b(1) A by blast
qed

end

section \<open>Leaves as maps\<close>

definition leaf_rep :: "(u32 \<rightharpoonup> nat) \<Rightarrow> u32 ptr \<Rightarrow> (u32 \<times> 'v ptr) list \<Rightarrow> btree \<Rightarrow> 'v bt_mem \<Rightarrow> bool" where
  "leaf_rep L A xs tree m \<longleftrightarrow> btree_rep L (map_option (\<lambda>a. BLeaf a xs) A) tree m \<and> (A = NULL \<longrightarrow> xs = [])"

abbreviation bt_room :: "nat \<Rightarrow> (u32 \<rightharpoonup> nat) \<Rightarrow> 'v bt_mem \<Rightarrow> bool" where
  "bt_room k L m \<equiv> heap_room k L (bt_heap m)"

lemma leaf_rep_null: "leaf_rep L None xs tree m \<longleftrightarrow> heap_rep L (bt_heap m) \<and> root tree = NULL \<and> xs = []"
  by (auto simp: leaf_rep_def btree_rep_def)

lemma leaf_rep_some:
  "leaf_rep L (Some a) xs tree m \<longleftrightarrow> heap_rep L (bt_heap m) \<and> root tree = Some a \<and> key_sorted xs \<and> a \<in> dom L \<and>
    (\<exists>n. bt_nodes m a = Some n \<and> node_rep n xs \<and> is_leaf n)"
  by (auto simp: leaf_rep_def btree_rep_def bt_ok_def)

text \<open>Nodes elsewhere may change, and the heap may grow.\<close>

lemma leaf_rep_frame:
  assumes "leaf_rep L B ys u m" "heap_rep L' (bt_heap m')" "dom L \<subseteq> dom L'" "\<And>b. B = Some b \<Longrightarrow> b \<in> dom L \<Longrightarrow> bt_nodes m' b = bt_nodes m b"
  shows "leaf_rep L' B ys u m'"
  using assms by (cases B) (auto simp: leaf_rep_null leaf_rep_some)

lemma leaf_add:
  fixes m :: "'v bt_mem"
  assumes r: "leaf_rep L A xs t m" and k: "key \<notin> fst ` set xs" "length xs < 4" and s: "A = NULL \<longrightarrow> bt_room (84 + j) L m"
  shows "\<exists>t' m' L' A'. btree_insert t key v m = Some (0, t', m') \<and> A' \<noteq> NULL \<and> leaf_rep L' A' (put key v xs) t' m' \<and>
        (if A = NULL then bt_room j L' m' else L' = L \<and> A' = A \<and> (\<forall>i. bt_room i L m \<longrightarrow> bt_room i L m')) \<and>
        (\<forall>B (ys :: (u32 \<times> 'v ptr) list) u. leaf_rep L B ys u m \<and> (B = NULL \<or> B \<noteq> A) \<longrightarrow> leaf_rep L' B ys u m' \<and> (B = NULL \<or> B \<noteq> A'))"
proof (cases A)
  case None
  then have rt: "root t = NULL" "xs = []" using r by (auto simp: leaf_rep_null)
  have "unat sizeof_btree_node = 64" "sizeof_btree_node \<noteq> 0" by (simp_all add: sizeof_btree_node_def)
  then obtain a l h where a: "kmalloc sizeof_btree_node (bt_heap m) = Some (Some a, h)" "a \<notin> dom L" "heap_room j (L(a \<mapsto> l)) h"
    using kr.room_alloc [of sizeof_btree_node j L "bt_heap m"] s None by auto
  let ?n = "\<lparr>num_keys = 1, keys = [key, 0, 0, 0], vals = [v, NULL, NULL, NULL], children = replicate 5 NULL, parent = NULL, is_leaf = True\<rparr>"
  let ?m = "m\<lparr>bt_nodes := (bt_nodes m)(a \<mapsto> ?n), bt_heap := h\<rparr>"
  let ?t = "t\<lparr>root := Some a, height := 1, num_nodes := 1\<rparr>"
  have run: "btree_insert t key v m = Some (0, ?t, ?m)"
    using a(1) by (simp add: btree_insert_def btree_search_def rt btree_node_create_def upd_node_def node_write numeral_eq_Suc)
  note hr = kr.room_rep [OF a(3)]
  have new: "leaf_rep (L(a \<mapsto> l)) (Some a) (put key v xs) ?t ?m" using hr by (simp add: leaf_rep_some node_rep_def rt put_def)
  have "leaf_rep (L(a \<mapsto> l)) B ys u ?m \<and> (B = NULL \<or> B \<noteq> Some a)" if "leaf_rep L B ys u m" for B and ys :: "(u32 \<times> 'v ptr) list" and u
    using leaf_rep_frame [OF that, of "L(a \<mapsto> l)" ?m] that hr a(2) by (cases B) (auto simp: leaf_rep_some)
  then show ?thesis using run new a(3) None by (intro exI [of _ ?t] exI [of _ ?m] exI [of _ "L(a \<mapsto> l)"] exI [of _ "Some a"]) (simp, blast)
next
  case (Some a)
  then have r': "btree_rep L (Some (BLeaf a xs)) t m" using r by (simp add: leaf_rep_def)
  obtain n where n: "root t = Some a" "bt_nodes m a = Some n" "node_rep n xs" "is_leaf n" "key_sorted xs" "a \<in> dom L" "heap_rep L (bt_heap m)"
    using r Some by (auto simp: leaf_rep_some)
  obtain n' where n': "insert_leaf key v n = Some n'" "node_rep n' (put key v xs)" "is_leaf n' = is_leaf n" using insert_leaf_ok [OF n(3) k(2) n(5) k(1)] by blast
  let ?m = "m\<lparr>bt_nodes := (bt_nodes m)(a \<mapsto> n')\<rparr>"
  let ?t = "t\<lparr>num_nodes := num_nodes t + 1\<rparr>"
  have "map_of xs key = None" using k(1) by (simp add: map_of_eq_None_iff)
  then have "btree_search t key m = Some NULL" using btree_search_ok [OF r', of key] by (simp add: tree_entries_def stored_def)
  moreover have "btree_insert_non_full (Some a) key v m = Some ?m"
    using n n' by (subst btree_insert_non_full.simps) (simp add: node_at_def upd_node_def)
  moreover have "num_keys n \<noteq> 4" using n(3) k(2) by (simp add: node_rep_def)
  ultimately have run: "btree_insert t key v m = Some (0, ?t, ?m)" using n by (simp add: btree_insert_def node_at_def)
  have new: "leaf_rep L (Some a) (put key v xs) ?t ?m" using n n' sorted_put [OF n(5)] by (simp add: leaf_rep_some)
  have "leaf_rep L B ys u ?m" if "leaf_rep L B ys u m" "B = NULL \<or> B \<noteq> A" for B and ys :: "(u32 \<times> 'v ptr) list" and u
    by (rule leaf_rep_frame [OF that(1)]) (use that(2) n(7) Some in auto)
  then show ?thesis using run new Some by (intro exI [of _ ?t] exI [of _ ?m] exI [of _ L] exI [of _ "Some a"]) simp
qed

lemma single_leaf:
  assumes "bt_rep h t" "addrs t = [a]" shows "\<exists>xs. t = BLeaf a xs"
proof (cases t)
  case (BNode b kvs ts)
  then obtain t' where "t' \<in> set ts" using assms(1) by (cases ts) auto
  moreover from this have "addrs t' = []" using assms(2) BNode by auto
  ultimately show ?thesis using addr_in_addrs [of t'] by simp
qed (use assms in auto)

lemma leaf_remove:
  fixes m :: "'v bt_mem"
  assumes r: "leaf_rep L A xs t m" and k: "key \<in> fst ` set xs"
  shows "\<exists>t' m'. btree_delete t key m = Some (0, t', m') \<and> leaf_rep L A (filter (\<lambda>x. fst x \<noteq> key) xs) t' m' \<and> (\<forall>i. bt_room i L m \<longrightarrow> bt_room i L m') \<and>
        (\<forall>B (ys :: (u32 \<times> 'v ptr) list) u. leaf_rep L B ys u m \<and> (B = NULL \<or> B \<noteq> A) \<longrightarrow> leaf_rep L B ys u m')"
proof (cases A)
  case None
  then show ?thesis using r k by (simp add: leaf_rep_null)
next
  case (Some a)
  obtain n where n: "root t = Some a" "bt_nodes m a = Some n" "node_rep n xs" "is_leaf n" "key_sorted xs" "a \<in> dom L" "heap_rep L (bt_heap m)"
    using r Some by (auto simp: leaf_rep_some)
  have ok: "bt_ok (bt_nodes m) (BLeaf a xs)" using n by (simp add: bt_ok_def)
  obtain m' t' where o: "btree_delete_loop t key m (Some a) = Some (0, t\<lparr>num_nodes := num_nodes t - 1\<rparr>, m')" "bt_rep (bt_nodes m') t'" "addrs t' = [a]"
    "inorder t' = filter (\<lambda>x. fst x \<noteq> key) xs" "\<forall>x. x \<noteq> a \<longrightarrow> bt_nodes m' x = bt_nodes m x" "bt_heap m' = bt_heap m"
    using delete_loop_ok [OF ok, of t key] k by auto
  have t': "t' = BLeaf a (filter (\<lambda>x. fst x \<noteq> key) xs)" using single_leaf [OF o(2,3)] o(4) by auto
  let ?t = "t\<lparr>num_nodes := num_nodes t - 1\<rparr>"
  have "btree_delete t key m = Some (0, ?t, m')" using o(1) n(1) by (simp add: btree_delete_def)
  moreover have "leaf_rep L (Some a) (filter (\<lambda>x. fst x \<noteq> key) xs) ?t m'"
    using n o(2,6) sorted_delete [OF n(5)] by (simp add: leaf_rep_some t')
  moreover have "leaf_rep L B ys u m'" if "leaf_rep L B ys u m" "B = NULL \<or> B \<noteq> A" for B and ys :: "(u32 \<times> 'v ptr) list" and u
    by (rule leaf_rep_frame [OF that(1)]) (use that(2) n(7) Some o(5,6) in auto)
  ultimately show ?thesis using Some o(6) by auto
qed

lemma leaf_full:
  fixes m :: "'v bt_mem"
  assumes r: "leaf_rep L A xs t m" and k: "key \<notin> fst ` set xs" "length xs = 4" and s: "bt_room 84 L m"
  shows "btree_insert t key v m = None"
proof (cases A)
  case None
  then show ?thesis using r k by (simp add: leaf_rep_null)
next
  case (Some a)
  then have r': "btree_rep L (Some (BLeaf a xs)) t m" using r by (simp add: leaf_rep_def)
  have "unat sizeof_btree_node = 64" "sizeof_btree_node \<noteq> 0" by (simp_all add: sizeof_btree_node_def)
  then have "\<exists>p h. kmalloc sizeof_btree_node (bt_heap m) = Some (Some p, h)" using kr.room_alloc [of sizeof_btree_node 0 L "bt_heap m"] s by auto
  then show ?thesis using insert_full_leaf [OF r' k(2) k(1), of v] by auto
qed

interpretation bt: shared_map leaf_rep bt_room btree_search btree_insert btree_delete
proof unfold_locales
  show "key_sorted xs" "length xs \<le> 4" if "leaf_rep L A xs t m" for L A xs t and m :: "'v bt_mem"
    using that by (cases A; auto simp: leaf_rep_null leaf_rep_some node_rep_def)+
  show "btree_search t key m = Some (stored xs key)" if "leaf_rep L A xs t m" for L A xs t key and m :: "'v bt_mem"
    using that btree_search_ok [of L _ t m key] by (cases A) (auto simp: leaf_rep_def tree_entries_def)
qed (fact leaf_add leaf_full leaf_remove)+

end
