(* ===== verification/Inode_Dense.thy ===== *)
theory Inode_Dense
  imports Inode_Props
begin

text \<open>
  Files without holes.  A file that is only written from its start on has its blocks at the first indices, as many as \<open>block_count\<close> says;
  for such files nothing that is marked as used is lost.
\<close>

section \<open>Blocks in a row\<close>

definition dense :: "btree_filesystem \<Rightarrow> nat \<Rightarrow> bool" where
  "dense fs p \<longleftrightarrow> unat (block_count (inodes fs ! p)) \<le> 10 \<and> (\<forall>i < 10. blk fs (p, i) \<noteq> 0 \<longleftrightarrow> i < unat (block_count (inodes fs ! p))) \<and>
     unat (isize (inodes fs ! p)) \<le> 512 * unat (block_count (inodes fs ! p))"

text \<open>Every block that is marked belongs to a file.\<close>

definition no_leak :: "btree_filesystem \<Rightarrow> bool" where
  "no_leak fs \<longleftrightarrow> {b. b < MAX_BLOCKS \<and> bm_bit (block_bitmap fs) b} = (\<lambda>x. unat (blk fs x)) ` owned fs"

lemma no_leakI:
  assumes "ifs_ok fs" "\<And>b. b < 1024 \<Longrightarrow> bm_bit (block_bitmap fs) b \<Longrightarrow> \<exists>x \<in> owned fs. b = unat (blk fs x)"
  shows "no_leak fs"
  using assms owned_block(1,2) [OF assms(1)] unfolding no_leak_def by auto

lemma dense_disk [simp]: "dense (fs\<lparr>disk := d\<rparr>) p = dense fs p" "no_leak (fs\<lparr>disk := d\<rparr>) = no_leak fs"
  by (simp_all add: dense_def no_leak_def)

lemma block_alloc_fields:
  assumes "ifs_ok fs" "block_alloc fs = Some (b, fs1)" "b \<noteq> 0"
  shows "inodes fs1 = inodes fs" "\<forall>j. bm_bit (block_bitmap fs1) j \<longleftrightarrow> j = unat b \<or> bm_bit (block_bitmap fs) j"
proof -
  have "inodes fs1 = inodes fs \<and> (\<forall>j. bm_bit (block_bitmap fs1) j \<longleftrightarrow> j = unat b \<or> bm_bit (block_bitmap fs) j)"
  proof (cases rule: block_alloc_cases [OF assms(1), case_names full got])
    case full
    then show ?thesis using assms(2,3) by simp
  next
    case (got c bm)
    then have "unat (of_nat c :: u32) = c" by (simp add: unsigned_of_nat take_bit_nat_eq_self)
    then show ?thesis using got(5,6) assms(2) by auto
  qed
  then show "inodes fs1 = inodes fs" "\<forall>j. bm_bit (block_bitmap fs1) j \<longleftrightarrow> j = unat b \<or> bm_bit (block_bitmap fs) j" by blast+
qed

lemma get_block_dense:
  assumes ok: "ifs_ok fs" and p: "p < 256" "in_use (inodes fs ! p)" and i: "unat idx < 10"
    and d: "dense fs p" "no_leak fs" "unat idx \<le> unat (block_count (inodes fs ! p))"
    and run: "get_block p idx (blk fs (p, unat idx)) fs = Some (success, fs2)"
  shows "ifs_ok fs2" "frame p fs fs2" "dense fs2 p" "no_leak fs2" "success \<longrightarrow> unat idx < unat (block_count (inodes fs2 ! p))"
    "unat (block_count (inodes fs ! p)) \<le> unat (block_count (inodes fs2 ! p))"
proof -
  have "ifs_ok fs2 \<and> frame p fs fs2 \<and> dense fs2 p \<and> no_leak fs2 \<and> (success \<longrightarrow> unat idx < unat (block_count (inodes fs2 ! p))) \<and>
    unat (block_count (inodes fs ! p)) \<le> unat (block_count (inodes fs2 ! p))"
  proof (cases "blk fs (p, unat idx) = 0")
    case False
    then show ?thesis using run ok d i frame_refl by (auto simp: get_block_def dense_def)
  next
    case zero: True
    then have bc: "unat (block_count (inodes fs ! p)) = unat idx" using d(1,3) i by (fastforce simp: dense_def)
    show ?thesis
    proof (cases rule: ensure_block [OF ok p i zero, case_names full got])
      case full
      then show ?thesis using run zero ok d frame_refl by (auto simp: get_block_def)
    next
      case (got b fs1 fs2')
      then have fs2: "fs2' = fs2" "success" using run zero by (auto simp: get_block_def)
      have len: "length (inodes fs1) = 256" "inodes fs1 = inodes fs" "block_bitmap fs2 = block_bitmap fs1"
        "\<forall>j. bm_bit (block_bitmap fs1) j \<longleftrightarrow> j = unat b \<or> bm_bit (block_bitmap fs) j"
        using ifs_okD(2) [OF ok] block_alloc_fields [OF ok got(1,2)] got(4) fs2(1) by (auto simp: upd_inode_def split: if_splits)
      have ino: "inodes fs2 ! p = assign_block (unat idx) b (inodes fs ! p)" using got(4) len(1,2) p(1) fs2(1) by (auto simp: upd_inode_def)
      have bc2: "unat (block_count (inodes fs2 ! p)) = Suc (unat idx)" using bc i unfolding ino by (simp add: assign_block_def unat_word_ariths)
      have "dense fs2 p" using got(2,7) bc bc2 d(1) i unfolding fs2(1) by (auto simp: dense_def ino assign_block_def)
      moreover have "no_leak fs2"
      proof (rule no_leakI)
        fix c assume c: "c < 1024" "bm_bit (block_bitmap fs2) c"
        have own: "owned fs2 = insert (p, unat idx) (owned fs)"
          by (rule owned_assign) (use p i got(2,7) fs2(1) frame_in_use [OF got(6)] in auto)
        have keep: "blk fs2 x = blk fs x" if "x \<in> owned fs" for x using that zero got(7) fs2(1) by (auto simp: owned_def)
        show "\<exists>x \<in> owned fs2. c = unat (blk fs2 x)"
        proof (cases "c = unat b")
          case True
          then show ?thesis using own got(7) fs2(1) by auto
        next
          case False
          then have "c \<in> (\<lambda>x. unat (blk fs x)) ` owned fs" using c len(3,4) d(2) by (auto simp: no_leak_def)
          then show ?thesis using own keep by force
        qed
      qed (use got(5) fs2(1) in simp)
      ultimately show ?thesis using got(5,6) fs2 bc bc2 by simp
    qed
  qed
  then show "ifs_ok fs2" "frame p fs fs2" "dense fs2 p" "no_leak fs2" "success \<longrightarrow> unat idx < unat (block_count (inodes fs2 ! p))"
    "unat (block_count (inodes fs ! p)) \<le> unat (block_count (inodes fs2 ! p))" by blast+
qed

section \<open>Writing from the start\<close>

text \<open>The state of \<open>inode_write_loop\<close> on a file without holes, after \<open>d\<close> bytes.\<close>

definition writable :: "btree_filesystem \<Rightarrow> nat \<Rightarrow> u32 \<Rightarrow> bool" where
  "writable fs p d \<longleftrightarrow> p < MAX_INODE_COUNT \<and> ifs_ok fs \<and> in_use (inodes fs ! p) \<and> dense fs p \<and> no_leak fs \<and>
     unat d \<le> 512 * unat (block_count (inodes fs ! p))"

lemma writable_chunk:
  assumes w: "writable fs p d" and d: "d < sz" and ch: "chunk 0 sz d = (idx, off, n)" and i: "\<not> idx \<ge> of_nat 10"
    and run: "get_block p idx (blk fs (p, unat idx)) fs = Some (success, fs2)"
  shows "success \<Longrightarrow> writable (fs2\<lparr>disk := x\<rparr>) p (d + n)" "writable fs2 p d"
proof -
  have ok: "p < 256" "ifs_ok fs" "in_use (inodes fs ! p)" "dense fs p" "no_leak fs" "unat d \<le> 512 * unat (block_count (inodes fs ! p))"
    using w by (auto simp: writable_def)
  have "unat (0 :: u32) + unat sz < 2 ^ 32" "unat d < unat sz" using unsigned_less [of sz, where 'a = nat] d by (simp_all add: word_less_nat_alt)
  note c = chunk_ok [OF this ch, simplified]
  have i10: "unat idx < 10" using i by (simp add: word_le_nat_alt)
  have "unat idx \<le> unat (block_count (inodes fs ! p))" using c(1) ok(6) by linarith
  note g = get_block_dense [OF ok(2,1,3) i10 ok(4,5) this run]
  have use: "in_use (inodes fs2 ! p)" using frame_in_use [OF g(2)] ok(3) by simp
  { assume success
    then have "unat idx < unat (block_count (inodes fs2 ! p))" using g(5) by simp
    then have "unat (d + n) \<le> 512 * unat (block_count (inodes fs2 ! p))" using c(1,2,4,5) mult_div_mod_eq [of 512 "unat d"] by linarith
    then show "writable (fs2\<lparr>disk := x\<rparr>) p (d + n)" using ok(1) g use by (simp add: writable_def ifs_ok_disk) }
  show "writable fs2 p d" using ok(1) order_trans [OF ok(6)] g use by (simp add: writable_def)
qed

lemma write_loop_dense:
  assumes "inode_write_loop p buf offset sz d fs = Some r"
  shows "offset = 0 \<longrightarrow> writable fs p d \<longrightarrow> writable (snd r) p (fst r)"
proof (rule inode_write_loop.raw_induct [OF _ assms, of "\<lambda>p buf offset sz d fs r. offset = 0 \<longrightarrow> writable fs p d \<longrightarrow> writable (snd r) p (fst r)"])
  fix rec p buf offset sz d fs r
  assume 1: "\<And>p buf offset sz d fs r. rec p buf offset sz d fs = Some r \<Longrightarrow> offset = 0 \<longrightarrow> writable fs p d \<longrightarrow> writable (snd r) p (fst r)"
    and run: "(if d < sz then case chunk offset sz d of (block_idx, block_offset, bytes_to_write) \<Rightarrow>
           if block_idx \<ge> of_nat DIRECT_BLOCKS then Some (d, fs)
           else do {
             ino \<leftarrow> inode_at p fs;
             b \<leftarrow> array_get (direct_blocks ino) (uint block_idx);
             (ok, fs) \<leftarrow> get_block p block_idx b fs;
             if \<not> ok then Some (d, fs)
             else do {
               ino \<leftarrow> inode_at p fs;
               block_num \<leftarrow> array_get (direct_blocks ino) (uint block_idx);
               case block_get_ptr fs block_num of None \<Rightarrow> Some (d, fs)
               | Some q \<Rightarrow> do {
                   bs \<leftarrow> data_at buf d bytes_to_write;
                   rec p buf offset sz (d + bytes_to_write)
                     (fs\<lparr>disk := write_bytes (q + block_offset) bs (disk fs)\<rparr>) } } }
      else Some (d, fs)) = Some r"
  show "offset = 0 \<longrightarrow> writable fs p d \<longrightarrow> writable (snd r) p (fst r)"
  proof (intro impI)
    assume o: "offset = 0" and w: "writable fs p d"
    have ok: "p < 256" "ifs_ok fs" "in_use (inodes fs ! p)" using w by (auto simp: writable_def)
    obtain idx off n where ch: "chunk 0 sz d = (idx, off, n)" by (metis prod_cases3)
    show "writable (snd r) p (fst r)"
    proof (cases "d < sz \<and> \<not> idx \<ge> of_nat 10")
      case False
      then show ?thesis using run w o ch by (auto split: if_splits)
    next
      case True
      then have get: "array_get (direct_blocks (inodes fs ! p)) (uint idx) = Some (blk fs (p, unat idx))"
        by (intro direct_block_at [OF ok(2,1,3)]) (simp add: word_le_nat_alt)
      have at: "inode_at p fs = Some (inodes fs ! p)" using ok(1) ifs_okD(2) [OF ok(2)] by (simp add: inode_at_def)
      obtain success fs2 where gb: "get_block p idx (blk fs (p, unat idx)) fs = Some (success, fs2)"
        using run True o ch at get by (auto split: bind_split_asm)
      note st = writable_chunk [OF w _ ch _ gb] True
      have "r = (d, fs2) \<or> success \<and> (\<exists>x. rec p buf 0 sz (d + n) (fs2\<lparr>disk := x\<rparr>) = Some r)"
        using run True o ch at get gb by (auto split: bind_split_asm if_splits option.splits)
      then show ?thesis using 1 st by auto
    qed
  qed
qed

section \<open>Contents\<close>

definition file_bytes :: "btree_filesystem \<Rightarrow> nat \<Rightarrow> u8 list" where
  "file_bytes fs p = available fs p 0 (unat (isize (inodes fs ! p)))"

lemma dense_byte:
  assumes "dense fs p" "k < unat (isize (inodes fs ! p))" shows "byte_at fs p k \<noteq> None"
proof -
  have "k div 512 < unat (block_count (inodes fs ! p))" using assms less_mult_imp_div_less [of k _ 512] by (simp add: dense_def mult.commute)
  then show ?thesis using assms(1) by (simp add: dense_def byte_at_def)
qed

lemma file_bytes_dense:
  assumes "dense fs p" shows "file_bytes fs p = map (\<lambda>k. the (byte_at fs p k)) [0..<unat (isize (inodes fs ! p))]"
  unfolding file_bytes_def by (rule available_all) (use dense_byte [OF assms] in auto)

lemma inode_read_file:
  assumes "ifs_ok fs" "p < 256" "in_use (inodes fs ! p)" "dense fs p"
  shows "inode_read (Some p) 0 sz fs = Some (of_nat (min (unat sz) (length (file_bytes fs p))), take (unat sz) (file_bytes fs p))"
proof -
  let ?s = "unat (isize (inodes fs ! p))"
  have "available fs p 0 (min (unat sz) ?s) = map (\<lambda>k. the (byte_at fs p k)) [0..<min (unat sz) ?s]"
    by (rule available_all) (use dense_byte [OF assms(4)] in auto)
  also have "\<dots> = take (unat sz) (file_bytes fs p)" unfolding file_bytes_dense [OF assms(4)] by (simp add: take_map take_upt min_def)
  finally have "available fs p 0 (min (unat sz) ?s) = take (unat sz) (file_bytes fs p)" .
  moreover have "unat (0 :: u32) + unat sz < 2 ^ 32" using unsigned_less [of sz, where 'a = nat] by simp
  ultimately show ?thesis using inode_read_ok [OF assms(1-3), of 0 sz] by (simp add: Let_def min.commute)
qed

text \<open>What an operation on the file \<open>p\<close> leaves alone when it may also change the size.\<close>

definition outside :: "nat \<Rightarrow> btree_filesystem \<Rightarrow> btree_filesystem \<Rightarrow> bool" where
  "outside p fs fs' \<longleftrightarrow> inode_tree fs' = inode_tree fs \<and> name_tree fs' = name_tree fs \<and> tree_mem fs' = tree_mem fs \<and>
     inode_bitmap fs' = inode_bitmap fs \<and> free_inodes fs' = free_inodes fs \<and> (\<forall>q. q \<noteq> p \<longrightarrow> inodes fs' ! q = inodes fs ! q) \<and>
     (\<forall>q. in_use (inodes fs' ! q) = in_use (inodes fs ! q) \<and> inode_num (inodes fs' ! q) = inode_num (inodes fs ! q)) \<and>
     (\<forall>q < MAX_INODE_COUNT. q \<noteq> p \<and> in_use (inodes fs ! q) \<longrightarrow> file_bytes fs' q = file_bytes fs q)"

lemma inode_write_split:
  assumes "inode_write_loop p buf offset sz 0 fs = Some (n, fs1)" "p < length (inodes fs1)"
  shows "inode_write (Some p) (Some buf) offset sz fs = Some (n, fs1\<lparr>inodes := (inodes fs1)[p := (inodes fs1 ! p)
    \<lparr>isize := if offset + n > isize (inodes fs1 ! p) then offset + n else isize (inodes fs1 ! p)\<rparr>]\<rparr>)"
  using assms by (simp add: inode_write_def inode_at_def upd_inode_def)

lemma write_file:
  assumes w: "writable fs p 0" and sz: "unat sz \<le> 5120" "unat sz \<le> length buf"
  shows "\<exists>n fs'. inode_write (Some p) (Some buf) 0 sz fs = Some (n, fs') \<and> writable fs' p 0 \<and> unat n \<le> unat sz \<and>
    (unat n < unat sz \<longrightarrow> clear_bits fs' \<subseteq> {0}) \<and> outside p fs fs' \<and> file_bytes fs' p = take (unat n) buf @ drop (unat n) (file_bytes fs p)"
proof -
  have p: "p < 256" "ifs_ok fs" "in_use (inodes fs ! p)" "dense fs p" "no_leak fs" using w by (auto simp: writable_def)
  have "unat (0 :: u32) + unat sz \<le> 5120" using sz(1) by simp
  from write_loop_ok [OF p(1) this sz(2) p(2,3), of 0] obtain n fs1 where o: "inode_write_loop p buf 0 sz 0 fs = Some (n, fs1)" "ifs_ok fs1" "frame p fs fs1"
    "unat n \<le> unat sz" "unat n < unat sz \<longrightarrow> clear_bits fs1 \<subseteq> {0}" "wrote p 0 (unat n) (\<lambda>k. buf ! k) fs fs1" by auto
  have w1: "writable fs1 p n" using write_loop_dense [OF o(1)] w by simp
  let ?s = "isize (inodes fs ! p)"
  define s where "s = (if n > ?s then n else ?s)"
  let ?fs = "fs1\<lparr>inodes := (inodes fs1)[p := (inodes fs1 ! p)\<lparr>isize := s\<rparr>]\<rparr>"
  note len = ifs_okD(2) [OF o(2)]
  have us: "unat s = max (unat ?s) (unat n)" by (simp add: s_def word_less_nat_alt max_def)
  have run: "inode_write (Some p) (Some buf) 0 sz fs = Some (n, ?fs)"
    using inode_write_split [OF o(1)] p(1) len o(3) by (simp add: frame_def s_def)
  note ok = upd_size_ok [OF o(2) p(1), of s]
  have ino: "inodes ?fs ! q = (if q = p then (inodes fs1 ! p)\<lparr>isize := s\<rparr> else inodes fs1 ! q)" for q using p(1) len by simp
  have bl: "blk ?fs = blk fs1" unfolding fun_eq_iff blk_def ino by simp
  have ow: "owned ?fs = owned fs1" unfolding owned_def bl ino by auto
  have sz1: "unat ?s \<le> 512 * unat (block_count (inodes fs1 ! p))" using w1 o(3) by (simp add: writable_def dense_def frame_def)
  have "dense ?fs p" using w1 us sz1 unfolding dense_def bl ino by (simp add: writable_def dense_def)
  moreover have "no_leak ?fs" using w1 unfolding no_leak_def bl ow by (simp add: writable_def no_leak_def)
  ultimately have w': "writable ?fs p 0" using ok(1) p(1) w1 unfolding writable_def ino by simp
  have "\<forall>q < 256. q \<noteq> p \<and> in_use (inodes fs ! q) \<longrightarrow> file_bytes ?fs q = file_bytes fs q"
    using o(3,6) unfolding file_bytes_def available_def ok(2) ino by (simp add: frame_def wrote_def)
  then have out: "outside p fs ?fs" using o(3) unfolding outside_def ino by (simp add: frame_def)
  have old: "file_bytes fs p ! k = the (byte_at fs p k)" "byte_at fs p k \<noteq> None" if "k < unat ?s" for k
    using that file_bytes_dense [OF p(4)] dense_byte [OF p(4)] by auto
  have "file_bytes ?fs p = take (unat n) buf @ drop (unat n) (file_bytes fs p)"
  proof (rule nth_equalityI)
    have s': "unat (isize (inodes ?fs ! p)) = max (unat ?s) (unat n)" unfolding ino using us by simp
    have fb: "file_bytes ?fs p = map (\<lambda>k. the (byte_at fs1 p k)) [0..<max (unat ?s) (unat n)]"
      using file_bytes_dense [of ?fs p] w' s' unfolding ok(2) by (simp add: writable_def)
    show "length (file_bytes ?fs p) = length (take (unat n) buf @ drop (unat n) (file_bytes fs p))"
      unfolding fb using file_bytes_dense [OF p(4)] o(4) sz(2) by simp
    fix k assume "k < length (file_bytes ?fs p)"
    then have k: "k < max (unat ?s) (unat n)" unfolding fb by simp
    show "file_bytes ?fs p ! k = (take (unat n) buf @ drop (unat n) (file_bytes fs p)) ! k"
    proof (cases "k < unat n")
      case True
      then show ?thesis unfolding fb using o(4,6) sz(2) k by (simp add: nth_append wrote_def)
    next
      case False
      then have "k < unat ?s" using k by (simp add: max_def split: if_splits)
      then have "byte_at fs1 p k = byte_at fs p k" using o(6) old(2) [of k] False unfolding wrote_def by auto
      then show ?thesis unfolding fb using False k o(4) sz(2) old(1) [of k] file_bytes_dense [OF p(4)] by (simp add: nth_append)
    qed
  qed
  moreover have "clear_bits ?fs = clear_bits fs1" by simp
  ultimately show ?thesis using run w' out o(4,5) by blast
qed

end
