(* ===== verification/Inode_Names.thy ===== *)
theory Inode_Names
  imports Inode_Dir Inode_Dense
begin

text \<open>
  Files by name: the i-node table, the bitmaps and the two trees together.  A directory is a map from the hashes of names to
  i-nodes; the operations by name refine the operations on a map from hashes to contents.
\<close>

section \<open>Invariant\<close>

definition used_inodes :: "btree_filesystem \<Rightarrow> nat set" where
  "used_inodes fs = {i. i < MAX_INODE_COUNT \<and> in_use (inodes fs ! i)}"

definition table_ok :: "btree_filesystem \<Rightarrow> bool" where
  "table_ok fs \<longleftrightarrow> ifs_ok fs \<and> no_leak fs \<and> length (inode_bitmap fs) = 8 \<and>
     (\<forall>i < MAX_INODE_COUNT. inode_num (inodes fs ! i) = of_nat i \<and> (bm_bit (inode_bitmap fs) i \<longleftrightarrow> in_use (inodes fs ! i)) \<and>
       (in_use (inodes fs ! i) \<longrightarrow> dense fs i)) \<and>
     free_inodes fs = int MAX_INODE_COUNT - int (card (used_inodes fs))"

definition trees :: "(u32 \<rightharpoonup> nat) \<Rightarrow> u32 ptr \<Rightarrow> (u32 \<times> nat ptr) list \<Rightarrow> u32 ptr \<Rightarrow> (u32 \<times> nat ptr) list \<Rightarrow> btree_filesystem \<Rightarrow> bool" where
  "trees L A xs B ys fs \<longleftrightarrow> leaf_rep L A xs (inode_tree fs) (tree_mem fs) \<and> leaf_rep L B ys (name_tree fs) (tree_mem fs) \<and>
     bt_room (if A = NULL then 252 else 84) L (tree_mem fs) \<and> (A = NULL \<longleftrightarrow> B = NULL) \<and> (A = NULL \<or> A \<noteq> B)"

definition by_number :: "(u32 \<rightharpoonup> nat) \<Rightarrow> (u32 \<times> nat ptr) set" where
  "by_number D = (\<lambda>i. (of_nat i, Some i)) ` ran D"

definition by_hash :: "(u32 \<rightharpoonup> nat) \<Rightarrow> (u32 \<times> nat ptr) set" where
  "by_hash D = {(h, Some i) | h i. D h = Some i}"

definition dir_ok :: "btree_filesystem \<Rightarrow> (u32 \<rightharpoonup> nat) \<Rightarrow> bool" where
  "dir_ok fs D \<longleftrightarrow> inj_on D (dom D) \<and> ran D = used_inodes fs \<and>
     (\<exists>L A xs B ys. trees L A xs B ys fs \<and> set xs = by_number D \<and> set ys = by_hash D)"

definition bfs_ok :: "btree_filesystem \<Rightarrow> (u32 \<rightharpoonup> nat) \<Rightarrow> bool" where
  "bfs_ok fs D \<longleftrightarrow> table_ok fs \<and> dir_ok fs D"

text \<open>The abstract state: contents by hash.\<close>

definition contents_of :: "btree_filesystem \<Rightarrow> (u32 \<rightharpoonup> nat) \<Rightarrow> (u32 \<rightharpoonup> u8 list)" where
  "contents_of fs D h = map_option (file_bytes fs) (D h)"

lemma by_hash_keys: "fst ` by_hash D = dom D"
  by (force simp: by_hash_def)

lemma inode_unat: "i < 256 \<Longrightarrow> unat (of_nat i :: u32) = i"
  by (simp add: unsigned_of_nat take_bit_nat_eq_self)

lemma of_nat_inode: "i < 256 \<Longrightarrow> j < 256 \<Longrightarrow> (of_nat i :: u32) = of_nat j \<longleftrightarrow> i = j"
  by (metis inode_unat)

lemma uint_nat32: "n < 2 ^ 32 \<Longrightarrow> uint (of_nat n :: u32) = int n"
  by (simp add: unsigned_of_nat take_bit_nat_eq_self)

lemma by_number_key:
  assumes "ran D \<subseteq> {..<256}" "i < 256" shows "of_nat i \<in> fst ` by_number D \<longleftrightarrow> i \<in> ran D"
proof
  assume "of_nat i \<in> fst ` by_number D"
  then obtain j where j: "j \<in> ran D" "(of_nat i :: u32) = of_nat j" by (auto simp: by_number_def)
  then show "i \<in> ran D" using assms of_nat_inode [of i j] by auto
qed (force simp: by_number_def)

lemma card_by_number:
  assumes "ran D \<subseteq> {..<256}" shows "card (by_number D) = card (ran D)"
  unfolding by_number_def by (rule card_image) (auto simp: inj_on_def)

lemma card_by_hash: "card (by_hash D) = card (dom D)"
proof -
  have "by_hash D = (\<lambda>h. (h, D h)) ` dom D" by (auto simp: by_hash_def)
  then show ?thesis by (simp add: card_image inj_on_def)
qed

lemma dir_okE:
  assumes "dir_ok fs D"
  obtains L A xs B ys where "trees L A xs B ys fs" "set xs = by_number D" "set ys = by_hash D" "length xs = card (dom D)" "length ys = card (dom D)"
    "card (dom D) \<le> 4" "ran D \<subseteq> {..<256}" "ran D = used_inodes fs" "inj_on D (dom D)"
proof -
  obtain L A xs B ys where t: "trees L A xs B ys fs" "set xs = by_number D" "set ys = by_hash D" and D: "inj_on D (dom D)" "ran D = used_inodes fs"
    using assms by (auto simp: dir_ok_def)
  have r: "leaf_rep L A xs (inode_tree fs) (tree_mem fs)" "leaf_rep L B ys (name_tree fs) (tree_mem fs)" using t(1) by (auto simp: trees_def)
  have ran: "ran D \<subseteq> {..<256}" using D(2) by (auto simp: used_inodes_def)
  have "ran D = (\<lambda>h. the (D h)) ` dom D" by (force simp: ran_def)
  moreover have "inj_on (\<lambda>h. the (D h)) (dom D)" using D(1) unfolding inj_on_def by (metis domIff option.expand)
  ultimately have "card (ran D) = card (dom D)" by (simp add: card_image)
  then have "length xs = card (dom D)" "length ys = card (dom D)"
    using bt.rep_card [OF r(1)] bt.rep_card [OF r(2)] t(2,3) card_by_number [OF ran] card_by_hash [of D] by simp_all
  then show thesis using that t D ran bt.rep_length [OF r(2)] by simp
qed

lemma dir_card: "dir_ok fs D \<Longrightarrow> card (dom D) \<le> 4 \<and> card (used_inodes fs) = card (dom D)"
proof -
  assume "dir_ok fs D"
  then obtain L A xs B ys where t: "trees L A xs B ys fs" "set xs = by_number D" "length xs = card (dom D)" "card (dom D) \<le> 4"
    "ran D \<subseteq> {..<256}" "ran D = used_inodes fs" by (rule dir_okE)
  have "leaf_rep L A xs (inode_tree fs) (tree_mem fs)" using t(1) by (simp add: trees_def)
  then show ?thesis using bt.rep_card [of L A xs] card_by_number [OF t(5)] t by simp
qed

lemma dir_ok_outside: "outside p fs fs' \<Longrightarrow> dir_ok fs D \<Longrightarrow> dir_ok fs' D"
  by (simp add: dir_ok_def trees_def outside_def used_inodes_def)

section \<open>Looking up a name\<close>

lemma name_lookup_ok:
  assumes "dir_ok fs D" "hash_string nm = Some h" shows "name_lookup nm fs = Some (h, D h)"
proof -
  obtain L A xs B ys where t: "trees L A xs B ys fs" "set ys = by_hash D" using assms(1) by (rule dir_okE)
  then have r: "leaf_rep L B ys (name_tree fs) (tree_mem fs)" by (simp add: trees_def)
  have "btree_search (name_tree fs) h (tree_mem fs) = Some (D h)"
  proof (cases "D h")
    case None
    then have "h \<notin> fst ` set ys" using t(2) by_hash_keys [of D] by auto
    then show ?thesis using bt.lookup_none [OF r] None by simp
  next
    case (Some i)
    then have "(h, Some i) \<in> set ys" using t(2) by (auto simp: by_hash_def)
    then show ?thesis using bt.lookup_set [OF r] Some by simp
  qed
  then show ?thesis using assms(2) by (simp add: name_lookup_def)
qed

lemma bfs_inode:
  assumes "bfs_ok fs D" "D h = Some i"
  shows "i < 256" "in_use (inodes fs ! i)" "inode_at i fs = Some (inodes fs ! i)" "inode_num (inodes fs ! i) = of_nat i" "writable fs i 0"
proof -
  have "i \<in> used_inodes fs" using assms by (auto simp: bfs_ok_def dir_ok_def ran_def)
  then show i: "i < 256" "in_use (inodes fs ! i)" by (auto simp: used_inodes_def)
  then show "inode_num (inodes fs ! i) = of_nat i" "writable fs i 0" using assms(1) by (auto simp: bfs_ok_def table_ok_def writable_def)
  show "inode_at i fs = Some (inodes fs ! i)" using i(1) ifs_okD(2) [of fs] assms(1) by (simp add: inode_at_def bfs_ok_def table_ok_def)
qed

lemma other_inode: "bfs_ok fs D \<Longrightarrow> D h = Some i \<Longrightarrow> k \<noteq> h \<Longrightarrow> D k = Some j \<Longrightarrow> j \<noteq> i"
  unfolding bfs_ok_def dir_ok_def inj_on_def by (metis domI)

lemma contents_upd:
  assumes "\<And>k j. k \<noteq> h \<Longrightarrow> D k = Some j \<Longrightarrow> file_bytes fs' j = file_bytes fs j"
  shows "contents_of fs' (D(h := x)) = (contents_of fs D)(h := map_option (file_bytes fs') x)"
proof
  fix k
  show "contents_of fs' (D(h := x)) k = ((contents_of fs D)(h := map_option (file_bytes fs') x)) k"
    using assms [of k] by (cases "D k") (simp_all add: contents_of_def)
qed

lemma open_named:
  assumes "bfs_ok fs D" "hash_string nm = Some h"
  shows "btree_fs_open nm fs = Some (case D h of None \<Rightarrow> - 1 | Some i \<Rightarrow> int i)"
proof -
  have "uint (of_nat i :: u32) = int i" if "i < 256" for i using that uint_nat32 [of i] by simp
  then show ?thesis using name_lookup_ok [of fs D nm h] assms bfs_inode [OF assms(1), of h]
    by (auto simp: btree_fs_open_def bfs_ok_def split: option.split)
qed

lemma open_inode_ok:
  assumes ok: "bfs_ok fs D" and h: "hash_string nm = Some h" shows "open_inode nm fs = Some (D h)"
proof (cases "D h")
  case None
  then show ?thesis using open_named [OF assms] by (simp add: open_inode_def)
next
  case (Some i)
  have "dir_ok fs D" using ok by (simp add: bfs_ok_def)
  then obtain L A xs B ys where t: "trees L A xs B ys fs" "set xs = by_number D" by (rule dir_okE)
  have "(of_nat i, Some i) \<in> set xs" using t(2) Some by (auto simp: by_number_def ran_def)
  moreover have "leaf_rep L A xs (inode_tree fs) (tree_mem fs)" using t(1) by (simp add: trees_def)
  ultimately have "inode_get (of_nat i) fs = Some (Some i)" using bt.lookup_set by (fastforce simp: inode_get_def)
  then show ?thesis using open_named [OF assms] Some by (simp add: open_inode_def)
qed

section \<open>Reading and writing\<close>

lemma read_named:
  assumes "bfs_ok fs D" "hash_string nm = Some h"
  shows "btree_fs_read nm sz fs = Some (case contents_of fs D h of None \<Rightarrow> (- 1, [])
    | Some bs \<Rightarrow> (int (min (unat sz) (length bs)), take (unat sz) bs))"
proof (cases "D h")
  case None
  then show ?thesis using open_inode_ok [OF assms] by (simp add: btree_fs_read_def contents_of_def)
next
  case (Some i)
  have w: "writable fs i 0" using bfs_inode [OF assms(1) Some] by blast
  let ?n = "min (unat sz) (length (file_bytes fs i))"
  have "?n < 2 ^ 32" using unsigned_less [of sz, where 'a = nat] by simp
  then have "uint (of_nat ?n :: u32) = int ?n" by (rule uint_nat32)
  then show ?thesis using open_inode_ok [OF assms] Some inode_read_file [of fs i sz] w by (simp add: btree_fs_read_def contents_of_def writable_def)
qed

lemma write_named:
  assumes ok: "bfs_ok fs D" and h: "hash_string nm = Some h" "D h = Some i" and sz: "unat sz \<le> 5120" "unat sz \<le> length buf"
  shows "\<exists>n fs'. btree_fs_write nm (Some buf) sz fs = Some (int n, fs') \<and> bfs_ok fs' D \<and> n \<le> unat sz \<and> (n < unat sz \<longrightarrow> clear_bits fs' \<subseteq> {0}) \<and>
    contents_of fs' D = (contents_of fs D)(h \<mapsto> take n buf @ drop n (file_bytes fs i))"
proof -
  note i = bfs_inode [OF ok h(2)]
  obtain n fs' where o: "inode_write (Some i) (Some buf) 0 sz fs = Some (n, fs')" "writable fs' i 0" "unat n \<le> unat sz"
    "unat n < unat sz \<longrightarrow> clear_bits fs' \<subseteq> {0}" "outside i fs fs'" "file_bytes fs' i = take (unat n) buf @ drop (unat n) (file_bytes fs i)"
    using write_file [OF i(5) sz] by blast
  have run: "btree_fs_write nm (Some buf) sz fs = Some (int (unat n), fs')" using open_inode_ok [OF ok h(1)] h(2) o(1) by (simp add: btree_fs_write_def)
  have den: "dense fs' q" if "q < 256" "in_use (inodes fs ! q)" for q
    using that o(2,5) ok by (cases "q = i") (auto simp: outside_def dense_def blk_def writable_def bfs_ok_def table_ok_def)
  have "table_ok fs'" using ok o(2,5) den unfolding table_ok_def bfs_ok_def
    by (auto simp: outside_def used_inodes_def writable_def)
  then have ok': "bfs_ok fs' D" using ok dir_ok_outside [OF o(5)] by (simp add: bfs_ok_def)
  have "file_bytes fs' j = file_bytes fs j" if "k \<noteq> h" "D k = Some j" for k j
    using other_inode [OF ok h(2) that] o(5) bfs_inode(1,2) [OF ok that(2)] by (simp add: outside_def)
  then have "contents_of fs' (D(h := Some i)) = (contents_of fs D)(h := map_option (file_bytes fs') (Some i))" by (rule contents_upd)
  then have "contents_of fs' D = (contents_of fs D)(h \<mapsto> take (unat n) buf @ drop (unat n) (file_bytes fs i))"
    using o(6) h(2) by (simp add: fun_upd_idem)
  then show ?thesis using run ok' o(3,4) by blast
qed

section \<open>Creation\<close>

definition least_free :: "btree_filesystem \<Rightarrow> nat \<Rightarrow> bool" where
  "least_free fs i \<longleftrightarrow> i < MAX_INODE_COUNT \<and> i \<notin> used_inodes fs \<and> {..<i} \<subseteq> used_inodes fs"

lemma least_free_eq: "least_free fs i \<Longrightarrow> i = (LEAST j. j \<notin> used_inodes fs)"
  by (rule Least_equality [symmetric]) (auto simp: least_free_def not_less [symmetric])

lemma find_free_inode:
  assumes "table_ok fs" "card (used_inodes fs) < 256"
  obtains i where "least_free fs i" "bitmap_find_free (inode_bitmap fs) MAX_INODE_COUNT = Some (int i)"
proof -
  let ?P = "\<lambda>i. \<not> bm_bit (inode_bitmap fs) i"
  have bit: "bm_bit (inode_bitmap fs) i \<longleftrightarrow> i \<in> used_inodes fs" if "i < 256" for i using assms(1) that by (auto simp: table_ok_def used_inodes_def)
  have find: "find_free_loop (inode_bitmap fs) [0..<256] = Some (find ?P [0..<256])"
  proof (rule find_free_ok)
    fix i :: nat assume "i \<in> set [0..<256]"
    then show "i div 32 < length (inode_bitmap fs)" using assms(1) less_mult_imp_div_less [of i 8 32] by (simp add: table_ok_def)
  qed
  have "find ?P [0..<256] \<noteq> None"
  proof
    assume "find ?P [0..<256] = None"
    then have "{..<256} \<subseteq> used_inodes fs" using bit unfolding find_None_iff by (auto simp del: upt_Suc)
    moreover have "finite (used_inodes fs)" by (simp add: used_inodes_def)
    ultimately show False using card_mono [of "used_inodes fs" "{..<256}"] assms(2) by simp
  qed
  then obtain i where i: "find ?P [0..<256] = Some i" by auto
  then obtain j where j: "j < length [0..<256]" "i = [0..<256] ! j" "?P i" "\<forall>k < j. \<not> ?P ([0..<256] ! k)" unfolding find_Some_iff by blast
  then have ij: "j = i" "i < 256" by (simp_all del: upt_Suc)
  have "k \<in> used_inodes fs" if "k < i" for k using j(4) that ij bit [of k] by (auto simp del: upt_Suc)
  then have "least_free fs i" using ij j(3) bit by (auto simp: least_free_def)
  moreover have "bitmap_find_free (inode_bitmap fs) 256 = Some (int i)" using find i by (simp add: bitmap_find_free_def)
  ultimately show thesis by (rule that)
qed

lemma new_inode_ok:
  assumes ok: "table_ok fs" and i: "least_free fs i" and im: "length im = 8" "\<forall>j. bm_bit im j \<longleftrightarrow> j = i \<or> bm_bit (inode_bitmap fs) j"
    and N: "in_use N" "inode_num N = of_nat i" "direct_blocks N = replicate 10 0" "block_count N = 0" "isize N = 0"
    and fs': "inodes fs' = (inodes fs)[i := N]" "inode_bitmap fs' = im" "free_inodes fs' = free_inodes fs - 1" "block_bitmap fs' = block_bitmap fs"
      "block_storage fs' = block_storage fs" "free_blocks fs' = free_blocks fs" "disk fs' = disk fs"
  shows "table_ok fs'" "used_inodes fs' = insert i (used_inodes fs)" "file_bytes fs' i = []"
    "q \<noteq> i \<Longrightarrow> file_bytes fs' q = file_bytes fs q"
proof -
  have ifs: "ifs_ok fs" and i256: "i < 256" "\<not> in_use (inodes fs ! i)" using ok i by (auto simp: table_ok_def least_free_def used_inodes_def)
  note len = ifs_okD(2) [OF ifs]
  have ino: "inodes fs' ! q = (if q = i then N else inodes fs ! q)" for q using i256(1) len fs'(1) by simp
  have blk: "blk fs' x = blk fs x" if "fst x \<noteq> i" for x using that by (simp add: blk_def ino)
  have zero: "blk fs' (i, k) = 0" if "k < 10" for k using that N(3) by (simp add: blk_def ino)
  have own: "owned fs' = owned fs"
  proof (rule set_eqI)
    fix x
    show "x \<in> owned fs' \<longleftrightarrow> x \<in> owned fs"
      using zero [of "snd x"] i256(2) by (cases "fst x = i") (auto simp: owned_def ino blk split: prod.splits)
  qed
  have other: "fst x \<noteq> i" if "x \<in> owned fs" for x using that i256(2) by (auto simp: owned_def)
  have st: "storage fs' = storage fs" by (simp add: storage_def fs'(5))
  have cl: "clear_bits fs' = clear_bits fs" by (simp add: fs'(4))
  have "ifs_ok fs'" unfolding ifs_ok_def
  proof (intro conjI)
    show "\<forall>p < 256. in_use (inodes fs' ! p) \<longrightarrow> length (direct_blocks (inodes fs' ! p)) = 10" using ifs_ok_len [OF ifs] N(3) by (simp add: ino)
    show "\<forall>x \<in> owned fs'. unat (blk fs' x) < 1024 \<and> bm_bit (block_bitmap fs') (unat (blk fs' x))"
      using owned_block [OF ifs] other by (simp add: own blk fs'(4))
    show "inj_on (blk fs') (owned fs')" unfolding own using ifs_okD(5) [OF ifs] blk other by (simp cong: inj_on_cong)
    show "free_blocks fs' = int (card (clear_bits fs'))" unfolding cl fs'(6) by (rule ifs_okD(6) [OF ifs])
  qed (use ifs len in \<open>auto simp: ifs_ok_def st fs'\<close>)
  moreover have "no_leak fs'" using ok blk other unfolding table_ok_def no_leak_def own fs'(4) by (metis (no_types, lifting) image_cong)
  moreover have d: "dense fs' q = dense fs q" if "q \<noteq> i" for q using that by (simp add: dense_def ino blk)
  moreover have "dense fs' i" using zero N by (simp add: dense_def ino)
  moreover show used: "used_inodes fs' = insert i (used_inodes fs)" using i256 N(1) by (auto simp: used_inodes_def ino)
  moreover have "card (used_inodes fs') = Suc (card (used_inodes fs))" unfolding used using i by (simp add: least_free_def used_inodes_def)
  ultimately show "table_ok fs'" using ok N im fs'(2,3) unfolding table_ok_def by (auto simp: ino)
  show "file_bytes fs' i = []" using N(5) by (simp add: file_bytes_def ino available_def)
  show "file_bytes fs' q = file_bytes fs q" if "q \<noteq> i"
  proof -
    have "byte_at fs' q = byte_at fs q" using that by (simp add: fun_eq_iff byte_at_def blk block_bytes_def st fs'(7))
    then show ?thesis using that by (simp add: file_bytes_def available_def ino)
  qed
qed

text \<open>The i-node that \<open>inode_alloc\<close> sets up.\<close>

definition fresh_inode :: "nat \<Rightarrow> u32 \<Rightarrow> inode \<Rightarrow> inode" where
  "fresh_inode i ty ino = ino\<lparr>inode_num := of_nat i, itype := ty, isize := 0, permissions := PERM_READ OR PERM_WRITE,
     link_count := 1, block_count := 0, in_use := True, direct_blocks := replicate DIRECT_BLOCKS 0, indirect_block := 0, double_indirect_block := 0\<rparr>"

lemma inode_alloc_run:
  assumes ok: "table_ok fs" and i: "least_free fs i" "bitmap_find_free (inode_bitmap fs) MAX_INODE_COUNT = Some (int i)"
  obtains im where "length im = 8" "\<forall>j. bm_bit im j \<longleftrightarrow> j = i \<or> bm_bit (inode_bitmap fs) j"
    "inode_alloc ty fs = do { (r, tree, m) \<leftarrow> btree_insert (inode_tree fs) (of_nat i) (Some i) (tree_mem fs);
       Some (Some i, fs\<lparr>inode_bitmap := im, inodes := (inodes fs)[i := fresh_inode i ty (inodes fs ! i)],
         inode_tree := tree, tree_mem := m, free_inodes := free_inodes fs - 1\<rparr>) }"
proof -
  have i256: "i < 256" and len: "length (inodes fs) = 256" "length (inode_bitmap fs) = 8"
    using ok i(1) ifs_okD(2) [of fs] by (auto simp: least_free_def table_ok_def)
  obtain im where im: "bitmap_set (inode_bitmap fs) i = Some im" "length im = 8" "\<forall>j. bm_bit im j \<longleftrightarrow> j = i \<or> bm_bit (inode_bitmap fs) j"
    using bitmap_set_ok [of i "inode_bitmap fs"] len(2) i256 less_mult_imp_div_less [of i 8 32] by auto
  show thesis by (rule that [OF im(2,3)]) (use i(2) i256 len(1) im(1) in \<open>simp add: inode_alloc_def upd_inode_def fresh_inode_def Let_def\<close>)
qed

lemma put_set: "key \<notin> fst ` set xs \<Longrightarrow> set (put key v xs) = insert (key, v) (set xs)"
  by (force simp: put_def)

lemma create_new:
  assumes ok: "bfs_ok fs D" and h: "hash_string nm = Some h" "D h = None" and len: "strlen nm = Some n" "n < 64" and room: "card (dom D) < 4"
  shows "\<exists>i fs'. btree_fs_create nm ty fs = Some (int i, fs') \<and> least_free fs i \<and> bfs_ok fs' (D(h \<mapsto> i)) \<and>
    contents_of fs' (D(h \<mapsto> i)) = (contents_of fs D)(h \<mapsto> [])"
proof -
  have t: "table_ok fs" and d: "dir_ok fs D" using ok by (auto simp: bfs_ok_def)
  obtain L A xs B ys where tr: "trees L A xs B ys fs" "set xs = by_number D" "set ys = by_hash D" "length xs = card (dom D)" "length ys = card (dom D)"
    and D: "ran D \<subseteq> {..<256}" "ran D = used_inodes fs" "inj_on D (dom D)" using d by (rule dir_okE)
  have r: "leaf_rep L A xs (inode_tree fs) (tree_mem fs)" "leaf_rep L B ys (name_tree fs) (tree_mem fs)"
    "bt_room (if A = NULL then 252 else 84) L (tree_mem fs)" "A = NULL \<longleftrightarrow> B = NULL" "A = NULL \<or> A \<noteq> B" using tr(1) by (auto simp: trees_def)
  have "card (used_inodes fs) < 256" using dir_card [OF d] by simp
  then obtain i where i: "least_free fs i" "bitmap_find_free (inode_bitmap fs) 256 = Some (int i)" using find_free_inode [OF t] by blast
  have i256: "i < 256" "i \<notin> ran D" using i(1) D(2) by (auto simp: least_free_def)
  have new: "of_nat i \<notin> fst ` set xs" "h \<notin> fst ` set ys" using by_number_key [OF D(1) i256(1)] i256(2) by_hash_keys [of D] h(2) tr(2,3) by auto
  have lt: "length xs < 4" "length ys < 4" using tr(4,5) room by auto
  obtain t' m1 u' m' L' A' B' where a: "btree_insert (inode_tree fs) (of_nat i) (Some i) (tree_mem fs) = Some (0, t', m1)"
    "btree_insert (name_tree fs) h (Some i) m1 = Some (0, u', m')" "leaf_rep L' A' (put (of_nat i) (Some i) xs) t' m'"
    "leaf_rep L' B' (put h (Some i) ys) u' m'" "bt_room 84 L' m'" "A' \<noteq> NULL" "B' \<noteq> NULL" "A' \<noteq> B'"
    using bt.add_both [OF r new(1) lt(1) new(2) lt(2), of "Some i" "Some i"] by (elim exE conjE) (rule that)
  obtain im where im: "length im = 8" "\<forall>j. bm_bit im j \<longleftrightarrow> j = i \<or> bm_bit (inode_bitmap fs) j"
    "inode_alloc ty fs = do { (r, tree, m) \<leftarrow> btree_insert (inode_tree fs) (of_nat i) (Some i) (tree_mem fs);
       Some (Some i, fs\<lparr>inode_bitmap := im, inodes := (inodes fs)[i := fresh_inode i ty (inodes fs ! i)],
         inode_tree := tree, tree_mem := m, free_inodes := free_inodes fs - 1\<rparr>) }" using inode_alloc_run [OF t i] by blast
  let ?N = "fresh_inode i ty (inodes fs ! i)"
  let ?fs = "fs\<lparr>inode_bitmap := im, inodes := (inodes fs)[i := ?N], inode_tree := t', free_inodes := free_inodes fs - 1, name_tree := u', tree_mem := m'\<rparr>"
  have l: "length (inodes fs) = 256" using t ifs_okD(2) by (auto simp: table_ok_def)
  have N: "in_use ?N" "inode_num ?N = of_nat i" "direct_blocks ?N = replicate 10 0" "block_count ?N = 0" "isize ?N = 0" by (simp_all add: fresh_inode_def)
  have run: "btree_fs_create nm ty fs = Some (int i, ?fs)"
    using len name_lookup_ok [OF d h(1)] h(2) im(3) a(1,2) l i256(1) N(2) uint_nat32 [of i] by (simp add: btree_fs_create_def inode_at_def)
  note n = new_inode_ok [OF t i(1) im(1,2) N, of ?fs]
  have tab: "table_ok ?fs" "used_inodes ?fs = insert i (used_inodes fs)" "file_bytes ?fs i = []" "q \<noteq> i \<Longrightarrow> file_bytes ?fs q = file_bytes fs q" for q
    by (rule n; simp)+
  have ran: "ran (D(h \<mapsto> i)) = insert i (ran D)" using h(2) by (simp add: ran_map_upd)
  have "trees L' A' (put (of_nat i) (Some i) xs) B' (put h (Some i) ys) ?fs" using a by (auto simp: trees_def)
  moreover have "set (put (of_nat i) (Some i) xs) = by_number (D(h \<mapsto> i))" unfolding put_set [OF new(1)] by_number_def ran using tr(2) by (simp add: by_number_def)
  moreover have "set (put h (Some i) ys) = by_hash (D(h \<mapsto> i))" unfolding put_set [OF new(2)] using tr(3) h(2) by (auto simp: by_hash_def)
  moreover have "inj_on (D(h \<mapsto> i)) (dom (D(h \<mapsto> i)))" using D(3) i256(2) unfolding inj_on_def ran_def by (auto simp: dom_def)
  ultimately have "dir_ok ?fs (D(h \<mapsto> i))" unfolding dir_ok_def ran tab(2) using D(2) by blast
  then have "bfs_ok ?fs (D(h \<mapsto> i))" using tab(1) by (simp add: bfs_ok_def)
  moreover have "file_bytes ?fs j = file_bytes fs j" if "k \<noteq> h" "D k = Some j" for k j
    using tab(4) i256(2) that(2) by (metis ranI)
  then have "contents_of ?fs (D(h := Some i)) = (contents_of fs D)(h := map_option (file_bytes ?fs) (Some i))" by (rule contents_upd)
  then have "contents_of ?fs (D(h \<mapsto> i)) = (contents_of fs D)(h \<mapsto> [])" using tab(3) by simp
  ultimately show ?thesis using run i(1) by blast
qed

lemma create_fifth:
  assumes ok: "bfs_ok fs D" and h: "hash_string nm = Some h" "D h = None" and len: "strlen nm = Some n" "n < 64" and full: "card (dom D) = 4"
  shows "btree_fs_create nm ty fs = None"
proof -
  have t: "table_ok fs" and d: "dir_ok fs D" using ok by (auto simp: bfs_ok_def)
  obtain L A xs B ys where tr: "trees L A xs B ys fs" "set xs = by_number D" "length xs = card (dom D)"
    and D: "ran D \<subseteq> {..<256}" "ran D = used_inodes fs" using d by (rule dir_okE)
  have r: "leaf_rep L A xs (inode_tree fs) (tree_mem fs)" "bt_room (if A = NULL then 252 else 84) L (tree_mem fs)" using tr(1) by (auto simp: trees_def)
  have "card (used_inodes fs) < 256" using dir_card [OF d] by simp
  then obtain i where i: "least_free fs i" "bitmap_find_free (inode_bitmap fs) 256 = Some (int i)" using find_free_inode [OF t] by blast
  have "of_nat i \<notin> fst ` set xs" using by_number_key [OF D(1), of i] i(1) D(2) tr(2) by (auto simp: least_free_def)
  moreover have "bt_room 84 L (tree_mem fs)" by (rule kr.room_mono [OF r(2)]) simp
  ultimately have "btree_insert (inode_tree fs) (of_nat i) (Some i) (tree_mem fs) = None" using bt.add_full [OF r(1)] tr(3) full by simp
  then have "inode_alloc ty fs = None" using inode_alloc_run [OF t i, of ty] by (metis bind.bind_lzero)
  then show ?thesis using len name_lookup_ok [OF d h(1)] h(2) by (simp add: btree_fs_create_def)
qed

section \<open>Deletion\<close>

lemma ifs_ok_trees [simp]: "ifs_ok (fs\<lparr>name_tree := u, tree_mem := m\<rparr>) = ifs_ok fs" "owned (fs\<lparr>name_tree := u, tree_mem := m\<rparr>) = owned fs"
  "blk (fs\<lparr>name_tree := u, tree_mem := m\<rparr>) = blk fs" "freed (fs\<lparr>name_tree := u, tree_mem := m\<rparr>) = freed fs"
proof -
  show b: "blk (fs\<lparr>name_tree := u, tree_mem := m\<rparr>) = blk fs" by (simp add: fun_eq_iff blk_def)
  then show o: "owned (fs\<lparr>name_tree := u, tree_mem := m\<rparr>) = owned fs" by (simp add: owned_def)
  show "ifs_ok (fs\<lparr>name_tree := u, tree_mem := m\<rparr>) = ifs_ok fs" unfolding ifs_ok_def b o by (simp add: storage_def)
  show "freed (fs\<lparr>name_tree := u, tree_mem := m\<rparr>) = freed fs" unfolding fun_eq_iff freed_def b by simp
qed

lemma freed_dense:
  assumes "dense fs i" "i < 256" "in_use (inodes fs ! i)" shows "freed fs i = (\<lambda>x. unat (blk fs x)) ` {x \<in> owned fs. fst x = i}"
proof -
  have "{k. k < min 10 (unat (block_count (inodes fs ! i))) \<and> blk fs (i, k) \<noteq> 0} = {k. (i, k) \<in> owned fs}"
    using assms by (auto simp: dense_def owned_def)
  then have "freed fs i = (\<lambda>k. unat (blk fs (i, k))) ` {k. (i, k) \<in> owned fs}" by (simp add: freed_def)
  then show ?thesis by force
qed

lemma delete_named:
  assumes ok: "bfs_ok fs D" and h: "hash_string nm = Some h" "D h = Some i"
  shows "\<exists>fs'. btree_fs_delete nm fs = Some (0, fs') \<and> bfs_ok fs' (D(h := None)) \<and> contents_of fs' (D(h := None)) = (contents_of fs D)(h := None) \<and>
    clear_bits fs' = clear_bits fs \<union> (\<lambda>x. unat (blk fs x)) ` {x \<in> owned fs. fst x = i}"
proof -
  note i = bfs_inode [OF ok h(2)]
  have t: "table_ok fs" and d: "dir_ok fs D" using ok by (auto simp: bfs_ok_def)
  obtain L A xs B ys where tr: "trees L A xs B ys fs" "set xs = by_number D" "set ys = by_hash D"
    and D: "ran D \<subseteq> {..<256}" "ran D = used_inodes fs" "inj_on D (dom D)" using d by (rule dir_okE)
  have r: "leaf_rep L A xs (inode_tree fs) (tree_mem fs)" "leaf_rep L B ys (name_tree fs) (tree_mem fs)" using tr(1) by (auto simp: trees_def)
  have iran: "i \<in> ran D" using h(2) by (auto simp: ran_def)
  have key: "of_nat i \<in> fst ` set xs" "h \<in> fst ` set ys" using by_number_key [OF D(1) i(1)] iran by_hash_keys [of D] h(2) tr(2,3) by auto
  then have nn: "A \<noteq> NULL" using r(1) by (auto simp: leaf_rep_def)
  then have s: "bt_room 84 L (tree_mem fs)" "B \<noteq> NULL" "A \<noteq> B" using tr(1) by (auto simp: trees_def)
  obtain u' m1 t' m' where a: "btree_delete (name_tree fs) h (tree_mem fs) = Some (0, u', m1)" "btree_delete (inode_tree fs) (of_nat i) m1 = Some (0, t', m')"
    "leaf_rep L A xs (inode_tree fs) m1" "leaf_rep L A (filter (\<lambda>x. fst x \<noteq> of_nat i) xs) t' m'" "leaf_rep L B (filter (\<lambda>x. fst x \<noteq> h) ys) u' m'" "bt_room 84 L m'"
    using bt.remove_both [OF r s(1) nn s(2,3) key] by (elim exE conjE) (rule that)
  let ?fs = "fs\<lparr>name_tree := u', tree_mem := m1\<rparr>"
  have pre: "ifs_ok ?fs" "in_use (inodes ?fs ! i)" "btree_rep L (map_option (\<lambda>a. BLeaf a xs) A) (inode_tree ?fs) (tree_mem ?fs)"
    "length (inode_bitmap ?fs) = 8" "unat (inode_num (inodes ?fs ! i)) < 256"
    using t i a(3) inode_unat [OF i(1)] by (auto simp: table_ok_def leaf_rep_def)
  from inode_free_ok [OF pre(1) i(1) pre(2-5)] obtain fs' r where o: "inode_free (Some i) ?fs = Some fs'" "ifs_ok fs'" "\<not> in_use (inodes fs' ! i)"
    "\<forall>q. q \<noteq> i \<longrightarrow> inodes fs' ! q = inodes fs ! q" "clear_bits fs' = clear_bits fs \<union> freed fs i" "free_inodes fs' = free_inodes fs + 1"
    "owned fs' = {x \<in> owned fs. fst x \<noteq> i}" "blk fs' = blk fs" "\<forall>j. bm_bit (inode_bitmap fs') j \<longleftrightarrow> j \<noteq> i \<and> bm_bit (inode_bitmap fs) j"
    "length (inode_bitmap fs') = 8" "name_tree fs' = u'" "disk fs' = disk fs" "block_storage fs' = block_storage fs" "inode_num (inodes fs' ! i) = of_nat i"
    "inode_tree fs' = t'" "tree_mem fs' = m'" using i(4) inode_unat [OF i(1)] a(2) by auto
  have run: "btree_fs_delete nm fs = Some (0, fs')" using name_lookup_ok [OF d h(1)] h(2) a(1) o(1) by (simp add: btree_fs_delete_def)
  have fr: "freed fs i = (\<lambda>x. unat (blk fs x)) ` {x \<in> owned fs. fst x = i}" by (rule freed_dense) (use i in \<open>auto simp: writable_def\<close>)
  have used: "used_inodes fs' = used_inodes fs - {i}" using o(3,4) by (auto simp: used_inodes_def)
  have "card (used_inodes fs) = Suc (card (used_inodes fs'))"
    unfolding used using card_Suc_Diff1 [of "used_inodes fs" i] iran D(2) by (simp add: used_inodes_def)
  moreover have "no_leak fs'"
  proof (rule no_leakI [OF o(2)])
    fix b assume b: "b < 1024" "bm_bit (block_bitmap fs') b"
    then have "b \<notin> clear_bits fs'" by simp
    then have "b \<notin> clear_bits fs" "b \<notin> freed fs i" unfolding o(5) by auto
    then obtain x where "x \<in> owned fs" "b = unat (blk fs x)" "fst x \<noteq> i" using b(1) t unfolding fr table_ok_def no_leak_def by blast
    then show "\<exists>x \<in> owned fs'. b = unat (blk fs' x)" unfolding o(7,8) by blast
  qed
  moreover have "dense fs' q = dense fs q" if "q \<noteq> i" for q using that o(4,8) by (simp add: dense_def)
  ultimately have tab: "table_ok fs'" using t o(2,3,4,6,9,10,14) unfolding table_ok_def by (metis (no_types, lifting) add_diff_cancel_left' diff_add_eq diff_diff_eq2 of_nat_Suc)
  have ran: "ran (D(h := None)) = ran D - {i}" using h(2) other_inode [OF ok h(2)] by (auto simp: ran_def) (metis option.inject)
  have "set (filter (\<lambda>x. fst x \<noteq> of_nat i) xs) = by_number (D(h := None))"
    unfolding set_filter tr(2) by_number_def ran using D(1) of_nat_inode [OF _ i(1)] by auto
  moreover have "set (filter (\<lambda>x. fst x \<noteq> h) ys) = by_hash (D(h := None))" using tr(3) by (auto simp: by_hash_def)
  moreover have "trees L A (filter (\<lambda>x. fst x \<noteq> of_nat i) xs) B (filter (\<lambda>x. fst x \<noteq> h) ys) fs'" using a(4-6) o(11,15,16) nn s(2,3) by (auto simp: trees_def)
  moreover have "inj_on (D(h := None)) (dom (D(h := None)))" using D(3) by (auto simp: inj_on_def)
  ultimately have "dir_ok fs' (D(h := None))" unfolding dir_ok_def ran used using D(2) by blast
  then have "bfs_ok fs' (D(h := None))" using tab by (simp add: bfs_ok_def)
  moreover have "file_bytes fs' q = file_bytes fs q" if "k \<noteq> h" "D k = Some q" for k q
  proof -
    have "q \<noteq> i" by (rule other_inode [OF ok h(2) that])
    moreover have "byte_at fs' q = byte_at fs q" unfolding byte_at_def block_bytes_def storage_def o(8,12,13) ..
    ultimately show ?thesis using o(4) by (simp add: file_bytes_def available_def)
  qed
  then have "contents_of fs' (D(h := None)) = (contents_of fs D)(h := map_option (file_bytes fs') None)" by (rule contents_upd)
  then have "contents_of fs' (D(h := None)) = (contents_of fs D)(h := None)" by simp
  ultimately show ?thesis using run o(5) unfolding fr by blast
qed

section \<open>Initialisation\<close>

lemma zero_bits: "length bm = n \<Longrightarrow> k div 32 < n \<Longrightarrow> \<not> bm_bit (replicate n 0) k"
  by (simp add: bm_bit_def)

lemma ifs_init_ok:
  assumes len: "length (block_bitmap fs) = 32" "length (inode_bitmap fs) = 8" "length (inodes fs) = MAX_INODE_COUNT"
    and room: "bt_room (524288 + 20 + 252) L (tree_mem fs)"
  shows "\<exists>fs'. inode_fs_init fs = Some fs' \<and> bfs_ok fs' Map.empty"
proof -
  have n: "unat (524288 :: u32) = 524288" by simp
  then obtain p k h where p: "kmalloc 524288 (bt_heap (tree_mem fs)) = Some (Some p, h)" "p \<notin> dom L" "524288 \<le> k" "heap_room 252 (L(p \<mapsto> k)) h"
    using kr.room_alloc [of 524288 252 L "bt_heap (tree_mem fs)"] room by auto
  note hr = kr.room_rep [OF p(4)]
  have st: "unat p + 524288 \<le> 2 ^ 32" using heap_rep_inside [OF hr, of p k] p(3) by simp
  define N where "N = map (\<lambda>i. (inodes fs ! i)\<lparr>in_use := False, inode_num := of_nat i\<rparr>) [0..<256]"
  let ?fs = "fs\<lparr>inode_tree := btree_init (inode_tree fs), name_tree := btree_init (name_tree fs), tree_mem := (tree_mem fs)\<lparr>bt_heap := h\<rparr>,
    block_storage := Some p, block_bitmap := replicate 32 0, inode_bitmap := replicate 8 0, inodes := N,
    total_inodes := 256, free_inodes := 256, total_blocks := 1024, free_blocks := 1024\<rparr>"
  have "map (\<lambda>i. if i < 256 then (inodes fs ! i)\<lparr>in_use := False, inode_num := of_nat i\<rparr> else inodes fs ! i) [0..<length (inodes fs)] = N"
    using len(3) by (simp add: N_def)
  then have run: "inode_fs_init fs = Some ?fs"
    using p(1) len by (simp add: inode_fs_init_def bitmap_init_def Let_def del: upt_Suc cong: if_cong)
  have ino: "in_use (N ! i) = False" "inode_num (N ! i) = of_nat i" if "i < 256" for i using that by (simp_all add: N_def del: upt_Suc)
  have own: "owned ?fs = {}" using ino by (auto simp: owned_def)
  have used: "used_inodes ?fs = {}" using ino by (auto simp: used_inodes_def)
  have zero: "\<not> bm_bit (replicate 32 0) b" if "b < 1024" for b using that zero_bits [of "replicate 32 0" 32 b] less_mult_imp_div_less [of b 32 32] by simp
  then have cl: "clear_bits ?fs = {..<1024}" by auto
  have "ifs_ok ?fs" unfolding ifs_ok_def own cl using ino st by (simp add: storage_def N_def del: upt_Suc)
  moreover have "no_leak ?fs" unfolding no_leak_def own using zero by auto
  moreover have "\<not> bm_bit (replicate 8 0) i" if "i < 256" for i using that zero_bits [of "replicate 8 0" 8 i] less_mult_imp_div_less [of i 8 32] by simp
  ultimately have "table_ok ?fs" unfolding table_ok_def used using ino by simp
  moreover have "trees (L(p \<mapsto> k)) None [] None [] ?fs" using hr p(4) by (simp add: trees_def leaf_rep_null btree_init_def)
  then have "dir_ok ?fs Map.empty" unfolding dir_ok_def used by (force simp: by_number_def by_hash_def)
  ultimately show ?thesis using run by (auto simp: bfs_ok_def)
qed

section \<open>Names and hashes\<close>

text \<open>The hash as a function of the characters.\<close>

definition djb2 :: "u8 list \<Rightarrow> u32" where
  "djb2 cs = foldl (\<lambda>h c. 33 * h + ucast c) 5381 cs"

lemma hash_string_ok:
  assumes "str_ok nm" shows "hash_string nm = Some (djb2 (str_val nm))"
proof -
  have "hash_loop h nm = Some (foldl (\<lambda>h c. 33 * h + ucast c) h (str_val nm))" for h using assms
    by (induction h nm rule: hash_loop.induct) (auto simp: push_bit_eq_mult algebra_simps)
  then show ?thesis by (simp add: hash_string_def djb2_def)
qed

lemma hash_string_None: "hash_string nm = Some h \<Longrightarrow> str_ok nm"
proof -
  have "hash_loop a nm = Some h \<Longrightarrow> str_ok nm" for a by (induction a nm rule: hash_loop.induct) (auto split: if_splits)
  then show "hash_string nm = Some h \<Longrightarrow> str_ok nm" by (simp add: hash_string_def)
qed

text \<open>Creation on every branch.\<close>

lemma create_cases:
  assumes ok: "bfs_ok fs D" and nm: "str_ok nm"
  defines "h \<equiv> djb2 (str_val nm)"
  shows "if 64 \<le> length (str_val nm) \<or> h \<in> dom D then btree_fs_create nm ty fs = Some (- 1, fs)
    else if card (dom D) = 4 then btree_fs_create nm ty fs = None
    else \<exists>i fs'. btree_fs_create nm ty fs = Some (int i, fs') \<and> least_free fs i \<and> bfs_ok fs' (D(h \<mapsto> i)) \<and>
      contents_of fs' (D(h \<mapsto> i)) = (contents_of fs D)(h \<mapsto> [])"
proof -
  have h: "hash_string nm = Some h" and len: "strlen nm = Some (int (length (str_val nm)))" unfolding h_def using hash_string_ok [OF nm] strlen_ok [OF nm] by auto
  have d: "dir_ok fs D" using ok by (simp add: bfs_ok_def)
  then have "card (dom D) \<le> 4" by (rule dir_okE)
  show ?thesis
  proof (cases "64 \<le> length (str_val nm) \<or> h \<in> dom D")
    case True
    then have "btree_fs_create nm ty fs = Some (- 1, fs)" using len name_lookup_ok [OF d h] by (auto simp: btree_fs_create_def)
    then show ?thesis using True by simp
  next
    case False
    then show ?thesis using create_new [OF ok h _ len, of ty] create_fifth [OF ok h _ len, of ty] \<open>card (dom D) \<le> 4\<close> by (simp add: domIff)
  qed
qed

end
