(* ===== verification/Inode_Names_Props.thy ===== *)
theory Inode_Names_Props
  imports Inode_Names
begin

text \<open>
  The file operations by name: the properties of a single operation, of all reachable states, and what the
  hashing of names means for them.
\<close>

section \<open>Listing\<close>





section \<open>Writes of more than the direct blocks\<close>




section \<open>Reachable states\<close>

text \<open>The caller's buffer is \<open>NULL\<close> or has the bytes the call names.\<close>

definition buf_ok :: "u8 list ptr \<Rightarrow> u32 \<Rightarrow> bool" where
  "buf_ok buf sz \<longleftrightarrow> (case buf of None \<Rightarrow> True | Some bs \<Rightarrow> unat sz \<le> length bs)"

inductive bfs_reach :: "btree_filesystem \<Rightarrow> bool" where
  init: "length (block_bitmap fs0) = 32 \<Longrightarrow> length (inode_bitmap fs0) = 8 \<Longrightarrow> length (inodes fs0) = MAX_INODE_COUNT \<Longrightarrow>
    bt_room 524560 L (tree_mem fs0) \<Longrightarrow> inode_fs_init fs0 = Some fs \<Longrightarrow> bfs_reach fs"
| create: "bfs_reach fs \<Longrightarrow> btree_fs_create nm ty fs = Some (r, fs') \<Longrightarrow> bfs_reach fs'"
| writing: "bfs_reach fs \<Longrightarrow> buf_ok buf sz \<Longrightarrow> btree_fs_write nm buf sz fs = Some (r, fs') \<Longrightarrow> bfs_reach fs'"
| delete: "bfs_reach fs \<Longrightarrow> btree_fs_delete nm fs = Some (r, fs') \<Longrightarrow> bfs_reach fs'"


lemma missing_name:
  assumes "bfs_ok fs D" "hash_string nm = Some h" "D h = None"
  shows "btree_fs_write nm buf sz fs = Some (- 1, fs)" "btree_fs_delete nm fs = Some (- 1, fs)"
  using open_inode_ok [OF assms(1,2)] name_lookup_ok [of fs D nm h] assms by (simp_all add: btree_fs_write_def btree_fs_delete_def bfs_ok_def)




section \<open>A concrete start\<close>

definition blank_ifs :: "kheap \<Rightarrow> btree_filesystem" where
  "blank_ifs h = \<lparr>inode_tree = \<lparr>root = NULL, height = 0, num_nodes = 0\<rparr>, name_tree = \<lparr>root = NULL, height = 0, num_nodes = 0\<rparr>,
     inodes = replicate MAX_INODE_COUNT \<lparr>inode_num = 0, itype = 0, isize = 0, permissions = 0, link_count = 0, block_count = 0,
       direct_blocks = replicate DIRECT_BLOCKS 0, indirect_block = 0, double_indirect_block = 0, in_use = False\<rparr>, block_storage = NULL,
     block_bitmap = replicate 32 0, inode_bitmap = replicate 8 0, total_inodes = 0, free_inodes = 0, total_blocks = 0, free_blocks = 0,
     tree_mem = \<lparr>bt_nodes = Map.empty, bt_heap = h\<rparr>, disk = (\<lambda>_. 0)\<rparr>"

lemma blank_start:
  "\<exists>h fs. memory_init \<lparr>headers = Map.empty, free_list = NULL\<rparr> = Some h \<and> inode_fs_init (blank_ifs h) = Some fs \<and> bfs_ok fs Map.empty \<and> bfs_reach fs"
proof -
  obtain h where h: "memory_init \<lparr>headers = Map.empty, free_list = NULL\<rparr> = Some h" "heap_ok [(True, 4194292)] h" using init_heap by blast
  have "heap_room 524560 Map.empty h" unfolding heap_room_def by (rule exI [of _ "[(True, 4194292)]"]) (use h(2) in simp)
  then have room: "bt_room 524560 Map.empty (tree_mem (blank_ifs h))" by (simp add: blank_ifs_def)
  have len: "length (block_bitmap (blank_ifs h)) = 32" "length (inode_bitmap (blank_ifs h)) = 8" "length (inodes (blank_ifs h)) = 256"
    by (simp_all add: blank_ifs_def)
  obtain fs where fs: "inode_fs_init (blank_ifs h) = Some fs" "bfs_ok fs Map.empty" using ifs_init_ok [OF len, of Map.empty] room by auto
  then show ?thesis using h(1) bfs_reach.init [OF len room] by blast
qed

text \<open>The same with one file named ``ab''.\<close>

lemma one_file:
  "\<exists>fs i fs'. bfs_reach fs' \<and> bfs_ok fs Map.empty \<and> btree_fs_create [97, 98, 0] 1 fs = Some (int i, fs') \<and> bfs_ok fs' [djb2 [97, 98] \<mapsto> i]"
proof -
  obtain h fs where fs: "bfs_ok fs Map.empty" "bfs_reach fs" using blank_start by blast
  obtain i fs' where "btree_fs_create [97, 98, 0] 1 fs = Some (int i, fs')" "bfs_ok fs' [djb2 [97, 98] \<mapsto> i]"
    using create_cases [OF fs(1), of "[97, 98, 0]" 1] by auto
  then show ?thesis using fs bfs_reach.create [OF fs(2)] by blast
qed

section \<open>Properties\<close>




text \<open>C14: \<open>btree_fs_create\<close> on every branch.  A name of 64 or more characters, or one whose hash is taken, gives \<open>-1\<close> and changes
  nothing; otherwise the file gets the least free i-node and is empty, the other files are unchanged, and the number of the i-node is returned.  With four
  files the B-trees are full and the code is undefined.\<close>

theorem bfs_create_refines:
  assumes "bfs_ok fs D" "str_ok nm"
  shows "let h = djb2 (str_val nm) in
    if 64 \<le> length (str_val nm) \<or> h \<in> dom D then btree_fs_create nm ty fs = Some (- 1, fs)
    else if card (dom D) = 4 then btree_fs_create nm ty fs = None
    else \<exists>i fs'. btree_fs_create nm ty fs = Some (int i, fs') \<and> i = (LEAST j. j \<notin> used_inodes fs) \<and> bfs_ok fs' (D(h \<mapsto> i)) \<and>
      contents_of fs' (D(h \<mapsto> i)) = (contents_of fs D)(h \<mapsto> [])"
  using create_cases [OF assms, of ty] unfolding Let_def by (auto dest: least_free_eq split: if_splits)

theorem bfs_create_refines_witness:
  "\<exists>fs fs'. bfs_ok fs Map.empty \<and> btree_fs_create [97, 98, 0] 1 fs = Some (0, fs') \<and> bfs_ok fs' [djb2 [97, 98] \<mapsto> 0] \<and>
     contents_of fs' [djb2 [97, 98] \<mapsto> 0] = [djb2 [97, 98] \<mapsto> []]"
proof -
  obtain h fs where fs: "bfs_ok fs Map.empty" using blank_start by blast
  then have "used_inodes fs = {}" by (simp add: bfs_ok_def dir_ok_def)
  then have "(LEAST j. j \<notin> used_inodes fs) = 0" by simp
  moreover have "contents_of fs Map.empty = Map.empty" by (simp add: contents_of_def fun_eq_iff)
  ultimately show ?thesis using bfs_create_refines [OF fs, of "[97, 98, 0]" 1] fs by (auto simp: Let_def)
qed

text \<open>C15: writing up to 5120 bytes to an existing file by name returns the number of bytes stored, all of them unless no block is free;
  the contents of the file are the stored bytes followed by what the file had beyond them, reading the name returns them, and no other file changes.\<close>

theorem bfs_write_read:
  assumes "bfs_ok fs D" "str_ok nm" "contents_of fs D (djb2 (str_val nm)) = Some old" "unat sz \<le> 5120" "unat sz \<le> length buf"
  shows "\<exists>n fs'. btree_fs_write nm (Some buf) sz fs = Some (int n, fs') \<and> bfs_ok fs' D \<and> n \<le> unat sz \<and> (n < unat sz \<longrightarrow> clear_bits fs' \<subseteq> {0}) \<and>
    contents_of fs' D = (contents_of fs D)(djb2 (str_val nm) \<mapsto> take n buf @ drop n old) \<and>
    btree_fs_read nm (of_nat n) fs' = Some (int n, take n buf)"
proof -
  note h = hash_string_ok [OF assms(2)]
  obtain i where i: "D (djb2 (str_val nm)) = Some i" "file_bytes fs i = old" using assms(3) by (auto simp: contents_of_def)
  obtain n fs' where o: "btree_fs_write nm (Some buf) sz fs = Some (int n, fs')" "bfs_ok fs' D" "n \<le> unat sz" "n < unat sz \<longrightarrow> clear_bits fs' \<subseteq> {0}"
    "contents_of fs' D = (contents_of fs D)(djb2 (str_val nm) \<mapsto> take n buf @ drop n old)" using write_named [OF assms(1) h i(1) assms(4,5)] i(2) by blast
  have "unat (of_nat n :: u32) = n" using o(3) assms(4) by (simp add: unsigned_of_nat take_bit_nat_eq_self)
  moreover have "length (take n buf) = n" using o(3) assms(5) by simp
  ultimately have "btree_fs_read nm (of_nat n) fs' = Some (int n, take n buf)" using read_named [OF o(2) h, of "of_nat n"] o(5) by simp
  then show ?thesis using o by blast
qed

theorem bfs_write_read_witness:
  "\<exists>fs n fs'. btree_fs_write [97, 98, 0] (Some [1, 2, 3]) 3 fs = Some (int n, fs') \<and> n \<le> 3 \<and> btree_fs_read [97, 98, 0] (of_nat n) fs' = Some (int n, take n [1, 2, 3])"
proof -
  obtain fs i where fs: "bfs_ok fs [djb2 [97, 98] \<mapsto> i]" using one_file by blast
  then show ?thesis using bfs_write_read [OF fs, of "[97, 98, 0]" _ 3 "[1, 2, 3]"] by (fastforce simp: contents_of_def)
qed

text \<open>C16: \<open>btree_fs_delete\<close> of an existing name removes exactly that file and frees exactly its blocks; any other name
  gives \<open>-1\<close> and changes nothing.\<close>

theorem bfs_delete_refines:
  assumes "bfs_ok fs D" "str_ok nm"
  shows "case D (djb2 (str_val nm)) of None \<Rightarrow> btree_fs_delete nm fs = Some (- 1, fs)
    | Some i \<Rightarrow> \<exists>fs'. btree_fs_delete nm fs = Some (0, fs') \<and> bfs_ok fs' (D(djb2 (str_val nm) := None)) \<and>
        contents_of fs' (D(djb2 (str_val nm) := None)) = (contents_of fs D)(djb2 (str_val nm) := None) \<and>
        clear_bits fs' = clear_bits fs \<union> (\<lambda>x. unat (blk fs x)) ` {x \<in> owned fs. fst x = i}"
  using missing_name(2) [OF assms(1) hash_string_ok [OF assms(2)]] delete_named [OF assms(1) hash_string_ok [OF assms(2)]]
  by (auto split: option.split)

theorem bfs_delete_refines_witness:
  "\<exists>fs fs'. btree_fs_delete [97, 98, 0] fs = Some (0, fs') \<and> bfs_ok fs' Map.empty"
proof -
  obtain fs i where fs: "bfs_ok fs [djb2 [97, 98] \<mapsto> i]" using one_file by blast
  have "[djb2 [97, 98] \<mapsto> i](djb2 [97, 98] := None) = Map.empty" by simp
  then show ?thesis using bfs_delete_refines [OF fs, of "[97, 98, 0]"] by auto
qed

text \<open>C17: files are known by the hash of their name only.  The names ``ab'' and ``bA'' have the same hash: once ``ab'' has been created,
  ``bA'' opens its i-node, cannot be created, and deleting ``bA'' deletes ``ab''.\<close>

theorem bfs_names_collide:
  assumes "bfs_ok fs D" "djb2 [97, 98] \<notin> dom D" "card (dom D) < 4"
  shows "\<exists>i fs1 fs2. btree_fs_create [97, 98, 0] ty fs = Some (int i, fs1) \<and> btree_fs_open [98, 65, 0] fs1 = Some (int i) \<and>
    btree_fs_create [98, 65, 0] ty fs1 = Some (- 1, fs1) \<and> btree_fs_delete [98, 65, 0] fs1 = Some (0, fs2) \<and> btree_fs_open [97, 98, 0] fs2 = Some (- 1)"
proof -
  have same: "djb2 [98, 65] = djb2 [97, 98]" by code_simp
  obtain i fs1 where c: "btree_fs_create [97, 98, 0] ty fs = Some (int i, fs1)" "bfs_ok fs1 (D(djb2 [97, 98] \<mapsto> i))"
    using create_cases [OF assms(1), of "[97, 98, 0]" ty] assms(2,3) by auto
  have h: "hash_string [98, 65, 0] = Some (djb2 [97, 98])" "hash_string [97, 98, 0] = Some (djb2 [97, 98])"
    using hash_string_ok [of "[98, 65, 0]"] hash_string_ok [of "[97, 98, 0]"] same by simp_all
  obtain fs2 where d: "btree_fs_delete [98, 65, 0] fs1 = Some (0, fs2)" "bfs_ok fs2 (D(djb2 [97, 98] \<mapsto> i, djb2 [97, 98] := None))"
    using delete_named [OF c(2) h(1)] by auto
  have "btree_fs_create [98, 65, 0] ty fs1 = Some (- 1, fs1)" using create_cases [OF c(2), of "[98, 65, 0]" ty] same by simp
  then show ?thesis using c(1) d(1) open_named [OF c(2) h(1)] open_named [OF d(2) h(2)] by auto
qed

theorem bfs_names_collide_witness:
  "\<exists>fs i fs1. bfs_ok fs Map.empty \<and> btree_fs_create [97, 98, 0] 1 fs = Some (int i, fs1) \<and> btree_fs_open [98, 65, 0] fs1 = Some (int i)"
proof -
  obtain h fs where fs: "bfs_ok fs Map.empty" using blank_start by blast
  then show ?thesis using bfs_names_collide [OF fs, of 1] by auto
qed

end
