(* ===== verification/Inode_Trunc.thy ===== *)
theory Inode_Trunc
  imports Inode_Dense
begin

text \<open>
  \<open>inode_truncate\<close> on a file without holes: the blocks behind the new size are given back and nothing else changes.
\<close>

section \<open>Giving back one block\<close>

lemma release_block:
  assumes ok: "ifs_ok fs" and p: "p < 256" "in_use (inodes fs ! p)" and j: "j < 10" "blk fs (p, j) \<noteq> 0" and nl: "no_leak fs"
  shows "\<exists>fs1 fs2. block_free (blk fs (p, j)) fs = Some fs1 \<and>
    upd_inode p (\<lambda>ino. ino\<lparr>direct_blocks := (direct_blocks ino)[j := 0]\<rparr>) fs1 = Some fs2 \<and> ifs_ok fs2 \<and> no_leak fs2 \<and> frame p fs fs2 \<and>
    blk fs2 = (blk fs)((p, j) := 0) \<and> block_count (inodes fs2 ! p) = block_count (inodes fs ! p) \<and> disk fs2 = disk fs"
proof -
  let ?b = "blk fs (p, j)"
  have own: "(p, j) \<in> owned fs" by (rule owned_place [OF p j])
  note b = owned_block [OF ok own]
  note len = ifs_okD(2) [OF ok]
  obtain bm where bm: "block_free ?b fs = Some (fs\<lparr>block_bitmap := bm, free_blocks := free_blocks fs + 1\<rparr>)" "length bm = 32"
    "\<forall>k. bm_bit bm k \<longleftrightarrow> k \<noteq> unat ?b \<and> bm_bit (block_bitmap fs) k" using block_free_ok [OF ifs_okD(1) [OF ok] b(1) j(2)] by blast
  let ?fs1 = "fs\<lparr>block_bitmap := bm, free_blocks := free_blocks fs + 1\<rparr>"
  let ?fs2 = "?fs1\<lparr>inodes := (inodes fs)[p := (inodes fs ! p)\<lparr>direct_blocks := (direct_blocks (inodes fs ! p))[j := 0]\<rparr>]\<rparr>"
  have upd: "upd_inode p (\<lambda>ino. ino\<lparr>direct_blocks := (direct_blocks ino)[j := 0]\<rparr>) ?fs1 = Some ?fs2" using p(1) len by (simp add: upd_inode_def)
  have fr: "frame p fs ?fs2" using p(1) len by (simp add: frame_def)
  have blk: "blk ?fs2 = (blk fs)((p, j) := 0)"
    using p(1) j(1) len ifs_ok_len [OF ok p] by (auto simp: fun_eq_iff blk_def nth_list_update)
  have own2: "owned ?fs2 = owned fs - {(p, j)}" unfolding owned_def frame_in_use [OF fr] blk by auto
  have dif: "unat (blk fs x) \<noteq> unat ?b" if "x \<in> owned fs - {(p, j)}" for x
    using inj_onD [OF ifs_okD(5) [OF ok] _ _ own, of x] that by (auto simp: word_unat_eq_iff [symmetric])
  have cl: "clear_bits ?fs2 = insert (unat ?b) (clear_bits fs)" using bm(3) b(1) by auto
  have "ifs_ok ?fs2" unfolding ifs_ok_def
  proof (intro conjI)
    show "\<forall>q < 256. in_use (inodes ?fs2 ! q) \<longrightarrow> length (direct_blocks (inodes ?fs2 ! q)) = 10"
      using ifs_ok_len [OF ok] p(1) len by (simp add: nth_list_update)
    show "\<forall>x \<in> owned ?fs2. unat (blk ?fs2 x) < 1024 \<and> bm_bit (block_bitmap ?fs2) (unat (blk ?fs2 x))"
      unfolding own2 blk using owned_block(1,2) [OF ok] dif bm(3) by auto
    show "inj_on (blk ?fs2) (owned ?fs2)" unfolding own2 blk by (rule inj_on_fun_updI) (use inj_on_subset [OF ifs_okD(5) [OF ok]] owned_block(3) [OF ok] in auto)
    have "card (clear_bits ?fs2) = Suc (card (clear_bits fs))" unfolding cl using b(2) by simp
    then show "free_blocks ?fs2 = int (card (clear_bits ?fs2))" using ifs_okD(6) [OF ok] by simp
  qed (use bm(2) len ok in \<open>auto simp: storage_def ifs_ok_def\<close>)
  moreover from this have "no_leak ?fs2"
  proof (rule no_leakI)
    fix c assume c: "c < 1024" "bm_bit (block_bitmap ?fs2) c"
    then have "c \<in> {b. b < 1024 \<and> bm_bit (block_bitmap fs) b}" using bm(3) by simp
    then have "c \<in> (\<lambda>x. unat (blk fs x)) ` owned fs" using nl by (simp only: no_leak_def)
    then obtain x where x: "x \<in> owned fs" "c = unat (blk fs x)" by blast
    then have "x \<noteq> (p, j)" using c(2) bm(3) by auto
    then show "\<exists>x \<in> owned ?fs2. c = unat (blk ?fs2 x)" using x unfolding own2 blk by auto
  qed
  ultimately show ?thesis using bm(1) upd fr blk p(1) len by (intro exI [of _ ?fs1] exI [of _ ?fs2]) simp
qed

section \<open>The loop\<close>

lemma truncate_loop_ok:
  assumes "p < 256"
  shows "ifs_ok fs \<Longrightarrow> in_use (inodes fs ! p) \<Longrightarrow> no_leak fs \<Longrightarrow> \<exists>fs'. truncate_loop p [j..<10] fs = Some fs' \<and> ifs_ok fs' \<and> no_leak fs' \<and> frame p fs fs' \<and>
    blk fs' = (\<lambda>x. if fst x = p \<and> j \<le> snd x \<and> snd x < min 10 (unat (block_count (inodes fs ! p))) then 0 else blk fs x) \<and>
    block_count (inodes fs' ! p) = block_count (inodes fs ! p) \<and> disk fs' = disk fs"
proof (induction "10 - j" arbitrary: j fs)
  case 0
  then have "[j..<10] = []" by simp
  then show ?case using 0 frame_refl [of p fs] by (auto simp: fun_eq_iff)
next
  case (Suc k)
  then have j: "j < 10" "k = 10 - Suc j" "[j..<10] = j # [Suc j..<10]" by (auto simp: upt_conv_Cons)
  note ok = Suc.prems
  let ?ino = "inodes fs ! p"
  have at: "inode_at p fs = Some ?ino" using assms ifs_okD(2) [OF ok(1)] by (simp add: inode_at_def)
  have get: "array_get (direct_blocks ?ino) (int j) = Some (blk fs (p, j))"
    using ifs_ok_len [OF ok(1) assms ok(2)] j(1) by (simp add: array_get_nth blk_def)
  have lt: "of_nat j < block_count ?ino \<longleftrightarrow> j < unat (block_count ?ino)" using j(1) by (simp add: word_less_nat_alt unsigned_of_nat take_bit_nat_eq_self)
  show ?case
  proof (cases "j < unat (block_count ?ino)")
    case False
    then have "truncate_loop p [j..<10] fs = Some fs" using j(3) at lt by simp
    then show ?thesis using False ok frame_refl [of p fs] by (auto simp: fun_eq_iff)
  next
    case True
    show ?thesis
    proof (cases "blk fs (p, j) = 0")
      case zero: True
      then have "truncate_loop p [j..<10] fs = truncate_loop p [Suc j..<10] fs" using j(3) at get lt True by simp
      then show ?thesis using Suc.hyps(1) [OF j(2) ok] zero by (auto simp: fun_eq_iff le_less Suc_le_eq)
    next
      case False
      obtain fs1 fs2 where r: "block_free (blk fs (p, j)) fs = Some fs1"
        "upd_inode p (\<lambda>ino. ino\<lparr>direct_blocks := (direct_blocks ino)[j := 0]\<rparr>) fs1 = Some fs2" "ifs_ok fs2" "no_leak fs2" "frame p fs fs2"
        "blk fs2 = (blk fs)((p, j) := 0)" "block_count (inodes fs2 ! p) = block_count ?ino" "disk fs2 = disk fs"
        using release_block [OF ok(1) assms ok(2) j(1) False ok(3)] by blast
      have run: "truncate_loop p [j..<10] fs = truncate_loop p [Suc j..<10] fs2"
        using j(3) at get lt True False r(1,2) by (simp add: word_gt_0)
      have "in_use (inodes fs2 ! p)" using frame_in_use [OF r(5)] ok(2) by simp
      from Suc.hyps(1) [OF j(2) r(3) this r(4)] obtain fs' where o: "truncate_loop p [Suc j..<10] fs2 = Some fs'" "ifs_ok fs'" "no_leak fs'" "frame p fs2 fs'"
        "blk fs' = (\<lambda>x. if fst x = p \<and> Suc j \<le> snd x \<and> snd x < min 10 (unat (block_count ?ino)) then 0 else blk fs2 x)"
        "block_count (inodes fs' ! p) = block_count ?ino" "disk fs' = disk fs" using r(7,8) by auto
      have "blk fs' = (\<lambda>x. if fst x = p \<and> j \<le> snd x \<and> snd x < min 10 (unat (block_count ?ino)) then 0 else blk fs x)"
        unfolding o(5) r(6) using True j(1) by (auto simp: fun_eq_iff le_less Suc_le_eq)
      then show ?thesis using run o frame_trans [OF r(5) o(4)] by auto
    qed
  qed
qed

section \<open>Truncation\<close>

text \<open>An update of an i-node that leaves its blocks alone.\<close>

lemma upd_meta:
  assumes ok: "ifs_ok fs" "p < 256" and ino: "direct_blocks N = direct_blocks (inodes fs ! p)" "in_use N = in_use (inodes fs ! p)"
  defines "fs' \<equiv> fs\<lparr>inodes := (inodes fs)[p := N]\<rparr>"
  shows "ifs_ok fs'" "blk fs' = blk fs" "no_leak fs' = no_leak fs" "byte_at fs' = byte_at fs" "inodes fs' ! q = (if q = p then N else inodes fs ! q)"
proof -
  have len: "length (inodes fs) = 256" by (rule ifs_okD(2) [OF ok(1)])
  show i: "inodes fs' ! q = (if q = p then N else inodes fs ! q)" for q unfolding fs'_def using ok(2) len by simp
  show b: "blk fs' = blk fs" unfolding fun_eq_iff blk_def i using ino(1) by simp
  have o: "owned fs' = owned fs" unfolding owned_def b i using ino(2) by auto
  have st: "storage fs' = storage fs" "block_bitmap fs' = block_bitmap fs" "disk fs' = disk fs" by (simp_all add: storage_def fs'_def)
  show "ifs_ok fs'" using ok(1) ino len unfolding ifs_ok_def b o st i by (auto simp: fs'_def)
  show "no_leak fs' = no_leak fs" unfolding no_leak_def b o st ..
  show "byte_at fs' = byte_at fs" unfolding byte_at_def b block_bytes_def st ..
qed

lemma round_up_div: "(n :: nat) \<le> 512 * ((n + 511) div 512)" "(n + 511) div 512 \<le> k \<longleftrightarrow> n \<le> 512 * k"
  by linarith+

lemma clear_no_leak: "no_leak fs \<Longrightarrow> clear_bits fs = {..<1024} - (\<lambda>x. unat (blk fs x)) ` owned fs"
  unfolding no_leak_def by (auto simp: set_eq_iff)

lemma truncate_dense:
  assumes w: "writable fs p 0" and n: "n < isize (inodes fs ! p)"
  shows "\<exists>fs'. inode_truncate (Some p) n fs = Some (0, fs') \<and> writable fs' p 0 \<and> outside p fs fs' \<and> file_bytes fs' p = take (unat n) (file_bytes fs p) \<and>
    clear_bits fs' = clear_bits fs \<union> (\<lambda>i. unat (blk fs (p, i))) ` {(unat n + 511) div 512..<unat (block_count (inodes fs ! p))}"
proof -
  have p: "p < 256" "ifs_ok fs" "in_use (inodes fs ! p)" "dense fs p" "no_leak fs" using w by (auto simp: writable_def)
  let ?ino = "inodes fs ! p"
  let ?bc = "unat (block_count ?ino)"
  let ?nb = "(unat n + 511) div 512"
  have sz: "unat n < unat (isize ?ino)" "unat (isize ?ino) \<le> 512 * ?bc" "?bc \<le> 10" using n p(4) by (auto simp: dense_def word_less_nat_alt)
  then have small: "unat n + 511 < 2 ^ 32" "?nb \<le> ?bc" by (simp, subst round_up_div(2), linarith)
  have e: "unat (n + 512 - 1) = unat n + 511" using small(1) unat_plus [of n 511] by (simp add: add.commute)
  then have nb: "unat ((n + 512 - 1) div 512) = ?nb" by (simp add: unat_div)
  obtain fs1 where o: "truncate_loop p [?nb..<10] fs = Some fs1" "ifs_ok fs1" "no_leak fs1" "frame p fs fs1"
    "blk fs1 = (\<lambda>x. if fst x = p \<and> ?nb \<le> snd x \<and> snd x < min 10 ?bc then 0 else blk fs x)" "disk fs1 = disk fs"
    using truncate_loop_ok [OF p(1,2,3,5), of ?nb] by blast
  let ?N = "(inodes fs1 ! p)\<lparr>isize := n, block_count := (n + 512 - 1) div 512\<rparr>"
  let ?fs = "fs1\<lparr>inodes := (inodes fs1)[p := ?N]\<rparr>"
  note len = ifs_okD(2) [OF o(2)]
  have N: "direct_blocks ?N = direct_blocks (inodes fs1 ! p)" "in_use ?N = in_use (inodes fs1 ! p)" by simp_all
  note m = upd_meta [OF o(2) p(1) N]
  have "inode_at p fs = Some ?ino" using p(1) ifs_okD(2) [OF p(2)] by (simp add: inode_at_def)
  then have run: "inode_truncate (Some p) n fs = Some (0, ?fs)"
    using n o(1) nb p(1) len by (simp add: inode_truncate_def upd_inode_def Let_def)
  have bl: "blk ?fs (p, i) \<noteq> 0 \<longleftrightarrow> i < ?nb" if "i < 10" for i
    unfolding m(2) o(5) using that p(4) small(2) sz(3) by (auto simp: dense_def)
  have "dense ?fs p" using bl nb small(2) sz(3) round_up_div(1) [of "unat n"] unfolding dense_def m(5) by simp
  moreover have use: "in_use (inodes fs1 ! q) = in_use (inodes fs ! q)" for q using frame_in_use [OF o(4)] .
  ultimately have w': "writable ?fs p 0" using m(1,3) o(3) p(1,3) unfolding writable_def m(5) by simp
  have byte: "byte_at ?fs q k = byte_at fs q k" if "q \<noteq> p \<or> k div 512 < ?nb" for q k
    using that frame_storage [OF o(4)] o(6) unfolding m(4) by (auto simp: byte_at_def block_bytes_def o(5))
  have "file_bytes ?fs q = file_bytes fs q" if "q \<noteq> p" for q
  proof -
    have "byte_at ?fs q = byte_at fs q" using byte that by (simp add: fun_eq_iff)
    then show ?thesis using that o(4) unfolding file_bytes_def available_def m(5) by (simp add: frame_def)
  qed
  then have out: "outside p fs ?fs" using o(4) unfolding outside_def m(5) by (simp add: frame_def)
  have low: "k div 512 < ?nb" if "k < unat n" for k using that by linarith
  have "file_bytes ?fs p = map (\<lambda>k. the (byte_at ?fs p k)) [0..<unat n]"
    using file_bytes_dense [of ?fs p] w' unfolding m(5) by (simp add: writable_def)
  also have "\<dots> = take (unat n) (file_bytes fs p)"
    unfolding file_bytes_dense [OF p(4)] using byte low sz(1) by (simp add: take_map take_upt)
  finally have fb: "file_bytes ?fs p = take (unat n) (file_bytes fs p)" .
  have "clear_bits ?fs = clear_bits fs \<union> (\<lambda>i. unat (blk fs (p, i))) ` {?nb..<?bc}"
  proof -
    let ?S = "{p} \<times> {?nb..<?bc}" and ?f = "\<lambda>x. unat (blk fs x)"
    have S: "?S \<subseteq> owned fs"
    proof
      fix x assume "x \<in> ?S"
      then have "fst x = p" "snd x < ?bc" "snd x < 10" using sz(3) by auto
      then show "x \<in> owned fs" using p(1,3,4) by (cases x) (simp add: owned_def dense_def)
    qed
    have own: "owned ?fs = owned fs - ?S" unfolding owned_def m(2,5) o(5) use using sz(3) by (auto simp: use)
    have "(\<lambda>x. unat (blk ?fs x)) ` owned ?fs = ?f ` (owned fs - ?S)" unfolding own m(2) o(5) by (rule image_cong) auto
    also have "\<dots> = ?f ` owned fs - ?f ` ?S"
    proof (rule inj_on_image_set_diff [of _ "owned fs"])
      show "inj_on ?f (owned fs)" by (rule inj_onI) (use inj_onD [OF ifs_okD(5) [OF p(2)]] in \<open>simp add: word_unat_eq_iff\<close>)
    qed (use S in auto)
    finally have "clear_bits ?fs = {..<1024} - (?f ` owned fs - ?f ` ?S)" using clear_no_leak [of ?fs] m(3) o(3) by simp
    also have "\<dots> = clear_bits fs \<union> ?f ` ?S" using clear_no_leak [OF p(5)] owned_block(1) [OF p(2)] S by auto
    also have "?f ` ?S = (\<lambda>i. unat (blk fs (p, i))) ` {?nb..<?bc}" by auto
    finally show ?thesis .
  qed
  then show ?thesis using run w' out fb by blast
qed

text \<open>\<open>inode_truncate\<close> of a file without holes: a size that is not smaller changes nothing; a smaller one keeps exactly that many bytes, gives
  back exactly the blocks behind them and leaves the file without holes, and the other files are unchanged.\<close>

theorem inode_truncate_correct:
  assumes "writable fs p 0"
  shows "if isize (inodes fs ! p) \<le> n then inode_truncate (Some p) n fs = Some (0, fs)
    else \<exists>fs'. inode_truncate (Some p) n fs = Some (0, fs') \<and> writable fs' p 0 \<and> outside p fs fs' \<and> file_bytes fs' p = take (unat n) (file_bytes fs p) \<and>
      clear_bits fs' = clear_bits fs \<union> (\<lambda>i. unat (blk fs (p, i))) ` {(unat n + 511) div 512..<unat (block_count (inodes fs ! p))}"
proof -
  have "inode_at p fs = Some (inodes fs ! p)" using assms ifs_okD(2) [of fs] by (simp add: writable_def inode_at_def)
  then have "inode_truncate (Some p) n fs = Some (0, fs)" if "isize (inodes fs ! p) \<le> n" using that by (simp add: inode_truncate_def)
  then show ?thesis using truncate_dense [OF assms, of n] by auto
qed

end
