(* ===== verification/Printf.thy ===== *)
theory Printf
  imports Kstring Kbytes
begin

text \<open>
  The functions of src/common.c: \<open>printf\<close>, which all parts of the kernel print with, and \<open>memset\<close>.  What
  \<open>printf\<close> prints is a list of bytes; its variable arguments are a list, and fetching one that is missing or of another
  type is undefined.
\<close>

section \<open>Arguments\<close>

text \<open>On this machine \<open>int\<close>, \<open>long\<close> and pointers have 32 bits.\<close>

datatype va_arg = Va32 u32 | Va64 u64 | VaStr "u8 list"

fun va_arg32 :: "va_arg list \<Rightarrow> (u32 \<times> va_arg list) option" where
  "va_arg32 (Va32 v # args) = Some (v, args)"
| "va_arg32 _ = None"

fun va_arg64 :: "va_arg list \<Rightarrow> (u64 \<times> va_arg list) option" where
  "va_arg64 (Va64 v # args) = Some (v, args)"
| "va_arg64 _ = None"

fun va_arg_str :: "va_arg list \<Rightarrow> (u8 list \<times> va_arg list) option" where
  "va_arg_str (VaStr v # args) = Some (v, args)"
| "va_arg_str _ = None"

section \<open>Conversions\<close>

fun put_str :: "u8 list \<Rightarrow> u8 list option" where
  "put_str [] = None"
| "put_str (c # s) = (if c \<noteq> 0 then do { out \<leftarrow> put_str s; Some (c # out) } else Some [])"

text \<open>Decimal numbers of 32 bits: the loop that finds the divisor of the first digit, and the loop that prints.\<close>

partial_function (option) find_divisor :: "u32 \<Rightarrow> u32 \<Rightarrow> u32 option" where
  "find_divisor magnitude divisor =
     (if divisor = 0 then None
      else if magnitude div divisor > 9 then find_divisor magnitude (divisor * 10)
      else Some divisor)"

declare find_divisor.simps [code]

function put_digits :: "u32 \<Rightarrow> u32 \<Rightarrow> u8 list" where
  "put_digits magnitude divisor =
     (if divisor > 0 then ucast (48 + magnitude div divisor) # put_digits (magnitude mod divisor) (divisor div 10)
      else [])"
  by pat_completeness auto
termination
  by (relation "measure (\<lambda>(m, d). unat d)") (auto simp: unat_div word_gt_0 intro!: div_less_dividend, simp add: unat_gt_0)

declare put_digits.simps [simp del]

definition put_unsigned :: "u32 \<Rightarrow> u8 list option" where
  "put_unsigned v = do { divisor \<leftarrow> find_divisor v 1; Some (put_digits v divisor) }"

definition put_signed :: "u32 \<Rightarrow> u8 list option" where
  "put_signed v =
     (if sint v < 0 then do { out \<leftarrow> put_unsigned (- v); Some (45 # out) } else put_unsigned v)"

text \<open>Numbers of 64 bits: the digits are collected in a buffer of 32 bytes and printed backwards.\<close>

function fill_buf :: "u64 \<Rightarrow> nat \<Rightarrow> u8 list" where
  "fill_buf v pos = (if v > 0 \<and> pos < 31 then ucast (48 + v mod 10) # fill_buf (v div 10) (pos + 1) else [])"
  by pat_completeness auto
termination by (relation "measure (\<lambda>(v, pos). 31 - pos)") auto

declare fill_buf.simps [simp del]

definition put_unsigned64 :: "u64 \<Rightarrow> u8 list" where
  "put_unsigned64 v = (if v = 0 then [48] else rev (fill_buf v 0))"

definition put_signed64 :: "u64 \<Rightarrow> u8 list" where
  "put_signed64 v = (if sint v < 0 then 45 # put_unsigned64 (- v) else put_unsigned64 v)"

text \<open>The digits are ``0123456789abcdef''.\<close>

definition hex_char :: "u32 \<Rightarrow> u8" where
  "hex_char nibble = [48, 49, 50, 51, 52, 53, 54, 55, 56, 57, 97, 98, 99, 100, 101, 102] ! unat nibble"

definition put_hex :: "u32 \<Rightarrow> u8 list" where
  "put_hex v = map (\<lambda>i. hex_char (drop_bit (i * 4) v AND 0xf)) [7, 6, 5, 4, 3, 2, 1, 0]"

section \<open>The format string\<close>

text \<open>The conversions after ``%l''.  The result is what is printed, the format after the final \<open>fmt++\<close> and the
  arguments left.\<close>

fun printf_long :: "u8 list \<Rightarrow> va_arg list \<Rightarrow> (u8 list \<times> u8 list \<times> va_arg list) option" where
  "printf_long [] args = None"
| "printf_long (k # fmt) args =
     (if k = 108 then
        (case fmt of [] \<Rightarrow> None
         | k # fmt \<Rightarrow>
           if k = 117 then do { (v, args) \<leftarrow> va_arg64 args; Some (put_unsigned64 v, fmt, args) }
           else if k = 100 then do { (v, args) \<leftarrow> va_arg64 args; Some (put_signed64 v, fmt, args) }
           else Some ([], fmt, args))
      else if k = 117 then do { (v, args) \<leftarrow> va_arg32 args; out \<leftarrow> put_unsigned v; Some (out, fmt, args) }
      else if k = 100 then do { (v, args) \<leftarrow> va_arg32 args; out \<leftarrow> put_signed v; Some (out, fmt, args) }
      else Some ([], fmt, args))"

text \<open>The conversions after ``%''; the end of the format is treated by the caller.\<close>

fun printf_conv :: "u8 list \<Rightarrow> va_arg list \<Rightarrow> (u8 list \<times> u8 list \<times> va_arg list) option" where
  "printf_conv [] args = None"
| "printf_conv (k # fmt) args =
     (if k = 37 then Some ([37], fmt, args)
      else if k = 115 then do { (s, args) \<leftarrow> va_arg_str args; out \<leftarrow> put_str s; Some (out, fmt, args) }
      else if k = 100 then do { (v, args) \<leftarrow> va_arg32 args; out \<leftarrow> put_signed v; Some (out, fmt, args) }
      else if k = 120 then do { (v, args) \<leftarrow> va_arg32 args; Some (put_hex v, fmt, args) }
      else if k = 117 then do { (v, args) \<leftarrow> va_arg32 args; out \<leftarrow> put_unsigned v; Some (out, fmt, args) }
      else if k = 108 then printf_long fmt args
      else if k = 112 then do { (v, args) \<leftarrow> va_arg32 args; Some ([48, 120] @ put_hex v, fmt, args) }
      else Some ([], fmt, args))"

lemma printf_long_length: "printf_long fmt args = Some (out, fmt', args') \<Longrightarrow> length fmt' < length fmt"
  by (cases "(fmt, args)" rule: printf_long.cases) (auto simp: bind_eq_Some_conv split: if_splits list.splits)

lemma printf_conv_length: "printf_conv fmt args = Some (out, fmt', args') \<Longrightarrow> length fmt' < length fmt"
  by (cases "(fmt, args)" rule: printf_conv.cases)
    (auto simp: bind_eq_Some_conv split: if_splits dest: printf_long_length)

function printf :: "u8 list \<Rightarrow> va_arg list \<Rightarrow> u8 list option" where
  "printf fmt args =
     (case fmt of [] \<Rightarrow> None
      | c # fmt \<Rightarrow>
        if c = 0 then Some []
        else if c = 37 then
          (case fmt of [] \<Rightarrow> None
           | k # _ \<Rightarrow> if k = 0 then Some [37]
             else (case printf_conv fmt args of None \<Rightarrow> None
               | Some (out, fmt, args) \<Rightarrow> map_option (\<lambda>rest. out @ rest) (printf fmt args)))
        else map_option (Cons c) (printf fmt args))"
  by pat_completeness auto
termination
  by (relation "measure (\<lambda>(fmt, args). length fmt)") (auto simp del: printf_conv.simps dest!: printf_conv_length)

declare printf.simps [simp del]

text \<open>A string literal.\<close>

definition cstr :: "string \<Rightarrow> u8 list" where
  "cstr s = map of_char s @ [0]"

text \<open>The stub of \<open>snprintf\<close> in src/kernel.c.\<close>

definition snprintf :: "u8 list \<Rightarrow> u32 \<Rightarrow> u8 list \<Rightarrow> (int \<times> u8 list) option" where
  "snprintf str sz format = do {
     str \<leftarrow> strcpy str (cstr ''Basic snprintf implementation'');
     n \<leftarrow> strlen str;
     Some (n, str) }"

section \<open>memset\<close>

function memset_loop :: "u32 \<Rightarrow> u8 \<Rightarrow> u32 \<Rightarrow> bytes \<Rightarrow> bytes" where
  "memset_loop p c n m = (if n \<noteq> 0 then memset_loop (p + 1) c (n - 1) (m(p := c)) else m)"
  by pat_completeness auto
termination by (relation "measure (\<lambda>(p, c, n, m). unat n)") (auto simp: measure_unat)

declare memset_loop.simps [simp del]

definition memset :: "u32 \<Rightarrow> int \<Rightarrow> u32 \<Rightarrow> bytes \<Rightarrow> u32 \<times> bytes" where
  "memset s c n m = (s, memset_loop s (word_of_int c) n m)"

section \<open>Reference numerals\<close>

fun dec :: "nat \<Rightarrow> u8 list" where
  "dec n = (if n < 10 then [48 + of_nat n] else dec (n div 10) @ [48 + of_nat (n mod 10)])"

declare dec.simps [simp del]

definition dec_int :: "int \<Rightarrow> u8 list" where
  "dec_int i = (if i < 0 then 45 # dec (nat (- i)) else dec (nat i))"

text \<open>The last \<open>k\<close> decimal digits.\<close>

fun digits :: "nat \<Rightarrow> nat \<Rightarrow> u8 list" where
  "digits 0 n = []"
| "digits (Suc k) n = digits k (n div 10) @ [48 + of_nat (n mod 10)]"

fun hex :: "nat \<Rightarrow> nat \<Rightarrow> u8 list" where
  "hex 0 n = []"
| "hex (Suc k) n = hex k (n div 16) @ [if n mod 16 < 10 then 48 + of_nat (n mod 16) else 87 + of_nat (n mod 16)]"

lemma digits_first: "n < 10 ^ Suc k \<Longrightarrow> digits (Suc k) n = (48 + of_nat (n div 10 ^ k)) # digits k (n mod 10 ^ k)"
proof (induction k arbitrary: n)
  case (Suc k)
  have "digits (Suc (Suc k)) n = digits (Suc k) (n div 10) @ [48 + of_nat (n mod 10)]" by simp
  also have "\<dots> = ((48 + of_nat (n div 10 div 10 ^ k)) # digits k (n div 10 mod 10 ^ k)) @ [48 + of_nat (n mod 10)]"
    using Suc by (subst Suc.IH) auto
  also have "n div 10 mod 10 ^ k = n mod 10 ^ Suc k div 10" by (simp add: mod_mult2_eq)
  also have "n mod 10 = n mod 10 ^ Suc k mod 10" by (simp add: mod_mult2_eq)
  also have "n div 10 div 10 ^ k = n div 10 ^ Suc k" by (simp add: div_mult2_eq)
  finally show ?case by simp
qed simp

lemma dec_digits: "n < 10 ^ Suc k \<Longrightarrow> k = 0 \<or> 10 ^ k \<le> n \<Longrightarrow> dec n = digits (Suc k) n"
proof (induction k arbitrary: n)
  case (Suc k)
  have "10 \<le> n" using Suc.prems by (auto intro: order_trans [rotated] simp: one_le_power)
  moreover have "n div 10 < 10 ^ Suc k" using Suc.prems by auto
  moreover have "k = 0 \<or> 10 ^ k \<le> n div 10" using Suc.prems by (auto simp: less_eq_div_iff_mult_less_eq mult.commute)
  ultimately show ?case using Suc.IH [of "n div 10"] by (subst dec.simps) auto
qed (simp add: dec.simps)

section \<open>Decimal numbers\<close>

lemma unat_pow10: "k \<le> 9 \<Longrightarrow> unat (10 ^ k :: u32) = 10 ^ k"
proof -
  assume k: "k \<le> 9"
  have "(10 :: nat) ^ k \<le> 10 ^ 9" using k by (intro power_increasing) auto
  then have "unat (of_nat (10 ^ k) :: u32) = 10 ^ k" by (simp add: unsigned_of_nat take_bit_nat_eq_self del: of_nat_power)
  then show ?thesis by simp
qed

lemma unat_lt_pow10: "unat (v :: u32) < 10 ^ 10"
  using unsigned_less [of v, where ?'a = nat] by simp

lemma find_divisor_ok:
  "j \<le> 9 \<Longrightarrow> j = 0 \<or> 10 ^ j \<le> unat v \<Longrightarrow>
   \<exists>k \<le> 9. find_divisor v (10 ^ j) = Some (10 ^ k) \<and> unat v < 10 ^ Suc k \<and> (k = 0 \<or> 10 ^ k \<le> unat v)"
proof (induction "9 - j" arbitrary: j rule: less_induct)
  case less
  have nz: "(10 :: u32) ^ j \<noteq> 0" using unat_pow10 [OF less.prems(1)] by auto
  have test: "9 < v div 10 ^ j \<longleftrightarrow> 10 ^ Suc j \<le> unat v"
    using unat_pow10 [OF less.prems(1)] by (simp add: word_less_nat_alt unat_div less_eq_div_iff_mult_less_eq Suc_le_eq [symmetric])
  show ?case
  proof (cases "10 ^ Suc j \<le> unat v")
    case True
    then have "10 ^ Suc j < (10 :: nat) ^ 10" using unat_lt_pow10 [of v] by simp
    then have "Suc j \<le> 9" by (simp only: power_strict_increasing_iff)
    moreover have "find_divisor v (10 ^ j) = find_divisor v (10 ^ Suc j)"
      using nz True test by (subst find_divisor.simps) (simp add: mult.commute)
    ultimately show ?thesis using less.hyps [of "Suc j"] True by auto
  next
    case False
    then have "find_divisor v (10 ^ j) = Some (10 ^ j)" using nz test by (subst find_divisor.simps) simp
    then show ?thesis using False less.prems by auto
  qed
qed

lemma unat_digit: "unat (48 + of_nat n :: u8) = (48 + n) mod 256"
  by (simp add: unat_word_ariths unsigned_of_nat take_bit_eq_mod mod_simps)

lemma ucast_digit: "(ucast (48 + x :: u32) :: u8) = 48 + of_nat (unat x)" "(ucast (48 + y :: u64) :: u8) = 48 + of_nat (unat y)"
  unfolding word_unat_eq_iff unat_digit
  by (simp_all add: unsigned_ucast_eq unat_word_ariths take_bit_eq_mod mod_mod_cancel)

lemma put_digits_ok: "k \<le> 9 \<Longrightarrow> unat v < 10 ^ Suc k \<Longrightarrow> put_digits v (10 ^ k) = digits (Suc k) (unat v)"
proof (induction k arbitrary: v)
  case 0
  have "put_digits 0 0 = []" by (simp add: put_digits.simps)
  then show ?case using 0 by (subst put_digits.simps) (simp add: ucast_digit)
next
  case (Suc k)
  have u: "unat (10 ^ Suc k :: u32) = 10 ^ Suc k" "unat (10 ^ k :: u32) = 10 ^ k" by (rule unat_pow10; use Suc.prems(1) in simp)+
  have d: "(10 ^ Suc k :: u32) div 10 = 10 ^ k" by (rule word_unat_eq_iff [THEN iffD2]) (simp only: unat_div u, simp)
  have pos: "(0 :: u32) < 10 ^ Suc k" using u(1) by (simp add: word_less_nat_alt del: power_Suc)
  have "put_digits v (10 ^ Suc k) = ucast (48 + v div 10 ^ Suc k) # put_digits (v mod 10 ^ Suc k) (10 ^ k)"
    using pos d by (subst put_digits.simps) (simp del: power_Suc)
  also have "\<dots> = (48 + of_nat (unat v div 10 ^ Suc k)) # digits (Suc k) (unat v mod 10 ^ Suc k)"
    using Suc.IH [of "v mod 10 ^ Suc k"] Suc.prems u by (simp add: ucast_digit unat_div unat_mod del: power_Suc digits.simps)
  also have "\<dots> = digits (Suc (Suc k)) (unat v)" using digits_first [OF Suc.prems(2)] by simp
  finally show ?case .
qed

lemma put_unsigned_ok: "put_unsigned v = Some (dec (unat v))"
proof -
  obtain k where k: "k \<le> 9" "find_divisor v 1 = Some (10 ^ k)" "unat v < 10 ^ Suc k" "k = 0 \<or> 10 ^ k \<le> unat v"
    using find_divisor_ok [of 0 v] by auto
  then show ?thesis using put_digits_ok [OF k(1,3)] dec_digits [OF k(3,4)] by (simp add: put_unsigned_def)
qed

lemma uint_small: "0 \<le> k \<Longrightarrow> k < 2 ^ LENGTH('a) \<Longrightarrow> uint (word_of_int k :: 'a::len word) = k"
  by (simp add: unsigned_of_int take_bit_int_eq_self)

lemma unat_minus_sint: "sint v < 0 \<Longrightarrow> unat (- v) = nat (- sint (v :: 'a::len word))"
proof -
  assume neg: "sint v < 0"
  have "- sint v \<le> 2 ^ (LENGTH('a) - 1)" using sint_greater_eq [of v] by simp
  also have "\<dots> < 2 ^ LENGTH('a)" by simp
  finally have "uint (word_of_int (- sint v) :: 'a word) = - sint v" using neg by (intro uint_small) simp_all
  moreover have "word_of_int (- sint v) = - v" by simp
  ultimately show ?thesis by (metis unat_eq_nat_uint)
qed

lemma unat_sint_nonneg: "\<not> sint v < 0 \<Longrightarrow> unat v = nat (sint (v :: 'a::len word))"
proof -
  assume "\<not> sint v < 0"
  moreover have "sint v < 2 ^ LENGTH('a)" using sint_less [of v] by (rule less_le_trans) simp
  ultimately have "uint (word_of_int (sint v) :: 'a word) = sint v" by (intro uint_small) simp_all
  then show ?thesis by (simp add: unat_eq_nat_uint)
qed

lemma put_signed_ok: "put_signed v = Some (dec_int (sint v))"
  by (auto simp: put_signed_def put_unsigned_ok dec_int_def unat_minus_sint unat_sint_nonneg)

lemma fill_buf_ok: "0 < unat v \<Longrightarrow> unat v < 10 ^ (31 - pos) \<Longrightarrow> rev (fill_buf v pos) = dec (unat v)"
proof (induction v pos rule: fill_buf.induct)
  case (1 v pos)
  have pos: "pos < 31" using 1(2,3) by (cases "pos < 31") auto
  have v: "0 < v" using 1(2) by (simp add: word_less_nat_alt)
  have step: "rev (fill_buf v pos) = rev (fill_buf (v div 10) (pos + 1)) @ [48 + of_nat (unat v mod 10)]"
    using v pos by (subst fill_buf.simps) (simp add: ucast_digit unat_mod)
  show ?case
  proof (cases "unat v < 10")
    case True
    then have "v div 10 = 0" by (simp add: word_unat_eq_iff unat_div)
    then have "fill_buf (v div 10) (pos + 1) = []" by (simp add: fill_buf.simps)
    then show ?thesis using step True by (simp add: dec.simps)
  next
    case False
    have "31 - pos = Suc (31 - (pos + 1))" using pos by simp
    then have "unat v div 10 < 10 ^ (31 - (pos + 1))" using 1(3) by auto
    then have "rev (fill_buf (v div 10) (pos + 1)) = dec (unat v div 10)"
      using 1(1) [OF conjI [OF v pos]] False by (simp add: unat_div div_greater_zero_iff)
    then show ?thesis unfolding step using False by (simp add: dec.simps [of "unat v"])
  qed
qed

lemma put_unsigned64_ok: "put_unsigned64 v = dec (unat v)"
proof (cases "v = 0")
  case False
  then have "0 < unat v" by (simp add: unat_gt_0)
  moreover have "unat v < 10 ^ 31" using unsigned_less [of v, where ?'a = nat] by simp
  ultimately show ?thesis using False fill_buf_ok [of v 0] by (simp add: put_unsigned64_def)
qed (simp add: put_unsigned64_def dec.simps)

lemma put_signed64_ok: "put_signed64 v = dec_int (sint v)"
  by (auto simp: put_signed64_def put_unsigned64_ok dec_int_def unat_minus_sint unat_sint_nonneg)

section \<open>Hexadecimal numbers and strings\<close>

lemma hex_char_ok: "n < 16 \<Longrightarrow> hex_char (of_nat n) = (if n < 10 then 48 + of_nat n else 87 + of_nat n)"
proof -
  have "\<forall>n < 16. hex_char (of_nat n) = (if n < 10 then 48 + of_nat n else 87 + of_nat n)" by code_simp
  then show "n < 16 \<Longrightarrow> ?thesis" by blast
qed

lemma hex_map: "hex k n = map (\<lambda>i. if n div 16 ^ i mod 16 < 10 then 48 + of_nat (n div 16 ^ i mod 16) else 87 + of_nat (n div 16 ^ i mod 16)) (rev [0..<k])"
proof (induction k arbitrary: n)
  case (Suc k)
  have "[0..<Suc k] = 0 # map Suc [0..<k]" by (simp add: map_Suc_upt upt_conv_Cons del: upt_Suc)
  then have "rev [0..<Suc k] = map Suc (rev [0..<k]) @ [0]" by (simp only: rev.simps rev_map)
  then show ?case using Suc.IH [of "n div 16"] by (simp add: div_mult2_eq comp_def del: upt_Suc)
qed simp

lemma hex_numeral: "hex (numeral k) n = hex (pred_numeral k) (n div 16) @
    [if n mod 16 < 10 then 48 + of_nat (n mod 16) else 87 + of_nat (n mod 16)]"
  unfolding numeral_eq_Suc [of k] by (rule hex.simps(2))

lemma nibble_ok: "drop_bit (i * 4) v AND 0xf = (of_nat (unat v div 16 ^ i mod 16) :: u32)"
proof -
  have "drop_bit (i * 4) v AND 0xf = take_bit 4 (drop_bit (i * 4) v)" by (simp add: take_bit_eq_mask mask_eq_exp_minus_1)
  moreover have "unat (take_bit 4 (drop_bit (i * 4) v)) = unat v div 16 ^ i mod 16"
  proof -
    have "take_bit 32 (unat v) = unat v" by (rule take_bit_nat_eq_self) (use unsigned_less [of v, where ?'a = nat] in simp)
    then have "unat (take_bit 4 (drop_bit (i * 4) v)) = take_bit 4 (drop_bit (i * 4) (unat v))"
      by (simp only: unsigned_take_bit_eq unsigned_drop_bit_eq) simp
    also have "\<dots> = unat v div (2 ^ 4) ^ i mod 2 ^ 4"
      by (simp only: take_bit_eq_mod drop_bit_eq_div power_mult [symmetric] mult.commute)
    finally show ?thesis by simp
  qed
  ultimately show ?thesis by (metis of_nat_unat ucast_id)
qed

lemma put_hex_ok: "put_hex v = hex 8 (unat v)"
proof -
  have "[7, 6, 5, 4, 3, 2, 1, 0] = rev [0..<8]" by code_simp
  then show ?thesis unfolding put_hex_def hex_map nibble_ok by (simp add: hex_char_ok del: upt.simps)
qed

lemma put_str_ok: "put_str s = (if str_ok s then Some (str_val s) else None)"
  by (induction s) auto

section \<open>Formats as lists of conversions\<close>

datatype conv = Lit u8 | Percent | Str | Dec | Uns | Hex | LongDec | LongUns | LLongDec | LLongUns | Pointer | Unknown u8

fun spec :: "conv \<Rightarrow> u8 list" where
  "spec (Lit c) = [c]"
| "spec Percent = [37, 37]"
| "spec Str = [37, 115]"
| "spec Dec = [37, 100]"
| "spec Uns = [37, 117]"
| "spec Hex = [37, 120]"
| "spec LongDec = [37, 108, 100]"
| "spec LongUns = [37, 108, 117]"
| "spec LLongDec = [37, 108, 108, 100]"
| "spec LLongUns = [37, 108, 108, 117]"
| "spec Pointer = [37, 112]"
| "spec (Unknown c) = [37, c]"

fun conv_ok :: "conv \<Rightarrow> bool" where
  "conv_ok (Lit c) \<longleftrightarrow> c \<noteq> 0 \<and> c \<noteq> 37"
| "conv_ok (Unknown c) \<longleftrightarrow> c \<notin> {0, 37, 115, 100, 120, 117, 108, 112}"
| "conv_ok _ \<longleftrightarrow> True"

text \<open>The text of one conversion, and the arguments after it.\<close>

fun render1 :: "conv \<Rightarrow> va_arg list \<Rightarrow> (u8 list \<times> va_arg list) option" where
  "render1 (Lit c) args = Some ([c], args)"
| "render1 Percent args = Some ([37], args)"
| "render1 Str (VaStr s # args) = (if str_ok s then Some (str_val s, args) else None)"
| "render1 Dec (Va32 v # args) = Some (dec_int (sint v), args)"
| "render1 Uns (Va32 v # args) = Some (dec (unat v), args)"
| "render1 Hex (Va32 v # args) = Some (hex 8 (unat v), args)"
| "render1 LongDec (Va32 v # args) = Some (dec_int (sint v), args)"
| "render1 LongUns (Va32 v # args) = Some (dec (unat v), args)"
| "render1 LLongDec (Va64 v # args) = Some (dec_int (sint v), args)"
| "render1 LLongUns (Va64 v # args) = Some (dec (unat v), args)"
| "render1 Pointer (Va32 v # args) = Some (48 # 120 # hex 8 (unat v), args)"
| "render1 (Unknown c) args = Some ([], args)"
| "render1 _ _ = None"

fun render :: "conv list \<Rightarrow> va_arg list \<Rightarrow> u8 list option" where
  "render [] args = Some []"
| "render (c # cs) args = do { (out, args) \<leftarrow> render1 c args; rest \<leftarrow> render cs args; Some (out @ rest) }"

lemma va_arg_simps:
  "va_arg32 args = (case args of Va32 v # as \<Rightarrow> Some (v, as) | _ \<Rightarrow> None)"
  "va_arg64 args = (case args of Va64 v # as \<Rightarrow> Some (v, as) | _ \<Rightarrow> None)"
  "va_arg_str args = (case args of VaStr v # as \<Rightarrow> Some (v, as) | _ \<Rightarrow> None)"
  by (auto split: list.split va_arg.split)

lemma printf_nul: "printf (0 # fmt) args = Some []"
  by (simp add: printf.simps)

lemma printf_lit: "c \<noteq> 0 \<Longrightarrow> c \<noteq> 37 \<Longrightarrow> printf (c # fmt) args = do { rest \<leftarrow> printf fmt args; Some (c # rest) }"
  by (subst printf.simps) (cases "printf fmt args"; simp)

lemma printf_percent: "k \<noteq> 0 \<Longrightarrow> printf (37 # k # fmt) args =
    do { (out, fmt, args) \<leftarrow> printf_conv (k # fmt) args; rest \<leftarrow> printf fmt args; Some (out @ rest) }"
  by (subst printf.simps) (auto split: option.split bind_split simp del: printf_conv.simps)

lemmas put_ok = put_unsigned_ok put_signed_ok put_unsigned64_ok put_signed64_ok put_hex_ok put_str_ok

lemma printf_spec:
  assumes "conv_ok c"
  shows "printf (spec c @ fmt) args = do { (out, args) \<leftarrow> render1 c args; rest \<leftarrow> printf fmt args; Some (out @ rest) }"
  using assms by (cases "(c, args)" rule: render1.cases)
    (auto simp: printf_lit printf_percent put_ok va_arg_simps split: list.split va_arg.split)

lemma printf_render: "list_all conv_ok cs \<Longrightarrow> printf (concat (map spec cs) @ 0 # rest) args = render cs args"
  by (induction cs arbitrary: args) (simp_all add: printf_nul printf_spec)

lemma memset_write: "memset_loop p c n m = write_bytes p (replicate (unat n) c) m"
proof (induction p c n m rule: memset_loop.induct)
  case (1 p c n m)
  show ?case
  proof (cases "n = 0")
    case False
    then have "unat (n - 1) = unat n - 1" "0 < unat n" by (rule unat_minus_one) (simp add: False unat_gt_0)
    then have "unat n = Suc (unat (n - 1))" by linarith
    then show ?thesis using 1 [OF False] False by (subst memset_loop.simps) (simp add: fun_upd_def)
  qed (simp add: memset_loop.simps)
qed

section \<open>Properties\<close>

text \<open>C19: for every format made of literal characters and of the conversions that \<open>printf\<close> knows (an unknown one prints
  nothing), \<open>printf\<close> terminates and prints the concatenation of the texts of the conversions: strings up to their terminator,
  signed and unsigned numbers of 32 and 64 bits as their decimal numerals without leading zeros, INT_MIN and
  LLONG_MIN included, and eight hexadecimal digits.  It is undefined exactly if an argument is missing,
  of another type or an unterminated string.\<close>

theorem printf_correct:
  assumes "list_all conv_ok cs"
  shows "printf (concat (map spec cs) @ 0 # rest) args = render cs args"
  by (rule printf_render [OF assms])

theorem printf_correct_witness:
  "printf (concat (map spec [Lit 61, Dec, Lit 32, Hex, LLongUns]) @ [0]) [Va32 (- 42), Va32 0xBEEF, Va64 7] =
     Some ([61, 45, 52, 50, 32, 48, 48, 48, 48, 98, 101, 101, 102, 55])"
proof -
  have "hex 8 48879 = [48, 48, 48, 48, 98, 101, 101, 102]" "dec_int (- 42) = [45, 52, 50]" "dec 7 = [55]"
    by (simp_all add: hex_numeral dec_int_def dec.simps)
  moreover have "sint (- 42 :: u32) = - 42" by code_simp
  ultimately show ?thesis
    using printf_correct [of "[Lit 61, Dec, Lit 32, Hex, LLongUns]" "[]" "[Va32 (- 42), Va32 0xBEEF, Va64 7]"] by simp
qed

text \<open>A format that ends in ``%l'' or ``%ll'' makes \<open>printf\<close> step over its terminator: what it prints and
  whether it stops depend on the bytes behind the string, and it is undefined if the object ends there; a format that ends
  in ``%'' prints the sign and stops.\<close>

theorem printf_long_overrun:
  "printf [37, 108, 0] args = None \<and> printf [37, 108, 108, 0] args = None \<and>
   printf ([37, 108, 0] @ fmt) args = printf fmt args \<and> printf ([37, 108, 108, 0] @ fmt) args = printf fmt args \<and>
   printf ([37, 0] @ fmt) args = Some [37]"
proof -
  have "printf [] args = None" by (simp add: printf.simps)
  then show ?thesis by (simp add: printf_percent) (simp add: printf.simps)
qed

text \<open>\<open>memset\<close> fills exactly the \<open>n\<close> bytes from \<open>s\<close> on with the low byte of \<open>c\<close> and returns \<open>s\<close>.\<close>

theorem memset_correct:
  assumes "unat s + unat n \<le> 2 ^ 32"
  shows "memset s c n m = (s, \<lambda>x. if unat s \<le> unat x \<and> unat x < unat s + unat n then word_of_int c else m x)"
  using write_bytes_at [of s "replicate (unat n) (word_of_int c)" m] assms
  by (auto simp: memset_def memset_write fun_eq_iff)

text \<open>\<open>snprintf\<close> ignores the size and the format: it stores a fixed text of 30 bytes, past the end of any
  shorter buffer.\<close>

theorem snprintf_ignores_size:
  "snprintf str sz format =
     (if 30 \<le> length str then Some (29, cstr ''Basic snprintf implementation'' @ drop 30 str) else None)"
proof -
  let ?t = "cstr ''Basic snprintf implementation''"
  have t: "str_ok ?t" "str_val ?t = butlast ?t" "length (butlast ?t) = 29" "?t = butlast ?t @ [0]" by (simp_all add: cstr_def)
  then have c: "strcpy str ?t = (if 30 \<le> length str then Some (?t @ drop 30 str) else None)"
    using strcpy_ok [OF t(1), of str] by simp
  have "str_val (?t @ drop 30 str) = butlast ?t"
    using str_val_append [of "butlast ?t" "drop 30 str"] t str_val_no_nul [of ?t] by (metis append.assoc append_Cons append_Nil)
  then have "strlen (?t @ drop 30 str) = Some 29" using strlen_ok [of "?t @ drop 30 str"] t by simp
  then show ?thesis by (simp add: snprintf_def c)
qed

end
