(* ===== verification/Trap.thy ===== *)
theory Trap
  imports Printf Uart
begin

text \<open>
  The page allocator and the trap handler of src/kernel.c.  \<open>PANIC\<close> prints a message and loops for ever: the outcome of
  a function that can panic is \<open>Panic\<close> or its result.  The linker's symbols \<open>__free_ram\<close> and \<open>__free_ram_end\<close>
  and the control registers are arguments.
\<close>

section \<open>Panics\<close>

datatype 'a outcome = Ret 'a | Panic

section \<open>Pages\<close>

abbreviation (input) "PAGE_SIZE \<equiv> (4096 :: u32)"

text \<open>The static variable of \<open>alloc_pages\<close> and the memory.\<close>

record page_state =
  next_paddr :: u32
  ram :: bytes

definition alloc_pages :: "u32 \<Rightarrow> u32 \<Rightarrow> page_state \<Rightarrow> (u32 \<times> page_state) outcome" where
  "alloc_pages free_ram_end n s = (
     let paddr = next_paddr s;
         s = s\<lparr>next_paddr := next_paddr s + n * PAGE_SIZE\<rparr> in
     if next_paddr s > free_ram_end then Panic
     else let (_, m) = memset paddr 0 (n * PAGE_SIZE) (ram s) in Ret (paddr, s\<lparr>ram := m\<rparr>))"

section \<open>Traps\<close>

text \<open>The registers that \<open>handle_trap\<close> reads and writes, the device and the input buffer.\<close>

record 'w trap_state =
  scause :: u32
  stval :: u32
  sepc :: u32
  trap_world :: 'w
  trap_input :: input_buffer

abbreviation (input) "SCAUSE_ECALL \<equiv> (8 :: u32)"
abbreviation (input) "SCAUSE_INTERRUPT \<equiv> (0x80000000 :: u32)"
abbreviation (input) "SCAUSE_EXTERNAL_INTERRUPT \<equiv> (9 :: u32)"

definition handle_syscall :: "'w trap_state \<Rightarrow> 'w trap_state" where
  "handle_syscall s = s"

definition handle_trap :: "'w uart_dev \<Rightarrow> 'w trap_state \<Rightarrow> 'w trap_state outcome option" where
  "handle_trap d s = (
     let user_pc = sepc s in
     if scause s AND SCAUSE_INTERRUPT \<noteq> 0 then
       if scause s AND 0x7FFFFFFF = SCAUSE_EXTERNAL_INTERRUPT then do {
         (w, b) \<leftarrow> handle_uart_interrupt d (trap_world s, trap_input s);
         let s = s\<lparr>trap_world := w, trap_input := b\<rparr>;
         Some (Ret (s\<lparr>sepc := user_pc\<rparr>)) }
       else Some Panic
     else if scause s = SCAUSE_ECALL then
       let s = handle_syscall s; user_pc = user_pc + 4 in Some (Ret (s\<lparr>sepc := user_pc\<rparr>))
     else Some Panic)"

section \<open>Runs of the page allocator\<close>

text \<open>Consecutive allocations; the list of the regions that were returned, with their sizes in pages.\<close>

fun alloc_run :: "u32 \<Rightarrow> u32 list \<Rightarrow> page_state \<Rightarrow> ((u32 \<times> u32) list \<times> page_state) outcome" where
  "alloc_run e [] s = Ret ([], s)"
| "alloc_run e (n # ns) s =
     (case alloc_pages e n s of Panic \<Rightarrow> Panic
      | Ret (p, s) \<Rightarrow> (case alloc_run e ns s of Panic \<Rightarrow> Panic | Ret (ps, s) \<Rightarrow> Ret ((p, n) # ps, s)))"

text \<open>A region lies in the memory between two addresses.\<close>

definition region_in :: "nat \<Rightarrow> nat \<Rightarrow> u32 \<times> u32 \<Rightarrow> bool" where
  "region_in a e r \<longleftrightarrow> a \<le> unat (fst r) \<and> unat (fst r) + unat (snd r) * 4096 \<le> e"

lemma unat_pages: "unat n < 2 ^ 20 \<Longrightarrow> unat (n * PAGE_SIZE) = unat n * 4096"
  by (simp add: unat_word_ariths)

lemma alloc_pages_ok:
  assumes n: "unat n * 4096 + unat (next_paddr s) < 2 ^ 32"
  shows "alloc_pages e n s = (if unat (next_paddr s) + unat n * 4096 \<le> unat e
    then Ret (next_paddr s, \<lparr>next_paddr = next_paddr s + n * PAGE_SIZE,
      ram = (\<lambda>x. if unat (next_paddr s) \<le> unat x \<and> unat x < unat (next_paddr s) + unat n * 4096 then 0 else ram s x),
      \<dots> = page_state.more s\<rparr>)
    else Panic)"
proof -
  have u: "unat (n * PAGE_SIZE) = unat n * 4096" using n by (intro unat_pages) simp
  then have "unat (next_paddr s + n * PAGE_SIZE) = unat (next_paddr s) + unat n * 4096"
    using n by (simp add: unat_word_ariths)
  moreover have "unat (next_paddr s) + unat (n * PAGE_SIZE) \<le> 2 ^ 32" using n u by simp
  note memset_correct [OF this]
  ultimately show ?thesis unfolding alloc_pages_def
    using u by (cases s) (simp add: word_less_nat_alt not_le [symmetric] fun_eq_iff)
qed

text \<open>All bytes of a list of regions are zero.\<close>

definition cleared :: "bytes \<Rightarrow> (u32 \<times> u32) list \<Rightarrow> bool" where
  "cleared m rs \<longleftrightarrow> (\<forall>(p, n) \<in> set rs. \<forall>x. unat p \<le> unat x \<and> unat x < unat p + unat n * 4096 \<longrightarrow> m x = 0)"

lemma alloc_run_ok:
  assumes "unat (next_paddr s) \<le> unat e" "\<forall>n \<in> set ns. unat e + unat n * 4096 < 2 ^ 32"
  shows "case alloc_run e ns s of Panic \<Rightarrow> unat e < unat (next_paddr s) + (\<Sum>n\<leftarrow>ns. unat n * 4096)
    | Ret (rs, s') \<Rightarrow> map snd rs = ns \<and> unat (next_paddr s') = unat (next_paddr s) + (\<Sum>n\<leftarrow>ns. unat n * 4096) \<and>
        list_all (region_in (unat (next_paddr s)) (unat e)) rs \<and> unat (next_paddr s') \<le> unat e \<and>
        sorted_wrt (\<lambda>r q. unat (fst r) + unat (snd r) * 4096 \<le> unat (fst q)) rs \<and> cleared (ram s') rs \<and>
        (\<forall>x. ram s x = 0 \<longrightarrow> ram s' x = 0)"
  using assms
proof (induction e ns s rule: alloc_run.induct)
  case (2 e n ns s)
  have n: "unat n * 4096 + unat (next_paddr s) < 2 ^ 32" using 2(2,3) by (auto dest: bspec [where x = n])
  show ?case
  proof (cases "unat (next_paddr s) + unat n * 4096 \<le> unat e")
    case False
    then show ?thesis using alloc_pages_ok [OF n, of e] by simp
  next
    case True
    let ?m = "\<lambda>x. if unat (next_paddr s) \<le> unat x \<and> unat x < unat (next_paddr s) + unat n * 4096 then 0 else ram s x"
    let ?s = "\<lparr>next_paddr = next_paddr s + n * PAGE_SIZE, ram = ?m, \<dots> = page_state.more s\<rparr>"
    have a: "alloc_pages e n s = Ret (next_paddr s, ?s)" using alloc_pages_ok [OF n, of e] True by simp
    have "unat (n * PAGE_SIZE) = unat n * 4096" using n by (intro unat_pages) simp
    then have u: "unat (next_paddr ?s) = unat (next_paddr s) + unat n * 4096" using n by (simp add: unat_word_ariths)
    have ih: "case alloc_run e ns ?s of Panic \<Rightarrow> unat e < unat (next_paddr ?s) + (\<Sum>n\<leftarrow>ns. unat n * 4096)
      | Ret (rs, s') \<Rightarrow> map snd rs = ns \<and> unat (next_paddr s') = unat (next_paddr ?s) + (\<Sum>n\<leftarrow>ns. unat n * 4096) \<and>
        list_all (region_in (unat (next_paddr ?s)) (unat e)) rs \<and> unat (next_paddr s') \<le> unat e \<and>
        sorted_wrt (\<lambda>r q. unat (fst r) + unat (snd r) * 4096 \<le> unat (fst q)) rs \<and> cleared (ram s') rs \<and>
        (\<forall>x. ram ?s x = 0 \<longrightarrow> ram s' x = 0)"
      by (rule 2(1) [OF a refl]) (use True u 2(3) in simp_all)
    show ?thesis
    proof (cases "alloc_run e ns ?s")
      case Panic
      then show ?thesis using a ih u by simp
    next
      case (Ret r)
      obtain rs s' where r: "r = (rs, s')" by (cases r)
      have "list_all (region_in (unat (next_paddr s)) (unat e)) rs"
        using ih Ret r u by (auto simp: list_all_iff region_in_def)
      moreover have "cleared (ram s') ((next_paddr s, n) # rs)" using ih Ret r by (auto simp: cleared_def)
      moreover have "\<forall>q \<in> set rs. unat (next_paddr s) + unat n * 4096 \<le> unat (fst q)"
        using ih Ret r u by (auto simp: list_all_iff region_in_def)
      ultimately show ?thesis using a ih Ret r u True by (auto simp: region_in_def)
    qed
  qed
qed (simp add: cleared_def)

section \<open>Properties\<close>

text \<open>C24: as long as no request is so large that the address computation could wrap, a run of \<open>alloc_pages\<close> either
  returns regions of the requested sizes that lie between the start and the end of the free memory, one
  behind the other without overlap and with every byte zero, or panics because the requests exceed that memory.\<close>

theorem alloc_pages_correct:
  assumes "unat (next_paddr s) \<le> unat e" "\<forall>n \<in> set ns. unat e + unat n * 4096 < 2 ^ 32"
  shows "if unat (next_paddr s) + (\<Sum>n\<leftarrow>ns. unat n * 4096) \<le> unat e
    then \<exists>rs s'. alloc_run e ns s = Ret (rs, s') \<and> map snd rs = ns \<and> list_all (region_in (unat (next_paddr s)) (unat e)) rs \<and>
      sorted_wrt (\<lambda>r q. unat (fst r) + unat (snd r) * 4096 \<le> unat (fst q)) rs \<and> cleared (ram s') rs
    else alloc_run e ns s = Panic"
  using alloc_run_ok [OF assms] by (auto split: outcome.splits)

theorem alloc_pages_correct_witness:
  "\<exists>rs s'. alloc_run 0x84000000 [1, 2] \<lparr>next_paddr = 0x80200000, ram = (\<lambda>_. 7)\<rparr> = Ret (rs, s') \<and> map snd rs = [1, 2] \<and> cleared (ram s') rs"
  using alloc_pages_correct [of "\<lparr>next_paddr = 0x80200000, ram = (\<lambda>_. 7)\<rparr>" "0x84000000" "[1, 2]"] by auto

text \<open>The size is computed in 32 bits: a request for 2^20 pages (4 GB) succeeds wherever a request for nothing
  does, reserves nothing and returns the address that the next request returns again.\<close>

theorem alloc_pages_wraps:
  assumes "next_paddr s \<le> e"
  shows "alloc_pages e 0x100000 s = Ret (next_paddr s, s)"
proof -
  have z: "(0x100000 :: u32) * PAGE_SIZE = 0" by simp
  show ?thesis unfolding alloc_pages_def z using assms by (simp add: memset_def memset_write not_less Let_def)
qed

theorem alloc_pages_wraps_witness:
  "alloc_pages 0x84000000 0x100000 \<lparr>next_paddr = 0x80200000, ram = (\<lambda>_. 7)\<rparr> = Ret (0x80200000, \<lparr>next_paddr = 0x80200000, ram = (\<lambda>_. 7)\<rparr>)"
  using alloc_pages_wraps [of "\<lparr>next_paddr = 0x80200000, ram = (\<lambda>_. 7)\<rparr>" "0x84000000"] by simp

lemma interrupt_bit: "(x :: u32) AND 0x80000000 \<noteq> 0 \<longleftrightarrow> 2 ^ 31 \<le> unat x"
proof -
  have "x AND 2 ^ 31 = 0 \<longleftrightarrow> \<not> bit x 31" by (rule and_exp_eq_0_iff_not_bit)
  moreover have "bit x 31 \<longleftrightarrow> odd (unat x div 2 ^ 31)"
    by (simp only: bit_iff_odd [of "unat x", symmetric] bit_unsigned_iff) simp
  moreover have "unat x div 2 ^ 31 < 2" using unsigned_less [of x, where ?'a = nat] by simp
  then have "odd (unat x div 2 ^ 31) \<longleftrightarrow> 2 ^ 31 \<le> unat x" by (auto simp: less_2_cases_iff div_eq_0_iff)
  ultimately show ?thesis by simp
qed

lemma interrupt_type: "(x :: u32) AND 0x7FFFFFFF = 9 \<longleftrightarrow> unat x mod 2 ^ 31 = 9"
proof -
  have "x AND 0x7FFFFFFF = take_bit 31 x" by (simp add: take_bit_eq_mask mask_eq_exp_minus_1)
  then show ?thesis by (simp add: word_unat_eq_iff unat_mod take_bit_eq_mod)
qed

lemma scause_external: "(x :: u32) AND 0x80000000 \<noteq> 0 \<and> x AND 0x7FFFFFFF = 9 \<longleftrightarrow> x = 0x80000009"
proof -
  have "unat x < 2 ^ 32" using unsigned_less [of x, where ?'a = nat] by simp
  then have "2 ^ 31 \<le> unat x \<and> unat x mod 2 ^ 31 = 9 \<longleftrightarrow> unat x = 0x80000009" by (auto simp: le_mod_geq)
  then show ?thesis unfolding interrupt_bit interrupt_type by (simp add: word_unat_eq_iff)
qed

text \<open>the trap handler on every branch: an external interrupt moves a received byte to the input buffer and
  resumes at the interrupted instruction; an environment call resumes behind the call and changes nothing else; any
  other interrupt or exception panics.\<close>

theorem handle_trap_correct:
  assumes "ring xs (trap_input s)" "reg_read d 5 (trap_world s) = (v, w1)" "reg_read d 0 w1 = (c, w2)"
  shows "if scause s = 0x80000009 then
      \<exists>b'. handle_trap d s = Some (Ret (s\<lparr>trap_world := if v AND 1 \<noteq> 0 then w2 else w1, trap_input := b'\<rparr>)) \<and>
        ring (if v AND 1 \<noteq> 0 \<and> length xs < 256 then xs @ [c] else xs) b'
    else if scause s = 8 then handle_trap d s = Some (Ret (s\<lparr>sepc := sepc s + 4\<rparr>))
    else handle_trap d s = Some Panic"
proof -
  have ecall: "handle_trap d s = Some (Ret (s\<lparr>sepc := sepc s + 4\<rparr>))" if "scause s = 8"
    using that by (simp add: handle_trap_def handle_syscall_def Let_def)
  have panic: "handle_trap d s = Some Panic" if "scause s \<noteq> 8" "scause s \<noteq> 0x80000009"
    using that scause_external [of "scause s"] unfolding handle_trap_def Let_def by presburger
  obtain b' where "handle_uart_interrupt d (trap_world s, trap_input s) = Some (if v AND 1 \<noteq> 0 then w2 else w1, b')"
    "ring (if v AND 1 \<noteq> 0 \<and> length xs < 256 then xs @ [c] else xs) b'"
    using uart_interrupt_buffers [OF assms] by blast
  moreover from this(1) have "handle_trap d s = Some (Ret (s\<lparr>trap_world := if v AND 1 \<noteq> 0 then w2 else w1, trap_input := b'\<rparr>))"
    if "scause s = 0x80000009"
    using that scause_external [of "scause s"] by (simp add: handle_trap_def Let_def)
  ultimately have external: "\<exists>b'. handle_trap d s = Some (Ret (s\<lparr>trap_world := if v AND 1 \<noteq> 0 then w2 else w1, trap_input := b'\<rparr>)) \<and>
        ring (if v AND 1 \<noteq> 0 \<and> length xs < 256 then xs @ [c] else xs) b'" if "scause s = 0x80000009"
    using that by blast
  show ?thesis
  proof (cases "scause s = 0x80000009")
    case True
    then show ?thesis using external by (simp only: simp_thms if_True)
  next
    case False
    then show ?thesis using ecall panic by (simp only: simp_thms if_False split: if_split) blast
  qed
qed

theorem handle_trap_correct_witness:
  "\<exists>b'. handle_trap sample_uart \<lparr>scause = 0x80000009, stval = 0, sepc = 4, trap_world = [65, 66],
      trap_input = input_buffer_init \<lparr>buffer = replicate 256 0, write_pos = 0, read_pos = 0, count = 0\<rparr>\<rparr> =
    Some (Ret \<lparr>scause = 0x80000009, stval = 0, sepc = 4, trap_world = [66], trap_input = b'\<rparr>) \<and> ring [65] b'"
proof -
  let ?s = "\<lparr>scause = 0x80000009, stval = 0, sepc = 4, trap_world = [65, 66],
      trap_input = input_buffer_init \<lparr>buffer = replicate 256 0, write_pos = 0, read_pos = 0, count = 0\<rparr>\<rparr>"
  have "ring [] (trap_input ?s)" by (simp add: ring_init)
  from handle_trap_correct [OF this, of sample_uart "0x21" "[65, 66]" 65 "[66]"]
  show ?thesis by (simp add: sample_uart_def)
qed

end
