(* ===== verification/Shell.thy ===== *)
theory Shell
  imports Printf Uart Heap_Room Fs_Props
begin

text \<open>
  The shell of src/kernel.c.  The system state holds the shell's line, the RAM file system with the kernel heap, the
  static token buffer, the firmware with the outside world, and a trace of what has been printed.  The heap strings that the
  shell passes to its commands are read from the bytes of the heap; the firmware and the UART are parameters.
\<close>

section \<open>State\<close>

abbreviation (input) "SHELL_BUFFER_SIZE \<equiv> (256 :: nat)"
abbreviation (input) "MAX_ARGS \<equiv> (10 :: nat)"

record shell_state =
  input_buffer :: "u8 list"
  buffer_pos :: nat
  running :: bool

text \<open>What the firmware does is not part of the kernel: it takes the eight arguments of \<open>sbi_call\<close> (the last two are the function and the
  extension number) and changes the outside world.\<close>

record sbiret =
  sbi_error :: u32
  sbi_value :: u32

type_synonym 'w sbi = "u32 list \<Rightarrow> 'w \<Rightarrow> sbiret \<times> 'w"

record 'w sys =
  shell :: shell_state
  fs :: filesystem
  token_buffer :: "u8 list"
  console :: "u8 list"
  first_time :: bool
  firmware :: "'w sbi"
  world :: 'w

text \<open>\<open>putchar\<close> hands a byte to the firmware; \<open>console\<close> is the trace of these bytes.  A \<open>char\<close> is unsigned on RISC-V.\<close>

definition putchar :: "u8 \<Rightarrow> 'w sys \<Rightarrow> 'w sys" where
  "putchar ch s = (
     let (ret, w) = firmware s [ucast ch, 0, 0, 0, 0, 0, 0, 1] (world s) in
     s\<lparr>console := console s @ [ch], world := w\<rparr>)"

definition print :: "string \<Rightarrow> va_arg list \<Rightarrow> 'w sys \<Rightarrow> 'w sys option" where
  "print fmt args s = do { out \<leftarrow> printf (cstr fmt) args; Some (fold putchar out s) }"

section \<open>The file system with its messages\<close>

text \<open>The operations of \<open>Fs\<close> followed by the messages that the branch taken prints; a failing \<open>kmalloc\<close> prints one of its own, except for a request of no
  bytes.\<close>

definition sys_fs_create :: "u8 list \<Rightarrow> u32 \<Rightarrow> 'w sys \<Rightarrow> (int \<times> 'w sys) option" where
  "sys_fs_create filename sz s = do {
     (r, f) \<leftarrow> fs_create filename sz (fs s);
     s \<leftarrow> (if sz > MAX_FILESIZE then print ''File size too large: %d bytes (max: %d)\<newline>'' [Va32 sz, Va32 MAX_FILESIZE] s
          else do {
            ex \<leftarrow> fs_exists filename (fs s);
            if ex then print ''File '%s' already exists\<newline>'' [VaStr filename] s
            else if r \<noteq> - 1 then print ''Created file '%s' (%d bytes)\<newline>'' [VaStr filename, Va32 sz] s
            else if list_all is_used (files (fs s)) then print ''No free file slots available\<newline>'' [] s
            else do {
              s \<leftarrow> (if sz = 0 then Some s else print ''kmalloc failed: no suitable block found\<newline>'' [] s);
              print ''Failed to allocate memory for file '%s'\<newline>'' [VaStr filename] s } });
     Some (r, s\<lparr>fs := f\<rparr>) }"

definition sys_fs_read :: "u8 list \<Rightarrow> u32 \<Rightarrow> 'w sys \<Rightarrow> (int \<times> u8 list \<times> 'w sys) option" where
  "sys_fs_read filename sz s = do {
     (r, buf) \<leftarrow> fs_read filename sz (fs s);
     s \<leftarrow> (if r = - 1 then print ''File '%s' not found\<newline>'' [VaStr filename] s
          else print ''Read %d bytes from file '%s'\<newline>'' [Va32 (word_of_int r), VaStr filename] s);
     Some (r, buf, s) }"

definition sys_fs_delete :: "u8 list \<Rightarrow> 'w sys \<Rightarrow> (int \<times> 'w sys) option" where
  "sys_fs_delete filename s = do {
     (r, f) \<leftarrow> fs_delete filename (fs s);
     s \<leftarrow> (if r = - 1 then print ''File '%s' not found\<newline>'' [VaStr filename] s
          else print ''Deleted file '%s'\<newline>'' [VaStr filename] s);
     Some (r, s\<lparr>fs := f\<rparr>) }"

primrec list_files :: "fs_file list \<Rightarrow> 'w sys \<Rightarrow> 'w sys option" where
  "list_files [] s = Some s"
| "list_files (f # fl) s =
     (if is_used f then do { s \<leftarrow> print ''  %s (%d bytes)\<newline>'' [VaStr (name f), Va32 (file_size f)] s; list_files fl s }
      else list_files fl s)"

definition sys_fs_list :: "'w sys \<Rightarrow> 'w sys option" where
  "sys_fs_list s = do {
     s \<leftarrow> print ''\<newline>=== File System Listing ===\<newline>'' [] s;
     s \<leftarrow> print ''Files: %d/%d\<newline>'' [Va32 (word_of_int (file_count (fs s))), Va32 32] s;
     if file_count (fs s) = 0 then print ''No files in filesystem\<newline>'' [] s
     else list_files (files (fs s)) s }"

definition sys_memory_stats :: "'w sys \<Rightarrow> 'w sys option" where
  "sys_memory_stats s = do {
     (blocks, total_free, total_used) \<leftarrow> print_memory_stats (fs_heap (fs s));
     print ''Memory stats: %d blocks, %d bytes free, %d bytes used\<newline>''
       [Va32 (word_of_int blocks), Va32 (word_of_int total_free), Va32 (word_of_int total_used)] s }"

section \<open>Numbers\<close>

text \<open>Signed overflow is undefined.\<close>

fun str_to_int_loop :: "int \<Rightarrow> u8 list \<Rightarrow> int option" where
  "str_to_int_loop result [] = None"
| "str_to_int_loop result (c # str) =
     (if c \<ge> 48 \<and> c \<le> 57 then
        let result = result * 10 + (uint c - 48) in
        if result < 2 ^ 31 then str_to_int_loop result str else None
      else Some result)"

definition str_to_int :: "u8 list \<Rightarrow> int option" where
  "str_to_int str = str_to_int_loop 0 str"

section \<open>Commands\<close>

definition cmd_help :: "'w sys \<Rightarrow> 'w sys option" where
  "cmd_help s = do {
     s \<leftarrow> print ''\<newline>=== Fru1t OS Shell Commands ===\<newline>'' [] s;
     s \<leftarrow> print ''help          - Show this help message\<newline>'' [] s;
     s \<leftarrow> print ''ls            - List files in filesystem\<newline>'' [] s;
     s \<leftarrow> print ''cat <file>    - Display file contents\<newline>'' [] s;
     s \<leftarrow> print ''create <file> <size> - Create new file\<newline>'' [] s;
     s \<leftarrow> print ''delete <file> - Delete file\<newline>'' [] s;
     s \<leftarrow> print ''echo [args]   - Print arguments\<newline>'' [] s;
     s \<leftarrow> print ''memstat       - Show memory statistics\<newline>'' [] s;
     s \<leftarrow> print ''clear         - Clear screen\<newline>'' [] s;
     s \<leftarrow> print ''exit          - Exit shell\<newline>'' [] s;
     print ''\<newline>'' [] s }"

definition cmd_ls :: "'w sys \<Rightarrow> 'w sys option" where
  "cmd_ls s = sys_fs_list s"

fun cat_loop :: "u8 list \<Rightarrow> 'w sys \<Rightarrow> 'w sys" where
  "cat_loop [] s = s"
| "cat_loop (c # buf) s = (if c \<noteq> 0 then cat_loop buf (putchar c s) else s)"

definition cmd_cat :: "u8 list \<Rightarrow> 'w sys \<Rightarrow> 'w sys option" where
  "cmd_cat filename s = do {
     (bytes_read, buf, s) \<leftarrow> sys_fs_read filename MAX_FILESIZE s;
     if bytes_read > 0 then do {
       s \<leftarrow> print ''Content of %s:\<newline>'' [VaStr filename] s;
       let s = cat_loop (take (nat bytes_read) buf) s;
       print ''\<newline>'' [] s }
     else Some s }"

definition cmd_create :: "u8 list \<Rightarrow> u8 list \<Rightarrow> 'w sys \<Rightarrow> 'w sys option" where
  "cmd_create filename size_str s = do {
     sz \<leftarrow> str_to_int size_str;
     if sz \<le> 0 \<or> sz > 1024 then print ''Invalid size. Must be 1-%d bytes\<newline>'' [Va32 MAX_FILESIZE] s
     else do { (_, s) \<leftarrow> sys_fs_create filename (word_of_int sz) s; Some s } }"

definition cmd_delete :: "u8 list \<Rightarrow> 'w sys \<Rightarrow> 'w sys option" where
  "cmd_delete filename s = do { (_, s) \<leftarrow> sys_fs_delete filename s; Some s }"

definition cmd_memstat :: "'w sys \<Rightarrow> 'w sys option" where
  "cmd_memstat s = sys_memory_stats s"

text \<open>The escape sequences ``\<open>ESC[2J\<close>'' and ``\<open>ESC[H\<close>''.\<close>

definition cmd_clear :: "'w sys \<Rightarrow> 'w sys option" where
  "cmd_clear s = print ([CHR 0x1B] @ ''[2J'' @ [CHR 0x1B] @ ''[H'') [] s"

section \<open>Strings in the heap\<close>

text \<open>The object behind a heap pointer reaches to the end of the array \<open>heap\<close>.\<close>

definition heap_from :: "bytes \<Rightarrow> u32 \<Rightarrow> u8 list" where
  "heap_from m p = read_bytes m p (HEAP_SIZE - unat p)"

definition arg_str :: "'w sys \<Rightarrow> u32 ptr \<Rightarrow> u8 list option" where
  "arg_str s p = map_option (heap_from (fs_bytes (fs s))) p"

text \<open>\<open>strcpy\<close> to a heap pointer.\<close>

definition heap_strcpy :: "u32 ptr \<Rightarrow> u8 list \<Rightarrow> 'w sys \<Rightarrow> 'w sys option" where
  "heap_strcpy dest src s = do {
     p \<leftarrow> dest;
     d \<leftarrow> strcpy (heap_from (fs_bytes (fs s)) p) src;
     Some (s\<lparr>fs := (fs s)\<lparr>fs_bytes := write_bytes p d (fs_bytes (fs s))\<rparr>\<rparr>) }"

text \<open>The pointers of \<open>cmd_echo\<close> may lead to the heap, as those of a command line, or to string literals: \<open>str\<close> reads them.\<close>

primrec echo_loop :: "('w sys \<Rightarrow> 'p \<Rightarrow> u8 list option) \<Rightarrow> 'p list \<Rightarrow> nat \<Rightarrow> nat list \<Rightarrow> 'w sys \<Rightarrow> 'w sys option" where
  "echo_loop str args argc [] s = Some s"
| "echo_loop str args argc (i # is) s = do {
     a \<leftarrow> str s (args ! i);
     s \<leftarrow> print ''%s'' [VaStr a] s;
     s \<leftarrow> (if i < argc - 1 then print '' '' [] s else Some s);
     echo_loop str args argc is s }"

definition cmd_echo :: "('w sys \<Rightarrow> 'p \<Rightarrow> u8 list option) \<Rightarrow> 'p list \<Rightarrow> nat \<Rightarrow> 'w sys \<Rightarrow> 'w sys option" where
  "cmd_echo str args argc s = do { s \<leftarrow> echo_loop str args argc [1..<argc] s; print ''\<newline>'' [] s }"

section \<open>Reading and executing a command\<close>

definition shell_init :: "'w sys \<Rightarrow> 'w sys" where
  "shell_init s = s\<lparr>shell := \<lparr>input_buffer = replicate SHELL_BUFFER_SIZE 0, buffer_pos = 0, running = True\<rparr>\<rparr>"

definition shell_print_prompt :: "'w sys \<Rightarrow> 'w sys option" where
  "shell_print_prompt s = print ''fru1t-os> '' [] s"

text \<open>Storing a byte in the static buffer of \<open>shell_tokenize\<close>.\<close>

definition put_token :: "nat \<Rightarrow> u8 \<Rightarrow> 'w sys \<Rightarrow> 'w sys option" where
  "put_token pos c s =
     (if pos < length (token_buffer s) then Some (s\<lparr>token_buffer := (token_buffer s)[pos := c]\<rparr>) else None)"

text \<open>The end of a token: it is copied to a new heap block.\<close>

definition add_token :: "nat \<Rightarrow> u32 ptr list \<Rightarrow> 'w sys \<Rightarrow> (u32 ptr list \<times> 'w sys) option" where
  "add_token token_pos args s = do {
     s \<leftarrow> put_token token_pos 0 s;
     (p, h) \<leftarrow> kmalloc (of_nat (token_pos + 1)) (fs_heap (fs s));
     let s = s\<lparr>fs := (fs s)\<lparr>fs_heap := h\<rparr>\<rparr>;
     s \<leftarrow> heap_strcpy p (token_buffer s) s;
     Some (args @ [p], s) }"

fun tokenize_loop :: "u8 list \<Rightarrow> nat \<Rightarrow> int \<Rightarrow> int \<Rightarrow> nat \<Rightarrow> u32 ptr list \<Rightarrow> 'w sys \<Rightarrow>
    (int \<times> nat \<times> u32 ptr list \<times> 'w sys) option" where
  "tokenize_loop [] max_args i arg_start token_pos args s = None"
| "tokenize_loop (c # input) max_args i arg_start token_pos args s =
     (if c \<noteq> 0 \<and> length args < max_args then
        if c = 32 \<or> c = 9 then
          if arg_start \<noteq> - 1 then do {
            (args, s) \<leftarrow> add_token token_pos args s;
            tokenize_loop input max_args (i + 1) (- 1) 0 args s }
          else tokenize_loop input max_args (i + 1) arg_start token_pos args s
        else do {
          let arg_start = (if arg_start = - 1 then i else arg_start);
          s \<leftarrow> put_token token_pos c s;
          tokenize_loop input max_args (i + 1) arg_start (token_pos + 1) args s }
      else Some (arg_start, token_pos, args, s))"

text \<open>The result is the array \<open>args\<close>; its length is the returned \<open>argc\<close>.\<close>

definition shell_tokenize :: "u8 list \<Rightarrow> nat \<Rightarrow> 'w sys \<Rightarrow> (u32 ptr list \<times> 'w sys) option" where
  "shell_tokenize input max_args s = do {
     (arg_start, token_pos, args, s) \<leftarrow> tokenize_loop input max_args 0 (- 1) 0 [] s;
     if arg_start \<noteq> - 1 \<and> length args < max_args then add_token token_pos args s else Some (args, s) }"

definition streq :: "u8 list \<Rightarrow> string \<Rightarrow> bool option" where
  "streq s lit = do { c \<leftarrow> strcmp s (cstr lit); Some (c = 0) }"

definition shell_execute_command :: "u8 list \<Rightarrow> u32 ptr list \<Rightarrow> nat \<Rightarrow> 'w sys \<Rightarrow> 'w sys option" where
  "shell_execute_command cmd args argc s = do {
     b \<leftarrow> streq cmd ''help''; if b then cmd_help s else do {
     b \<leftarrow> streq cmd ''ls''; if b then cmd_ls s else do {
     b \<leftarrow> streq cmd ''cat''; if b then
       (if argc > 1 then do { a \<leftarrow> arg_str s (args ! 1); cmd_cat a s }
        else print ''Usage: cat <filename>\<newline>'' [] s) else do {
     b \<leftarrow> streq cmd ''create''; if b then
       (if argc > 2 then do { a \<leftarrow> arg_str s (args ! 1); n \<leftarrow> arg_str s (args ! 2); cmd_create a n s }
        else print ''Usage: create <filename> <size>\<newline>'' [] s) else do {
     b \<leftarrow> streq cmd ''delete''; if b then
       (if argc > 1 then do { a \<leftarrow> arg_str s (args ! 1); cmd_delete a s }
        else print ''Usage: delete <filename>\<newline>'' [] s) else do {
     b \<leftarrow> streq cmd ''memstat''; if b then cmd_memstat s else do {
     b \<leftarrow> streq cmd ''clear''; if b then cmd_clear s else do {
     b \<leftarrow> streq cmd ''echo''; if b then cmd_echo arg_str args argc s else do {
     b \<leftarrow> streq cmd ''exit''; if b then
       print ''Goodbye!\<newline>'' [] (s\<lparr>shell := (shell s)\<lparr>running := False\<rparr>\<rparr>) else do {
     s \<leftarrow> print ''Unknown command: %s\<newline>'' [VaStr cmd] s;
     print ''Type 'help' for available commands\<newline>'' [] s }}}}}}}}} }"

primrec free_args :: "u32 ptr list \<Rightarrow> 'w sys \<Rightarrow> 'w sys option" where
  "free_args [] s = Some s"
| "free_args (p # ps) s = do { h \<leftarrow> kfree p (fs_heap (fs s)); free_args ps (s\<lparr>fs := (fs s)\<lparr>fs_heap := h\<rparr>\<rparr>) }"

definition shell_parse_command :: "u8 list \<Rightarrow> 'w sys \<Rightarrow> 'w sys option" where
  "shell_parse_command input s = do {
     (args, s) \<leftarrow> shell_tokenize input MAX_ARGS s;
     if length args > 0 then do {
       cmd \<leftarrow> arg_str s (args ! 0);
       s \<leftarrow> shell_execute_command cmd args (length args) s;
       free_args args s }
     else Some s }"

section \<open>The keyboard\<close>

text \<open>The call has the extension number of \<open>putchar\<close>, 1, and function number 1; what it returns is up to the firmware.\<close>

definition sbi_console_getchar :: "'w sbi \<Rightarrow> 'w \<Rightarrow> int \<times> 'w" where
  "sbi_console_getchar sbi_call w =
     (let (ret, w) = sbi_call [0, 0, 0, 0, 0, 0, 1, 1] w in (sint (sbi_value ret), w))"

text \<open>The delay loop between two polls has no effect on the state.\<close>

partial_function (option) getchar_poll :: "'w sbi \<Rightarrow> 'w uart_dev \<Rightarrow> 'w \<Rightarrow> (u8 \<times> 'w) option" where
  "getchar_poll sbi_call d w = (
     let (c, w) = sbi_console_getchar sbi_call w in
     if c \<noteq> - 1 \<and> c \<noteq> 0 then Some (word_of_int c, w)
     else let (ready, w) = uart_rx_ready d w in
       if ready then Some (uart_read_reg d UART_RHR w)
       else getchar_poll sbi_call d w)"

declare getchar_poll.simps [code]

definition getchar_blocking :: "'w uart_dev \<Rightarrow> 'w sys \<Rightarrow> (u8 \<times> 'w sys) option" where
  "getchar_blocking d s = do {
     s \<leftarrow> (if first_time s then do {
          s \<leftarrow> print ''Waiting for keyboard input... (try typing!)\<newline>'' [] s;
          Some (s\<lparr>first_time := False\<rparr>) }
        else Some s);
     (c, w) \<leftarrow> getchar_poll (firmware s) d (world s);
     Some (c, s\<lparr>world := w\<rparr>) }"

text \<open>What \<open>shell_run\<close> does with one key; the flag says that the line is finished.\<close>

definition shell_key :: "u8 \<Rightarrow> 'w sys \<Rightarrow> (bool \<times> 'w sys) option" where
  "shell_key c s = (
     let sh = shell s; pos = buffer_pos sh in
     if c = 10 \<or> c = 13 then
       (if pos < length (input_buffer sh) then do {
          let s = s\<lparr>shell := sh\<lparr>input_buffer := (input_buffer sh)[pos := 0]\<rparr>\<rparr>;
          s \<leftarrow> print ''\<newline>'' [] s;
          s \<leftarrow> (if pos > 0 then shell_parse_command (input_buffer (shell s)) s else Some s);
          Some (True, s) }
        else None)
     else if c = 8 \<or> c = 127 then
       (if pos > 0 then do {
          s \<leftarrow> print [CHR 0x08, CHR '' '', CHR 0x08] [] (s\<lparr>shell := sh\<lparr>buffer_pos := pos - 1\<rparr>\<rparr>);
          Some (False, s) }
        else Some (False, s))
     else if c \<ge> 32 \<and> c < 127 \<and> pos < SHELL_BUFFER_SIZE - 1 then
       (if pos < length (input_buffer sh) then
          Some (False, putchar c (s\<lparr>shell := sh\<lparr>input_buffer := (input_buffer sh)[pos := c], buffer_pos := pos + 1\<rparr>\<rparr>))
        else None)
     else Some (False, s))"

partial_function (option) shell_line :: "'w uart_dev \<Rightarrow> 'w sys \<Rightarrow> 'w sys option" where
  "shell_line d s = do {
     (c, s) \<leftarrow> getchar_blocking d s;
     (fin, s) \<leftarrow> shell_key c s;
     if fin then Some s else shell_line d s }"

declare shell_line.simps [code]

partial_function (option) shell_run :: "'w uart_dev \<Rightarrow> 'w sys \<Rightarrow> 'w sys option" where
  "shell_run d s =
     (if running (shell s) then do {
        s \<leftarrow> shell_print_prompt s;
        s \<leftarrow> shell_line d (s\<lparr>shell := (shell s)\<lparr>buffer_pos := 0\<rparr>\<rparr>);
        shell_run d s }
      else Some s)"

declare shell_run.simps [code]

end
