(* ===== verification/Shell_Tokens.thy ===== *)
theory Shell_Tokens
  imports Shell
begin

text \<open>
  The tokenizer of the shell against a reference that splits the line at blanks: the tokens are
  fresh blocks of the heap, and the file system does not notice them.
\<close>

section \<open>The file system beside other blocks\<close>

lemma fs_frame:
  assumes ok: "fs_ok L f" and f': "files f' = files f" "file_count f' = file_count f" "heap_rep L' (fs_heap f')"
    and L': "\<And>p. p \<in> file_blocks f \<Longrightarrow> L' p = L p"
    and bytes: "\<And>p m n. p \<in> file_blocks f \<Longrightarrow> L p = Some m \<Longrightarrow> n \<le> m \<Longrightarrow> read_bytes (fs_bytes f') p n = read_bytes (fs_bytes f) p n"
  shows "fs_ok L' f'" "fs_map f' = fs_map f" "file_blocks f' = file_blocks f"
proof -
  have same: "used f' = used f" "fname f' = fname f" by (simp_all add: used_def fname_def f'(1) fun_eq_iff)
  show "file_blocks f' = file_blocks f" by (simp add: file_blocks_def same f'(1))
  have C: "contents f' i = contents f i \<and> (\<exists>p m. data (files f ! i) = Some p \<and> L' p = Some m \<and> unat (file_size (files f ! i)) \<le> m)"
    if i: "i \<in> set (used f)" for i
  proof -
    obtain p m where p: "data (files f ! i) = Some p" "L p = Some m" "unat (file_size (files f ! i)) \<le> m" using fs_ok_block [OF ok i] .
    then have "p \<in> file_blocks f" using i by (auto simp: file_blocks_def)
    then show ?thesis using p L' bytes [of p m] f'(1) by (simp add: contents_def)
  qed
  show ok': "fs_ok L' f'"
    by (rule fs_okI) (use ok C f' in \<open>simp_all add: same fs_ok_def\<close>)
  show "fs_map f' = fs_map f"
    by (rule fs_map_eqI [OF ok']) (use C in \<open>auto simp: same fs_map_iff [OF ok]\<close>)
qed

section \<open>Reference\<close>

definition blank :: "u8 \<Rightarrow> bool" where
  "blank c \<longleftrightarrow> c = 32 \<or> c = 9"

fun split_on :: "('a \<Rightarrow> bool) \<Rightarrow> 'a list \<Rightarrow> 'a list list" where
  "split_on P [] = [[]]"
| "split_on P (c # cs) = (if P c then [] # split_on P cs else case split_on P cs of [] \<Rightarrow> [[c]] | w # ws \<Rightarrow> (c # w) # ws)"

definition words :: "u8 list \<Rightarrow> u8 list list" where
  "words s = filter (\<lambda>w. w \<noteq> []) (split_on blank s)"

text \<open>The words of a line of which the part \<open>cur\<close> of a word has been read.\<close>

definition words_from :: "u8 list \<Rightarrow> u8 list \<Rightarrow> u8 list list" where
  "words_from cur s = filter (\<lambda>w. w \<noteq> []) ((cur @ hd (split_on blank s)) # tl (split_on blank s))"

lemma split_on_ne [simp]: "split_on P s \<noteq> []"
  by (cases s) (auto split: list.split)

lemma words_from_Nil: "words_from [] s = words s"
  by (simp add: words_from_def words_def)

lemma words_from_empty: "words_from cur [] = (if cur = [] then [] else [cur])"
  by (simp add: words_from_def)

lemma words_from_blank: "blank c \<Longrightarrow> words_from cur (c # s) = (if cur = [] then [] else [cur]) @ words s"
  by (simp add: words_from_def words_def)

lemma words_from_char: "\<not> blank c \<Longrightarrow> words_from cur (c # s) = words_from (cur @ [c]) s"
  by (simp add: words_from_def split: list.split)

lemma words_no_blank: "w \<in> set (words s) \<Longrightarrow> w \<noteq> [] \<and> (\<forall>c \<in> set w. \<not> blank c \<and> c \<in> set s)"
proof -
  have "w \<in> set (split_on blank s) \<Longrightarrow> c \<in> set w \<Longrightarrow> \<not> blank c \<and> c \<in> set s" for c
  proof (induction s arbitrary: w)
    case (Cons a s)
    obtain x xs where "split_on blank s = x # xs" by (cases "split_on blank s") auto
    then show ?case using Cons.IH [of x] Cons.IH [of w] Cons.prems by (auto split: if_splits)
  qed simp
  then show "w \<in> set (words s) \<Longrightarrow> ?thesis" by (auto simp: words_def)
qed

section \<open>Tokens in the heap\<close>

text \<open>\<open>args\<close> are the pointers to the copies of the words \<open>ws\<close>, in blocks that \<open>L\<close> has beside those of \<open>L0\<close>.\<close>

definition token :: "(u32 \<rightharpoonup> nat) \<Rightarrow> filesystem \<Rightarrow> u32 ptr \<Rightarrow> u8 list \<Rightarrow> bool" where
  "token L f p w \<longleftrightarrow> (\<exists>q m. p = Some q \<and> L q = Some m \<and> q \<notin> file_blocks f \<and> length w + 1 \<le> m \<and> 0 \<notin> set w \<and>
     read_bytes (fs_bytes f) q (length w + 1) = w @ [0])"

definition tokens :: "(u32 \<rightharpoonup> nat) \<Rightarrow> u32 ptr list \<Rightarrow> u8 list list \<Rightarrow> (u32 \<rightharpoonup> nat) \<Rightarrow> filesystem \<Rightarrow> bool" where
  "tokens L0 args ws L f \<longleftrightarrow> fs_ok L f \<and> list_all2 (token L f) args ws \<and> distinct args \<and>
     L0 = (\<lambda>q. if Some q \<in> set args then None else L q)"

text \<open>What the tokenizer leaves alone.\<close>

definition untouched :: "'w sys \<Rightarrow> 'w sys \<Rightarrow> bool" where
  "untouched s s' \<longleftrightarrow> shell s' = shell s \<and> console s' = console s \<and> first_time s' = first_time s \<and> firmware s' = firmware s \<and> world s' = world s \<and>
     fs_map (fs s') = fs_map (fs s) \<and> length (token_buffer s') = length (token_buffer s)"

lemma untouched_refl: "untouched s s"
  by (simp add: untouched_def)

lemma untouched_trans: "untouched s s' \<Longrightarrow> untouched s' s'' \<Longrightarrow> untouched s s''"
  by (simp add: untouched_def)

lemma heap_strcpy_ok:
  assumes "unat p + m \<le> HEAP_SIZE" "str_ok src" "length (str_val src) < m"
  shows "heap_strcpy (Some p) src s = Some (s\<lparr>fs := (fs s)\<lparr>fs_bytes := write_bytes p (str_val src @ [0]) (fs_bytes (fs s))\<rparr>\<rparr>)"
proof -
  let ?h = "heap_from (fs_bytes (fs s)) p" and ?w = "str_val src @ [0]"
  have "strcpy ?h src = Some (?w @ drop (length ?w) ?h)" using strcpy_ok [OF assms(2), of ?h] assms by (simp add: heap_from_def)
  moreover have "write_bytes p (?w @ drop (length ?w) ?h) (fs_bytes (fs s)) = write_bytes p ?w (fs_bytes (fs s))"
    unfolding heap_from_def by (rule write_front_only) (use assms in simp_all)
  ultimately show ?thesis by (simp add: heap_strcpy_def)
qed

lemma add_token_ok:
  assumes inv: "tokens L0 args ws L (fs s)" "heap_room (length cur + 21 + k) L (fs_heap (fs s))"
    and buf: "take (length cur) (token_buffer s) = cur" "length cur < length (token_buffer s)" "length (token_buffer s) = 256" "0 \<notin> set cur"
  shows "\<exists>p s' L'. add_token (length cur) args s = Some (args @ [p], s') \<and> tokens L0 (args @ [p]) (ws @ [cur]) L' (fs s') \<and>
    heap_room k L' (fs_heap (fs s')) \<and> untouched s s'"
proof -
  let ?tb = "(token_buffer s)[length cur := 0]" and ?bs = "cur @ [0]" and ?f = "fs s"
  have "?tb = cur @ 0 # drop (Suc (length cur)) (token_buffer s)" using buf(1,2) by (metis upd_conv_take_nth_drop)
  then have tb: "str_ok ?tb" "str_val ?tb = cur" using str_val_append [OF buf(4)] by simp_all
  have "heap_room (length ?bs + 20 + k) L (fs_heap ?f)" "?bs \<noteq> []" "length ?bs \<le> 2 ^ 32 - 8" using inv(2) buf(2,3) by (simp_all add: add.commute)
  then obtain p m h where p: "kmalloc (of_nat (length ?bs)) (fs_heap ?f) = Some (Some p, h)" "p \<notin> dom L" "length ?bs \<le> m"
    "heap_room k (L(p \<mapsto> m)) h" "read_bytes (write_bytes p ?bs (fs_bytes ?f)) p (length ?bs) = ?bs"
    "\<forall>q n i. L q = Some n \<longrightarrow> i \<le> n \<longrightarrow> read_bytes (write_bytes p ?bs (fs_bytes ?f)) q i = read_bytes (fs_bytes ?f) q i"
    by (rule kr.alloc_fill)
  have inside: "unat p + m \<le> HEAP_SIZE" by (rule heap_rep_inside [OF kr.room_rep [OF p(4)]]) simp
  let ?f' = "?f\<lparr>fs_heap := h, fs_bytes := write_bytes p ?bs (fs_bytes ?f)\<rparr>"
  let ?s' = "s\<lparr>token_buffer := ?tb, fs := ?f'\<rparr>"
  have run: "add_token (length cur) args s = Some (args @ [Some p], ?s')"
    using heap_strcpy_ok [OF inside tb(1), of "s\<lparr>token_buffer := ?tb, fs := ?f\<lparr>fs_heap := h\<rparr>\<rparr>"] tb(2) p(1,3) buf(2) by (simp add: add_token_def put_token_def add.commute)
  have ok: "fs_ok L ?f" using inv(1) by (simp add: tokens_def)
  have sub: "file_blocks ?f \<subseteq> dom L" by (rule file_blocks_dom [OF ok])
  then have pf: "p \<notin> file_blocks ?f" using p(2) by blast
  have new: "q \<in> dom L \<Longrightarrow> q \<noteq> p" for q using p(2) by auto
  have ok': "fs_ok (L(p \<mapsto> m)) ?f'" "fs_map ?f' = fs_map ?f" "file_blocks ?f' = file_blocks ?f"
    by (rule fs_frame [OF ok, where L' = "L(p \<mapsto> m)"]; use p(6) pf kr.room_rep [OF p(4)] in auto)+
  have old: "token (L(p \<mapsto> m)) ?f' a w" if t: "token L ?f a w" for a w
  proof -
    obtain q n where q: "a = Some q" "L q = Some n" "q \<notin> file_blocks ?f" "length w + 1 \<le> n" "0 \<notin> set w"
      "read_bytes (fs_bytes ?f) q (length w + 1) = w @ [0]" using t by (auto simp: token_def)
    have "read_bytes (write_bytes p ?bs (fs_bytes ?f)) q (length w + 1) = w @ [0]" using p(6) q(2,4,6) by metis
    then show ?thesis using q new [of q] ok'(3) unfolding token_def by (intro exI [of _ q] exI [of _ n]) (auto simp del: read_bytes.simps)
  qed
  have tok: "token (L(p \<mapsto> m)) ?f' (Some p) cur"
    unfolding token_def ok'(3) using p(2,3,5) sub buf(4) by (intro exI [of _ p] exI [of _ m]) auto
  have la: "list_all2 (token L ?f) args ws" and d: "distinct args" "L0 = (\<lambda>q. if Some q \<in> set args then None else L q)"
    using inv(1) by (auto simp: tokens_def)
  have la': "list_all2 (token (L(p \<mapsto> m)) ?f') args ws" by (rule list_all2_mono [OF la old])
  have "a \<noteq> Some p" if "a \<in> set args" for a
  proof -
    obtain i where "i < length args" "args ! i = a" using \<open>a \<in> set args\<close> by (auto simp: in_set_conv_nth)
    then have "token L ?f a (ws ! i)" using list_all2_nthD [OF la] by blast
    then show ?thesis using p(2) by (auto simp: token_def)
  qed
  moreover have "L p = None" using p(2) by auto
  ultimately have "tokens L0 (args @ [Some p]) (ws @ [cur]) (L(p \<mapsto> m)) ?f'"
    unfolding tokens_def using ok'(1) la' tok d by (auto simp: fun_eq_iff intro!: list_all2_appendI)
  moreover have "untouched s ?s'" using ok'(2) by (simp add: untouched_def)
  ultimately show ?thesis using run p(4) by (intro exI [of _ "Some p"] exI [of _ ?s'] exI [of _ "L(p \<mapsto> m)"]) simp
qed

text \<open>The state behind the loop: all words but the one that is still in the token buffer have been stored.\<close>

definition scanned :: "(u32 \<rightharpoonup> nat) \<Rightarrow> nat \<Rightarrow> nat \<Rightarrow> 'w sys \<Rightarrow> u8 list list \<Rightarrow> (int \<times> nat \<times> u32 ptr list \<times> 'w sys) option \<Rightarrow> bool" where
  "scanned L0 k mx s all r \<longleftrightarrow> (\<exists>st cur args ws s' L. r = Some (st, length cur, args, s') \<and>
     tokens L0 args ws L (fs s') \<and> heap_room (22 * length cur + k) L (fs_heap (fs s')) \<and> untouched s s' \<and>
     take (length cur) (token_buffer s') = cur \<and> 0 \<notin> set cur \<and> length cur < 256 \<and> (st \<noteq> - 1 \<longleftrightarrow> cur \<noteq> []) \<and>
     ws @ (if cur = [] \<or> length ws = mx then [] else [cur]) = take mx all \<and> length ws \<le> mx)"

lemma scanned_trans: "untouched s s1 \<Longrightarrow> scanned L0 k mx s1 all r \<Longrightarrow> scanned L0 k mx s all r"
  unfolding scanned_def using untouched_trans by blast

text \<open>The loop: \<open>cur\<close> is the part of a word that is in the token buffer.\<close>

lemma tokenize_loop_ok:
  assumes "tokens L0 args ws L (fs s)" "heap_room (22 * (length cur + length (str_val input)) + k) L (fs_heap (fs s))"
    and "take (length cur) (token_buffer s) = cur" "0 \<notin> set cur" "length (token_buffer s) = 256"
    and "length cur + length (str_val input) < 256" "str_ok input" "0 \<le> i" "st \<noteq> - 1 \<longleftrightarrow> cur \<noteq> []" "length ws \<le> mx"
  shows "scanned L0 k mx s (ws @ words_from cur (str_val input)) (tokenize_loop input mx i st (length cur) args s)"
  using assms
proof (induction input arbitrary: args ws L s cur i st)
  case (Cons c input)
  have len: "length args = length ws" using Cons.prems(1) by (auto simp: tokens_def list_all2_lengthD)
  have lt: "length cur < length (token_buffer s)" using Cons.prems(5,6) by linarith
  show ?case
  proof (cases "c \<noteq> 0 \<and> length args < mx")
    case False
    have "heap_room (22 * length cur + k) L (fs_heap (fs s))" by (rule kr.room_mono [OF Cons.prems(2)]) simp
    moreover have "ws @ (if cur = [] \<or> length ws = mx then [] else [cur]) = take mx (ws @ words_from cur (str_val (c # input)))"
      using False len Cons.prems(10) by (auto simp: words_from_empty)
    moreover have "tokenize_loop (c # input) mx i st (length cur) args s = Some (st, length cur, args, s)" using False by auto
    ultimately show ?thesis using Cons.prems(1,3,4,5,9,10) untouched_refl [of s] lt unfolding scanned_def
      by (intro exI [of _ st] exI [of _ cur] exI [of _ args] exI [of _ ws] exI [of _ s] exI [of _ L]) (simp del: tokenize_loop.simps)
  next
    case run: True
    then have str: "str_val (c # input) = c # str_val input" "str_ok input" using Cons.prems(7) by auto
    consider (char) "\<not> blank c" | (skip) "blank c" "cur = []" | (token) "blank c" "cur \<noteq> []" by blast
    then show ?thesis
    proof cases
      case char
      let ?s = "s\<lparr>token_buffer := (token_buffer s)[length cur := c]\<rparr>" and ?st = "if st = - 1 then i else st"
      have step: "tokenize_loop (c # input) mx i st (length cur) args s =
          tokenize_loop input mx (i + 1) ?st (length (cur @ [c])) args ?s"
        using run char lt by (simp add: blank_def put_token_def Let_def)
      have "take (length (cur @ [c])) (token_buffer ?s) = cur @ [c]" using Cons.prems(3) lt by (simp add: take_Suc_conv_app_nth)
      then have "scanned L0 k mx ?s (ws @ words_from (cur @ [c]) (str_val input)) (tokenize_loop input mx (i + 1) ?st (length (cur @ [c])) args ?s)"
        by (intro Cons.IH) (use Cons.prems run str in \<open>simp_all\<close>)
      moreover have "untouched s ?s" by (simp add: untouched_def)
      ultimately show ?thesis unfolding step str words_from_char [OF char] by (rule scanned_trans [rotated])
    next
      case skip
      then have step: "tokenize_loop (c # input) mx i st (length cur) args s = tokenize_loop input mx (i + 1) st (length cur) args s"
        using run Cons.prems(9) by (simp add: blank_def)
      have "heap_room (22 * (length cur + length (str_val input)) + k) L (fs_heap (fs s))"
        by (rule kr.room_mono [OF Cons.prems(2)]) (use run in simp)
      then have "scanned L0 k mx s (ws @ words_from cur (str_val input)) (tokenize_loop input mx (i + 1) st (length cur) args s)"
        by (intro Cons.IH) (use Cons.prems run str in simp_all)
      then show ?thesis unfolding step str words_from_blank [OF skip(1)] using skip(2) by (simp add: words_from_Nil)
    next
      case token
      have "heap_room (length cur + 21 + (22 * length (str_val input) + k)) L (fs_heap (fs s))"
        by (rule kr.room_mono [OF Cons.prems(2)]) (use token run in \<open>cases cur; simp add: str\<close>)
      then obtain p s1 L1 where a: "add_token (length cur) args s = Some (args @ [p], s1)" "tokens L0 (args @ [p]) (ws @ [cur]) L1 (fs s1)"
        "heap_room (22 * length (str_val input) + k) L1 (fs_heap (fs s1))" "untouched s s1"
        using add_token_ok [OF Cons.prems(1) _ Cons.prems(3) lt Cons.prems(5,4)] by blast
      have step: "tokenize_loop (c # input) mx i st (length cur) args s = tokenize_loop input mx (i + 1) (- 1) (length ([] :: u8 list)) (args @ [p]) s1"
        using run token Cons.prems(9) a(1) by (simp add: blank_def)
      have "length (token_buffer s1) = 256" "length (str_val input) < 256" "length (ws @ [cur]) \<le> mx" "0 \<le> i + 1"
        using a(4) Cons.prems(5,6,8) run str len by (simp_all add: untouched_def)
      then have "scanned L0 k mx s1 ((ws @ [cur]) @ words_from [] (str_val input)) (tokenize_loop input mx (i + 1) (- 1) (length ([] :: u8 list)) (args @ [p]) s1)"
        by (intro Cons.IH) (use a(2,3) str in simp_all)
      moreover have "(ws @ [cur]) @ words_from [] (str_val input) = ws @ words_from cur (str_val (c # input))"
        unfolding str words_from_blank [OF token(1)] using token(2) by (simp add: words_from_Nil)
      ultimately show ?thesis unfolding step by (metis scanned_trans [OF a(4)])
    qed
  qed
qed simp

lemma tokens_init: "fs_ok L f \<Longrightarrow> tokens L [] [] L f"
  by (simp add: tokens_def)

lemma shell_tokenize_ok:
  assumes "fs_ok L (fs s)" "heap_room (22 * length (str_val input) + k) L (fs_heap (fs s))" "length (token_buffer s) = 256"
    and "str_ok input" "length (str_val input) < 256"
  shows "\<exists>args s' L'. shell_tokenize input mx s = Some (args, s') \<and> tokens L args (take mx (words (str_val input))) L' (fs s') \<and>
    heap_room k L' (fs_heap (fs s')) \<and> untouched s s'"
proof -
  obtain st' cur' args' ws' s' L' where t: "tokenize_loop input mx 0 (- 1) (length ([] :: u8 list)) [] s = Some (st', length cur', args', s')"
    "tokens L args' ws' L' (fs s')" "heap_room (22 * length cur' + k) L' (fs_heap (fs s'))" "untouched s s'"
    "take (length cur') (token_buffer s') = cur'" "0 \<notin> set cur'" "length cur' < 256" "st' \<noteq> - 1 \<longleftrightarrow> cur' \<noteq> []"
    "ws' @ (if cur' = [] \<or> length ws' = mx then [] else [cur']) = take mx (words (str_val input))" "length ws' \<le> mx"
    using tokenize_loop_ok [OF tokens_init [OF assms(1)], of "[]" input k 0 "- 1" mx] assms(2-5) unfolding scanned_def
    by (auto simp: words_from_Nil)
  have len: "length args' = length ws'" using t(2) by (auto simp: tokens_def list_all2_lengthD)
  have tb: "length (token_buffer s') = 256" using t(4) assms(3) by (simp add: untouched_def)
  show ?thesis
  proof (cases "cur' = [] \<or> length ws' = mx")
    case True
    then have "shell_tokenize input mx s = Some (args', s')" using t(1,8) len by (auto simp: shell_tokenize_def)
    moreover have "heap_room k L' (fs_heap (fs s'))" by (rule kr.room_mono [OF t(3)]) simp
    ultimately show ?thesis using t(2,4,9) True by auto
  next
    case False
    then have "shell_tokenize input mx s = add_token (length cur') args' s'" using t(1,8,10) len by (auto simp: shell_tokenize_def)
    moreover have "heap_room (length cur' + 21 + k) L' (fs_heap (fs s'))"
      by (rule kr.room_mono [OF t(3)]) (use False in \<open>cases cur'; simp\<close>)
    ultimately show ?thesis
      using add_token_ok [OF t(2) _ t(5) _ tb t(6), of k] t(4,7,9) False tb untouched_trans by (auto simp: untouched_def)
  qed
qed

section \<open>Freeing the tokens\<close>

lemma token_cong:
  assumes "token L f (Some q) w" "L' q = L q" "q \<notin> file_blocks f'" "\<And>m n. L q = Some m \<Longrightarrow> n \<le> m \<Longrightarrow> read_bytes (fs_bytes f') q n = read_bytes (fs_bytes f) q n"
  shows "token L' f' (Some q) w"
proof -
  obtain m where m: "L q = Some m" "length w + 1 \<le> m" "0 \<notin> set w" "read_bytes (fs_bytes f) q (length w + 1) = w @ [0]"
    using assms(1) by (auto simp: token_def)
  then show ?thesis using assms(2-4) unfolding token_def by (intro exI [of _ q] exI [of _ m]) (simp del: read_bytes.simps)
qed

lemma free_args_ok:
  assumes "tokens L0 args ws L (fs s)"
  shows "\<exists>h. free_args args s = Some (s\<lparr>fs := (fs s)\<lparr>fs_heap := h\<rparr>\<rparr>) \<and> fs_ok L0 ((fs s)\<lparr>fs_heap := h\<rparr>) \<and>
    fs_map ((fs s)\<lparr>fs_heap := h\<rparr>) = fs_map (fs s)"
  using assms
proof (induction args arbitrary: ws L s)
  case Nil
  then show ?case by (intro exI [of _ "fs_heap (fs s)"]) (simp add: tokens_def)
next
  case (Cons a args)
  obtain w ws' where w: "ws = w # ws'" "token L (fs s) a w" "list_all2 (token L (fs s)) args ws'"
    using Cons.prems by (auto simp: tokens_def list_all2_Cons1)
  obtain q m where q: "a = Some q" "L q = Some m" "q \<notin> file_blocks (fs s)" using w(2) by (auto simp: token_def)
  have ok: "fs_ok L (fs s)" and d: "a \<notin> set args" "distinct args" "L0 = (\<lambda>q. if Some q \<in> set (a # args) then None else L q)"
    using Cons.prems by (auto simp: tokens_def)
  obtain h where h: "kfree (Some q) (fs_heap (fs s)) = Some h" "heap_rep (L(q := None)) h"
    using kh.dealloc_some [OF fs_okD(2) [OF ok]] q(2) by blast
  let ?f = "(fs s)\<lparr>fs_heap := h\<rparr>"
  have f: "fs_ok (L(q := None)) ?f" "fs_map ?f = fs_map (fs s)" "file_blocks ?f = file_blocks (fs s)"
    by (rule fs_frame [OF ok, where L' = "L(q := None)"]; use h(2) q(3) in auto)+
  have "token (L(q := None)) ?f b v" if "b \<in> set args" "token L (fs s) b v" for b v
    using that d(1) q(1) f(3) by (auto simp: token_def)
  then have "list_all2 (token (L(q := None)) ?f) args ws'" using w(3) by (auto elim!: list_all2_mono [rotated] simp: list_all2_conv_all_nth)
  then have "tokens L0 args ws' (L(q := None)) ?f" using f(1) d q(1) by (auto simp: tokens_def fun_eq_iff)
  then have "tokens L0 args ws' (L(q := None)) (fs (s\<lparr>fs := ?f\<rparr>))" by simp
  from Cons.IH [OF this] obtain h' where
    "free_args args (s\<lparr>fs := ?f\<rparr>) = Some (s\<lparr>fs := ?f\<lparr>fs_heap := h'\<rparr>\<rparr>)" "fs_ok L0 (?f\<lparr>fs_heap := h'\<rparr>)" "fs_map (?f\<lparr>fs_heap := h'\<rparr>) = fs_map ?f"
    by auto
  then show ?case using h(1) q(1) f(2) by (intro exI [of _ h']) simp
qed

end
