(* ===== verification/Shell_Exec.thy ===== *)
theory Shell_Exec
  imports Shell_Tokens
begin

text \<open>
  What the commands of the shell do to the file system and print, with the tokens of the command line in the heap.
\<close>

section \<open>Printing\<close>

text \<open>The bytes of a literal.\<close>

definition literal :: "string \<Rightarrow> u8 list" where
  "literal s = map of_char s"

text \<open>What handing bytes to the firmware does to the world, and to the system.\<close>

definition emit :: "'w sbi \<Rightarrow> u8 list \<Rightarrow> 'w \<Rightarrow> 'w" where
  "emit f out w = fold (\<lambda>ch w. snd (f [ucast ch, 0, 0, 0, 0, 0, 0, 1] w)) out w"

definition say :: "u8 list \<Rightarrow> 'w sys \<Rightarrow> 'w sys" where
  "say out s = s\<lparr>console := console s @ out, world := emit (firmware s) out (world s)\<rparr>"

lemma emit_simps [simp]: "emit f [] w = w" "emit f b (emit f a w) = emit f (a @ b) w"
  by (simp_all add: emit_def)

lemma say_simps [simp]:
  "say [] s = s" "say b (say a s) = say (a @ b) s" "fs (say out s) = fs s" "shell (say out s) = shell s" "token_buffer (say out s) = token_buffer s"
  "console (say out s) = console s @ out" "first_time (say out s) = first_time s" "firmware (say out s) = firmware s"
  "world (say out s) = emit (firmware s) out (world s)" "say out (s\<lparr>fs := f\<rparr>) = (say out s)\<lparr>fs := f\<rparr>"
  "say out (s\<lparr>shell := sh\<rparr>) = (say out s)\<lparr>shell := sh\<rparr>" "say out (s\<lparr>token_buffer := tb\<rparr>) = (say out s)\<lparr>token_buffer := tb\<rparr>"
  "say out (s\<lparr>first_time := ft\<rparr>) = (say out s)\<lparr>first_time := ft\<rparr>"
  by (simp_all add: say_def)

lemma putchar_say: "putchar ch s = say [ch] s"
  by (simp add: putchar_def say_def emit_def split_beta)

lemma fold_putchar: "fold putchar out s = say out s"
  by (induction out arbitrary: s) (simp_all add: putchar_say)

lemma print_ok: "printf (cstr fmt) args = Some out \<Longrightarrow> print fmt args s = Some (say out s)"
  by (simp add: print_def fold_putchar)

lemmas printf_eval = cstr_def printf_nul printf_lit printf_percent put_ok literal_def

text \<open>\<open>says s s'\<close>: the only difference between the states is text that went to the console.\<close>

definition says :: "'w sys \<Rightarrow> 'w sys \<Rightarrow> bool" where
  "says s s' \<longleftrightarrow> (\<exists>out. s' = say out s)"

lemma says_refl: "says s s"
  unfolding says_def by (intro exI [of _ "[]"]) simp

lemma says_trans: "says s s' \<Longrightarrow> says s' s'' \<Longrightarrow> says s s''"
proof -
  assume "says s s'" "says s' s''"
  then obtain a b where "s' = say a s" "s'' = say b s'" by (auto simp: says_def)
  then have "s'' = say (a @ b) s" by simp
  then show ?thesis unfolding says_def ..
qed

lemma print_says: "printf (cstr fmt) args = Some out \<Longrightarrow> \<exists>s'. print fmt args s = Some s' \<and> says s s'"
  by (auto simp: print_ok says_def)

lemma says_fs [simp]: "says s s' \<Longrightarrow> fs s' = fs s \<and> shell s' = shell s \<and> token_buffer s' = token_buffer s \<and> first_time s' = first_time s \<and> firmware s' = firmware s"
  by (auto simp: says_def)

lemma bind_says:
  assumes "\<exists>s1. a = Some s1 \<and> says s s1" "\<And>s1. says s s1 \<Longrightarrow> \<exists>s2. f s1 = Some s2 \<and> says s1 s2"
  shows "\<exists>s2. Option.bind a f = Some s2 \<and> says s s2"
  using assms says_trans by fastforce

section \<open>Numbers\<close>

definition digit :: "u8 \<Rightarrow> bool" where
  "digit c \<longleftrightarrow> 48 \<le> c \<and> c \<le> 57"

text \<open>The number that a string starts with.\<close>

definition number :: "u8 list \<Rightarrow> int" where
  "number s = foldl (\<lambda>n c. n * 10 + (uint c - 48)) 0 (takeWhile digit s)"

lemma digit_range: "digit c \<Longrightarrow> 0 \<le> uint c - 48 \<and> uint c - 48 \<le> 9"
  by (auto simp: digit_def word_le_def)

lemma number_mono: "0 \<le> r \<Longrightarrow> list_all digit ds \<Longrightarrow> r \<le> foldl (\<lambda>n c. n * 10 + (uint c - 48)) r ds"
proof (induction ds arbitrary: r)
  case (Cons c ds)
  have "0 \<le> uint c - 48" using Cons.prems digit_range by simp
  then have "r \<le> r * 10 + (uint c - 48)" "0 \<le> r * 10 + (uint c - 48)" using Cons.prems(1) by linarith+
  then show ?case using Cons.IH [of "r * 10 + (uint c - 48)"] Cons.prems(2) by simp
qed simp

lemma str_to_int_loop_ok:
  "0 \<le> r \<Longrightarrow> r < 2 ^ 31 \<Longrightarrow> str_ok s \<Longrightarrow> str_to_int_loop r s =
    (let v = foldl (\<lambda>n c. n * 10 + (uint c - 48)) r (takeWhile digit s) in if v < 2 ^ 31 then Some v else None)"
proof (induction s arbitrary: r)
  case (Cons c s)
  show ?case
  proof (cases "digit c")
    case False
    then show ?thesis using Cons.prems by (auto simp: digit_def)
  next
    case True
    let ?r = "r * 10 + (uint c - 48)"
    have "c \<noteq> 0" using True by (auto simp: digit_def)
    then have "0 \<le> ?r" "str_ok s" using Cons.prems digit_range [OF True] by simp_all
    moreover have "?r \<le> foldl (\<lambda>n c. n * 10 + (uint c - 48)) ?r (takeWhile digit s)"
      by (rule number_mono [OF calculation(1)]) (auto simp: list_all_iff dest: set_takeWhileD)
    moreover have "str_to_int_loop r (c # s) = (if ?r < 2 ^ 31 then str_to_int_loop ?r s else None)" using True by (simp add: digit_def Let_def)
    ultimately show ?thesis using Cons.IH [of ?r] True unfolding Let_def by (simp del: str_to_int_loop.simps)
  qed
qed simp

lemma str_to_int_ok: "str_ok s \<Longrightarrow> str_to_int s = (if number s < 2 ^ 31 then Some (number s) else None)"
  using str_to_int_loop_ok [of 0 s] by (simp add: str_to_int_def number_def Let_def)

lemma digit_not_nul: "digit c \<Longrightarrow> c \<noteq> 0"
  by (auto simp: digit_def)

lemma number_str_val: "number (str_val s) = number s"
proof -
  have "takeWhile digit (str_val s) = takeWhile digit s" by (induction s) (auto dest: digit_not_nul)
  then show ?thesis by (simp add: number_def)
qed

lemma number_snoc: "list_all digit s \<Longrightarrow> digit c \<Longrightarrow> number (s @ [c]) = number s * 10 + (uint c - 48)"
  by (simp add: number_def list_all_iff takeWhile_append takeWhile_eq_all_conv [THEN iffD2])

lemma dec_number: "list_all digit (dec n) \<and> number (dec n) = int n"
proof (induction n rule: dec.induct)
  case (1 n)
  have d: "digit (48 + of_nat k) \<and> uint (48 + of_nat k :: u8) - 48 = int k" if "k < 10" for k :: nat
  proof -
    have "unat (48 + of_nat k :: u8) = 48 + k" using that unat_digit [of k] by simp
    then show ?thesis using that by (simp add: digit_def word_le_nat_alt uint_nat)
  qed
  show ?case
  proof (cases "n < 10")
    case True
    then show ?thesis using d [of n] by (simp add: dec.simps [of n] number_def)
  next
    case False
    have "number (dec n) = int (n div 10) * 10 + int (n mod 10)"
      using 1 False d [of "n mod 10"] number_snoc [of "dec (n div 10)"] by (simp add: dec.simps [of n])
    moreover have "int (n div 10) * 10 + int (n mod 10) = int n" by (simp add: zdiv_int zmod_int)
    ultimately show ?thesis using 1 False d [of "n mod 10"] by (simp add: dec.simps [of n])
  qed
qed

section \<open>Command names\<close>

lemma streq_ok:
  assumes "str_ok cmd" "0 \<notin> set (literal lit)"
  shows "streq cmd lit = Some (str_val cmd = literal lit)"
proof -
  have lit: "str_ok (cstr lit)" "str_val (cstr lit) = literal lit"
    using str_val_append [OF assms(2), of "[]"] by (simp_all add: cstr_def literal_def)
  then obtain r where r: "strcmp cmd (cstr lit) = Some r" using strcmp_total [OF assms(1)] by blast
  then show ?thesis using strcmp_eq [OF assms(1) lit(1) r] lit(2) by (simp add: streq_def)
qed

section \<open>Commands that only print\<close>

lemma print_saysI: "printf (cstr fmt) args \<noteq> None \<Longrightarrow> \<exists>s'. print fmt args s = Some s' \<and> says s s'"
  using print_says by blast

lemma cmd_help_says: "\<exists>s'. cmd_help s = Some s' \<and> says s s'"
  unfolding cmd_help_def by (intro bind_says print_saysI) (simp_all add: printf_eval)

lemma cmd_clear_says: "\<exists>s'. cmd_clear s = Some s' \<and> says s s'"
  unfolding cmd_clear_def by (rule print_saysI) (simp add: printf_eval)

lemma list_files_says:
  "list_all (\<lambda>f. is_used f \<longrightarrow> str_ok (name f)) fl \<Longrightarrow> \<exists>s'. list_files fl s = Some s' \<and> says s s'"
proof (induction fl arbitrary: s)
  case (Cons f fl)
  show ?case
  proof (cases "is_used f")
    case True
    then show ?thesis using Cons by (simp, intro bind_says print_saysI) (simp_all add: printf_eval)
  qed (use Cons in simp)
qed (simp add: says_refl)

lemma fs_ok_names: "fs_ok L f \<Longrightarrow> list_all (\<lambda>f. is_used f \<longrightarrow> str_ok (name f)) (files f)"
proof -
  assume ok: "fs_ok L f"
  have "is_used (files f ! i) \<longrightarrow> str_ok (name (files f ! i))" if "i < length (files f)" for i
    using fs_ok_name [OF ok, of i] that fs_okD(1) [OF ok] by (auto simp: used_def simp del: upt_conv_Cons)
  then show ?thesis by (simp add: list_all_length)
qed

lemma cmd_ls_says:
  assumes "fs_ok L (fs s)" shows "\<exists>s'. cmd_ls s = Some s' \<and> says s s'"
  unfolding cmd_ls_def sys_fs_list_def
proof (intro bind_says)
  show "\<exists>s1. print ''\<newline>=== File System Listing ===\<newline>'' [] s = Some s1 \<and> says s s1"
    by (rule print_saysI) (simp add: printf_eval)
next
  fix s1 :: "'a sys" assume s1: "says s s1"
  show "\<exists>s2. print ''Files: %d/%d\<newline>'' [Va32 (word_of_int (file_count (fs s1))), Va32 32] s1 = Some s2 \<and> says s1 s2"
    by (rule print_saysI) (simp add: printf_eval)
  fix s2 assume "says s1 s2"
  then have "fs s2 = fs s" using s1 by simp
  then show "\<exists>s3. (if file_count (fs s2) = 0 then print ''No files in filesystem\<newline>'' [] s2 else list_files (files (fs s2)) s2) = Some s3 \<and> says s2 s3"
    using list_files_says [OF fs_ok_names [OF assms], of s2] print_saysI [of "''No files in filesystem\<newline>''" "[]" s2] by (simp add: printf_eval)
qed

lemma cmd_memstat_says:
  assumes "fs_ok L (fs s)" shows "\<exists>s'. cmd_memstat s = Some s' \<and> says s s'"
proof -
  obtain bs where "heap_ok bs (fs_heap (fs s))" using fs_okD(2) [OF assms] by (auto simp: heap_rep_def)
  then obtain a b c where "print_memory_stats (fs_heap (fs s)) = Some (a, b, c)" using memory_stats_conserved by blast
  then show ?thesis unfolding cmd_memstat_def sys_memory_stats_def
    by (simp only: Option.bind.bind_lunit prod.case) (rule print_saysI, simp add: printf_eval)
qed

section \<open>cat\<close>

lemma cat_loop_ok: "cat_loop buf s = say (str_val buf) s"
  by (induction buf s rule: cat_loop.induct) (simp_all add: putchar_say)

text \<open>What \<open>cat\<close> prints of an existing file: a line of \<open>fs_read\<close>, a title and the bytes up to the first NUL.\<close>

definition cat_text :: "u8 list \<Rightarrow> u8 list \<Rightarrow> u8 list" where
  "cat_text n c = literal ''Read '' @ dec_int (int (min 1024 (length c))) @ literal '' bytes from file '' @ [39] @ n @ [39, 10] @
     (if c = [] then [] else literal ''Content of '' @ n @ [58, 10] @ str_val (take 1024 c) @ [10])"

lemma sint_small: "0 \<le> k \<Longrightarrow> k < 2 ^ 31 \<Longrightarrow> sint (word_of_int k :: u32) = k"
  by (simp add: signed_of_int signed_take_bit_int_eq_self)

lemma cmd_cat_ok:
  assumes ok: "fs_ok L (fs s)" and fn: "str_ok filename"
  shows "cmd_cat filename s = Some (say
    (case fs_map (fs s) (str_val filename) of None \<Rightarrow> literal ''File '' @ [39] @ str_val filename @ [39] @ literal '' not found\<newline>''
     | Some c \<Rightarrow> cat_text (str_val filename) c) s)"
proof (cases "fs_map (fs s) (str_val filename)")
  case None
  then show ?thesis using fs_read_ok [OF ok fn, of 1024] fn
    by (simp add: cmd_cat_def sys_fs_read_def print_def fold_putchar printf_eval)
next
  case (Some c)
  let ?n = "min 1024 (length c)"
  have "sint (word_of_int (int ?n) :: u32) = int ?n" by (rule sint_small) simp_all
  moreover have "fs_read filename 1024 (fs s) = Some (int ?n, take 1024 c)" using fs_read_ok [OF ok fn, of 1024] Some by simp
  moreover have "take ?n (take 1024 c) = take 1024 c" by (simp add: min_def)
  ultimately show ?thesis using fn Some unfolding cmd_cat_def sys_fs_read_def print_def fold_putchar
    by (cases c) (simp_all add: printf_eval cat_loop_ok cat_text_def)
qed

section \<open>Tokens and the file system\<close>

lemma token_str:
  assumes "token L f (Some q) w" "heap_rep L h"
  shows "str_ok (heap_from (fs_bytes f) q)" "str_val (heap_from (fs_bytes f) q) = w"
proof -
  obtain m where m: "L q = Some m" "length w + 1 \<le> m" "0 \<notin> set w" "read_bytes (fs_bytes f) q (length w + 1) = w @ [0]"
    using assms(1) by (auto simp: token_def)
  have "length w + 1 \<le> HEAP_SIZE - unat q" using heap_rep_inside [OF assms(2) m(1)] m(2) by simp
  then have "take (length w + 1) (heap_from (fs_bytes f) q) = w @ [0]"
    unfolding heap_from_def using m(4) by (simp add: take_read_bytes del: read_bytes.simps)
  then obtain r where "heap_from (fs_bytes f) q = w @ 0 # r" by (metis append_take_drop_id append.assoc append_Cons append_Nil)
  then show "str_ok (heap_from (fs_bytes f) q)" "str_val (heap_from (fs_bytes f) q) = w" using str_val_append [OF m(3)] by simp_all
qed

lemma tokens_arg:
  assumes "tokens L0 args ws L (fs s)" "i < length ws"
  obtains a where "arg_str s (args ! i) = Some a" "str_ok a" "str_val a = ws ! i"
proof -
  have "list_all2 (token L (fs s)) args ws" "fs_ok L (fs s)" using assms(1) by (auto simp: tokens_def)
  then have t: "token L (fs s) (args ! i) (ws ! i)" "heap_rep L (fs_heap (fs s))"
    using assms(2) fs_okD(2) by (auto simp: list_all2_conv_all_nth)
  then obtain q where "args ! i = Some q" by (auto simp: token_def)
  then show thesis using that token_str [of L "fs s" q "ws ! i"] t by (simp add: arg_str_def)
qed

lemma tokens_length: "tokens L0 args ws L f \<Longrightarrow> length args = length ws"
  by (auto simp: tokens_def list_all2_lengthD)

lemma token_block: "list_all2 (token L f) args ws \<Longrightarrow> Some q \<in> set args \<Longrightarrow> L q \<noteq> None \<and> q \<notin> file_blocks f"
  by (auto simp: list_all2_conv_all_nth in_set_conv_nth token_def)

lemma tokens_step:
  assumes t: "tokens L0 args ws L f" and f': "fs_ok L' f'" "fs_bytes f' = fs_bytes f"
    and L': "\<And>q. Some q \<in> set args \<Longrightarrow> L' q = L q \<and> q \<notin> file_blocks f'"
    and L0': "L0' = (\<lambda>q. if Some q \<in> set args then None else L' q)"
  shows "tokens L0' args ws L' f'"
proof -
  have "list_all2 (token L f) args ws" "distinct args" using t by (auto simp: tokens_def)
  moreover have "token L' f' a w" if a: "a \<in> set args" "token L f a w" for a w
  proof -
    obtain q where q: "a = Some q" using a(2) by (auto simp: token_def)
    show ?thesis unfolding q by (rule token_cong [OF a(2) [unfolded q]]) (use L' [of q] a(1) q f'(2) in auto)
  qed
  ultimately show ?thesis using f'(1) L0' unfolding tokens_def by (auto simp: list_all2_conv_all_nth)
qed

section \<open>create and delete\<close>

lemma bind_console:
  assumes "\<exists>s1. a = Some s1 \<and> says s s1"
  shows "\<exists>out. do { s \<leftarrow> a; Some (r, s\<lparr>fs := f\<rparr>) } = Some (r, (say out s)\<lparr>fs := f\<rparr>)"
proof -
  obtain s1 out where "a = Some s1" "s1 = say out s" using assms unfolding says_def by blast
  then show ?thesis by (intro exI [of _ out]) simp
qed

lemma if_says:
  "(P \<Longrightarrow> \<exists>s1. a = Some s1 \<and> says s s1) \<Longrightarrow> (\<not> P \<Longrightarrow> \<exists>s1. b = Some s1 \<and> says s s1) \<Longrightarrow>
   \<exists>s1. (if P then a else b) = Some s1 \<and> says s s1"
  by simp

lemma sys_fs_create_prints:
  assumes "fs_create filename sz (fs s) = Some (r, f)" "fs_exists filename (fs s) = Some b" "str_ok filename"
  shows "\<exists>out. sys_fs_create filename sz s = Some (r, (say out s)\<lparr>fs := f\<rparr>)"
proof -
  let ?msg = "if sz > MAX_FILESIZE then print ''File size too large: %d bytes (max: %d)\<newline>'' [Va32 sz, Va32 MAX_FILESIZE] s
    else if b then print ''File '%s' already exists\<newline>'' [VaStr filename] s
    else if r \<noteq> - 1 then print ''Created file '%s' (%d bytes)\<newline>'' [VaStr filename, Va32 sz] s
    else if list_all is_used (files (fs s)) then print ''No free file slots available\<newline>'' [] s
    else do {
      s \<leftarrow> (if sz = 0 then Some s else print ''kmalloc failed: no suitable block found\<newline>'' [] s);
      print ''Failed to allocate memory for file '%s'\<newline>'' [VaStr filename] s }"
  have "\<exists>s1. ?msg = Some s1 \<and> says s s1"
    by (intro if_says bind_says print_saysI) (simp_all add: printf_eval assms(3) says_refl)
  from bind_console [OF this, of r f] show ?thesis
    using assms(1,2) by (simp only: sys_fs_create_def Option.bind.bind_lunit prod.case)
qed

lemma fs_exists_ok: "fs_ok L f \<Longrightarrow> str_ok filename \<Longrightarrow> \<exists>b. fs_exists filename f = Some b"
  using find_used by (simp add: fs_exists_def)

text \<open>A request of at most 1024 bytes succeeds when there is room.\<close>

lemma room_not_null:
  assumes "heap_room 1044 L h" "0 < unat sz" "unat sz \<le> 1024" shows "kmalloc sz h \<noteq> Some (NULL, h')"
proof -
  have "heap_room (unat sz + 20 + 0) L h" by (rule kr.room_mono [OF assms(1)]) (use assms(3) in simp)
  moreover have "sz \<noteq> 0" using assms(2) by auto
  ultimately show ?thesis using kr.room_alloc [of sz 0 L h] assms(3) by auto
qed

lemma sys_fs_create_ok:
  assumes t: "tokens L0 args ws L (fs s)" and fn: "str_ok filename" "length (str_val filename) < MAX_FILENAME"
    and room: "heap_room 1044 L (fs_heap (fs s))" and sz: "0 < unat sz" "unat sz \<le> 1024"
  shows "\<exists>r out f' L0' L'. sys_fs_create filename sz s = Some (r, (say out s)\<lparr>fs := f'\<rparr>) \<and> tokens L0' args ws L' f' \<and>
    (if str_val filename \<in> dom (fs_map (fs s)) \<or> card (dom (fs_map (fs s))) = MAX_FILES then L0' = L0 \<and> fs_map f' = fs_map (fs s)
     else (\<exists>q m. q \<notin> dom L0 \<and> L0' = L0(q \<mapsto> m)) \<and>
       (\<exists>c. length c = unat sz \<and> fs_map f' = (fs_map (fs s))(str_val filename \<mapsto> c)))"
proof -
  have ok: "fs_ok L (fs s)" and la: "list_all2 (token L (fs s)) args ws"
    and L0: "L0 = (\<lambda>q. if Some q \<in> set args then None else L q)" using t by (auto simp: tokens_def)
  obtain b where b: "fs_exists filename (fs s) = Some b" using fs_exists_ok [OF ok fn(1)] by blast
  have sz': "\<not> sz > MAX_FILESIZE" using sz(2) by (simp add: word_less_nat_alt)
  show ?thesis
  proof (cases rule: create_ok_cases [OF ok fn, of sz, case_names failed created])
    case (failed f')
    have "tokens L0 args ws L f'"
      by (rule tokens_step [OF t failed(2,5) _ L0]) (use failed(4) token_block [OF la] in auto)
    moreover have "str_val filename \<in> dom (fs_map (fs s)) \<or> card (dom (fs_map (fs s))) = MAX_FILES"
      using failed(6) sz' room_not_null [OF room sz] by blast
    ultimately show ?thesis using sys_fs_create_prints [OF failed(1) b fn(1)] failed(3) by auto
  next
    case (created i f' q m)
    have new: "Some q \<notin> set args" using token_block [OF la, of q] created(8) by auto
    have "tokens (L0(q \<mapsto> m)) args ws (L(q \<mapsto> m)) f'"
      by (rule tokens_step [OF t created(2,10)]) (use created(8,9) new token_block [OF la] L0 in auto)
    moreover have "q \<notin> dom L0" using created(8) L0 new by (simp add: domIff)
    moreover have "\<exists>c. length c = unat sz \<and> fs_map f' = (fs_map (fs s))(str_val filename \<mapsto> c)"
      using created(7) length_read_bytes by blast
    moreover have "\<not> (str_val filename \<in> dom (fs_map (fs s)) \<or> card (dom (fs_map (fs s))) = MAX_FILES)" using created(5,6) by simp
    moreover obtain out where "sys_fs_create filename sz s = Some (int i, (say out s)\<lparr>fs := f'\<rparr>)"
      using sys_fs_create_prints [OF created(1) b fn(1)] by blast
    ultimately show ?thesis by (simp only: if_False) blast
  qed
qed

lemma sys_fs_delete_ok:
  assumes t: "tokens L0 args ws L (fs s)" and fn: "str_ok filename"
  shows "\<exists>r out f' L0' L'. sys_fs_delete filename s = Some (r, (say out s)\<lparr>fs := f'\<rparr>) \<and> tokens L0' args ws L' f' \<and>
    fs_map f' = (fs_map (fs s))(str_val filename := None) \<and>
    (if str_val filename \<in> dom (fs_map (fs s)) then \<exists>q \<in> dom L0. L0' = L0(q := None) else L0' = L0)"
proof -
  have ok: "fs_ok L (fs s)" and la: "list_all2 (token L (fs s)) args ws"
    and L0: "L0 = (\<lambda>q. if Some q \<in> set args then None else L q)" using t by (auto simp: tokens_def)
  obtain f' L' where f': "fs_ok L' f'" "fs_map f' = (fs_map (fs s))(str_val filename := None)"
    "fs_delete filename (fs s) = Some (if fs_map (fs s) (str_val filename) = None then - 1 else 0, f')"
    "if fs_map (fs s) (str_val filename) = None then L' = L \<and> file_blocks f' = file_blocks (fs s)
     else \<exists>p \<in> file_blocks (fs s). L' = L(p := None) \<and> file_blocks f' = file_blocks (fs s) - {p}" "fs_bytes f' = fs_bytes (fs s)"
    using fs_delete_ok [OF ok fn] .
  let ?r = "if fs_map (fs s) (str_val filename) = None then - 1 else 0 :: int"
  have "\<exists>s1. (if ?r = - 1 then print ''File '%s' not found\<newline>'' [VaStr filename] s
      else print ''Deleted file '%s'\<newline>'' [VaStr filename] s) = Some s1 \<and> says s s1"
    by (intro if_says print_saysI) (simp_all add: printf_eval fn)
  from bind_console [OF this, of ?r f'] have run: "\<exists>out. sys_fs_delete filename s = Some (?r, (say out s)\<lparr>fs := f'\<rparr>)"
    unfolding sys_fs_delete_def f'(3) by (simp only: Option.bind.bind_lunit prod.case)
  have "\<exists>L0'. tokens L0' args ws L' f' \<and>
    (if str_val filename \<in> dom (fs_map (fs s)) then \<exists>q \<in> dom L0. L0' = L0(q := None) else L0' = L0)"
  proof (cases "fs_map (fs s) (str_val filename) = None")
    case True
    then have "tokens L0 args ws L' f'"
      by (intro tokens_step [OF t f'(1,5)]) (use f'(4) token_block [OF la] L0 in auto)
    then show ?thesis using True by (auto simp: domIff)
  next
    case False
    then obtain p where p: "p \<in> file_blocks (fs s)" "L' = L(p := None)" "file_blocks f' = file_blocks (fs s) - {p}" using f'(4) by auto
    have new: "Some p \<notin> set args" using token_block [OF la, of p] p(1) by auto
    have "tokens (L0(p := None)) args ws L' f'"
      by (rule tokens_step [OF t f'(1,5)]) (use p new token_block [OF la] L0 in auto)
    moreover have "p \<in> dom L0" using file_blocks_dom [OF ok] p(1) new L0 by (auto simp: domIff)
    ultimately show ?thesis using False by (auto simp: domIff)
  qed
  then show ?thesis using run f'(2) by blast
qed

section \<open>echo\<close>

fun join :: "u8 list list \<Rightarrow> u8 list" where
  "join [] = []"
| "join [w] = w"
| "join (w # ws) = w @ 32 # join ws"

lemma echo_loop_ok:
  assumes "\<And>i s'. i < length ws \<Longrightarrow> says s s' \<Longrightarrow> \<exists>a. str s' (args ! i) = Some a \<and> str_ok a \<and> str_val a = ws ! i" "i \<le> length ws"
  shows "echo_loop str args (length ws) [i..<length ws] s = Some (say (join (drop i ws)) s)"
  using assms
proof (induction "length ws - i" arbitrary: i s)
  case (Suc n)
  then have i: "i < length ws" by simp
  obtain a where a: "str s (args ! i) = Some a" "str_ok a" "str_val a = ws ! i" using Suc.prems(1) [OF i says_refl] by blast
  have upt: "[i..<length ws] = i # [Suc i..<length ws]" using i by (rule upt_conv_Cons)
  let ?s = "say (ws ! i @ (if i < length ws - 1 then [32] else [])) s"
  have s: "says s ?s" unfolding says_def by blast
  have "echo_loop str args (length ws) [i..<length ws] s = echo_loop str args (length ws) [Suc i..<length ws] ?s"
    unfolding upt using a by (simp add: print_def fold_putchar printf_eval)
  also have "\<dots> = Some (say (join (drop (Suc i) ws)) ?s)"
    by (rule Suc.hyps(1)) (use Suc.hyps(2) i Suc.prems(1) says_trans [OF s] in auto)
  also have "say (join (drop (Suc i) ws)) ?s = say (join (drop i ws)) s"
  proof -
    have "i < length ws - 1 \<longleftrightarrow> drop (Suc i) ws \<noteq> []" by auto
    then show ?thesis using Cons_nth_drop_Suc [OF i, symmetric] by (cases "drop (Suc i) ws") simp_all
  qed
  finally show ?case by simp
qed simp

lemma cmd_echo_prints:
  assumes "\<And>i s'. i < length ws \<Longrightarrow> says s s' \<Longrightarrow> \<exists>a. str s' (args ! i) = Some a \<and> str_ok a \<and> str_val a = ws ! i" "ws \<noteq> []"
  shows "cmd_echo str args (length ws) s = Some (say (join (tl ws) @ [10]) s)"
proof -
  have "echo_loop str args (length ws) [1..<length ws] s = Some (say (join (drop 1 ws)) s)"
    by (rule echo_loop_ok [OF assms(1)]) (use assms(2) in \<open>simp_all add: Suc_le_eq\<close>)
  then show ?thesis using assms(2) by (simp add: cmd_echo_def print_def fold_putchar printf_eval drop_Suc)
qed

lemma cmd_echo_ok:
  assumes "tokens L0 args ws L (fs s)" "ws \<noteq> []"
  shows "cmd_echo arg_str args (length ws) s = Some (say (join (tl ws) @ [10]) s)"
proof (rule cmd_echo_prints [OF _ assms(2)])
  fix i and s' :: "'a sys" assume i: "i < length ws" "says s s'"
  then have "tokens L0 args ws L (fs s')" using assms(1) by simp
  from tokens_arg [OF this i(1)] show "\<exists>a. arg_str s' (args ! i) = Some a \<and> str_ok a \<and> str_val a = ws ! i" by blast
qed

section \<open>Executing a command\<close>

lemma command_names: "\<forall>l \<in> {''help'', ''ls'', ''cat'', ''create'', ''delete'', ''memstat'', ''clear'', ''echo'', ''exit''}. 0 \<notin> set (literal l)"
  by (simp add: literal_def)

lemma dispatch:
  assumes "str_ok cmd"
  shows "shell_execute_command cmd args argc s = (let c = str_val cmd in
     if c = literal ''help'' then cmd_help s
     else if c = literal ''ls'' then cmd_ls s
     else if c = literal ''cat'' then
       (if argc > 1 then do { a \<leftarrow> arg_str s (args ! 1); cmd_cat a s } else print ''Usage: cat <filename>\<newline>'' [] s)
     else if c = literal ''create'' then
       (if argc > 2 then do { a \<leftarrow> arg_str s (args ! 1); n \<leftarrow> arg_str s (args ! 2); cmd_create a n s }
        else print ''Usage: create <filename> <size>\<newline>'' [] s)
     else if c = literal ''delete'' then
       (if argc > 1 then do { a \<leftarrow> arg_str s (args ! 1); cmd_delete a s } else print ''Usage: delete <filename>\<newline>'' [] s)
     else if c = literal ''memstat'' then cmd_memstat s
     else if c = literal ''clear'' then cmd_clear s
     else if c = literal ''echo'' then cmd_echo arg_str args argc s
     else if c = literal ''exit'' then print ''Goodbye!\<newline>'' [] (s\<lparr>shell := (shell s)\<lparr>running := False\<rparr>\<rparr>)
     else do {
       s \<leftarrow> print ''Unknown command: %s\<newline>'' [VaStr cmd] s;
       print ''Type 'help' for available commands\<newline>'' [] s })"
  using command_names streq_ok [OF assms] unfolding shell_execute_command_def Let_def by (simp only: Option.bind.bind_lunit insert_iff ball_simps simp_thms)

text \<open>The effect of a command line on the files \<open>M\<close> and the heap blocks \<open>L\<close>.\<close>

definition command_effect :: "u8 list list \<Rightarrow> (u8 list \<rightharpoonup> u8 list) \<Rightarrow> (u32 \<rightharpoonup> nat) \<Rightarrow> (u8 list \<rightharpoonup> u8 list) \<Rightarrow> (u32 \<rightharpoonup> nat) \<Rightarrow> bool" where
  "command_effect ws M L M' L' \<longleftrightarrow>
     (if hd ws = literal ''create'' \<and> 2 < length ws \<and> 1 \<le> number (ws ! 2) \<and> number (ws ! 2) \<le> 1024 \<and>
        ws ! 1 \<notin> dom M \<and> card (dom M) \<noteq> MAX_FILES then
        (\<exists>c. int (length c) = number (ws ! 2) \<and> M' = M(ws ! 1 \<mapsto> c)) \<and> (\<exists>q m. q \<notin> dom L \<and> L' = L(q \<mapsto> m))
      else if hd ws = literal ''delete'' \<and> 1 < length ws \<and> ws ! 1 \<in> dom M then
        M' = M(ws ! 1 := None) \<and> (\<exists>q \<in> dom L. L' = L(q := None))
      else M' = M \<and> L' = L)"

text \<open>What \<open>echo\<close> and \<open>cat\<close> print.\<close>

definition command_prints :: "u8 list list \<Rightarrow> (u8 list \<rightharpoonup> u8 list) \<Rightarrow> u8 list \<Rightarrow> bool" where
  "command_prints ws M out \<longleftrightarrow>
     (hd ws = literal ''echo'' \<longrightarrow> out = join (tl ws) @ [10]) \<and>
     (hd ws = literal ''cat'' \<and> 1 < length ws \<longrightarrow> out = (case M (ws ! 1) of
        None \<Rightarrow> literal ''File '' @ [39] @ ws ! 1 @ [39] @ literal '' not found\<newline>'' | Some c \<Rightarrow> cat_text (ws ! 1) c))"

definition command_ok :: "u8 list list \<Rightarrow> bool" where
  "command_ok ws \<longleftrightarrow> (hd ws = literal ''create'' \<and> 2 < length ws \<longrightarrow> length (ws ! 1) < MAX_FILENAME \<and> number (ws ! 2) < 2 ^ 31)"

text \<open>A command has been executed: the effect, the output, and the tokens are still there.\<close>

definition executed :: "(u32 \<rightharpoonup> nat) \<Rightarrow> u32 ptr list \<Rightarrow> u8 list list \<Rightarrow> 'w sys \<Rightarrow> 'w sys \<Rightarrow> bool" where
  "executed L0 args ws s s' \<longleftrightarrow> (\<exists>L0' L' out. tokens L0' args ws L' (fs s') \<and>
     command_effect ws (fs_map (fs s)) L0 (fs_map (fs s')) L0' \<and> command_prints ws (fs_map (fs s)) out \<and>
     s' = (say out s)\<lparr>fs := fs s', shell := (shell s)\<lparr>running := running (shell s) \<and> hd ws \<noteq> literal ''exit''\<rparr>\<rparr>)"

lemma literal_eq: "literal a = literal b \<longleftrightarrow> a = b"
proof -
  have "inj (of_char :: char \<Rightarrow> u8)"
  proof (rule injI)
    fix a b :: char
    have u: "unat (of_char x :: u8) = of_char x" for x
    proof -
      have "unat (of_nat (of_char x) :: u8) = of_char x" using nat_of_char_less_256 [of x] by (simp add: unsigned_of_nat take_bit_nat_eq_self)
      then show ?thesis by (simp only: of_nat_of_char)
    qed
    assume "(of_char a :: u8) = of_char b"
    then have "(of_char a :: nat) = of_char b" using u by metis
    then show "a = b" by (simp only: of_char_eq_iff)
  qed
  then show ?thesis by (simp add: literal_def inj_map_eq_map)
qed

lemma executed_says:
  assumes "tokens L0 args ws L (fs s)" "\<exists>s'. r = Some s' \<and> says s s'" "hd ws = literal ''create'' \<Longrightarrow> length ws \<le> 2 \<or> number (ws ! 2) < 1 \<or> 1024 < number (ws ! 2)"
    and "hd ws = literal ''delete'' \<Longrightarrow> length ws \<le> 1" "hd ws \<noteq> literal ''echo''" "hd ws = literal ''cat'' \<Longrightarrow> length ws \<le> 1" "hd ws \<noteq> literal ''exit''"
  shows "\<exists>s'. r = Some s' \<and> executed L0 args ws s s'"
proof -
  obtain out where r: "r = Some (say out s)" using assms(2) unfolding says_def by blast
  have "command_effect ws (fs_map (fs s)) L0 (fs_map (fs s)) L0" using assms(3,4) by (auto simp: command_effect_def)
  moreover have "command_prints ws (fs_map (fs s)) out" using assms(5,6) by (auto simp: command_prints_def)
  ultimately show ?thesis using assms(1,7) r unfolding executed_def
    by (intro exI [of _ "say out s"] conjI exI [of _ L0] exI [of _ L] exI [of _ out]) simp_all
qed

lemma executed_out:
  assumes "tokens L0 args ws L (fs s)" "r = Some (say out s)" "command_prints ws (fs_map (fs s)) out"
    and "hd ws \<in> {literal ''echo'', literal ''cat''}"
  shows "\<exists>s'. r = Some s' \<and> executed L0 args ws s s'"
proof -
  have "command_effect ws (fs_map (fs s)) L0 (fs_map (fs s)) L0" "hd ws \<noteq> literal ''exit''"
    using assms(4) by (auto simp: command_effect_def literal_eq)
  then show ?thesis using assms(1-3) unfolding executed_def
    by (intro exI [of _ "say out s"] conjI exI [of _ L0] exI [of _ L] exI [of _ out]) simp_all
qed

lemma execute_create:
  assumes t: "tokens L0 args ws L (fs s)" and room: "heap_room 1044 L (fs_heap (fs s))" and ok: "command_ok ws"
    and c: "hd ws = literal ''create''" "2 < length ws"
    and a: "str_ok a" "str_val a = ws ! 1" "str_ok n" "str_val n = ws ! 2"
  shows "\<exists>s'. cmd_create a n s = Some s' \<and> executed L0 args ws s s'"
proof -
  have num: "number n = number (ws ! 2)" using number_str_val [of n] a(4) by simp
  then have n: "str_to_int n = Some (number (ws ! 2))" using str_to_int_ok [OF a(3)] ok c by (simp add: command_ok_def)
  show ?thesis
  proof (cases "number (ws ! 2) \<le> 0 \<or> number (ws ! 2) > 1024")
    case True
    then have "cmd_create a n s = print ''Invalid size. Must be 1-%d bytes\<newline>'' [Va32 MAX_FILESIZE] s" using n by (simp add: cmd_create_def)
    moreover have "\<exists>s'. print ''Invalid size. Must be 1-%d bytes\<newline>'' [Va32 MAX_FILESIZE] s = Some s' \<and> says s s'"
      by (rule print_saysI) (simp add: printf_eval)
    ultimately show ?thesis using executed_says [OF t, of "cmd_create a n s"] True c by (auto simp: literal_eq)
  next
    case False
    let ?sz = "word_of_int (number (ws ! 2)) :: u32"
    have u: "int (unat ?sz) = number (ws ! 2)" using False uint_small [of "number (ws ! 2)", where ?'a = 32] by simp
    have pz: "0 < unat ?sz" "unat ?sz \<le> 1024" using u False by linarith+
    have len: "length (str_val a) < MAX_FILENAME" using ok c a(2) by (simp add: command_ok_def)
    obtain r out f' L0' L' where e: "sys_fs_create a ?sz s = Some (r, (say out s)\<lparr>fs := f'\<rparr>)" "tokens L0' args ws L' f'"
      "if ws ! 1 \<in> dom (fs_map (fs s)) \<or> card (dom (fs_map (fs s))) = MAX_FILES then L0' = L0 \<and> fs_map f' = fs_map (fs s)
       else (\<exists>q m. q \<notin> dom L0 \<and> L0' = L0(q \<mapsto> m)) \<and> (\<exists>c. length c = unat ?sz \<and> fs_map f' = (fs_map (fs s))(ws ! 1 \<mapsto> c))"
      using sys_fs_create_ok [OF t a(1) len room pz] unfolding a(2) by blast
    have "length c = unat ?sz \<longleftrightarrow> int (length c) = number (ws ! 2)" for c :: "u8 list" using u by linarith
    note e3 = e(3) [unfolded this]
    have "command_effect ws (fs_map (fs s)) L0 (fs_map f') L0'"
    proof (cases "ws ! 1 \<in> dom (fs_map (fs s)) \<or> card (dom (fs_map (fs s))) = MAX_FILES")
      case True
      then show ?thesis using e3 c by (auto simp: command_effect_def literal_eq)
    next
      case not: False
      have "1 \<le> number (ws ! 2)" "number (ws ! 2) \<le> 1024" using False by linarith+
      then show ?thesis using e3 not c unfolding command_effect_def by simp
    qed
    moreover have "command_prints ws (fs_map (fs s)) out" "hd ws \<noteq> literal ''exit''" using c by (simp_all add: command_prints_def literal_eq)
    moreover have "cmd_create a n s = Some ((say out s)\<lparr>fs := f'\<rparr>)" using n False e(1) by (simp add: cmd_create_def)
    ultimately show ?thesis using e(2) unfolding executed_def
      by (intro exI [of _ "(say out s)\<lparr>fs := f'\<rparr>"] conjI exI [of _ L0'] exI [of _ L'] exI [of _ out]) simp_all
  qed
qed

lemma execute_delete:
  assumes t: "tokens L0 args ws L (fs s)" and c: "hd ws = literal ''delete''" "1 < length ws" and a: "str_ok a" "str_val a = ws ! 1"
  shows "\<exists>s'. cmd_delete a s = Some s' \<and> executed L0 args ws s s'"
proof -
  obtain r out f' L0' L' where e: "sys_fs_delete a s = Some (r, (say out s)\<lparr>fs := f'\<rparr>)" "tokens L0' args ws L' f'"
    "fs_map f' = (fs_map (fs s))(ws ! 1 := None)"
    "if ws ! 1 \<in> dom (fs_map (fs s)) then \<exists>q \<in> dom L0. L0' = L0(q := None) else L0' = L0"
    using sys_fs_delete_ok [OF t a(1)] a(2) by auto
  have "ws ! 1 \<notin> dom (fs_map (fs s)) \<Longrightarrow> fs_map f' = fs_map (fs s)" using e(3) by (auto simp: fun_eq_iff domIff)
  then have "command_effect ws (fs_map (fs s)) L0 (fs_map f') L0'"
    using e(3,4) c by (auto simp: command_effect_def literal_eq split: if_splits)
  moreover have "command_prints ws (fs_map (fs s)) out" "hd ws \<noteq> literal ''exit''" using c by (simp_all add: command_prints_def literal_eq)
  moreover have "cmd_delete a s = Some ((say out s)\<lparr>fs := f'\<rparr>)" using e(1) by (simp add: cmd_delete_def)
  ultimately show ?thesis using e(2) unfolding executed_def
    by (intro exI [of _ "(say out s)\<lparr>fs := f'\<rparr>"] conjI exI [of _ L0'] exI [of _ L'] exI [of _ out]) simp_all
qed

end
