(* ===== verification/Shell_Props.thy ===== *)
theory Shell_Props
  imports Shell_Exec
begin

text \<open>
  The properties of the shell: the tokenizer, a command line as a whole, line editing and a session.
\<close>

section \<open>Executing any command\<close>

lemma execute_ok:
  assumes t: "tokens L0 args ws L (fs s)" and ne: "ws \<noteq> []" and room: "heap_room 1044 L (fs_heap (fs s))" and ok: "command_ok ws"
    and cmd: "str_ok cmd" "str_val cmd = hd ws"
  shows "\<exists>s'. shell_execute_command cmd args (length ws) s = Some s' \<and> executed L0 args ws s s'"
proof -
  have fsok: "fs_ok L (fs s)" using t by (simp add: tokens_def)
  let ?c = "hd ws"
  note say = executed_says [OF t]
  consider (helpc) "?c = literal ''help''" | (ls) "?c = literal ''ls''" | (cat) "?c = literal ''cat''" "1 < length ws" | (cat0) "?c = literal ''cat''" "length ws \<le> 1"
    | (create) "?c = literal ''create''" "2 < length ws" | (create0) "?c = literal ''create''" "length ws \<le> 2"
    | (delete) "?c = literal ''delete''" "1 < length ws" | (delete0) "?c = literal ''delete''" "length ws \<le> 1"
    | (memstat) "?c = literal ''memstat''" | (clear) "?c = literal ''clear''" | (echo) "?c = literal ''echo''" | (exitc) "?c = literal ''exit''"
    | (unknown) "\<forall>l \<in> {''help'', ''ls'', ''cat'', ''create'', ''delete'', ''memstat'', ''clear'', ''echo'', ''exit''}. ?c \<noteq> literal l"
    by fastforce
  then show ?thesis
  proof cases
    case helpc
    then show ?thesis using say [OF cmd_help_says] unfolding dispatch [OF cmd(1)] Let_def cmd(2) by (simp add: literal_eq)
  next
    case ls
    then show ?thesis using say [OF cmd_ls_says [OF fsok]] unfolding dispatch [OF cmd(1)] Let_def cmd(2) by (simp add: literal_eq)
  next
    case cat
    obtain a where a: "arg_str s (args ! 1) = Some a" "str_ok a" "str_val a = ws ! 1" using tokens_arg [OF t cat(2)] .
    have "\<exists>s'. cmd_cat a s = Some s' \<and> executed L0 args ws s s'"
      by (rule executed_out [OF t cmd_cat_ok [OF fsok a(2)]]) (use cat a(3) in \<open>simp_all add: command_prints_def literal_eq split: option.split\<close>)
    then show ?thesis using cat a(1) unfolding dispatch [OF cmd(1)] Let_def cmd(2) by (simp add: literal_eq)
  next
    case cat0
    have "\<exists>s'. print ''Usage: cat <filename>\<newline>'' [] s = Some s' \<and> says s s'" by (rule print_saysI) (simp add: printf_eval)
    from say [OF this] show ?thesis using cat0 unfolding dispatch [OF cmd(1)] Let_def cmd(2) by (simp add: literal_eq)
  next
    case create
    obtain a where a: "arg_str s (args ! 1) = Some a" "str_ok a" "str_val a = ws ! 1" using tokens_arg [OF t, of 1] create(2) by auto
    obtain n where n: "arg_str s (args ! 2) = Some n" "str_ok n" "str_val n = ws ! 2" using tokens_arg [OF t create(2)] .
    show ?thesis using execute_create [OF t room ok create a(2,3) n(2,3)] create a(1) n(1)
      unfolding dispatch [OF cmd(1)] Let_def cmd(2) by (simp add: literal_eq)
  next
    case create0
    have "\<exists>s'. print ''Usage: create <filename> <size>\<newline>'' [] s = Some s' \<and> says s s'" by (rule print_saysI) (simp add: printf_eval)
    from say [OF this] show ?thesis using create0 unfolding dispatch [OF cmd(1)] Let_def cmd(2) by (simp add: literal_eq)
  next
    case delete
    obtain a where a: "arg_str s (args ! 1) = Some a" "str_ok a" "str_val a = ws ! 1" using tokens_arg [OF t delete(2)] .
    show ?thesis using execute_delete [OF t delete a(2,3)] delete a(1) unfolding dispatch [OF cmd(1)] Let_def cmd(2) by (simp add: literal_eq)
  next
    case delete0
    have "\<exists>s'. print ''Usage: delete <filename>\<newline>'' [] s = Some s' \<and> says s s'" by (rule print_saysI) (simp add: printf_eval)
    from say [OF this] show ?thesis using delete0 unfolding dispatch [OF cmd(1)] Let_def cmd(2) by (simp add: literal_eq)
  next
    case memstat
    then show ?thesis using say [OF cmd_memstat_says [OF fsok]] unfolding dispatch [OF cmd(1)] Let_def cmd(2) by (simp add: literal_eq)
  next
    case clear
    then show ?thesis using say [OF cmd_clear_says] unfolding dispatch [OF cmd(1)] Let_def cmd(2) by (simp add: literal_eq)
  next
    case echo
    have "\<exists>s'. cmd_echo arg_str args (length ws) s = Some s' \<and> executed L0 args ws s s'"
      by (rule executed_out [OF t cmd_echo_ok [OF t ne]]) (use echo in \<open>simp_all add: command_prints_def literal_eq\<close>)
    then show ?thesis using echo unfolding dispatch [OF cmd(1)] Let_def cmd(2) by (simp add: literal_eq)
  next
    case exitc
    let ?s = "s\<lparr>shell := (shell s)\<lparr>running := False\<rparr>\<rparr>"
    have "\<exists>s'. print ''Goodbye!\<newline>'' [] ?s = Some s' \<and> says ?s s'" by (rule print_saysI) (simp add: printf_eval)
    then obtain out where p: "print ''Goodbye!\<newline>'' [] ?s = Some (say out ?s)" unfolding says_def by blast
    have "executed L0 args ws s (say out ?s)"
      unfolding executed_def using t exitc
      by (intro exI [of _ L0] exI [of _ L] exI [of _ out]) (simp add: command_effect_def command_prints_def literal_eq)
    then show ?thesis using exitc p unfolding dispatch [OF cmd(1)] Let_def cmd(2) by (simp add: literal_eq)
  next
    case unknown
    have "\<exists>s'. do { s \<leftarrow> print ''Unknown command: %s\<newline>'' [VaStr cmd] s; print ''Type 'help' for available commands\<newline>'' [] s } = Some s' \<and> says s s'"
      by (intro bind_says print_saysI) (simp_all add: printf_eval cmd(1))
    from say [OF this] show ?thesis using unknown unfolding dispatch [OF cmd(1)] Let_def cmd(2) by simp
  qed
qed

section \<open>A command line\<close>

text \<open>A line that fits the token buffer, and a system whose heap has a free block of 8 KB.\<close>

definition line_ok :: "u8 list \<Rightarrow> bool" where
  "line_ok l \<longleftrightarrow> length l < SHELL_BUFFER_SIZE \<and> command_ok (take MAX_ARGS (words l))"

definition sys_ok :: "(u32 \<rightharpoonup> nat) \<Rightarrow> 'w sys \<Rightarrow> bool" where
  "sys_ok L s \<longleftrightarrow> fs_ok L (fs s) \<and> heap_room 8192 L (fs_heap (fs s)) \<and> length (token_buffer s) = SHELL_BUFFER_SIZE"

text \<open>The effect of a whole line on the files, the heap blocks and the flag \<open>running\<close>.\<close>

definition line_effect :: "u8 list \<Rightarrow> (u8 list \<rightharpoonup> u8 list) \<Rightarrow> (u32 \<rightharpoonup> nat) \<Rightarrow> bool \<Rightarrow> (u8 list \<rightharpoonup> u8 list) \<Rightarrow> (u32 \<rightharpoonup> nat) \<Rightarrow> bool \<Rightarrow> bool" where
  "line_effect l M L run M' L' run' \<longleftrightarrow> (let ws = take MAX_ARGS (words l) in
     if ws = [] then M' = M \<and> L' = L \<and> run' = run
     else command_effect ws M L M' L' \<and> run' = (run \<and> hd ws \<noteq> literal ''exit''))"

lemma parse_ok:
  assumes s: "sys_ok L s" and line: "str_ok input" "line_ok (str_val input)"
  shows "\<exists>s' L' out. shell_parse_command input s = Some s' \<and> fs_ok L' (fs s') \<and>
    line_effect (str_val input) (fs_map (fs s)) L (running (shell s)) (fs_map (fs s')) L' (running (shell s')) \<and>
    console s' = console s @ out \<and> (words (str_val input) \<noteq> [] \<longrightarrow> command_prints (take MAX_ARGS (words (str_val input))) (fs_map (fs s)) out) \<and>
    length (token_buffer s') = SHELL_BUFFER_SIZE \<and> first_time s' = first_time s \<and> firmware s' = firmware s \<and>
    world s' = emit (firmware s) out (world s) \<and>
    shell s' = (shell s)\<lparr>running := running (shell s')\<rparr>"
proof -
  let ?ws = "take MAX_ARGS (words (str_val input))"
  have "heap_room (22 * length (str_val input) + 1044) L (fs_heap (fs s))"
    by (rule kr.room_mono [of 8192]) (use s line in \<open>simp_all add: sys_ok_def line_ok_def\<close>)
  then obtain args s1 L1 where t: "shell_tokenize input MAX_ARGS s = Some (args, s1)" "tokens L args ?ws L1 (fs s1)"
    "heap_room 1044 L1 (fs_heap (fs s1))" "untouched s s1"
    using shell_tokenize_ok [of L s input 1044 MAX_ARGS] s line by (auto simp: sys_ok_def line_ok_def)
  have len: "length args = length ?ws" by (rule tokens_length [OF t(2)])
  have tb: "length (token_buffer s1) = SHELL_BUFFER_SIZE" "first_time s1 = first_time s" "world s1 = world s" "fs_map (fs s1) = fs_map (fs s)"
    "shell s1 = shell s" "console s1 = console s" "firmware s1 = firmware s" using t(4) s by (simp_all add: untouched_def sys_ok_def)
  show ?thesis
  proof (cases "?ws = []")
    case True
    then have "shell_parse_command input s = Some s1" using t(1) len by (simp add: shell_parse_command_def)
    moreover have "fs_ok L (fs s1)" using t(2) True len by (simp add: tokens_def)
    moreover have "line_effect (str_val input) (fs_map (fs s)) L (running (shell s)) (fs_map (fs s1)) L (running (shell s1))"
      using True tb by (simp add: line_effect_def Let_def)
    ultimately show ?thesis using tb True by (intro exI [of _ s1] exI [of _ L] exI [of _ "[]"]) simp
  next
    case False
    obtain cmd where c: "arg_str s1 (args ! 0) = Some cmd" "str_ok cmd" "str_val cmd = ?ws ! 0"
      using tokens_arg [OF t(2), of 0] False by (metis length_greater_0_conv)
    obtain s2 where s2: "shell_execute_command cmd args (length ?ws) s1 = Some s2" "executed L args ?ws s1 s2"
      using execute_ok [OF t(2) False t(3) _ c(2)] c(3) False line by (auto simp: hd_conv_nth line_ok_def)
    then obtain L0' L' out where e: "tokens L0' args ?ws L' (fs s2)" "command_effect ?ws (fs_map (fs s)) L (fs_map (fs s2)) L0'"
      "command_prints ?ws (fs_map (fs s)) out"
      "s2 = (say out s1)\<lparr>fs := fs s2, shell := (shell s1)\<lparr>running := running (shell s1) \<and> hd ?ws \<noteq> literal ''exit''\<rparr>\<rparr>"
      unfolding executed_def tb(4) by blast
    have e4: "console s2 = console s @ out" "shell s2 = (shell s)\<lparr>running := running (shell s) \<and> hd ?ws \<noteq> literal ''exit''\<rparr>"
      "first_time s2 = first_time s" "firmware s2 = firmware s" "world s2 = emit (firmware s) out (world s)" "length (token_buffer s2) = SHELL_BUFFER_SIZE"
      by (subst e(4), simp add: tb)+
    obtain h where h: "free_args args s2 = Some (s2\<lparr>fs := (fs s2)\<lparr>fs_heap := h\<rparr>\<rparr>)" "fs_ok L0' ((fs s2)\<lparr>fs_heap := h\<rparr>)"
      "fs_map ((fs s2)\<lparr>fs_heap := h\<rparr>) = fs_map (fs s2)" using free_args_ok [OF e(1)] by blast
    let ?s = "s2\<lparr>fs := (fs s2)\<lparr>fs_heap := h\<rparr>\<rparr>"
    have "0 < length args" "shell_execute_command cmd args (length args) s1 = Some s2" using len False s2(1) by simp_all
    then have "shell_parse_command input s = Some ?s" using t(1) c(1) h(1) by (simp add: shell_parse_command_def)
    moreover have "line_effect (str_val input) (fs_map (fs s)) L (running (shell s)) (fs_map (fs ?s)) L0' (running (shell ?s))"
      unfolding line_effect_def Let_def using e(2) e4 h(3) False by simp
    ultimately show ?thesis using h(2) e(3) e4 by (intro exI [of _ ?s] exI [of _ L0'] exI [of _ out]) simp
  qed
qed

section \<open>Line editing\<close>

text \<open>The line that a sequence of keys produces.\<close>

definition edit :: "u8 list \<Rightarrow> u8 \<Rightarrow> u8 list" where
  "edit l c = (if c = 8 \<or> c = 127 then butlast l else if 32 \<le> c \<and> c < 127 \<and> length l < SHELL_BUFFER_SIZE - 1 then l @ [c] else l)"

definition line_rep :: "u8 list \<Rightarrow> 'w sys \<Rightarrow> bool" where
  "line_rep l s \<longleftrightarrow> length (input_buffer (shell s)) = SHELL_BUFFER_SIZE \<and> buffer_pos (shell s) = length l \<and> length l < SHELL_BUFFER_SIZE \<and>
     take (length l) (input_buffer (shell s)) = l \<and> 0 \<notin> set l"

text \<open>What the keys leave alone.\<close>

definition typed :: "'w sys \<Rightarrow> 'w sys \<Rightarrow> bool" where
  "typed s s' \<longleftrightarrow> fs s' = fs s \<and> token_buffer s' = token_buffer s \<and> running (shell s') = running (shell s) \<and> firmware s' = firmware s"

lemma shell_key_edit:
  assumes l: "line_rep l s" and c: "c \<noteq> 10" "c \<noteq> 13"
  shows "\<exists>s'. shell_key c s = Some (False, s') \<and> line_rep (edit l c) s' \<and> typed s s' \<and> (\<exists>out. world s' = emit (firmware s) out (world s))"
proof -
  let ?sh = "shell s" and ?pos = "buffer_pos (shell s)"
  consider (bksp) "c = 8 \<or> c = 127" "l \<noteq> []" | (none) "(c = 8 \<or> c = 127) \<and> l = [] \<or> c \<noteq> 8 \<and> c \<noteq> 127 \<and> \<not> (32 \<le> c \<and> c < 127 \<and> length l < 255)"
    | (char) "c \<noteq> 8" "c \<noteq> 127" "32 \<le> c" "c < 127" "length l < 255" by blast
  then show ?thesis
  proof cases
    case bksp
    let ?s = "s\<lparr>shell := ?sh\<lparr>buffer_pos := ?pos - 1\<rparr>\<rparr>"
    have "\<exists>s'. print [CHR 0x08, CHR '' '', CHR 0x08] [] ?s = Some s' \<and> says ?s s'" by (rule print_saysI) (simp add: printf_eval)
    then obtain out where p: "print [CHR 0x08, CHR '' '', CHR 0x08] [] ?s = Some (say out ?s)" unfolding says_def by blast
    have "0 < ?pos" using l bksp(2) by (simp add: line_rep_def)
    then have "shell_key c s = Some (False, say out ?s)" using c bksp(1) p by (simp add: shell_key_def Let_def)
    moreover have "line_rep (edit l c) (say out ?s)"
    proof -
      have "take (length l - 1) (take (length l) (input_buffer ?sh)) = butlast l" using l by (simp add: line_rep_def butlast_conv_take)
      then show ?thesis using l bksp by (auto simp: line_rep_def edit_def dest: in_set_butlastD)
    qed
    moreover have "world (say out ?s) = emit (firmware s) out (world s)" by simp
    ultimately show ?thesis by (auto simp: typed_def)
  next
    case none
    have pos: "?pos = length l" using l by (simp add: line_rep_def)
    have "shell_key c s = Some (False, s)"
      using none c unfolding shell_key_def Let_def pos by (elim disjE conjE) (simp_all only: simp_thms if_True if_False list.size, simp_all, blast)
    moreover have "edit l c = l" using none unfolding edit_def by (elim disjE conjE) simp_all
    ultimately show ?thesis using l by (auto simp: typed_def intro!: exI [of _ "[]"])
  next
    case char
    let ?s = "putchar c (s\<lparr>shell := ?sh\<lparr>input_buffer := (input_buffer ?sh)[?pos := c], buffer_pos := ?pos + 1\<rparr>\<rparr>)"
    have "shell_key c s = Some (False, ?s)" using l c char by (simp add: shell_key_def line_rep_def Let_def)
    moreover have "line_rep (edit l c) ?s"
      using l char by (auto simp: line_rep_def edit_def putchar_say take_Suc_conv_app_nth)
    moreover have "world ?s = emit (firmware s) [c] (world s)" by (simp add: putchar_say)
    ultimately show ?thesis by (auto simp: typed_def putchar_say)
  qed
qed

text \<open>The firmware \<open>f\<close> and the UART \<open>d\<close> deliver the keys one after the other, whatever is printed before and between them, and
  then, whatever is printed, the world satisfies \<open>Q\<close>.\<close>

primrec delivers :: "'w sbi \<Rightarrow> 'w uart_dev \<Rightarrow> ('w \<Rightarrow> bool) \<Rightarrow> u8 list \<Rightarrow> 'w \<Rightarrow> bool" where
  "delivers f d Q [] w = (\<forall>out. Q (emit f out w))"
| "delivers f d Q (k # ks) w = (\<forall>out. \<exists>w'. getchar_poll f d (emit f out w) = Some (k, w') \<and> delivers f d Q ks w')"

lemma delivers_emit: "delivers f d Q ks w \<Longrightarrow> delivers f d Q ks (emit f out w)"
  by (cases ks) simp_all

text \<open>When printing does not change what the keyboard holds, this says that \<open>n\<close> reads give the keys.\<close>

primrec receive :: "'w sbi \<Rightarrow> 'w uart_dev \<Rightarrow> nat \<Rightarrow> 'w \<Rightarrow> (u8 list \<times> 'w) option" where
  "receive f d 0 w = Some ([], w)"
| "receive f d (Suc n) w = do { (k, w) \<leftarrow> getchar_poll f d w; (ks, w) \<leftarrow> receive f d n w; Some (k # ks, w) }"

lemma delivers_quiet:
  assumes "\<And>out w. emit f out w = w"
  shows "delivers f d (\<lambda>v. v = w') ks w \<longleftrightarrow> receive f d (length ks) w = Some (ks, w')"
  by (induction ks arbitrary: w) (auto simp: assms bind_eq_Some_conv split: bind_splits)

lemma getchar_blocking_ok:
  assumes "delivers (firmware s) d Q (c # ks) (world s)"
  shows "\<exists>s'. getchar_blocking d s = Some (c, s') \<and> typed s s' \<and> delivers (firmware s') d Q ks (world s') \<and> shell s' = shell s"
proof -
  have w: "\<exists>w. getchar_poll (firmware s) d (emit (firmware s) out (world s)) = Some (c, w) \<and> delivers (firmware s) d Q ks w" for out
    using assms by simp
  show ?thesis
  proof (cases "first_time s")
    case True
    have "\<exists>s'. print ''Waiting for keyboard input... (try typing!)\<newline>'' [] s = Some s' \<and> says s s'" by (rule print_saysI) (simp add: printf_eval)
    then obtain out where "print ''Waiting for keyboard input... (try typing!)\<newline>'' [] s = Some (say out s)" unfolding says_def by blast
    moreover obtain w' where "getchar_poll (firmware s) d (emit (firmware s) out (world s)) = Some (c, w')" "delivers (firmware s) d Q ks w'"
      using w by blast
    ultimately show ?thesis using True by (simp add: getchar_blocking_def typed_def)
  next
    case False
    then show ?thesis using w [of "[]"] by (auto simp: getchar_blocking_def typed_def)
  qed
qed

lemma shell_enter:
  assumes l: "line_rep l s" and s: "sys_ok L s" and line: "line_ok l" and e: "e = 10 \<or> e = 13"
  shows "\<exists>s' L'. shell_key e s = Some (True, s') \<and> fs_ok L' (fs s') \<and> (\<exists>out. world s' = emit (firmware s) out (world s)) \<and>
    line_effect l (fs_map (fs s)) L (running (shell s)) (fs_map (fs s')) L' (running (shell s'))"
proof -
  let ?sh = "shell s" let ?s = "s\<lparr>shell := ?sh\<lparr>input_buffer := (input_buffer ?sh)[length l := 0]\<rparr>\<rparr>"
  have pos: "length l < length (input_buffer ?sh)" "buffer_pos ?sh = length l" "take (length l) (input_buffer ?sh) = l" "0 \<notin> set l"
    using l by (auto simp: line_rep_def)
  have "\<exists>s'. print ''\<newline>'' [] ?s = Some s' \<and> says ?s s'" by (rule print_saysI) (simp add: printf_eval)
  then obtain out where o: "print ''\<newline>'' [] ?s = Some (say out ?s)" unfolding says_def by blast
  define s1 where "s1 = say out ?s"
  have s1: "print ''\<newline>'' [] ?s = Some s1" using o by (simp only: s1_def)
  have f1: "fs s1 = fs s" "token_buffer s1 = token_buffer s" "shell s1 = shell ?s" "firmware s1 = firmware s"
    "world s1 = emit (firmware s) out (world s)" by (simp_all add: s1_def)
  have key: "shell_key e s = do { s \<leftarrow> (if l \<noteq> [] then shell_parse_command (input_buffer (shell s1)) s1 else Some s1); Some (True, s) }"
    unfolding shell_key_def Let_def using pos s1 e by simp
  show ?thesis
  proof (cases "l = []")
    case True
    have "line_effect l (fs_map (fs s)) L (running (shell s)) (fs_map (fs s1)) L (running (shell s1))"
      using True f1 by (simp add: line_effect_def words_def)
    moreover have "fs_ok L (fs s1)" using s f1 by (simp add: sys_ok_def)
    ultimately show ?thesis using key True f1 by auto
  next
    case False
    have "input_buffer (shell s1) = l @ 0 # drop (Suc (length l)) (input_buffer ?sh)"
      using pos by (simp add: f1 upd_conv_take_nth_drop)
    then have line: "str_ok (input_buffer (shell s1))" "str_val (input_buffer (shell s1)) = l" using str_val_append [OF pos(4)] by simp_all
    have "sys_ok L s1" using s f1 by (simp add: sys_ok_def)
    from parse_ok [OF this line(1)] obtain s' L' where "shell_parse_command (input_buffer (shell s1)) s1 = Some s'" "fs_ok L' (fs s')"
      "line_effect l (fs_map (fs s)) L (running (shell s)) (fs_map (fs s')) L' (running (shell s'))" "\<exists>out. world s' = emit (firmware s1) out (world s1)"
      using line(2) \<open>line_ok l\<close> f1 by auto
    then show ?thesis using key False f1(4,5) by auto
  qed
qed

lemma shell_line_ok:
  "delivers (firmware s) d Q (ks @ [e]) (world s) \<Longrightarrow> e = 10 \<or> e = 13 \<Longrightarrow> 10 \<notin> set ks \<Longrightarrow> 13 \<notin> set ks \<Longrightarrow>
   line_rep l s \<Longrightarrow> sys_ok L s \<Longrightarrow> line_ok (foldl edit l ks) \<Longrightarrow>
   \<exists>s' L'. shell_line d s = Some s' \<and> fs_ok L' (fs s') \<and> Q (world s') \<and>
     line_effect (foldl edit l ks) (fs_map (fs s)) L (running (shell s)) (fs_map (fs s')) L' (running (shell s'))"
proof (induction ks arbitrary: s l)
  case Nil
  then obtain s1 where s1: "getchar_blocking d s = Some (e, s1)" "typed s s1" "delivers (firmware s1) d Q [] (world s1)" "shell s1 = shell s"
    using getchar_blocking_ok [of s d Q e "[]"] by (auto simp del: delivers.simps)
  have "line_rep l s1" "sys_ok L s1" "line_ok l" using Nil s1 by (auto simp: line_rep_def sys_ok_def typed_def)
  from shell_enter [OF this Nil(2)] obtain s' L' out where "shell_key e s1 = Some (True, s')" "fs_ok L' (fs s')" "world s' = emit (firmware s1) out (world s1)"
    "line_effect l (fs_map (fs s1)) L (running (shell s1)) (fs_map (fs s')) L' (running (shell s'))" by blast
  then show ?case using s1 by (subst shell_line.simps) (auto simp: typed_def)
next
  case (Cons k ks)
  obtain s1 where s1: "getchar_blocking d s = Some (k, s1)" "typed s s1" "delivers (firmware s1) d Q (ks @ [e]) (world s1)" "shell s1 = shell s"
    using getchar_blocking_ok [of s d Q k "ks @ [e]"] Cons.prems(1) by (auto simp del: delivers.simps)
  have "line_rep l s1" using Cons.prems(5) s1(4) by (simp add: line_rep_def)
  moreover have "k \<noteq> 10" "k \<noteq> 13" using Cons.prems(3,4) by auto
  ultimately obtain s2 out where s2: "shell_key k s1 = Some (False, s2)" "line_rep (edit l k) s2" "typed s1 s2" "world s2 = emit (firmware s1) out (world s1)"
    using shell_key_edit [of l s1 k] by auto
  have "delivers (firmware s2) d Q (ks @ [e]) (world s2)" using delivers_emit [OF s1(3)] s2(3,4) by (simp add: typed_def)
  moreover have "sys_ok L s2" using Cons.prems(6) s1(2) s2(3) by (simp add: sys_ok_def typed_def)
  ultimately obtain s' L' where "shell_line d s2 = Some s'" "fs_ok L' (fs s')" "Q (world s')"
    "line_effect (foldl edit l (k # ks)) (fs_map (fs s2)) L (running (shell s2)) (fs_map (fs s')) L' (running (shell s'))"
    using Cons.IH [OF _ Cons.prems(2) _ _ s2(2)] Cons.prems(3,4,7) by auto
  then show ?case using s1 s2 by (subst shell_line.simps) (auto simp: typed_def)
qed

section \<open>A sample system\<close>

text \<open>A booted system without files and a firmware that ignores output; the world is the list of the keys to come.\<close>

definition sample_sbi :: "u8 list sbi" where
  "sample_sbi args w = (if args ! 6 = 0 then (\<lparr>sbi_error = 0, sbi_value = 0\<rparr>, w) else case w of [] \<Rightarrow> (\<lparr>sbi_error = 0, sbi_value = - 1\<rparr>, w) | k # ks \<Rightarrow> (\<lparr>sbi_error = 0, sbi_value = ucast k\<rparr>, ks))"

definition sample_sys :: "u8 list \<Rightarrow> kheap \<Rightarrow> u8 list sys" where
  "sample_sys w h = shell_init \<lparr>shell = \<lparr>input_buffer = [], buffer_pos = 0, running = False\<rparr>, fs = boot_fs h,
     token_buffer = replicate SHELL_BUFFER_SIZE 0, console = [], first_time = True, firmware = sample_sbi, world = w\<rparr>"

lemma sample_sys_fs [simp]: "fs (sample_sys w h) = boot_fs h" "world (sample_sys w h) = w" "firmware (sample_sys w h) = sample_sbi" "running (shell (sample_sys w h))"
  by (simp_all add: sample_sys_def shell_init_def)

lemma sample_sys_ok:
  "\<exists>h. memory_init \<lparr>headers = Map.empty, free_list = NULL\<rparr> = Some h \<and> (\<forall>w. sys_ok Map.empty (sample_sys w h) \<and> line_rep [] (sample_sys w h)) \<and>
     fs_map (boot_fs h) = Map.empty"
proof -
  obtain h where h: "memory_init \<lparr>headers = Map.empty, free_list = NULL\<rparr> = Some h" "fs_ok Map.empty (boot_fs h)" "fs_map (boot_fs h) = Map.empty"
    using boot_fs_ok by blast
  obtain h' where h': "memory_init \<lparr>headers = Map.empty, free_list = NULL\<rparr> = Some h'" "heap_ok [(True, 4194292)] h'" using init_heap by blast
  have "heap_room 8192 Map.empty h" unfolding heap_room_def by (rule exI [of _ "[(True, 4194292)]"]) (use h(1) h' in simp)
  moreover have "fs_heap (boot_fs h) = h" by (simp add: boot_fs_def fs_init_def)
  ultimately have "sys_ok Map.empty (sample_sys w h) \<and> line_rep [] (sample_sys w h)" for w
    using h(2) by (simp add: sys_ok_def sample_sys_def shell_init_def line_rep_def)
  then show ?thesis using h by blast
qed

lemma sample_key: "k \<noteq> 0 \<Longrightarrow> getchar_poll sample_sbi d (k # ks) = Some (k, ks)"
proof -
  assume k: "k \<noteq> 0"
  have "uint k < 2 ^ 31" using unsigned_less [of k, where ?'a = int] by simp
  then have "sint (ucast k :: u32) = uint k" using sint_small [of "uint k"] by simp
  moreover have "uint k \<noteq> - 1" using uint_ge_0 [of k] by linarith
  moreover have "uint k \<noteq> 0" using k by (simp add: uint_0_iff)
  ultimately show ?thesis by (subst getchar_poll.simps) (simp add: sbi_console_getchar_def sample_sbi_def)
qed

lemma sample_quiet: "emit sample_sbi out w = w"
  by (induction out arbitrary: w) (simp_all add: emit_def sample_sbi_def)

lemma sample_delivers: "0 \<notin> set ks \<Longrightarrow> delivers sample_sbi d (\<lambda>v. v = rest) ks (ks @ rest)"
  unfolding delivers_quiet [OF sample_quiet] by (induction ks) (auto simp: sample_key)

section \<open>Properties\<close>

text \<open>\<open>shell_tokenize\<close> stores in the heap copies of the first \<open>max_args\<close> words of the line, a word being a maximal
  run of characters other than space and tab, in separate new blocks that overlap no file; the files are unchanged.  It
  needs a heap with a sufficient free block, since it does not test what \<open>kmalloc\<close> returns.\<close>

theorem shell_tokenize_refines:
  assumes "fs_ok L (fs s)" "heap_room (22 * length (str_val input) + k) L (fs_heap (fs s))" "length (token_buffer s) = 256"
    and "str_ok input" "length (str_val input) < 256"
  shows "\<exists>args s' L'. shell_tokenize input max_args s = Some (args, s') \<and> tokens L args (take max_args (words (str_val input))) L' (fs s') \<and>
    heap_room k L' (fs_heap (fs s')) \<and> untouched s s'"
  by (rule shell_tokenize_ok [OF assms])

theorem shell_tokenize_refines_witness:
  "\<exists>h args s' L'. memory_init \<lparr>headers = Map.empty, free_list = NULL\<rparr> = Some h \<and>
     shell_tokenize [32, 108, 115, 32, 45, 97, 0] 10 (sample_sys [] h) = Some (args, s') \<and>
     tokens Map.empty args [[108, 115], [45, 97]] L' (fs s')"
proof -
  obtain h where h: "memory_init \<lparr>headers = Map.empty, free_list = NULL\<rparr> = Some h" "sys_ok Map.empty (sample_sys [] h)"
    using sample_sys_ok by blast
  have "heap_room (22 * length (str_val [32, 108, 115, 32, 45, 97, 0]) + 0) Map.empty (fs_heap (fs (sample_sys [] h)))"
    by (rule kr.room_mono [of 8192]) (use h(2) in \<open>simp_all add: sys_ok_def\<close>)
  then show ?thesis
    using shell_tokenize_refines [of Map.empty "sample_sys [] h" "[32, 108, 115, 32, 45, 97, 0]" 0 10] h
    by (auto simp: sys_ok_def words_def blank_def)
qed

text \<open>C18: a command line of the shell has its abstract effect: \<open>create\<close> with a size from 1 to 1024 adds a file of that
  size unless it exists or 32 files do, \<open>delete\<close> removes the file, \<open>exit\<close> stops the shell, every other line leaves the
  files alone; \<open>echo\<close> and \<open>cat\<close> print their words and the file.  All tokens are freed: the heap blocks afterwards are those
  from before, plus the new file's or minus the deleted file's.  The hypothesis excludes a \<open>create\<close> with a name of 64 bytes or a
  number that overflows \<open>int\<close>, and asks for a free block of 8 KB.\<close>

theorem shell_parse_refines:
  assumes "sys_ok L s" "str_ok input" "line_ok (str_val input)"
  shows "\<exists>s' L' out. shell_parse_command input s = Some s' \<and> fs_ok L' (fs s') \<and>
    line_effect (str_val input) (fs_map (fs s)) L (running (shell s)) (fs_map (fs s')) L' (running (shell s')) \<and>
    console s' = console s @ out \<and> (words (str_val input) \<noteq> [] \<longrightarrow> command_prints (take 10 (words (str_val input))) (fs_map (fs s)) out)"
  using parse_ok [OF assms] by blast

theorem shell_parse_refines_witness:
  "\<exists>h s' L' out. memory_init \<lparr>headers = Map.empty, free_list = NULL\<rparr> = Some h \<and>
     shell_parse_command [101, 99, 104, 111, 32, 97, 32, 32, 98, 0] (sample_sys [] h) = Some s' \<and>
     console s' = console (sample_sys [] h) @ out \<and> out = [97, 32, 98, 10] \<and> fs_map (fs s') = Map.empty \<and> fs_ok Map.empty (fs s')"
proof -
  let ?i = "[101, 99, 104, 111, 32, 97, 32, 32, 98, 0] :: u8 list"
  obtain h where h: "memory_init \<lparr>headers = Map.empty, free_list = NULL\<rparr> = Some h" "sys_ok Map.empty (sample_sys [] h)" "fs_map (boot_fs h) = Map.empty"
    using sample_sys_ok by blast
  have w: "words (str_val ?i) = [literal ''echo'', [97], [98]]" by (simp add: words_def blank_def literal_def)
  then have "line_ok (str_val ?i)" by (simp add: line_ok_def command_ok_def literal_eq)
  then show ?thesis using shell_parse_refines [OF h(2), of ?i] h w
    by (auto simp: line_effect_def command_effect_def command_prints_def literal_eq Let_def)
qed

text \<open>C22: whatever keys arrive before Enter (the key 10 or 13), the shell never writes outside its buffer of 256 bytes, and
  Enter executes the edited line: printable characters are appended up to 255, backspace and delete remove the last one, all
  other keys are ignored.  The firmware delivers the keys no matter what the shell prints meanwhile, and exactly these keys are read:
  whatever holds of the world after them and any output holds in the end.\<close>

theorem shell_line_editing:
  assumes "delivers (firmware s) d Q (ks @ [e]) (world s)" "e = 10 \<or> e = 13" "10 \<notin> set ks" "13 \<notin> set ks"
    and "line_rep [] s" "sys_ok L s" "line_ok (foldl edit [] ks)"
  shows "\<exists>s' L'. shell_line d s = Some s' \<and> fs_ok L' (fs s') \<and> Q (world s') \<and>
     line_effect (foldl edit [] ks) (fs_map (fs s)) L (running (shell s)) (fs_map (fs s')) L' (running (shell s'))"
  by (rule shell_line_ok [OF assms])

theorem shell_line_editing_witness:
  "\<exists>h s' L'. memory_init \<lparr>headers = Map.empty, free_list = NULL\<rparr> = Some h \<and>
     shell_line sample_uart (sample_sys [108, 127, 10, 65] h) = Some s' \<and> world s' = [65] \<and> fs_map (fs s') = Map.empty \<and> fs_ok L' (fs s')"
proof -
  obtain h where h: "memory_init \<lparr>headers = Map.empty, free_list = NULL\<rparr> = Some h"
    "\<forall>w. sys_ok Map.empty (sample_sys w h) \<and> line_rep [] (sample_sys w h)" "fs_map (boot_fs h) = Map.empty"
    using sample_sys_ok by blast
  have e: "foldl edit [] [108, 127] = []" by (simp add: edit_def)
  have "delivers sample_sbi sample_uart (\<lambda>v. v = [65]) [108, 127, 10] ([108, 127, 10] @ [65])" by (rule sample_delivers) simp
  then have "delivers (firmware (sample_sys [108, 127, 10, 65] h)) sample_uart (\<lambda>v. v = [65]) ([108, 127] @ [10]) (world (sample_sys [108, 127, 10, 65] h))"
    by (simp del: delivers.simps)
  moreover have "line_ok (foldl edit [] [108, 127])" unfolding e by (simp add: line_ok_def command_ok_def words_def literal_def)
  ultimately obtain s' L' where "shell_line sample_uart (sample_sys [108, 127, 10, 65] h) = Some s'" "fs_ok L' (fs s')" "world s' = [65]"
    "line_effect [] (fs_map (boot_fs h)) Map.empty True (fs_map (fs s')) L' (running (shell s'))"
    using shell_line_editing [of "sample_sys [108, 127, 10, 65] h" sample_uart "\<lambda>v. v = [65]" "[108, 127]" 10 Map.empty] h(2) e by auto
  then show ?thesis using h(1,3) by (auto simp: line_effect_def words_def)
qed

text \<open>C21: when the user types ``exit'' (with any arguments) and Enter, and the firmware delivers these keys whatever the
  shell prints, \<open>shell_run\<close> returns with the files unchanged and
  all heap blocks of the session freed.\<close>

theorem shell_run_exits:
  assumes "delivers (firmware s) d Q (ks @ [e]) (world s)" "e = 10 \<or> e = 13" "10 \<notin> set ks" "13 \<notin> set ks"
    and "length (input_buffer (shell s)) = 256" "sys_ok L s" "length (foldl edit [] ks) < 256"
    and "words (foldl edit [] ks) \<noteq> []" "hd (words (foldl edit [] ks)) = literal ''exit''"
  shows "\<exists>s'. shell_run d s = Some s' \<and> \<not> running (shell s') \<and> fs_map (fs s') = fs_map (fs s) \<and> fs_ok L (fs s')"
proof (cases "running (shell s)")
  case False
  then show ?thesis using assms(6) by (subst shell_run.simps) (simp add: sys_ok_def)
next
  case True
  let ?ws = "take MAX_ARGS (words (foldl edit [] ks))"
  have "\<exists>s'. print ''fru1t-os> '' [] s = Some s' \<and> says s s'" by (rule print_saysI) (simp add: printf_eval)
  then obtain out where out: "print ''fru1t-os> '' [] s = Some (say out s)" unfolding says_def by blast
  define s0 where "s0 = say out s"
  have s0: "shell_print_prompt s = Some s0" using out by (simp add: shell_print_prompt_def s0_def)
  let ?s = "s0\<lparr>shell := (shell s0)\<lparr>buffer_pos := 0\<rparr>\<rparr>"
  have same: "fs ?s = fs s" "world ?s = emit (firmware s) out (world s)" "token_buffer ?s = token_buffer s" "input_buffer (shell ?s) = input_buffer (shell s)"
    "firmware ?s = firmware s" by (simp_all add: s0_def)
  have "delivers (firmware ?s) d Q (ks @ [e]) (world ?s)" unfolding same(2,5) by (rule delivers_emit [OF assms(1)])
  note del = this assms(2-4)
  have h: "?ws \<noteq> []" "hd ?ws = literal ''exit''" using assms(8,9) by (simp_all add: hd_take)
  have "line_rep [] ?s" "sys_ok L ?s" "line_ok (foldl edit [] ks)"
    using assms(5-7) same h by (simp_all add: line_rep_def sys_ok_def line_ok_def command_ok_def literal_eq)
  then obtain s' L' where s': "shell_line d ?s = Some s'" "fs_ok L' (fs s')"
    "line_effect (foldl edit [] ks) (fs_map (fs ?s)) L (running (shell ?s)) (fs_map (fs s')) L' (running (shell s'))"
    using shell_line_ok [OF del, of "[]" L] by auto
  have "\<not> running (shell s') \<and> fs_map (fs s') = fs_map (fs s) \<and> L' = L"
    using s'(3) h same(1) unfolding line_effect_def Let_def by (simp add: command_effect_def literal_eq)
  then show ?thesis using True s0 s'(1,2) by (subst shell_run.simps) (simp, subst shell_run.simps, simp)
qed

theorem shell_run_exits_witness:
  "\<exists>h s'. memory_init \<lparr>headers = Map.empty, free_list = NULL\<rparr> = Some h \<and>
     shell_run sample_uart (sample_sys [101, 120, 105, 116, 10] h) = Some s' \<and> \<not> running (shell s') \<and> fs_ok Map.empty (fs s')"
proof -
  obtain h where h: "memory_init \<lparr>headers = Map.empty, free_list = NULL\<rparr> = Some h"
    "\<forall>w. sys_ok Map.empty (sample_sys w h) \<and> line_rep [] (sample_sys w h)"
    using sample_sys_ok by blast
  let ?ks = "[101, 120, 105, 116] :: u8 list"
  have e: "foldl edit [] ?ks = ?ks" "words ?ks = [literal ''exit'']" by (simp_all add: edit_def words_def blank_def literal_def)
  have "delivers sample_sbi sample_uart (\<lambda>v. v = []) (?ks @ [10]) ((?ks @ [10]) @ [])" by (rule sample_delivers) simp
  then have r: "delivers (firmware (sample_sys (?ks @ [10]) h)) sample_uart (\<lambda>v. v = []) (?ks @ [10]) (world (sample_sys (?ks @ [10]) h))"
    by (simp del: delivers.simps)
  have "\<exists>s'. shell_run sample_uart (sample_sys (?ks @ [10]) h) = Some s' \<and> \<not> running (shell s') \<and>
      fs_map (fs s') = fs_map (fs (sample_sys (?ks @ [10]) h)) \<and> fs_ok Map.empty (fs s')"
    by (rule shell_run_exits [OF r]) (use h e in \<open>simp_all add: line_rep_def\<close>)
  then show ?thesis using h(1) by auto
qed

text \<open>\<open>str_to_int\<close> reads back every non-negative \<open>int\<close> that \<open>printf\<close> prints.\<close>

theorem number_roundtrip:
  assumes "0 \<le> sint v"
  shows "\<exists>out. printf (cstr ''%d'') [Va32 v] = Some out \<and> str_to_int (out @ [0]) = Some (sint v)"
proof -
  have out: "printf (cstr ''%d'') [Va32 v] = Some (dec (nat (sint v)))" using assms by (simp add: printf_eval dec_int_def)
  have "number (dec (nat (sint v)) @ [0]) = number (dec (nat (sint v)))"
    using dec_number [of "nat (sint v)"] by (simp add: number_def list_all_iff takeWhile_append digit_def takeWhile_eq_all_conv [THEN iffD2])
  then have "number (dec (nat (sint v)) @ [0]) = sint v" using dec_number [of "nat (sint v)"] assms by simp
  moreover have "sint v < 2 ^ 31" using sint_less [of v] by simp
  ultimately show ?thesis using out str_to_int_ok [of "dec (nat (sint v)) @ [0]"] by simp
qed

theorem number_roundtrip_witness: "\<exists>out. printf (cstr ''%d'') [Va32 1024] = Some out \<and> str_to_int (out @ [0]) = Some 1024"
proof -
  have "sint (1024 :: u32) = 1024" by code_simp
  then show ?thesis using number_roundtrip [of 1024] by simp
qed

text \<open>\<open>shell_tokenize\<close> does not test the result of \<open>kmalloc\<close>: when it fails for a token, the token is
  copied to the null pointer.\<close>

theorem shell_tokenize_null:
  assumes "kmalloc (of_nat (token_pos + 1)) (fs_heap (fs s)) = Some (NULL, h)"
  shows "add_token token_pos args s = None"
  using assms by (simp add: add_token_def put_token_def heap_strcpy_def)

end
