(* ===== verification/Boot.thy ===== *)
theory Boot
  imports Shell_Props Trap
begin

text \<open>
  The start of the kernel (\<open>kernel_main\<close> of src/kernel.c): \<open>memset\<close> clears the bytes from \<open>bss\<close> to \<open>bss_end\<close>, the heap, the file
  system and the keyboard are initialised, two files are written, and the feature tests run.  The static variables are read from the
  bytes of the memory; where the linker has put them is a parameter.
\<close>

section \<open>Initialisation\<close>

text \<open>The addresses of the section and of the static variables.  All of them but \<open>first_time\<close> of \<open>getchar_blocking\<close>, which is initialised data, belong to
  the section.\<close>

record layout =
  bss :: u32
  bss_end :: u32
  heap_addr :: u32
  free_list_addr :: u32
  fs_addr :: u32
  shell_addr :: u32
  token_buffer_addr :: u32
  input_buf_addr :: u32
  first_time_addr :: u32

text \<open>Reading the variables: words are little-endian, a pointer into \<open>heap\<close> is an offset in it, and the positions in buffers are natural numbers.\<close>

definition load32 :: "bytes \<Rightarrow> u32 \<Rightarrow> u32" where
  "load32 m a = ucast (m a) OR push_bit 8 (ucast (m (a + 1))) OR push_bit 16 (ucast (m (a + 2))) OR push_bit 24 (ucast (m (a + 3)))"

definition load_ptr :: "layout \<Rightarrow> bytes \<Rightarrow> u32 \<Rightarrow> u32 ptr" where
  "load_ptr lay m a = (let v = load32 m a in if v = 0 then NULL else Some (v - heap_addr lay))"

definition load_block :: "layout \<Rightarrow> bytes \<Rightarrow> u32 \<Rightarrow> mem_block" where
  "load_block lay m a = \<lparr>is_free = load32 m a \<noteq> 0, size = load32 m (a + 4), next = load_ptr lay m (a + 8)\<rparr>"

definition load_heap :: "layout \<Rightarrow> bytes \<Rightarrow> kheap" where
  "load_heap lay m = \<lparr>headers = (\<lambda>a. if unat a + sizeof_mem_block \<le> HEAP_SIZE then Some (load_block lay m (heap_addr lay + a)) else None),
     free_list = load_ptr lay m (free_list_addr lay)\<rparr>"

definition load_file :: "layout \<Rightarrow> bytes \<Rightarrow> u32 \<Rightarrow> fs_file" where
  "load_file lay m a = \<lparr>name = read_bytes m a MAX_FILENAME, data = load_ptr lay m (a + 64), file_size = load32 m (a + 68), is_used = load32 m (a + 72) \<noteq> 0\<rparr>"

definition load_fs :: "layout \<Rightarrow> bytes \<Rightarrow> filesystem" where
  "load_fs lay m = \<lparr>files = map (\<lambda>i. load_file lay m (fs_addr lay + of_nat (76 * i))) [0..<MAX_FILES],
     file_count = sint (load32 m (fs_addr lay + 2432)), fs_heap = load_heap lay m, fs_bytes = (\<lambda>p. m (heap_addr lay + p))\<rparr>"

definition load_shell :: "layout \<Rightarrow> bytes \<Rightarrow> shell_state" where
  "load_shell lay m = \<lparr>input_buffer = read_bytes m (shell_addr lay) SHELL_BUFFER_SIZE, buffer_pos = unat (load32 m (shell_addr lay + 256)),
     running = load32 m (shell_addr lay + 260) \<noteq> 0\<rparr>"

definition load_input_buf :: "layout \<Rightarrow> bytes \<Rightarrow> Uart.input_buffer" where
  "load_input_buf lay m = \<lparr>buffer = read_bytes m (input_buf_addr lay) 256, write_pos = unat (load32 m (input_buf_addr lay + 256)),
     read_pos = unat (load32 m (input_buf_addr lay + 260)), count = unat (load32 m (input_buf_addr lay + 264))\<rparr>"

definition load_statics :: "layout \<Rightarrow> bytes \<Rightarrow> 'w sys \<Rightarrow> 'w sys" where
  "load_statics lay m s = s\<lparr>shell := load_shell lay m, fs := load_fs lay m, token_buffer := read_bytes m (token_buffer_addr lay) SHELL_BUFFER_SIZE,
     first_time := load32 m (first_time_addr lay) \<noteq> 0\<rparr>"

text \<open>The \<open>memset\<close> of \<open>kernel_main\<close>.  The linker script also puts the end of the boot stack into the section; the stack is not part of this state, so
  that the call returns takes for granted that nothing it needs is on it.\<close>

definition clear_bss :: "layout \<Rightarrow> bytes \<Rightarrow> bytes" where
  "clear_bss lay m = snd (memset (bss lay) 0 (bss_end lay - bss lay) m)"

definition sys_memory_init :: "'w sys \<Rightarrow> 'w sys option" where
  "sys_memory_init s = do {
     h \<leftarrow> memory_init (fs_heap (fs s));
     print ''Memory allocator initialized: %d bytes available\<newline>'' [Va32 HEAP_SIZE] (s\<lparr>fs := (fs s)\<lparr>fs_heap := h\<rparr>\<rparr>) }"

definition sys_fs_init :: "'w sys \<Rightarrow> 'w sys option" where
  "sys_fs_init s = print ''Filesystem initialized: %d file slots available\<newline>'' [Va32 32] (s\<lparr>fs := fs_init (fs s)\<rparr>)"

definition sys_uart_init :: "'w uart_dev \<Rightarrow> 'w sys \<Rightarrow> 'w sys option" where
  "sys_uart_init d s = print ''UART initialized\<newline>'' [] (s\<lparr>world := uart_init d (world s)\<rparr>)"

definition sys_fs_write :: "u8 list \<Rightarrow> u8 list \<Rightarrow> u32 \<Rightarrow> 'w sys \<Rightarrow> (int \<times> 'w sys) option" where
  "sys_fs_write filename buf sz s = do {
     i \<leftarrow> fs_find filename [0..<MAX_FILES] (fs s);
     (r, f) \<leftarrow> fs_write filename buf sz (fs s);
     s \<leftarrow> (if i = NULL then print ''File '%s' not found\<newline>'' [VaStr filename] s
          else if r = - 1 then print ''Write size too large for file '%s'\<newline>'' [VaStr filename] s
          else print ''Wrote %d bytes to file '%s'\<newline>'' [Va32 sz, VaStr filename] s);
     Some (r, s\<lparr>fs := f\<rparr>) }"

text \<open>The creation of one of the two sample files.\<close>

definition sample_file :: "string \<Rightarrow> u32 \<Rightarrow> string \<Rightarrow> 'w sys \<Rightarrow> 'w sys option" where
  "sample_file nm sz msg s = do {
     (_, s) \<leftarrow> sys_fs_create (cstr nm) sz s;
     n \<leftarrow> strlen (cstr msg);
     (_, s) \<leftarrow> sys_fs_write (cstr nm) (cstr msg) (word_of_int (n + 1)) s;
     Some s }"

text \<open>The routine that enables interrupts is assembly code (theory \<open>Asm\<close>), which works on control registers that are not part of this state: its effect on
  the outside world is a parameter.\<close>

definition uart_enable_interrupts :: "('w \<Rightarrow> 'w) \<Rightarrow> 'w sys \<Rightarrow> 'w sys" where
  "uart_enable_interrupts enable_interrupts s = s\<lparr>world := enable_interrupts (world s)\<rparr>"

text \<open>\<open>s\<close> gives the firmware, the world and what has been printed.\<close>

definition kernel_init :: "layout \<Rightarrow> 'w uart_dev \<Rightarrow> ('w \<Rightarrow> 'w) \<Rightarrow> bytes \<Rightarrow> 'w sys \<Rightarrow> ('w sys \<times> Uart.input_buffer) option" where
  "kernel_init lay d enable_interrupts m s = do {
     let m = clear_bss lay m;
     let s = load_statics lay m s;
     let b = load_input_buf lay m;
     s \<leftarrow> print ''Initializing memory allocator...\<newline>'' [] s;
     s \<leftarrow> sys_memory_init s;
     s \<leftarrow> print ''Initializing filesystem...\<newline>'' [] s;
     s \<leftarrow> sys_fs_init s;
     s \<leftarrow> print ''Initializing UART and keyboard interrupts...\<newline>'' [] s;
     s \<leftarrow> sys_uart_init d s;
     let b = input_buffer_init b;
     let s = uart_enable_interrupts enable_interrupts s;
     s \<leftarrow> print ''Creating sample files...\<newline>'' [] s;
     s \<leftarrow> sample_file ''welcome.txt'' 256 ''Welcome to Fru1t OS!'' s;
     s \<leftarrow> sample_file ''readme.txt'' 512 ''This is a simple operating system with basic shell functionality.'' s;
     Some (s, b) }"

text \<open>The whole function up to the endless wait at its end; the tests of src/test_features.c, which work on their own data, are an argument.\<close>

definition kernel_main ::
    "layout \<Rightarrow> 'w uart_dev \<Rightarrow> ('w \<Rightarrow> 'w) \<Rightarrow> ('w sys \<Rightarrow> 'w sys option) \<Rightarrow> bytes \<Rightarrow> 'w sys \<Rightarrow> ('w sys \<times> Uart.input_buffer) option" where
  "kernel_main lay d enable_interrupts test_all_features m s = do {
     (s, b) \<leftarrow> kernel_init lay d enable_interrupts m s;
     s \<leftarrow> print ''\<newline>'' [] s;
     s \<leftarrow> print ''================================================\<newline>'' [] s;
     s \<leftarrow> print ''  Running Red-Black Tree, CFS and epoll Tests\<newline>'' [] s;
     s \<leftarrow> print ''================================================\<newline>'' [] s;
     s \<leftarrow> test_all_features s;
     s \<leftarrow> print ''\<newline>'' [] s;
     s \<leftarrow> print ''================================================\<newline>'' [] s;
     s \<leftarrow> print ''  All tests completed successfully!\<newline>'' [] s;
     s \<leftarrow> print ''  System halting...\<newline>'' [] s;
     s \<leftarrow> print ''================================================\<newline>'' [] s;
     s \<leftarrow> print ''\<newline>Press Ctrl+A, X to exit QEMU\<newline>\<newline>'' [] s;
     Some (s, b) }"

section \<open>Room in the heap\<close>

lemma chain_unique:
  "chain h a bs \<Longrightarrow> chain h a cs \<Longrightarrow> bs \<noteq> [] \<Longrightarrow> cs \<noteq> [] \<Longrightarrow> a + span bs \<le> HEAP_SIZE \<Longrightarrow> a + span cs \<le> HEAP_SIZE \<Longrightarrow> bs = cs"
proof (induction h a bs arbitrary: cs rule: chain.induct)
  case (2 h a f n bs)
  obtain g m cs' where cs: "cs = (g, m) # cs'" using 2(5) by (cases cs) auto
  have e: "\<lparr>is_free = f, size = of_nat n, next = at_block (a + 12 + n) bs\<rparr> = \<lparr>is_free = g, size = of_nat m, next = at_block (a + 12 + m) cs'\<rparr>"
    using 2(2,3) cs by simp
  then have "(of_nat n :: u32) = of_nat m" "f = g" by simp_all
  then have nm: "n = m" using 2(6,7) cs by (subst (asm) of_nat_heap_inj) simp_all
  have "bs = [] \<longleftrightarrow> cs' = []" using e by (auto split: if_splits)
  then show ?case using 2 cs nm \<open>f = g\<close> by (cases "bs = []") auto
qed simp

lemma heap_rep_unique:
  assumes "heap_rep L h" "heap_rep L' h" shows "L = L'"
proof -
  obtain bs where bs: "heap_ok bs h" "L = (\<lambda>p. map_of (live 0 bs) (unat p))" using assms(1) by (auto simp: heap_rep_def)
  obtain cs where cs: "heap_ok cs h" "L' = (\<lambda>p. map_of (live 0 cs) (unat p))" using assms(2) by (auto simp: heap_rep_def)
  have "bs = cs" using chain_unique [of "headers h" 0 bs cs] bs(1) cs(1) by (simp add: heap_ok_def)
  then show ?thesis using bs(2) cs(2) by simp
qed

lemma create_loop_heap:
  "fs_create_loop filename sz is f = Some (r, f') \<Longrightarrow> r \<noteq> - 1 \<Longrightarrow> \<exists>p. kmalloc sz (fs_heap f) = Some (Some p, fs_heap f')"
  by (induction "is") (auto simp: bind_eq_Some_conv upd_file_def Let_def split: if_splits)

lemma fs_create_heap: "fs_create filename sz f = Some (r, f') \<Longrightarrow> r \<noteq> - 1 \<Longrightarrow> \<exists>p. kmalloc sz (fs_heap f) = Some (Some p, fs_heap f')"
  using create_loop_heap by (auto simp: fs_create_def bind_eq_Some_conv split: if_splits)

section \<open>The sample files\<close>

lemma cstr_ok: "0 \<notin> set (literal x) \<Longrightarrow> str_ok (cstr x) \<and> str_val (cstr x) = literal x \<and> length (cstr x) = length x + 1"
  using str_val_append [of "literal x" "[]"] by (simp add: cstr_def literal_def)

lemma sys_create_block:
  assumes ok: "fs_ok L (fs s)" and room: "heap_room (unat sz + 20 + k) L (fs_heap (fs s))" and sz: "0 < unat sz" "unat sz \<le> 1024"
    and fn: "str_ok filename" "length (str_val filename) < MAX_FILENAME" "fs_map (fs s) (str_val filename) = None" "card (dom (fs_map (fs s))) \<noteq> MAX_FILES"
  obtains r out f' q m where "sys_fs_create filename sz s = Some (r, (say out s)\<lparr>fs := f'\<rparr>)" "fs_ok (L(q \<mapsto> m)) f'"
    "heap_room k (L(q \<mapsto> m)) (fs_heap f')" "fs_map f' = (fs_map (fs s))(str_val filename \<mapsto> read_bytes (fs_bytes (fs s)) q (unat sz))"
    "unat sz \<le> m" "q \<notin> dom L" "file_blocks f' = insert q (file_blocks (fs s))" "fs_bytes f' = fs_bytes (fs s)"
proof -
  have "sz \<noteq> 0" using sz(1) by auto
  then obtain p m h where p: "kmalloc sz (fs_heap (fs s)) = Some (Some p, h)" "heap_room k (L(p \<mapsto> m)) h" "p \<notin> dom L" "unat sz \<le> m"
    using kr.room_alloc [OF room] sz(2) by auto
  have sz': "\<not> sz > MAX_FILESIZE" using sz(2) by (simp add: word_less_nat_alt)
  obtain b where b: "fs_exists filename (fs s) = Some b" using fs_exists_ok [OF ok fn(1)] by blast
  show thesis
  proof (cases rule: create_ok_cases [OF ok fn(1,2), of sz, case_names failed created])
    case (failed f')
    then show thesis using sz' fn(3,4) p(1) by auto
  next
    case (created i f' q m')
    obtain p' where "kmalloc sz (fs_heap (fs s)) = Some (Some p', fs_heap f')" using fs_create_heap [OF created(1)] by auto
    then have "heap_room k (L(p \<mapsto> m)) (fs_heap f')" using p by simp
    moreover have same: "L(q \<mapsto> m') = L(p \<mapsto> m)" using heap_rep_unique [OF fs_okD(2) [OF created(2)]] kr.room_rep calculation by blast
    ultimately have "heap_room k (L(q \<mapsto> m')) (fs_heap f')" by simp
    moreover have "m' = m" using fun_cong [OF same, of q] created(8) by (cases "q = p") (auto simp: domIff)
    moreover obtain out where "sys_fs_create filename sz s = Some (int i, (say out s)\<lparr>fs := f'\<rparr>)"
      using sys_fs_create_prints [OF created(1) b fn(1)] by blast
    ultimately show thesis using that [OF _ created(2) _ created(7) _ created(8-10)] p(4) by simp
  qed
qed

lemma sys_create_new:
  assumes ok: "fs_ok L (fs s)" and room: "heap_room (unat sz + 20 + k) L (fs_heap (fs s))" and sz: "0 < unat sz" "unat sz \<le> 1024"
    and fn: "str_ok filename" "length (str_val filename) < MAX_FILENAME" "fs_map (fs s) (str_val filename) = None" "card (dom (fs_map (fs s))) \<noteq> MAX_FILES"
  obtains r out f' L' c where "sys_fs_create filename sz s = Some (r, (say out s)\<lparr>fs := f'\<rparr>)" "fs_ok L' f'"
    "heap_room k L' (fs_heap f')" "fs_map f' = (fs_map (fs s))(str_val filename \<mapsto> c)" "length c = unat sz"
proof -
  obtain r out f' q m where "sys_fs_create filename sz s = Some (r, (say out s)\<lparr>fs := f'\<rparr>)" "fs_ok (L(q \<mapsto> m)) f'"
    "heap_room k (L(q \<mapsto> m)) (fs_heap f')" "fs_map f' = (fs_map (fs s))(str_val filename \<mapsto> read_bytes (fs_bytes (fs s)) q (unat sz))"
    using sys_create_block [OF assms] .
  then show thesis by (rule that) simp
qed

text \<open>All bytes of the heap outside the blocks of files are zero.\<close>

definition clean :: "(u32 \<rightharpoonup> nat) \<Rightarrow> filesystem \<Rightarrow> bool" where
  "clean L f \<longleftrightarrow> (\<forall>a. unat a < HEAP_SIZE \<and> (\<forall>p m. p \<in> file_blocks f \<and> L p = Some m \<longrightarrow> unat a < unat p \<or> unat p + m \<le> unat a) \<longrightarrow>
     fs_bytes f a = 0)"

lemma clean_block:
  assumes c: "clean L f" and ok: "fs_ok (L(q \<mapsto> m)) f'" and q: "q \<notin> dom L" "n \<le> m"
  shows "read_bytes (fs_bytes f) q n = replicate n 0"
proof (rule nth_equalityI)
  fix j assume "j < length (read_bytes (fs_bytes f) q n)"
  then have j: "j < n" by simp
  note rep = fs_okD(2) [OF ok]
  have "unat q + m \<le> HEAP_SIZE" by (rule heap_rep_inside [OF rep]) simp
  then have u: "unat (q + of_nat j) = unat q + j" "unat q + j < HEAP_SIZE" using j q(2) by (auto intro: unat_plus)
  have "unat q + j < unat p \<or> unat p + k \<le> unat q + j" if "L p = Some k" for p k
  proof -
    have "p \<noteq> q" using that q(1) by auto
    then show ?thesis using kb.blocks_apart [OF rep, of p k q m] that j q(2) by auto
  qed
  then show "read_bytes (fs_bytes f) q n ! j = replicate n 0 ! j" using c u j by (simp add: clean_def nth_read_bytes)
qed simp

lemma clean_create:
  assumes "clean L f" "q \<notin> dom L" "file_blocks f' = insert q (file_blocks f)" "fs_bytes f' = fs_bytes f"
  shows "clean (L(q \<mapsto> m)) f'"
  unfolding clean_def
proof (intro allI impI)
  fix a :: u32 assume a: "unat a < HEAP_SIZE \<and> (\<forall>p k. p \<in> file_blocks f' \<and> (L(q \<mapsto> m)) p = Some k \<longrightarrow> unat a < unat p \<or> unat p + k \<le> unat a)"
  have "unat a < unat p \<or> unat p + k \<le> unat a" if "p \<in> file_blocks f" "L p = Some k" for p k
  proof -
    have "p \<noteq> q" using that(2) assms(2) by auto
    then show ?thesis using a assms(3) that by auto
  qed
  then show "fs_bytes f' a = 0" using assms(1,4) a by (simp add: clean_def)
qed

lemma clean_write:
  assumes c: "clean L f" and ok: "fs_ok L f" "str_ok filename" and w: "fs_write filename buf sz f = Some (r, f')"
  shows "clean L f'"
proof (cases rule: lookup_cases [OF ok, case_names found missing])
  case missing
  then show ?thesis using w c by (simp add: fs_write_def)
next
  case (found i)
  obtain p m where p: "data (files f ! i) = Some p" "L p = Some m" "unat (file_size (files f ! i)) \<le> m" using fs_ok_block [OF ok(1) found(2)] .
  consider "f' = f" | "unat sz \<le> m" "f' = f\<lparr>fs_bytes := write_bytes p (take (unat sz) buf) (fs_bytes f)\<rparr>"
    using w found(1) p by (auto simp: fs_write_def word_less_nat_alt split: if_splits)
  then show ?thesis
  proof cases
    case 2
    have pb: "p \<in> file_blocks f" using found(2) p(1) by (auto simp: file_blocks_def)
    have "unat p + length (take (unat sz) buf) \<le> 2 ^ 32" using kb.blocks_inside [OF fs_okD(2) [OF ok(1)] p(2)] 2(1) by simp
    then have w: "write_bytes p (take (unat sz) buf) (fs_bytes f) a = fs_bytes f a"
      if "unat a < unat p \<or> unat p + m \<le> unat a" for a using that 2(1) by (auto simp: write_bytes_at)
    have fb: "file_blocks f' = file_blocks f" unfolding 2(2) by (simp add: file_blocks_def used_def)
    show ?thesis unfolding clean_def fb
    proof (intro allI impI)
      fix a :: u32 assume a: "unat a < HEAP_SIZE \<and> (\<forall>p m. p \<in> file_blocks f \<and> L p = Some m \<longrightarrow> unat a < unat p \<or> unat p + m \<le> unat a)"
      then have "fs_bytes f a = 0" using c by (simp add: clean_def)
      then show "fs_bytes f' a = 0" using w [of a] a pb p(2) by (simp add: 2(2))
    qed
  qed (use c in simp)
qed

lemma sys_write_ok:
  assumes ok: "fs_ok L (fs s)" and fn: "str_ok filename" "fs_map (fs s) (str_val filename) = Some c" and sz: "unat sz \<le> length buf" "unat sz \<le> length c"
  obtains r out f' where "sys_fs_write filename buf sz s = Some (r, (say out s)\<lparr>fs := f'\<rparr>)" "fs_ok L f'" "fs_heap f' = fs_heap (fs s)"
    "fs_map f' = (fs_map (fs s))(str_val filename \<mapsto> take (unat sz) buf @ drop (unat sz) c)" "clean L (fs s) \<Longrightarrow> clean L f'"
proof -
  obtain f' where f': "fs_ok L f'" "fs_write filename buf sz (fs s) = Some (0, f')"
    "fs_map f' = (fs_map (fs s))(str_val filename \<mapsto> take (unat sz) buf @ drop (unat sz) c)"
    using fs_write_ok [OF ok fn(1) sz(1)] fn(2) sz(2) by auto
  obtain i where i: "fs_find filename [0..<MAX_FILES] (fs s) = Some (Some i)"
    using lookup_cases [OF ok fn(1)] fn(2) by (metis option.distinct(1))
  have "fs_heap f' = fs_heap (fs s)" using f'(2) by (auto simp: fs_write_def bind_eq_Some_conv split: option.splits if_splits)
  moreover have "\<exists>s1. (if Some i = NULL then print ''File '%s' not found\<newline>'' [VaStr filename] s
      else if (0 :: int) = - 1 then print ''Write size too large for file '%s'\<newline>'' [VaStr filename] s
      else print ''Wrote %d bytes to file '%s'\<newline>'' [Va32 sz, VaStr filename] s) = Some s1 \<and> says s s1"
    by (intro if_says print_saysI) (simp_all add: printf_eval fn(1))
  from bind_console [OF this, of 0 f'] obtain out where "sys_fs_write filename buf sz s = Some (0, (say out s)\<lparr>fs := f'\<rparr>)"
    unfolding sys_fs_write_def i f'(2) by (auto simp only: Option.bind.bind_lunit prod.case)
  ultimately show thesis using that f' clean_write [OF _ ok fn(1) f'(2)] by blast
qed

lemma sample_file_ok:
  assumes ok: "fs_ok L (fs s)" and room: "heap_room (unat sz + 20 + k) L (fs_heap (fs s))" and sz: "unat sz \<le> 1024" "length msg < unat sz"
    and nm: "0 \<notin> set (literal nm)" "length nm < MAX_FILENAME" "fs_map (fs s) (literal nm) = None" "card (dom (fs_map (fs s))) \<noteq> MAX_FILES"
    and msg: "0 \<notin> set (literal msg)" and cl: "clean L (fs s)"
  shows "\<exists>out f' L'. sample_file nm sz msg s = Some ((say out s)\<lparr>fs := f'\<rparr>) \<and> fs_ok L' f' \<and> heap_room k L' (fs_heap f') \<and> clean L' f' \<and>
    fs_map f' = (fs_map (fs s))(literal nm \<mapsto> literal msg @ 0 # replicate (unat sz - length msg - 1) 0)"
proof -
  note n = cstr_ok [OF nm(1)] and m = cstr_ok [OF msg]
  have len: "length (literal nm) = length nm" "length (literal msg) = length msg" by (simp_all add: literal_def)
  have sv: "str_val (cstr nm) = literal nm" and pos: "0 < unat sz" using n sz(2) by auto
  have pre: "str_ok (cstr nm)" "length (str_val (cstr nm)) < MAX_FILENAME" "fs_map (fs s) (str_val (cstr nm)) = None"
    using n nm(2,3) len by auto
  obtain r out f1 q m' where b: "sys_fs_create (cstr nm) sz s = Some (r, (say out s)\<lparr>fs := f1\<rparr>)" "fs_ok (L(q \<mapsto> m')) f1"
    "heap_room k (L(q \<mapsto> m')) (fs_heap f1)" "fs_map f1 = (fs_map (fs s))(literal nm \<mapsto> read_bytes (fs_bytes (fs s)) q (unat sz))"
    "unat sz \<le> m'" "q \<notin> dom L" "file_blocks f1 = insert q (file_blocks (fs s))" "fs_bytes f1 = fs_bytes (fs s)"
    using sys_create_block [OF ok room pos sz(1) pre nm(4), unfolded sv] .
  define L' c where "L' = L(q \<mapsto> m')" and "c = (replicate (unat sz) 0 :: u8 list)"
  have c: "sys_fs_create (cstr nm) sz s = Some (r, (say out s)\<lparr>fs := f1\<rparr>)" "fs_ok L' f1" "heap_room k L' (fs_heap f1)"
    "fs_map f1 = (fs_map (fs s))(literal nm \<mapsto> c)" "length c = unat sz" "clean L' f1"
    using b(1-4) clean_block [OF cl b(2,6,5)] clean_create [OF cl b(6-8)] by (simp_all add: L'_def c_def)
  let ?s = "(say out s)\<lparr>fs := f1\<rparr>" and ?n = "word_of_int (int (length msg) + 1) :: u32"
  have "uint ?n = int (length msg) + 1" by (rule uint_small) (use sz in simp_all)
  then have un: "unat ?n = length msg + 1" unfolding unat_eq_nat_uint by linarith
  have l: "strlen (cstr msg) = Some (int (length msg))" using strlen_ok [of "cstr msg"] m len by simp
  have f1: "fs ?s = f1" by simp
  have wp: "fs_ok L' (fs ?s)" "str_ok (cstr nm)" "fs_map (fs ?s) (str_val (cstr nm)) = Some c" "unat ?n \<le> length (cstr msg)" "unat ?n \<le> length c"
    unfolding f1 sv un using c(2,4,5) pre(1) m sz(2) by simp_all
  obtain r2 out2 f2 where w: "sys_fs_write (cstr nm) (cstr msg) ?n ?s = Some (r2, (say out2 ?s)\<lparr>fs := f2\<rparr>)" "fs_ok L' f2"
    "fs_heap f2 = fs_heap f1" "fs_map f2 = (fs_map f1)(literal nm \<mapsto> take (length msg + 1) (cstr msg) @ drop (length msg + 1) c)" "clean L' f2"
    using sys_write_ok [OF wp, unfolded sv un f1] c(6) by blast
  have "take (length msg + 1) (cstr msg) = literal msg @ [0]" by (simp add: cstr_def literal_def)
  then have "fs_map f2 = (fs_map (fs s))(literal nm \<mapsto> literal msg @ 0 # drop (length msg + 1) c)" using w(4) c(4) by simp
  moreover have "sample_file nm sz msg s = Some ((say (out @ out2) s)\<lparr>fs := f2\<rparr>)"
    unfolding sample_file_def using c(1) l w(1) by simp
  moreover have "drop (length msg + 1) c = replicate (unat sz - length msg - 1) 0" by (simp add: c_def)
  ultimately show ?thesis using w(2,3,5) c(3) by (intro exI [of _ "out @ out2"] exI [of _ f2] exI [of _ L']) simp
qed

section \<open>The cleared section\<close>

definition in_bss :: "layout \<Rightarrow> u32 \<Rightarrow> nat \<Rightarrow> bool" where
  "in_bss lay a n \<longleftrightarrow> unat (bss lay) \<le> unat a \<and> unat a + n \<le> unat (bss_end lay)"

text \<open>The uninitialised variables lie in the section.\<close>

definition layout_ok :: "layout \<Rightarrow> bool" where
  "layout_ok lay \<longleftrightarrow> in_bss lay (heap_addr lay) HEAP_SIZE \<and> in_bss lay (free_list_addr lay) 4 \<and> in_bss lay (fs_addr lay) 2436 \<and>
     in_bss lay (shell_addr lay) 264 \<and> in_bss lay (token_buffer_addr lay) 256 \<and> in_bss lay (input_buf_addr lay) 268"

lemma clear_bss_zero:
  assumes "in_bss lay a n" "j < n" shows "clear_bss lay m (a + of_nat j) = 0"
proof -
  have le: "unat (bss lay) \<le> unat (bss_end lay)" using assms(1) by (simp add: in_bss_def)
  then have s: "unat (bss_end lay - bss lay) = unat (bss_end lay) - unat (bss lay)" by (simp add: unat_sub word_le_nat_alt)
  have "unat (bss lay) + unat (bss_end lay - bss lay) \<le> 2 ^ 32" using le s unsigned_less [of "bss_end lay", where ?'a = nat] by simp
  note ms = memset_correct [OF this, of 0 m]
  have "unat (a + of_nat j) = unat a + j"
    using assms unsigned_less [of "bss_end lay", where ?'a = nat] by (intro unat_plus) (simp add: in_bss_def)
  then show ?thesis using ms s assms by (simp add: clear_bss_def in_bss_def)
qed

lemma clear_bss_bytes: "in_bss lay a n \<Longrightarrow> j + k \<le> n \<Longrightarrow> read_bytes (clear_bss lay m) (a + of_nat j) k = replicate k 0"
  by (rule nth_equalityI) (use clear_bss_zero [of lay a n] in \<open>simp_all add: nth_read_bytes add.assoc flip: of_nat_add\<close>)

lemma clear_bss_word: "in_bss lay a n \<Longrightarrow> j + 4 \<le> n \<Longrightarrow> load32 (clear_bss lay m) (a + of_nat j) = 0"
  using clear_bss_zero [of lay a n j m] clear_bss_zero [of lay a n "j + 1" m] clear_bss_zero [of lay a n "j + 2" m]
    clear_bss_zero [of lay a n "j + 3" m] by (simp add: load32_def algebra_simps)

text \<open>The variables after \<open>memset\<close>.\<close>

lemma load_cleared:
  assumes "layout_ok lay"
  shows "load_shell lay (clear_bss lay m) = \<lparr>input_buffer = replicate SHELL_BUFFER_SIZE 0, buffer_pos = 0, running = False\<rparr>"
    "load_input_buf lay (clear_bss lay m) = \<lparr>buffer = replicate 256 0, write_pos = 0, read_pos = 0, count = 0\<rparr>"
    "read_bytes (clear_bss lay m) (token_buffer_addr lay) SHELL_BUFFER_SIZE = replicate SHELL_BUFFER_SIZE 0"
    "p < HEAP_SIZE \<Longrightarrow> fs_bytes (load_fs lay (clear_bss lay m)) p = 0"
proof -
  note w = clear_bss_word and b = clear_bss_bytes [where j = 0, simplified]
  have sh: "in_bss lay (shell_addr lay) 264" and ib: "in_bss lay (input_buf_addr lay) 268" and tb: "in_bss lay (token_buffer_addr lay) 256"
    and hp: "in_bss lay (heap_addr lay) HEAP_SIZE" using assms by (simp_all add: layout_ok_def)
  show "load_shell lay (clear_bss lay m) = \<lparr>input_buffer = replicate SHELL_BUFFER_SIZE 0, buffer_pos = 0, running = False\<rparr>"
    using w [OF sh, of 256 m] w [OF sh, of 260 m] b [OF sh, of 256 m] by (simp add: load_shell_def)
  show "load_input_buf lay (clear_bss lay m) = \<lparr>buffer = replicate 256 0, write_pos = 0, read_pos = 0, count = 0\<rparr>"
    using w [OF ib, of 256 m] w [OF ib, of 260 m] w [OF ib, of 264 m] b [OF ib, of 256 m] by (simp add: load_input_buf_def)
  show "read_bytes (clear_bss lay m) (token_buffer_addr lay) SHELL_BUFFER_SIZE = replicate SHELL_BUFFER_SIZE 0"
    using b [OF tb, of 256 m] by simp
  show "fs_bytes (load_fs lay (clear_bss lay m)) p = 0" if "p < HEAP_SIZE" for p
    using clear_bss_zero [OF hp, of "unat p" m] that by (simp add: load_fs_def word_less_nat_alt)
qed

section \<open>The booted system\<close>

lemma print_any: "printf (cstr fmt) args \<noteq> None \<Longrightarrow> \<exists>out. print fmt args s = Some (say out s)"
  by (auto simp: print_ok)

lemma load_fs_init:
  assumes "heap_rep L h"
  shows "fs_ok L (fs_init ((load_fs lay m)\<lparr>fs_heap := h\<rparr>))" "fs_map (fs_init ((load_fs lay m)\<lparr>fs_heap := h\<rparr>)) = Map.empty"
  by (rule fs_init_ok; use assms in \<open>simp add: load_fs_def load_file_def\<close>)+

text \<open>The single steps.\<close>

lemma init_prints:
  assumes "fmt \<in> {''Initializing memory allocator...\<newline>'', ''Initializing filesystem...\<newline>'',
    ''Initializing UART and keyboard interrupts...\<newline>'', ''Creating sample files...\<newline>''}"
  shows "\<exists>out. print fmt [] s = Some (say out s)"
  by (rule print_any) (use assms in \<open>elim insertE emptyE; simp add: printf_eval\<close>)

lemma sys_memory_init_ok:
  assumes "memory_init (fs_heap (fs s)) = Some h"
  shows "\<exists>out. sys_memory_init s = Some ((say out s)\<lparr>fs := (fs s)\<lparr>fs_heap := h\<rparr>\<rparr>)"
  using assms print_any [of "''Memory allocator initialized: %d bytes available\<newline>''" "[Va32 HEAP_SIZE]" "s\<lparr>fs := (fs s)\<lparr>fs_heap := h\<rparr>\<rparr>"]
  by (simp add: sys_memory_init_def printf_eval)

lemma sys_fs_init_ok: "\<exists>out. sys_fs_init s = Some ((say out s)\<lparr>fs := fs_init (fs s)\<rparr>)"
  using print_any [of "''Filesystem initialized: %d file slots available\<newline>''" "[Va32 32]" "s\<lparr>fs := fs_init (fs s)\<rparr>"]
  by (simp add: sys_fs_init_def printf_eval)

lemma sys_uart_init_ok: "\<exists>out. sys_uart_init d s = Some (say out (s\<lparr>world := uart_init d (world s)\<rparr>))"
  using print_any [of "''UART initialized\<newline>''" "[]" "s\<lparr>world := uart_init d (world s)\<rparr>"] by (simp add: sys_uart_init_def printf_eval)

text \<open>The state before the sample files.\<close>

lemma kernel_init_start:
  fixes lay and m and s :: "'w sys"
  defines "s0 \<equiv> load_statics lay (clear_bss lay m) s"
  shows "\<exists>s1 o1 o2 o3. kernel_init lay d en m s = do {
       s \<leftarrow> sample_file ''welcome.txt'' 256 ''Welcome to Fru1t OS!'' s1;
       s \<leftarrow> sample_file ''readme.txt'' 512 ''This is a simple operating system with basic shell functionality.'' s;
       Some (s, input_buffer_init (load_input_buf lay (clear_bss lay m))) } \<and>
     fs_ok Map.empty (fs s1) \<and> fs_map (fs s1) = Map.empty \<and> heap_room 4194292 Map.empty (fs_heap (fs s1)) \<and>
     fs_bytes (fs s1) = fs_bytes (fs s0) \<and> shell s1 = shell s0 \<and> token_buffer s1 = token_buffer s0 \<and> firmware s1 = firmware s \<and>
     world s1 = emit (firmware s) o3 (en (emit (firmware s) o2 (uart_init d (emit (firmware s) o1 (world s))))) \<and>
     console s1 = console s @ o1 @ o2 @ o3"
proof -
  obtain h where h: "memory_init (fs_heap (fs s0)) = Some h" "heap_ok [(True, 4194292)] h" "heap_rep Map.empty h"
    using init_heap by blast
  define f1 f2 where "f1 = (fs s0)\<lparr>fs_heap := h\<rparr>" and "f2 = fs_init f1"
  have s0: "fs s0 = load_fs lay (clear_bss lay m)" "firmware s0 = firmware s" "world s0 = world s" "console s0 = console s"
    by (simp_all add: s0_def load_statics_def)
  obtain c1 where 1: "print ''Initializing memory allocator...\<newline>'' [] s0 = Some (say c1 s0)" using init_prints [of _ s0] by blast
  obtain c2 where 2: "sys_memory_init (say c1 s0) = Some ((say (c1 @ c2) s0)\<lparr>fs := f1\<rparr>)"
    using sys_memory_init_ok [of "say c1 s0" h] h(1) by (auto simp: f1_def)
  obtain c3 where 3: "print ''Initializing filesystem...\<newline>'' [] ((say (c1 @ c2) s0)\<lparr>fs := f1\<rparr>) = Some ((say (c1 @ c2 @ c3) s0)\<lparr>fs := f1\<rparr>)"
    using init_prints [of "''Initializing filesystem...\<newline>''" "(say (c1 @ c2) s0)\<lparr>fs := f1\<rparr>"] by auto
  obtain c4 where 4: "sys_fs_init ((say (c1 @ c2 @ c3) s0)\<lparr>fs := f1\<rparr>) = Some ((say (c1 @ c2 @ c3 @ c4) s0)\<lparr>fs := f2\<rparr>)"
    using sys_fs_init_ok [of "(say (c1 @ c2 @ c3) s0)\<lparr>fs := f1\<rparr>"] by (auto simp: f2_def)
  obtain c5 where 5: "print ''Initializing UART and keyboard interrupts...\<newline>'' [] ((say (c1 @ c2 @ c3 @ c4) s0)\<lparr>fs := f2\<rparr>) =
      Some ((say (c1 @ c2 @ c3 @ c4 @ c5) s0)\<lparr>fs := f2\<rparr>)"
    using init_prints [of "''Initializing UART and keyboard interrupts...\<newline>''" "(say (c1 @ c2 @ c3 @ c4) s0)\<lparr>fs := f2\<rparr>"] by auto
  define s5 where "s5 = (say (c1 @ c2 @ c3 @ c4 @ c5) s0)\<lparr>fs := f2\<rparr>"
  obtain c6 where 6: "sys_uart_init d s5 = Some (say c6 (s5\<lparr>world := uart_init d (world s5)\<rparr>))" using sys_uart_init_ok by blast
  define s6 where "s6 = uart_enable_interrupts en (say c6 (s5\<lparr>world := uart_init d (world s5)\<rparr>))"
  obtain c7 where 7: "print ''Creating sample files...\<newline>'' [] s6 = Some (say c7 s6)" using init_prints [of _ s6] by blast
  have "heap_room 4194292 Map.empty h" unfolding heap_room_def by (rule exI [of _ "[(True, 4194292)]"]) (simp add: h(2))
  moreover have f: "fs_heap f2 = h" "fs_bytes f2 = fs_bytes (fs s0)" by (simp_all add: f2_def f1_def fs_init_def)
  moreover have "fs (say c7 s6) = f2" "shell (say c7 s6) = shell s0" "token_buffer (say c7 s6) = token_buffer s0" "firmware (say c7 s6) = firmware s"
    by (simp_all add: s6_def s5_def uart_enable_interrupts_def s0)
  moreover have "world (say c7 s6) = emit (firmware s) c7 (en (emit (firmware s) c6 (uart_init d (emit (firmware s) (c1 @ c2 @ c3 @ c4 @ c5) (world s)))))"
    "console (say c7 s6) = console s @ (c1 @ c2 @ c3 @ c4 @ c5) @ c6 @ c7"
    by (simp_all add: s6_def s5_def uart_enable_interrupts_def s0)
  moreover have "fs_ok Map.empty f2" "fs_map f2 = Map.empty" using load_fs_init [OF h(3)] by (simp_all add: f2_def f1_def s0)
  moreover have "kernel_init lay d en m s = do {
       s \<leftarrow> sample_file ''welcome.txt'' 256 ''Welcome to Fru1t OS!'' (say c7 s6);
       s \<leftarrow> sample_file ''readme.txt'' 512 ''This is a simple operating system with basic shell functionality.'' s;
       Some (s, input_buffer_init (load_input_buf lay (clear_bss lay m))) }"
    unfolding kernel_init_def Let_def s0_def [symmetric] using 1 2 3 4 5 [folded s5_def] 6 7 by (simp add: s6_def)
  ultimately show ?thesis
    by (intro exI [of _ "say c7 s6"] exI [of _ "c1 @ c2 @ c3 @ c4 @ c5"] exI [of _ c6] exI [of _ c7]) simp
qed

text \<open>The two files of a started system.\<close>

definition boot_files :: "u8 list \<rightharpoonup> u8 list" where
  "boot_files = [literal ''welcome.txt'' \<mapsto> literal ''Welcome to Fru1t OS!'' @ replicate 236 0,
     literal ''readme.txt'' \<mapsto> literal ''This is a simple operating system with basic shell functionality.'' @ replicate 447 0]"

lemma kernel_init_ok:
  assumes lay: "layout_ok lay"
  shows "\<exists>s' b' L o1 o2 o3. kernel_init lay d en m s = Some (s', b') \<and> ring [] b' \<and> sys_ok L s' \<and> line_rep [] s' \<and> fs_map (fs s') = boot_files \<and>
     world s' = emit (firmware s) o3 (en (emit (firmware s) o2 (uart_init d (emit (firmware s) o1 (world s))))) \<and>
     console s' = console s @ o1 @ o2 @ o3"
proof -
  let ?m = "clear_bss lay m" let ?start = "load_statics lay ?m s" and ?b = "input_buffer_init (load_input_buf lay ?m)"
  obtain s1 o1 o2 o3 where s1: "kernel_init lay d en m s = do {
       s \<leftarrow> sample_file ''welcome.txt'' 256 ''Welcome to Fru1t OS!'' s1;
       s \<leftarrow> sample_file ''readme.txt'' 512 ''This is a simple operating system with basic shell functionality.'' s;
       Some (s, ?b) }"
     "fs_ok Map.empty (fs s1)" "fs_map (fs s1) = Map.empty" "heap_room 4194292 Map.empty (fs_heap (fs s1))" "fs_bytes (fs s1) = fs_bytes (fs ?start)"
     "shell s1 = shell ?start" "token_buffer s1 = token_buffer ?start" "firmware s1 = firmware s"
     "world s1 = emit (firmware s) o3 (en (emit (firmware s) o2 (uart_init d (emit (firmware s) o1 (world s)))))" "console s1 = console s @ o1 @ o2 @ o3"
    using kernel_init_start [of lay d en m s] by blast
  have cl0: "clean Map.empty (fs s1)"
    using s1(5) load_cleared(4) [OF lay] by (auto simp: clean_def load_statics_def word_less_nat_alt)
  have lit: "0 \<notin> set (literal ''welcome.txt'')" "0 \<notin> set (literal ''readme.txt'')" "0 \<notin> set (literal ''Welcome to Fru1t OS!'')"
    "0 \<notin> set (literal ''This is a simple operating system with basic shell functionality.'')" by (simp_all add: literal_def)
  have "heap_room (unat (256 :: u32) + 20 + 9000) Map.empty (fs_heap (fs s1))" by (rule kr.room_mono [OF s1(4)]) simp
  from sample_file_ok [OF s1(2) this _ _ lit(1) _ _ _ lit(3) cl0] s1(3) obtain e1 f1 L1 where
    1: "sample_file ''welcome.txt'' 256 ''Welcome to Fru1t OS!'' s1 = Some ((say e1 s1)\<lparr>fs := f1\<rparr>)" "fs_ok L1 f1"
    "heap_room 9000 L1 (fs_heap f1)" "clean L1 f1" "fs_map f1 = [literal ''welcome.txt'' \<mapsto> literal ''Welcome to Fru1t OS!'' @ 0 # replicate 235 0]"
    by auto
  let ?s = "(say e1 s1)\<lparr>fs := f1\<rparr>"
  have pre: "fs_ok L1 (fs ?s)" "clean L1 (fs ?s)" "heap_room (unat (512 :: u32) + 20 + 8192) L1 (fs_heap (fs ?s))"
    using 1(2,4) kr.room_mono [OF 1(3), of "unat (512 :: u32) + 20 + 8192"] by simp_all
  obtain e2 f2 L2 where
    2: "sample_file ''readme.txt'' 512 ''This is a simple operating system with basic shell functionality.'' ?s = Some ((say e2 ?s)\<lparr>fs := f2\<rparr>)"
    "fs_ok L2 f2" "heap_room 8192 L2 (fs_heap f2)"
    "fs_map f2 = (fs_map f1)(literal ''readme.txt'' \<mapsto> literal ''This is a simple operating system with basic shell functionality.'' @ 0 # replicate 446 0)"
    using sample_file_ok [OF pre(1,3) _ _ lit(2) _ _ _ lit(4) pre(2)] 1(5) by (auto simp: literal_eq)
  let ?s' = "(say e2 ?s)\<lparr>fs := f2\<rparr>"
  have b0: "shell ?start = \<lparr>input_buffer = replicate 256 0, buffer_pos = 0, running = False\<rparr>" "token_buffer ?start = replicate 256 0"
    "length (buffer (load_input_buf lay ?m)) = 256"
    using load_cleared(1-3) [OF lay, of m] by (simp_all add: load_statics_def)
  have "kernel_init lay d en m s = Some (?s', ?b)" using s1(1) 1(1) 2(1) by simp
  moreover have "sys_ok L2 ?s'" "line_rep [] ?s'" using 2(2,3) b0 s1(6,7) by (simp_all add: sys_ok_def line_rep_def)
  moreover have "replicate 236 (0 :: u8) = 0 # replicate 235 0" "replicate 447 (0 :: u8) = 0 # replicate 446 0"
    by (simp_all add: replicate_Suc [symmetric] del: replicate_Suc)
  then have "fs_map (fs ?s') = boot_files" using 1(5) 2(4) by (simp add: boot_files_def)
  moreover have "world ?s' = emit (firmware s) (o3 @ e1 @ e2) (en (emit (firmware s) o2 (uart_init d (emit (firmware s) o1 (world s)))))"
    "console ?s' = console s @ o1 @ o2 @ o3 @ e1 @ e2" using s1(8-10) by simp_all
  ultimately show ?thesis using ring_init [OF b0(3)]
    by (intro exI [of _ ?s'] exI [of _ ?b] exI [of _ L2] exI [of _ o1] exI [of _ o2] exI [of _ "o3 @ e1 @ e2"]) simp
qed

text \<open>The kernel comes to its final wait exactly if the tests return, with the files as the tests leave them.\<close>

lemma kernel_main_waits:
  assumes "layout_ok lay"
  shows "\<exists>s1 b1 s2. kernel_init lay d en m s = Some (s1, b1) \<and> says s1 s2 \<and>
     (case tests s2 of None \<Rightarrow> kernel_main lay d en tests m s = None
      | Some s3 \<Rightarrow> \<exists>s4. says s3 s4 \<and> kernel_main lay d en tests m s = Some (s4, b1))"
proof -
  obtain s1 b1 where k: "kernel_init lay d en m s = Some (s1, b1)" using kernel_init_ok [OF assms] by blast
  have f: "printf (cstr ''\<newline>'') [] \<noteq> None" "printf (cstr ''================================================\<newline>'') [] \<noteq> None"
    "printf (cstr ''  Running Red-Black Tree, CFS and epoll Tests\<newline>'') [] \<noteq> None" "printf (cstr ''  All tests completed successfully!\<newline>'') [] \<noteq> None"
    "printf (cstr ''  System halting...\<newline>'') [] \<noteq> None" "printf (cstr ''\<newline>Press Ctrl+A, X to exit QEMU\<newline>\<newline>'') [] \<noteq> None"
    by (simp_all add: printf_eval)
  obtain t1 where t1: "print ''\<newline>'' [] s1 = Some t1" "says s1 t1" using print_saysI [OF f(1)] by blast
  obtain t2 where t2: "print ''================================================\<newline>'' [] t1 = Some t2" "says s1 t2" using print_saysI [OF f(2)] says_trans [OF t1(2)] by blast
  obtain t3 where t3: "print ''  Running Red-Black Tree, CFS and epoll Tests\<newline>'' [] t2 = Some t3" "says s1 t3" using print_saysI [OF f(3)] says_trans [OF t2(2)] by blast
  obtain t4 where t4: "print ''================================================\<newline>'' [] t3 = Some t4" "says s1 t4" using print_saysI [OF f(2)] says_trans [OF t3(2)] by blast
  have "case tests t4 of None \<Rightarrow> kernel_main lay d en tests m s = None | Some s3 \<Rightarrow> \<exists>s4. says s3 s4 \<and> kernel_main lay d en tests m s = Some (s4, b1)"
  proof (cases "tests t4")
    case None
    then show ?thesis by (simp add: kernel_main_def k t1 t2 t3 t4)
  next
    case (Some s3)
    obtain u1 where u1: "print ''\<newline>'' [] s3 = Some u1" "says s3 u1" using print_saysI [OF f(1)] by blast
    obtain u2 where u2: "print ''================================================\<newline>'' [] u1 = Some u2" "says s3 u2" using print_saysI [OF f(2)] says_trans [OF u1(2)] by blast
    obtain u3 where u3: "print ''  All tests completed successfully!\<newline>'' [] u2 = Some u3" "says s3 u3" using print_saysI [OF f(4)] says_trans [OF u2(2)] by blast
    obtain u4 where u4: "print ''  System halting...\<newline>'' [] u3 = Some u4" "says s3 u4" using print_saysI [OF f(5)] says_trans [OF u3(2)] by blast
    obtain u5 where u5: "print ''================================================\<newline>'' [] u4 = Some u5" "says s3 u5" using print_saysI [OF f(2)] says_trans [OF u4(2)] by blast
    obtain u6 where u6: "print ''\<newline>Press Ctrl+A, X to exit QEMU\<newline>\<newline>'' [] u5 = Some u6" "says s3 u6" using print_saysI [OF f(6)] says_trans [OF u5(2)] by blast
    show ?thesis using Some u6(2) by (simp add: kernel_main_def k t1 t2 t3 t4 u1 u2 u3 u4 u5 u6)
  qed
  then show ?thesis using k t4(2) by blast
qed

section \<open>Properties\<close>

text \<open>C23: whatever the memory held before, if the uninitialised static variables lie between \<open>bss\<close> and \<open>bss_end\<close>, the
  initialisation in \<open>kernel_main\<close> returns with an empty keyboard buffer, an empty command line and exactly the two files welcome.txt (256
  bytes) and readme.txt (512 bytes), which hold their texts and zeros after them; the invariants of the heap and the file system hold, and a
  free block of 8 KB is left for the shell.  The world has seen output, the setting of the UART's registers, output, the enabling of interrupts
  and output, in this order.\<close>

theorem kernel_init_files:
  assumes "layout_ok lay"
  shows "\<exists>s' b' L o1 o2 o3. kernel_init lay d en m s = Some (s', b') \<and> ring [] b' \<and> sys_ok L s' \<and> line_rep [] s' \<and>
     fs_map (fs s') = [literal ''welcome.txt'' \<mapsto> literal ''Welcome to Fru1t OS!'' @ replicate 236 0,
       literal ''readme.txt'' \<mapsto> literal ''This is a simple operating system with basic shell functionality.'' @ replicate 447 0] \<and>
     world s' = emit (firmware s) o3 (en (emit (firmware s) o2 (uart_init d (emit (firmware s) o1 (world s))))) \<and>
     console s' = console s @ o1 @ o2 @ o3"
  using kernel_init_ok [OF assms, of d en m s] unfolding boot_files_def .

definition sample_layout :: layout where
  "sample_layout = \<lparr>bss = 0x80210000, bss_end = 0x80620000, heap_addr = 0x80211000, free_list_addr = 0x80210000, fs_addr = 0x80611000,
     shell_addr = 0x80612000, token_buffer_addr = 0x80613000, input_buf_addr = 0x80614000, first_time_addr = 0x8020FFF0\<rparr>"

theorem kernel_init_files_witness:
  "\<exists>s' b'. kernel_init sample_layout sample_uart (\<lambda>w. w) (\<lambda>a. 170) (sample_sys [] \<lparr>headers = Map.empty, free_list = NULL\<rparr>) = Some (s', b') \<and> ring [] b' \<and> line_rep [] s' \<and>
     fs_map (fs s') (literal ''welcome.txt'') = Some (literal ''Welcome to Fru1t OS!'' @ replicate 236 0)"
proof -
  have lay: "layout_ok sample_layout" by (simp add: layout_ok_def in_bss_def sample_layout_def)
  have "literal ''welcome.txt'' \<noteq> literal ''readme.txt''" by (simp add: literal_eq)
  then show ?thesis using kernel_init_files [OF lay, of sample_uart "\<lambda>w. w" "\<lambda>a. 170" "sample_sys [] \<lparr>headers = Map.empty, free_list = NULL\<rparr>"]
    by (elim exE conjE) (intro exI conjI, assumption+, simp)
qed

text \<open>The shell on the initialised system: the line ``cat welcome.txt'' prints the message of \<open>fs_read\<close>, the title and the stored text,
  through the tokenizer, the heap, the file system and \<open>printf\<close>, and leaves the files as they were.\<close>

theorem boot_cat_welcome:
  assumes "layout_ok lay"
  shows "\<exists>s' b' s''. kernel_init lay d en m s = Some (s', b') \<and> shell_parse_command (cstr ''cat welcome.txt'') s' = Some s'' \<and>
     console s'' = console s' @ literal ''Read 256 bytes from file '' @ [39] @ literal ''welcome.txt'' @ [39, 10] @
       literal ''Content of welcome.txt:'' @ [10] @ literal ''Welcome to Fru1t OS!'' @ [10] \<and>
     fs_map (fs s'') = fs_map (fs s')"
proof -
  let ?i = "cstr ''cat welcome.txt''" and ?msg = "literal ''Welcome to Fru1t OS!''"
  obtain s' b' L where k: "kernel_init lay d en m s = Some (s', b')" "sys_ok L s'" "fs_map (fs s') = boot_files"
    using kernel_init_ok [OF assms, of d en m s] by blast
  have zeros: "str_val (replicate n 0) = []" for n by (cases n) simp_all
  have i: "str_ok ?i" "str_val ?i = literal ''cat welcome.txt''" using cstr_ok [of "''cat welcome.txt''"] by (simp_all add: literal_def)
  have w: "words (literal ''cat welcome.txt'') = [literal ''cat'', literal ''welcome.txt'']" by (simp add: words_def blank_def literal_def)
  have "line_ok (str_val ?i)" unfolding i(2) line_ok_def w by (simp add: command_ok_def literal_eq) (simp add: literal_def)
  from parse_ok [OF k(2) i(1) this] obtain s'' L' out where p: "shell_parse_command ?i s' = Some s''" "console s'' = console s' @ out"
    "line_effect (str_val ?i) (fs_map (fs s')) L (running (shell s')) (fs_map (fs s'')) L' (running (shell s''))"
    "words (str_val ?i) \<noteq> [] \<longrightarrow> command_prints (take 10 (words (str_val ?i))) (fs_map (fs s')) out" by blast
  have "fs_map (fs s'') = fs_map (fs s')" using p(3) unfolding i(2) by (simp add: line_effect_def w command_effect_def literal_eq Let_def)
  moreover have "out = cat_text (literal ''welcome.txt'') (?msg @ replicate 236 0)"
    using p(4) unfolding i(2) w k(3) boot_files_def by (simp add: command_prints_def literal_eq)
  moreover have "cat_text (literal ''welcome.txt'') (?msg @ replicate 236 0) = literal ''Read 256 bytes from file '' @ [39] @ literal ''welcome.txt'' @ [39, 10] @
       literal ''Content of welcome.txt:'' @ [10] @ ?msg @ [10]"
    using zeros by (simp add: cat_text_def literal_def dec_int_def dec.simps)
  ultimately show ?thesis using k(1) p(1,2) by (intro exI [of _ s'] exI [of _ b'] exI [of _ s'']) simp
qed

end
