(* ===== verification/Demo.thy ===== *)
theory Demo
  imports Boot
begin

text \<open>
  The demonstrations of src/kernel.c: the memory test, the file system test and the scripted shell session, with all text that they print.
\<close>

section \<open>Programs\<close>

text \<open>\<open>kmalloc\<close> and \<open>kfree\<close> on the state of the system; a request of no bytes fails without a message.\<close>

definition sys_kmalloc :: "u32 \<Rightarrow> 'w sys \<Rightarrow> (u32 ptr \<times> 'w sys) option" where
  "sys_kmalloc n s = do {
     (p, h) \<leftarrow> kmalloc n (fs_heap (fs s));
     s \<leftarrow> (if p = NULL \<and> n \<noteq> 0 then print ''kmalloc failed: no suitable block found\<newline>'' [] s else Some s);
     Some (p, s\<lparr>fs := (fs s)\<lparr>fs_heap := h\<rparr>\<rparr>) }"

definition sys_kfree :: "u32 ptr \<Rightarrow> 'w sys \<Rightarrow> 'w sys option" where
  "sys_kfree p s = do { h \<leftarrow> kfree p (fs_heap (fs s)); Some (s\<lparr>fs := (fs s)\<lparr>fs_heap := h\<rparr>\<rparr>) }"

text \<open>A heap pointer as a number; the address of the array \<open>heap\<close> is an argument.\<close>

definition ptr_value :: "u32 \<Rightarrow> u32 ptr \<Rightarrow> u32" where
  "ptr_value heap p = (case p of None \<Rightarrow> 0 | Some a \<Rightarrow> heap + a)"

definition test_memory_allocation :: "u32 \<Rightarrow> 'w sys \<Rightarrow> 'w sys option" where
  "test_memory_allocation heap s = do {
     s \<leftarrow> print ''\<newline>=== Memory Allocation Test ===\<newline>'' [] s;
     (ptr1, s) \<leftarrow> sys_kmalloc 64 s;
     s \<leftarrow> print ''Allocated 64 bytes at %p\<newline>'' [Va32 (ptr_value heap ptr1)] s;
     s \<leftarrow> sys_memory_stats s;
     (ptr2, s) \<leftarrow> sys_kmalloc 128 s;
     s \<leftarrow> print ''Allocated 128 bytes at %p\<newline>'' [Va32 (ptr_value heap ptr2)] s;
     s \<leftarrow> sys_memory_stats s;
     (ptr3, s) \<leftarrow> sys_kmalloc 256 s;
     s \<leftarrow> print ''Allocated 256 bytes at %p\<newline>'' [Va32 (ptr_value heap ptr3)] s;
     s \<leftarrow> sys_memory_stats s;
     s \<leftarrow> sys_kfree ptr2 s;
     s \<leftarrow> print ''Freed 128 byte block\<newline>'' [] s;
     s \<leftarrow> sys_memory_stats s;
     (ptr4, s) \<leftarrow> sys_kmalloc 100 s;
     s \<leftarrow> print ''Allocated 100 bytes at %p\<newline>'' [Va32 (ptr_value heap ptr4)] s;
     s \<leftarrow> sys_memory_stats s;
     s \<leftarrow> sys_kfree ptr1 s;
     s \<leftarrow> sys_kfree ptr3 s;
     s \<leftarrow> sys_kfree ptr4 s;
     s \<leftarrow> print ''Freed all remaining blocks\<newline>'' [] s;
     sys_memory_stats s }"

text \<open>\<open>buf\<close> is the array \<open>buffer\<close>, which is not initialised: a read overwrites its beginning.\<close>

definition test_filesystem :: "u8 list \<Rightarrow> 'w sys \<Rightarrow> 'w sys option" where
  "test_filesystem buf s = do {
     s \<leftarrow> print ''\<newline>=== File System Test ===\<newline>'' [] s;
     (_, s) \<leftarrow> sys_fs_create (cstr ''fru1tworld.txt'') 512 s;
     (_, s) \<leftarrow> sys_fs_create (cstr ''fru1tworld_delete_test.txt'') 256 s;
     s \<leftarrow> sys_fs_list s;
     n \<leftarrow> strlen (cstr ''happy cat'');
     (_, s) \<leftarrow> sys_fs_write (cstr ''fru1tworld.txt'') (cstr ''happy cat'') (word_of_int (n + 1)) s;
     n \<leftarrow> strlen (cstr ''This file will be deleted to test deletion functionality.'');
     (_, s) \<leftarrow> sys_fs_write (cstr ''fru1tworld_delete_test.txt'') (cstr ''This file will be deleted to test deletion functionality.'')
       (word_of_int (n + 1)) s;
     (bytes_read, new, s) \<leftarrow> sys_fs_read (cstr ''fru1tworld.txt'') 512 s;
     let buf = new @ drop (length new) buf;
     s \<leftarrow> (if bytes_read > 0 then print ''Content of fru1tworld.txt: %s\<newline>'' [VaStr buf] s else Some s);
     (bytes_read, new, s) \<leftarrow> sys_fs_read (cstr ''fru1tworld_delete_test.txt'') 512 s;
     let buf = new @ drop (length new) buf;
     s \<leftarrow> (if bytes_read > 0 then print ''Content of fru1tworld_delete_test.txt: %s\<newline>'' [VaStr buf] s else Some s);
     (_, s) \<leftarrow> sys_fs_delete (cstr ''fru1tworld_delete_test.txt'') s;
     s \<leftarrow> sys_fs_list s;
     sys_memory_stats s }"

definition shell_demo :: "'w sys \<Rightarrow> 'w sys option" where
  "shell_demo s = do {
     s \<leftarrow> print ''\<newline>=== Fru1t OS Shell Demo ===\<newline>'' [] s;
     s \<leftarrow> print ''(Simulating user commands since keyboard input not implemented)\<newline>\<newline>'' [] s;
     let s = shell_init s;
     s \<leftarrow> print ''fru1t-os> help\<newline>'' [] s;
     s \<leftarrow> cmd_help s;
     s \<leftarrow> print ''fru1t-os> ls\<newline>'' [] s;
     s \<leftarrow> cmd_ls s;
     s \<leftarrow> print ''fru1t-os> cat welcome.txt\<newline>'' [] s;
     s \<leftarrow> cmd_cat (cstr ''welcome.txt'') s;
     s \<leftarrow> print ''fru1t-os> create test.txt 128\<newline>'' [] s;
     s \<leftarrow> cmd_create (cstr ''test.txt'') (cstr ''128'') s;
     s \<leftarrow> print ''fru1t-os> echo Hello Fru1t OS!\<newline>'' [] s;
     s \<leftarrow> cmd_echo (\<lambda>s a. Some a) [cstr ''echo'', cstr ''Hello'', cstr ''Fru1t'', cstr ''OS!''] 4 s;
     s \<leftarrow> print ''fru1t-os> ls\<newline>'' [] s;
     s \<leftarrow> cmd_ls s;
     s \<leftarrow> print ''fru1t-os> memstat\<newline>'' [] s;
     s \<leftarrow> cmd_memstat s;
     s \<leftarrow> print ''fru1t-os> delete test.txt\<newline>'' [] s;
     s \<leftarrow> cmd_delete (cstr ''test.txt'') s;
     s \<leftarrow> print ''fru1t-os> ls\<newline>'' [] s;
     s \<leftarrow> cmd_ls s;
     s \<leftarrow> print ''fru1t-os> exit\<newline>'' [] s;
     s \<leftarrow> print ''Goodbye!\<newline>'' [] s;
     print ''\<newline>=== Shell Demo Complete ===\<newline>'' [] s }"

section \<open>Running a program\<close>

text \<open>A program returns a state with a property.\<close>

definition returns :: "'a option \<Rightarrow> ('a \<Rightarrow> bool) \<Rightarrow> bool" where
  "returns r P \<longleftrightarrow> (\<exists>x. r = Some x \<and> P x)"

lemma returns_Some [simp]: "returns (Some x) P \<longleftrightarrow> P x"
  by (simp add: returns_def)

lemma returns_bind: "returns a Q \<Longrightarrow> (\<And>x. Q x \<Longrightarrow> returns (f x) P) \<Longrightarrow> returns (Option.bind a f) P"
  by (auto simp: returns_def)

text \<open>The system owns the blocks \<open>S\<close> beside those of \<open>L0\<close>, and its files are \<open>M\<close>.\<close>

definition owned :: "(u32 \<rightharpoonup> nat) \<Rightarrow> u32 set \<Rightarrow> (u8 list \<rightharpoonup> u8 list) \<Rightarrow> 'w sys \<Rightarrow> bool" where
  "owned L0 S M s \<longleftrightarrow> (\<exists>L. fs_ok L (fs s) \<and> fs_map (fs s) = M \<and> S \<subseteq> dom L \<and> S \<inter> file_blocks (fs s) = {} \<and> L0 = L |` (- S))"

lemma owned_says: "owned L0 S M s \<Longrightarrow> says s s' \<Longrightarrow> owned L0 S M s'"
  by (simp add: owned_def)

lemma owned_print: "owned L0 S M s \<Longrightarrow> printf (cstr fmt) args \<noteq> None \<Longrightarrow> returns (print fmt args s) (owned L0 S M)"
  using print_saysI [of fmt args s] owned_says by (fastforce simp: returns_def)

lemma owned_stats: "owned L0 S M s \<Longrightarrow> returns (sys_memory_stats s) (owned L0 S M)"
proof -
  assume o: "owned L0 S M s"
  then obtain L where "fs_ok L (fs s)" by (auto simp: owned_def)
  from cmd_memstat_says [OF this] show ?thesis using owned_says [OF o] by (auto simp: cmd_memstat_def returns_def)
qed

lemma owned_alloc:
  assumes "owned L0 S M s"
  shows "returns (sys_kmalloc n s) (\<lambda>(p, s'). set_option p \<inter> S = {} \<and> owned L0 (set_option p \<union> S) M s')"
proof -
  obtain L where L: "fs_ok L (fs s)" "fs_map (fs s) = M" "S \<subseteq> dom L" "S \<inter> file_blocks (fs s) = {}" "L0 = L |` (- S)"
    using assms by (auto simp: owned_def)
  obtain p h where k: "kmalloc n (fs_heap (fs s)) = Some (p, h)" using kh.alloc_total [OF fs_okD(2) [OF L(1)]] by blast
  let ?f = "(fs s)\<lparr>fs_heap := h\<rparr>"
  obtain L' where L': "heap_rep L' h" "set_option p \<inter> dom L = {}" "dom L' = set_option p \<union> dom L" "\<forall>q \<in> dom L. L' q = L q"
  proof (cases p)
    case None
    then show thesis using that [of L] kh.alloc_null [OF fs_okD(2) [OF L(1)], of n h] k by simp
  next
    case (Some a)
    then obtain m where "a \<notin> dom L" "heap_rep (L(a \<mapsto> m)) h" using kh.alloc_some [OF fs_okD(2) [OF L(1)], of n a h] k by blast
    then show thesis using that [of "L(a \<mapsto> m)"] Some by auto
  qed
  have fb: "file_blocks (fs s) \<subseteq> dom L" by (rule file_blocks_dom [OF L(1)])
  have f: "fs_ok L' ?f" "fs_map ?f = fs_map (fs s)" "file_blocks ?f = file_blocks (fs s)"
    by (rule fs_frame [OF L(1), where L' = L']; use L'(1,4) fb in auto)+
  have "L0 = L' |` (- (set_option p \<union> S))"
  proof
    fix q show "L0 q = (L' |` (- (set_option p \<union> S))) q"
      using L(5) L'(2-4) by (cases "q \<in> dom L") (auto simp: restrict_map_def domIff)
  qed
  then have o: "owned L0 (set_option p \<union> S) M (s'\<lparr>fs := ?f\<rparr>)" for s'
    unfolding owned_def using f L L'(2,3) fb by (intro exI [of _ L']) auto
  have "set_option p \<inter> S = {}" using L(3) L'(2) by auto
  moreover have "\<exists>s1. (if p = NULL \<and> n \<noteq> 0 then print ''kmalloc failed: no suitable block found\<newline>'' [] s else Some s) = Some s1 \<and> says s s1"
    by (rule if_says [OF print_saysI]) (simp_all add: printf_eval says_refl)
  then obtain s1 where "(if p = NULL \<and> n \<noteq> 0 then print ''kmalloc failed: no suitable block found\<newline>'' [] s else Some s) = Some s1" "fs s1 = fs s" by auto
  ultimately show ?thesis using o [of s1] k by (simp add: sys_kmalloc_def returns_def)
qed

lemma owned_free:
  assumes "owned L0 S M s" "set_option p \<subseteq> S"
  shows "returns (sys_kfree p s) (owned L0 (S - set_option p) M)"
proof (cases p)
  case None
  then show ?thesis using assms by (simp add: sys_kfree_def kfree_def)
next
  case (Some a)
  obtain L where L: "fs_ok L (fs s)" "fs_map (fs s) = M" "S \<subseteq> dom L" "S \<inter> file_blocks (fs s) = {}" "L0 = L |` (- S)"
    using assms by (auto simp: owned_def)
  have a: "a \<in> S" using assms(2) Some by simp
  obtain h where h: "kfree (Some a) (fs_heap (fs s)) = Some h" "heap_rep (L(a := None)) h"
    using kh.dealloc_some [OF fs_okD(2) [OF L(1)], of a] a L(3) by blast
  let ?f = "(fs s)\<lparr>fs_heap := h\<rparr>"
  have f: "fs_ok (L(a := None)) ?f" "fs_map ?f = fs_map (fs s)" "file_blocks ?f = file_blocks (fs s)"
    by (rule fs_frame [OF L(1), where L' = "L(a := None)"]; use h(2) a L(4) in auto)+
  have "L0 = L(a := None) |` (- (S - {a}))" using L(5) a by (auto simp: restrict_map_def fun_eq_iff)
  then show ?thesis unfolding sys_kfree_def owned_def Some using h(1) f L
    by simp (intro exI [of _ "L(a := None)"], auto)
qed

section \<open>The memory test\<close>

lemma print_step:
  assumes "owned L0 S M s" "printf (cstr fmt) args \<noteq> None" "\<And>s. owned L0 S M s \<Longrightarrow> returns (f s) P"
  shows "returns (Option.bind (print fmt args s) f) P"
  using owned_print [OF assms(1,2)] assms(3) by (rule returns_bind)

lemma stats_step:
  assumes "owned L0 S M s" "\<And>s. owned L0 S M s \<Longrightarrow> returns (f s) P"
  shows "returns (Option.bind (sys_memory_stats s) f) P"
  using owned_stats [OF assms(1)] assms(2) by (rule returns_bind)

lemma alloc_step:
  assumes "owned L0 S M s" "\<And>p s. set_option p \<inter> S = {} \<Longrightarrow> owned L0 (set_option p \<union> S) M s \<Longrightarrow> returns (f (p, s)) P"
  shows "returns (Option.bind (sys_kmalloc n s) f) P"
  using owned_alloc [OF assms(1)] by (rule returns_bind) (use assms(2) in auto)

lemma free_step:
  assumes "owned L0 S M s" "set_option p \<subseteq> S" "\<And>s. owned L0 (S - set_option p) M s \<Longrightarrow> returns (f s) P"
  shows "returns (Option.bind (sys_kfree p s) f) P"
  using owned_free [OF assms(1,2)] assms(3) by (rule returns_bind)

lemma stats_end: "owned L0 S M s \<Longrightarrow> S = {} \<Longrightarrow> returns (sys_memory_stats s) (owned L0 {} M)"
  using owned_stats by blast

text \<open>The memory test returns from every state of the system, even if the heap is full, does not change the files and gives back exactly what it took.\<close>

theorem test_memory_allocation_restores:
  assumes "fs_ok L (fs s)"
  shows "\<exists>s'. test_memory_allocation heap s = Some s' \<and> fs_ok L (fs s') \<and> fs_map (fs s') = fs_map (fs s)"
proof -
  have fmt: "printf (cstr ''\<newline>=== Memory Allocation Test ===\<newline>'') [] \<noteq> None" "printf (cstr ''Freed 128 byte block\<newline>'') [] \<noteq> None"
    "printf (cstr ''Freed all remaining blocks\<newline>'') [] \<noteq> None" "printf (cstr ''Allocated 64 bytes at %p\<newline>'') [Va32 v] \<noteq> None"
    "printf (cstr ''Allocated 128 bytes at %p\<newline>'') [Va32 v] \<noteq> None" "printf (cstr ''Allocated 256 bytes at %p\<newline>'') [Va32 v] \<noteq> None"
    "printf (cstr ''Allocated 100 bytes at %p\<newline>'') [Va32 v] \<noteq> None" for v by (simp_all add: printf_eval)
  have start: "owned L {} (fs_map (fs s)) s" unfolding owned_def using assms by (intro exI [of _ L]) (simp add: restrict_map_def)
  have "returns (test_memory_allocation heap s) (owned L {} (fs_map (fs s)))"
    unfolding test_memory_allocation_def
    by (assumption | rule start print_step fmt stats_step alloc_step free_step stats_end | (simp only: prod.case) | blast)+
  then show ?thesis by (auto simp: returns_def owned_def restrict_map_def)
qed

section \<open>Steps on files\<close>

text \<open>The files are \<open>M\<close>, and if \<open>k\<close> is a number, then there is room for this many bytes in the heap.\<close>

definition files_with :: "nat option \<Rightarrow> (u8 list \<rightharpoonup> u8 list) \<Rightarrow> filesystem \<Rightarrow> bool" where
  "files_with k M f \<longleftrightarrow> (\<exists>L. fs_ok L f \<and> (\<forall>j. k = Some j \<longrightarrow> heap_room j L (fs_heap f)) \<and> fs_map f = M)"

lemma says_step:
  assumes "\<exists>s1. a = Some s1 \<and> says s s1" "files_with k M (fs s)" "\<And>s. files_with k M (fs s) \<Longrightarrow> returns (f s) P"
  shows "returns (Option.bind a f) P"
  using assms by (auto simp: returns_def)

lemma text_step:
  assumes "files_with k M (fs s)" "printf (cstr fmt) args \<noteq> None" "\<And>s. files_with k M (fs s) \<Longrightarrow> returns (f s) P"
  shows "returns (Option.bind (print fmt args s) f) P"
  by (rule says_step [OF print_saysI [OF assms(2)] assms(1,3)])

lemma help_step:
  assumes "files_with k M (fs s)" "\<And>s. files_with k M (fs s) \<Longrightarrow> returns (f s) P"
  shows "returns (Option.bind (cmd_help s) f) P"
  by (rule says_step [OF cmd_help_says assms])

lemma list_step:
  assumes "files_with k M (fs s)" "\<And>s. files_with k M (fs s) \<Longrightarrow> returns (f s) P"
  shows "returns (Option.bind (sys_fs_list s) f) P"
proof -
  obtain L where "fs_ok L (fs s)" using assms(1) by (auto simp: files_with_def)
  from says_step [OF cmd_ls_says [OF this] assms] show ?thesis by (simp add: cmd_ls_def)
qed

lemma memstat_step:
  assumes "files_with k M (fs s)" "\<And>s. files_with k M (fs s) \<Longrightarrow> returns (f s) P"
  shows "returns (Option.bind (cmd_memstat s) f) P"
proof -
  obtain L where "fs_ok L (fs s)" using assms(1) by (auto simp: files_with_def)
  from says_step [OF cmd_memstat_says [OF this] assms] show ?thesis .
qed

lemma cat_step:
  assumes "files_with k M (fs s)" "str_ok filename" "\<And>s. files_with k M (fs s) \<Longrightarrow> returns (f s) P"
  shows "returns (Option.bind (cmd_cat filename s) f) P"
proof -
  obtain L where "fs_ok L (fs s)" using assms(1) by (auto simp: files_with_def)
  from cmd_cat_ok [OF this assms(2)] show ?thesis using assms(1,3) by simp
qed

lemma echo_step:
  assumes "files_with k M (fs s)" "ws \<noteq> []" "list_all str_ok ws" "argc = length ws" "\<And>s. files_with k M (fs s) \<Longrightarrow> returns (f s) P"
  shows "returns (Option.bind (cmd_echo (\<lambda>s a. Some a) ws argc s) f) P"
proof -
  have "cmd_echo (\<lambda>s a. Some a) ws (length (map str_val ws)) s = Some (say (join (tl (map str_val ws)) @ [10]) s)"
    by (rule cmd_echo_prints) (use assms(2,3) in \<open>auto simp: list_all_length\<close>)
  then show ?thesis using assms(1,4,5) by simp
qed

lemma delete_step:
  assumes "files_with k M (fs s)" "str_ok filename" "\<And>r s. files_with NULL (M(str_val filename := None)) (fs s) \<Longrightarrow> returns (f (r, s)) P"
  shows "returns (Option.bind (sys_fs_delete filename s) f) P"
proof -
  obtain L where L: "fs_ok L (fs s)" "fs_map (fs s) = M" using assms(1) by (auto simp: files_with_def)
  then have "tokens L [] [] L (fs s)" by (simp add: tokens_def)
  from sys_fs_delete_ok [OF this assms(2)] obtain r out f' L' where
    "sys_fs_delete filename s = Some (r, (say out s)\<lparr>fs := f'\<rparr>)" "fs_ok L' f'" "fs_map f' = M(str_val filename := None)"
    unfolding L(2) by (auto simp: tokens_def)
  then show ?thesis using assms(3) [of "(say out s)\<lparr>fs := f'\<rparr>" r] by (auto simp: files_with_def)
qed

text \<open>A creation that succeeds.\<close>

lemma create_step:
  assumes "files_with (Some j) M (fs s)" "unat sz + 20 + k \<le> j" "0 < unat sz" "unat sz \<le> 1024" "str_ok filename" "length (str_val filename) < MAX_FILENAME"
    and "M (str_val filename) = None" "card (dom M) \<noteq> MAX_FILES"
    and "\<And>r s c. files_with (Some k) (M(str_val filename \<mapsto> c)) (fs s) \<Longrightarrow> length c = unat sz \<Longrightarrow> returns (f (r, s)) P"
  shows "returns (Option.bind (sys_fs_create filename sz s) f) P"
proof -
  obtain L where L: "fs_ok L (fs s)" "fs_map (fs s) = M" "heap_room (unat sz + 20 + k) L (fs_heap (fs s))"
    using assms(1) kr.room_mono [OF _ assms(2)] by (auto simp: files_with_def)
  obtain r out f' L' c where "sys_fs_create filename sz s = Some (r, (say out s)\<lparr>fs := f'\<rparr>)" "fs_ok L' f'"
    "heap_room k L' (fs_heap f')" "fs_map f' = M(str_val filename \<mapsto> c)" "length c = unat sz"
    using sys_create_new [OF L(1,3) assms(3-6), unfolded L(2), OF assms(7,8)] .
  then show ?thesis using assms(9) [of c "(say out s)\<lparr>fs := f'\<rparr>" r] by (auto simp: files_with_def)
qed

text \<open>A creation that may fail, because the file exists or no slot is free.\<close>

lemma try_create_step:
  assumes "files_with (Some 1044) M (fs s)" "0 < unat sz" "unat sz \<le> 1024" "str_ok filename" "length (str_val filename) < MAX_FILENAME"
    and "\<And>r s M'. files_with NULL M' (fs s) \<Longrightarrow> M'(str_val filename := None) = M(str_val filename := None) \<Longrightarrow> returns (f (r, s)) P"
  shows "returns (Option.bind (sys_fs_create filename sz s) f) P"
proof -
  obtain L where L: "fs_ok L (fs s)" "fs_map (fs s) = M" "heap_room 1044 L (fs_heap (fs s))" using assms(1) by (auto simp: files_with_def)
  have t: "tokens L [] [] L (fs s)" using L(1) by (simp add: tokens_def)
  obtain r out f' L0' L' where f': "sys_fs_create filename sz s = Some (r, (say out s)\<lparr>fs := f'\<rparr>)" "tokens L0' [] [] L' f'"
    "if str_val filename \<in> dom M \<or> card (dom M) = MAX_FILES then L0' = L \<and> fs_map f' = M
     else (\<exists>q m. q \<notin> dom L \<and> L0' = L(q \<mapsto> m)) \<and> (\<exists>c. length c = unat sz \<and> fs_map f' = M(str_val filename \<mapsto> c))"
    using sys_fs_create_ok [OF t assms(4,5) L(3) assms(2,3)] unfolding L(2) by blast
  have "(fs_map f')(str_val filename := None) = M(str_val filename := None)" using f'(3) by (auto split: if_splits)
  moreover have "files_with NULL (fs_map f') f'" using f'(2) by (auto simp: files_with_def tokens_def)
  ultimately show ?thesis using f'(1) assms(6) [of "fs_map f'" "(say out s)\<lparr>fs := f'\<rparr>" r] by simp
qed

lemma cmd_create_step:
  assumes "files_with (Some 1044) M (fs s)" "str_ok filename" "length (str_val filename) < MAX_FILENAME" "str_to_int n = Some k" "1 \<le> k" "k \<le> 1024"
    and "\<And>s M'. files_with NULL M' (fs s) \<Longrightarrow> M'(str_val filename := None) = M(str_val filename := None) \<Longrightarrow> returns (f s) P"
  shows "returns (Option.bind (cmd_create filename n s) f) P"
proof -
  have "uint (word_of_int k :: u32) = k" by (rule uint_small) (use assms(5,6) in simp_all)
  then have "int (unat (word_of_int k :: u32)) = k" by simp
  then have "0 < unat (word_of_int k :: u32)" "unat (word_of_int k :: u32) \<le> 1024" using assms(5,6) by linarith+
  from try_create_step [OF assms(1) this assms(2,3), of "\<lambda>x. case x of (_, s) \<Rightarrow> f s" P] assms(4-7) show ?thesis
    by (simp add: cmd_create_def case_prod_unfold)
qed

lemma cmd_delete_step:
  assumes "files_with k M (fs s)" "str_ok filename" "\<And>s. files_with NULL (M(str_val filename := None)) (fs s) \<Longrightarrow> returns (f s) P"
  shows "returns (Option.bind (cmd_delete filename s) f) P"
  using delete_step [OF assms(1,2), of "\<lambda>x. case x of (_, s) \<Rightarrow> f s" P] assms(3) by (simp add: cmd_delete_def case_prod_unfold)

lemma text_end: "files_with k M (fs s) \<Longrightarrow> printf (cstr fmt) args \<noteq> None \<Longrightarrow> returns (print fmt args s) (\<lambda>s. files_with k M (fs s))"
  using text_step [of k M s fmt args Some] by simp

section \<open>The scripted shell session\<close>

text \<open>The session returns, and afterwards the files are those from before without test.txt, whether the creation of this file succeeded or not.\<close>

theorem shell_demo_correct:
  assumes "sys_ok L s"
  shows "\<exists>s' L'. shell_demo s = Some s' \<and> fs_ok L' (fs s') \<and> fs_map (fs s') = (fs_map (fs s))(literal ''test.txt'' := None)"
proof -
  let ?M = "fs_map (fs s)"
  have start: "files_with (Some 1044) ?M (fs s)" unfolding files_with_def using assms kr.room_mono [of 8192 L "fs_heap (fs s)" 1044]
    by (intro exI [of _ L]) (simp add: sys_ok_def)
  have nm: "str_ok (cstr x)" "str_val (cstr x) = literal x" if "x \<in> {''welcome.txt'', ''test.txt'', ''echo'', ''Hello'', ''Fru1t'', ''OS!''}" for x
    using cstr_ok [of x] that by (auto simp: literal_def)
  have n: "str_to_int (cstr ''128'') = Some 128" by (simp add: cstr_def str_to_int_def)
  have ini: "files_with k M (fs s) \<Longrightarrow> files_with k M (fs (shell_init s))" for k M and s :: "'a sys" by (simp add: shell_init_def)
  have "returns (shell_demo s) (\<lambda>s. files_with NULL (?M(str_val (cstr ''test.txt'') := None)) (fs s))"
    unfolding shell_demo_def Let_def cmd_ls_def
    by (assumption | rule start text_step help_step list_step memstat_step cat_step echo_step cmd_create_step [OF _ _ _ n] cmd_delete_step text_end ini
      | (simp add: printf_eval nm; fail))+
  then show ?thesis by (simp add: returns_def files_with_def nm)
qed

section \<open>The file system test\<close>

lemma write_step:
  assumes "files_with k M (fs s)" "str_ok filename" "M (str_val filename) = Some c" "unat sz \<le> length buf" "unat sz \<le> length c"
    and "\<And>r s. files_with k (M(str_val filename \<mapsto> take (unat sz) buf @ drop (unat sz) c)) (fs s) \<Longrightarrow> returns (f (r, s)) P"
  shows "returns (Option.bind (sys_fs_write filename buf sz s) f) P"
proof -
  obtain L where L: "fs_ok L (fs s)" "fs_map (fs s) = M" "\<forall>j. k = Some j \<longrightarrow> heap_room j L (fs_heap (fs s))" using assms(1) by (auto simp: files_with_def)
  obtain r out f' where "sys_fs_write filename buf sz s = Some (r, (say out s)\<lparr>fs := f'\<rparr>)" "fs_ok L f'" "fs_heap f' = fs_heap (fs s)"
    "fs_map f' = M(str_val filename \<mapsto> take (unat sz) buf @ drop (unat sz) c)"
    using sys_write_ok [OF L(1) assms(2), unfolded L(2), OF assms(3-5)] .
  then show ?thesis using assms(6) [of "(say out s)\<lparr>fs := f'\<rparr>" r] L(3) by (auto simp: files_with_def)
qed

lemma read_step:
  assumes "files_with k M (fs s)" "str_ok filename" "M (str_val filename) = Some c"
    and "\<And>s. files_with k M (fs s) \<Longrightarrow> returns (f (int (min (unat sz) (length c)), take (unat sz) c, s)) P"
  shows "returns (Option.bind (sys_fs_read filename sz s) f) P"
proof -
  obtain L where L: "fs_ok L (fs s)" "fs_map (fs s) = M" using assms(1) by (auto simp: files_with_def)
  let ?n = "int (min (unat sz) (length c))"
  have r: "fs_read filename sz (fs s) = Some (?n, take (unat sz) c)" using fs_read_ok [OF L(1) assms(2), of sz] assms(3) L(2) by simp
  obtain s1 where "print ''Read %d bytes from file '%s'\<newline>'' [Va32 (word_of_int ?n), VaStr filename] s = Some s1" "fs s1 = fs s"
    using print_saysI [of "''Read %d bytes from file '%s'\<newline>''" "[Va32 (word_of_int ?n), VaStr filename]" s] assms(2) by (auto simp: printf_eval)
  then show ?thesis using r assms(1) assms(4) [of s1] by (simp add: sys_fs_read_def)
qed

lemma memory_end: "files_with k M (fs s) \<Longrightarrow> returns (sys_memory_stats s) (\<lambda>s. files_with k M (fs s))"
  using memstat_step [of k M s Some] by (simp add: cmd_memstat_def)

text \<open>The file system test, run with the names of its two files unused, room for two more files and for their contents, returns and leaves one new file behind.\<close>

theorem test_filesystem_correct:
  assumes ok: "fs_ok L (fs s)" "heap_room 808 L (fs_heap (fs s))"
    and new: "fs_map (fs s) (literal ''fru1tworld.txt'') = None" "fs_map (fs s) (literal ''fru1tworld_delete_test.txt'') = None" "card (dom (fs_map (fs s))) + 2 \<le> 32"
  shows "\<exists>s' L' c. test_filesystem buf s = Some s' \<and> fs_ok L' (fs s') \<and> length c = 502 \<and>
    fs_map (fs s') = (fs_map (fs s))(literal ''fru1tworld.txt'' \<mapsto> literal ''happy cat'' @ 0 # c)"
proof -
  let ?M = "fs_map (fs s)" and ?a = "''fru1tworld.txt''" and ?b = "''fru1tworld_delete_test.txt''"
    and ?t = "''This file will be deleted to test deletion functionality.''"
  have start: "files_with (Some 808) ?M (fs s)" unfolding files_with_def using ok by (intro exI [of _ L]) simp
  have nm: "str_ok (cstr x)" "str_val (cstr x) = literal x" if "x \<in> {?a, ?b, ''happy cat'', ?t}" for x
    using cstr_ok [of x] that by (auto simp: literal_def)
  have len: "strlen (cstr ''happy cat'') = Some 9" "strlen (cstr ?t) = Some 57"
    using strlen_ok [of "cstr ''happy cat''"] strlen_ok [of "cstr ?t"] nm by (auto simp: literal_def)
  have cd: "card (dom ?M) \<noteq> 32" "card (insert x (dom ?M)) \<noteq> 32" for x
    using new(3) by (cases "finite (dom ?M)"; simp add: card_insert_if)+
  have sv: "str_val (cstr ?a) = literal ?a" "str_val (cstr ?b) = literal ?b" "str_ok (cstr ?a)" "str_ok (cstr ?b)" "literal ?a \<noteq> literal ?b" "literal ?b \<noteq> literal ?a"
    "length (literal ?a) < 64" "length (literal ?b) < 64" using nm by (simp_all add: literal_eq) (simp_all add: literal_def)
  have cut: "take 10 (cstr ''happy cat'') = literal ''happy cat'' @ [0]" "take 58 (cstr ?t) = literal ?t @ [0]" by (simp_all add: cstr_def literal_def)
  have buf: "str_ok (literal x @ 0 # r)" "str_val (literal x @ 0 # r) = literal x" if "x \<in> {''happy cat'', ?t}" for x r
    using that str_val_append [of "literal x" r] by (auto simp: literal_def)
  have gone: "?M(literal ?a \<mapsto> x, literal ?b := None) = ?M(literal ?a \<mapsto> x)" for x using new(2) sv(5) by (auto simp: fun_eq_iff)
  have fin: "returns (sys_memory_stats s') (\<lambda>s. \<exists>c. length c = 502 \<and> files_with NULL (?M(literal ?a \<mapsto> literal ''happy cat'' @ 0 # c)) (fs s))"
    if "files_with NULL M' (fs s')" "M' = ?M(literal ?a \<mapsto> literal ''happy cat'' @ 0 # drop 10 c)" "length c = 512" for M' c and s' :: "'a sys"
    using memory_end [OF that(1)] that(2,3) unfolding returns_def by (elim exE conjE) (intro exI [of _ "drop 10 c"] exI conjI, auto)
  have "returns (test_filesystem buf s) (\<lambda>s. \<exists>c. length c = 502 \<and> files_with NULL (?M(literal ?a \<mapsto> literal ''happy cat'' @ 0 # c)) (fs s))"
    unfolding test_filesystem_def len Option.bind.bind_lunit
    apply (rule text_step, rule start, simp add: printf_eval)
    apply (rule create_step [where k = 276], assumption, simp, simp, simp, simp add: sv, simp add: sv, simp add: sv new, simp add: cd)
    unfolding prod.case sv
    apply (rule create_step [where k = 0], assumption, simp, simp, simp, simp add: sv, simp add: sv, simp add: sv new, simp add: cd)
    unfolding prod.case sv
    apply (rule list_step, assumption)
    apply (rule write_step, assumption, simp add: sv, simp add: sv, simp add: cstr_def, simp)
    unfolding prod.case sv
    apply (rule write_step, assumption, simp add: sv, simp add: sv, simp add: cstr_def, simp)
    unfolding prod.case sv
    apply (rule read_step, assumption, simp add: sv, simp add: sv)
    apply (simp add: cut Let_def)
    apply (rule text_step, assumption, simp add: printf_eval buf)
    apply (rule read_step, assumption, simp add: sv, simp add: sv)
    apply (simp add: cut Let_def)
    apply (rule text_step, assumption, simp add: printf_eval buf)
    apply (rule delete_step, assumption, simp add: sv)
    unfolding prod.case sv
    apply (rule list_step, assumption)
    apply (rule fin, assumption)
     apply (simp_all add: sv gone)
    done
  then show ?thesis by (auto simp: returns_def files_with_def)
qed

end
