(* ===== verification/Btree_Test.thy ===== *)
theory Btree_Test
  imports Inode_Names_Props
begin

text \<open>
  The first self-test of the B-tree (\<open>test_btree_basic\<close> of src/test_btree_fs.c), which \<open>kernel_main\<close> runs at every start, without its messages.
\<close>

text \<open>The results are the values of the two searches and the file system, whose memory also holds the nodes of the local tree.\<close>

definition test_btree_basic :: "btree \<Rightarrow> btree_filesystem \<Rightarrow> (nat ptr \<times> nat ptr \<times> btree_filesystem) option" where
  "test_btree_basic tree fs = do {
     let tree = btree_init tree;
     let m = tree_mem fs;
     (_, tree, m) \<leftarrow> btree_insert tree 10 (Some 100) m;
     (_, tree, m) \<leftarrow> btree_insert tree 20 (Some 200) m;
     (_, tree, m) \<leftarrow> btree_insert tree 5 (Some 50) m;
     (_, tree, m) \<leftarrow> btree_insert tree 6 (Some 60) m;
     (_, tree, m) \<leftarrow> btree_insert tree 12 (Some 120) m;
     (_, tree, m) \<leftarrow> btree_insert tree 30 (Some 300) m;
     (_, tree, m) \<leftarrow> btree_insert tree 7 (Some 70) m;
     (_, tree, m) \<leftarrow> btree_insert tree 17 (Some 170) m;
     _ \<leftarrow> btree_print tree m;
     v1 \<leftarrow> btree_search tree 6 m;
     v2 \<leftarrow> btree_search tree 99 m;
     (tree, m) \<leftarrow> btree_destroy tree m;
     fs \<leftarrow> inode_fs_init (fs\<lparr>tree_mem := m\<rparr>);
     Some (v1, v2, fs) }"

lemma next_insert:
  assumes "leaf_rep L (Some a) xs t m" "key \<notin> fst ` set xs" "length xs < 4" "bt_room 84 L m"
  obtains t' m' where "btree_insert t key v m = Some (0, t', m')" "leaf_rep L (Some a) (put key v xs) t' m'" "bt_room 84 L m'"
  using leaf_add [OF assms(1-3), of 0 v] assms(4) by auto

text \<open>As long as there is room for two nodes in the heap, the test is undefined: its fifth insertion overruns the arrays of the full root.\<close>

theorem test_btree_basic_undefined:
  assumes room: "bt_room 168 L (tree_mem fs)"
  shows "test_btree_basic tree fs = None"
proof -
  let ?t = "btree_init tree" and ?m = "tree_mem fs"
  have "leaf_rep L NULL [] ?t ?m" using kr.room_rep [OF room] by (simp add: leaf_rep_null btree_init_def)
  then obtain t1 m1 L1 a where 1: "btree_insert ?t 10 (Some 100) ?m = Some (0, t1, m1)" "leaf_rep L1 (Some a) (put 10 (Some 100) []) t1 m1" "bt_room 84 L1 m1"
    using leaf_add [of L NULL "[]" ?t ?m 10 84 "Some 100"] room by auto
  obtain t2 m2 where 2: "btree_insert t1 20 (Some 200) m1 = Some (0, t2, m2)" "leaf_rep L1 (Some a) (put 20 (Some 200) (put 10 (Some 100) [])) t2 m2" "bt_room 84 L1 m2"
    using next_insert [OF 1(2) _ _ 1(3), of 20 "Some 200"] by (auto simp: put_def)
  obtain t3 m3 where 3: "btree_insert t2 5 (Some 50) m2 = Some (0, t3, m3)" "leaf_rep L1 (Some a) (put 5 (Some 50) (put 20 (Some 200) (put 10 (Some 100) []))) t3 m3" "bt_room 84 L1 m3"
    using next_insert [OF 2(2) _ _ 2(3), of 5 "Some 50"] by (auto simp: put_def)
  obtain t4 m4 where 4: "btree_insert t3 6 (Some 60) m3 = Some (0, t4, m4)"
      "leaf_rep L1 (Some a) (put 6 (Some 60) (put 5 (Some 50) (put 20 (Some 200) (put 10 (Some 100) [])))) t4 m4" "bt_room 84 L1 m4"
    using next_insert [OF 3(2) _ _ 3(3), of 6 "Some 60"] by (auto simp: put_def)
  have "btree_insert t4 12 (Some 120) m4 = None" by (rule leaf_full [OF 4(2) _ _ 4(3)]) (simp_all add: put_def)
  then show ?thesis using 1(1) 2(1) 3(1) 4(1) by (simp add: test_btree_basic_def Let_def)
qed

end
