(* ===== verification/Asm.thy ===== *)
theory Asm
  imports Trap Process
begin

text \<open>
  The assembly routines of src/asm_functions.s: a model of the instructions they use, the routines as lists of
  instructions, and what they do.  The machine has the registers, the control registers, the memory as aligned words,
  and the device and keyboard buffer that \<open>handle_trap\<close> works on.
\<close>

section \<open>Machine\<close>

datatype csr = Satp | Sstatus | Sie | Scause | Stval | Sepc | Sscratch

record 'w machine =
  regs :: "reg \<Rightarrow> u32"
  csrs :: "csr \<Rightarrow> u32"
  words :: "u32 \<Rightarrow> u32"
  pc :: u32
  user_mode :: bool
  dev :: 'w
  keys :: input_buffer

text \<open>The operand of an instruction: a register or \<open>zero\<close>.\<close>

datatype src = Zero | X reg

fun val :: "'w machine \<Rightarrow> src \<Rightarrow> u32" where
  "val m Zero = 0"
| "val m (X r) = regs m r"

datatype instr = Sw src u32 reg | Lw reg u32 reg | Addi reg reg u32 | Ori reg reg u32 | Mv reg src | Li reg u32
  | Csrw csr reg | Csrr reg csr | Csrs csr reg | Csrc csr reg | Csrsi csr u32 | Sfence_vma | Wfi

text \<open>One instruction; a load or store at an address that is not aligned is undefined.\<close>

definition set_reg :: "reg \<Rightarrow> u32 \<Rightarrow> 'w machine \<Rightarrow> 'w machine" where
  "set_reg r v m = m\<lparr>regs := (regs m)(r := v)\<rparr>"

definition set_csr :: "csr \<Rightarrow> u32 \<Rightarrow> 'w machine \<Rightarrow> 'w machine" where
  "set_csr c v m = m\<lparr>csrs := (csrs m)(c := v)\<rparr>"

fun exec1 :: "instr \<Rightarrow> 'w machine \<Rightarrow> 'w machine option" where
  "exec1 (Sw v off b) m = (let a = regs m b + off in if 4 dvd unat a then Some (m\<lparr>words := (words m)(a := val m v)\<rparr>) else None)"
| "exec1 (Lw r off b) m = (let a = regs m b + off in if 4 dvd unat a then Some (set_reg r (words m a) m) else None)"
| "exec1 (Addi r q i) m = Some (set_reg r (regs m q + i) m)"
| "exec1 (Ori r q i) m = Some (set_reg r (regs m q OR i) m)"
| "exec1 (Mv r v) m = Some (set_reg r (val m v) m)"
| "exec1 (Li r i) m = Some (set_reg r i m)"
| "exec1 (Csrw c r) m = Some (set_csr c (regs m r) m)"
| "exec1 (Csrr r c) m = Some (set_reg r (csrs m c) m)"
| "exec1 (Csrs c r) m = Some (set_csr c (csrs m c OR regs m r) m)"
| "exec1 (Csrc c r) m = Some (set_csr c (csrs m c AND NOT (regs m r)) m)"
| "exec1 (Csrsi c i) m = Some (set_csr c (csrs m c OR i) m)"
| "exec1 Sfence_vma m = Some m"
| "exec1 Wfi m = Some m"

primrec exec :: "instr list \<Rightarrow> 'w machine \<Rightarrow> 'w machine option" where
  "exec [] m = Some m"
| "exec (i # is) m = do { m \<leftarrow> exec1 i m; exec is m }"

definition ret :: "'w machine \<Rightarrow> 'w machine" where
  "ret m = m\<lparr>pc := regs m RA\<rparr>"

text \<open>\<open>sret\<close>: SIE (bit 1) becomes SPIE (bit 5), SPIE becomes 1, the mode is user if SPP (bit 8) is clear, SPP becomes 0.\<close>

definition sret :: "'w machine \<Rightarrow> 'w machine" where
  "sret m = (let st = csrs m Sstatus in
     m\<lparr>pc := csrs m Sepc, user_mode := \<not> bit st 8,
       csrs := (csrs m)(Sstatus := ((if bit st 5 then st OR 2 else st AND NOT 2) OR 32) AND NOT 256)\<rparr>)"

section \<open>Routines\<close>

definition switch_to_user :: "'w machine \<Rightarrow> 'w machine option" where
  "switch_to_user m = do {
     m \<leftarrow> exec [Csrw Satp A2, Sfence_vma, Li T0 (push_bit 8 1), Csrc Sstatus T0, Li T0 (push_bit 5 1), Csrs Sstatus T0, Csrw Sepc A0, Mv SP (X A1)] m;
     Some (sret m) }"

definition read_csr_satp :: "'w machine \<Rightarrow> 'w machine option" where
  "read_csr_satp m = do { m \<leftarrow> exec [Csrr A0 Satp] m; Some (ret m) }"

definition write_csr_satp :: "'w machine \<Rightarrow> 'w machine option" where
  "write_csr_satp m = do { m \<leftarrow> exec [Csrw Satp A0, Sfence_vma] m; Some (ret m) }"

definition read_csr_scause :: "'w machine \<Rightarrow> 'w machine option" where
  "read_csr_scause m = do { m \<leftarrow> exec [Csrr A0 Scause] m; Some (ret m) }"

definition read_csr_stval :: "'w machine \<Rightarrow> 'w machine option" where
  "read_csr_stval m = do { m \<leftarrow> exec [Csrr A0 Stval] m; Some (ret m) }"

definition read_csr_sepc :: "'w machine \<Rightarrow> 'w machine option" where
  "read_csr_sepc m = do { m \<leftarrow> exec [Csrr A0 Sepc] m; Some (ret m) }"

definition write_csr_sepc :: "'w machine \<Rightarrow> 'w machine option" where
  "write_csr_sepc m = do { m \<leftarrow> exec [Csrw Sepc A0] m; Some (ret m) }"

definition switch_context :: "'w machine \<Rightarrow> 'w machine option" where
  "switch_context m = do {
     m \<leftarrow> exec [Addi SP SP (- 64),
       Sw (X RA) 0 SP, Sw (X S0) 4 SP, Sw (X S1) 8 SP, Sw (X S2) 12 SP, Sw (X S3) 16 SP, Sw (X S4) 20 SP, Sw (X S5) 24 SP,
       Sw (X S6) 28 SP, Sw (X S7) 32 SP, Sw (X S8) 36 SP, Sw (X S9) 40 SP, Sw (X S10) 44 SP, Sw (X S11) 48 SP,
       Sw (X SP) 0 A0,
       Mv SP (X A1),
       Lw S11 48 SP, Lw S10 44 SP, Lw S9 40 SP, Lw S8 36 SP, Lw S7 32 SP, Lw S6 28 SP, Lw S5 24 SP,
       Lw S4 20 SP, Lw S3 16 SP, Lw S2 12 SP, Lw S1 8 SP, Lw S0 4 SP, Lw RA 0 SP,
       Addi SP SP 64] m;
     Some (ret m) }"

definition enable_interrupts :: "'w machine \<Rightarrow> 'w machine option" where
  "enable_interrupts m = do { m \<leftarrow> exec [Csrr T0 Sie, Ori T0 T0 0x200, Csrw Sie T0, Csrsi Sstatus 2] m; Some (ret m) }"

definition wait_for_interrupt :: "'w machine \<Rightarrow> 'w machine option" where
  "wait_for_interrupt m = do { m \<leftarrow> exec [Wfi] m; Some (ret m) }"

text \<open>The call of the C function \<open>handle_trap\<close>: \<open>code\<close> is what its compiled code leaves in the registers and in memory.\<close>

definition trap_of :: "'w machine \<Rightarrow> 'w trap_state" where
  "trap_of m = \<lparr>scause = csrs m Scause, stval = csrs m Stval, sepc = csrs m Sepc, trap_world = dev m, trap_input = keys m\<rparr>"

definition call_handle_trap :: "'w uart_dev \<Rightarrow> ('w machine \<Rightarrow> (reg \<Rightarrow> u32) \<times> (u32 \<Rightarrow> u32)) \<Rightarrow> 'w machine \<Rightarrow> 'w machine outcome option" where
  "call_handle_trap d code m = do {
     r \<leftarrow> handle_trap d (trap_of m);
     Some (case r of Panic \<Rightarrow> Panic
       | Ret s \<Rightarrow> Ret (m\<lparr>regs := fst (code m), words := snd (code m), csrs := (csrs m)(Sepc := sepc s),
           dev := trap_world s, keys := trap_input s\<rparr>)) }"

definition kernel_entry :: "'w uart_dev \<Rightarrow> ('w machine \<Rightarrow> (reg \<Rightarrow> u32) \<times> (u32 \<Rightarrow> u32)) \<Rightarrow> 'w machine \<Rightarrow> 'w machine outcome option" where
  "kernel_entry d code m = do {
     m \<leftarrow> exec [Csrw Sscratch SP, Addi SP SP (- (4 * 31)),
       Sw (X RA) (4 * 0) SP, Sw (X GP) (4 * 1) SP, Sw (X TP) (4 * 2) SP, Sw (X T0) (4 * 3) SP, Sw (X T1) (4 * 4) SP, Sw (X T2) (4 * 5) SP,
       Sw (X T3) (4 * 6) SP, Sw (X T4) (4 * 7) SP, Sw (X T5) (4 * 8) SP, Sw (X T6) (4 * 9) SP, Sw (X A0) (4 * 10) SP, Sw (X A1) (4 * 11) SP,
       Sw (X A2) (4 * 12) SP, Sw (X A3) (4 * 13) SP, Sw (X A4) (4 * 14) SP, Sw (X A5) (4 * 15) SP, Sw (X A6) (4 * 16) SP, Sw (X A7) (4 * 17) SP,
       Sw (X S0) (4 * 18) SP, Sw (X S1) (4 * 19) SP, Sw (X S2) (4 * 20) SP, Sw (X S3) (4 * 21) SP, Sw (X S4) (4 * 22) SP, Sw (X S5) (4 * 23) SP,
       Sw (X S6) (4 * 24) SP, Sw (X S7) (4 * 25) SP, Sw (X S8) (4 * 26) SP, Sw (X S9) (4 * 27) SP, Sw (X S10) (4 * 28) SP, Sw (X S11) (4 * 29) SP,
       Csrr T0 Sscratch, Sw (X T0) (4 * 30) SP,
       Mv A0 (X SP)] m;
     r \<leftarrow> call_handle_trap d code m;
     case r of Panic \<Rightarrow> Some Panic
     | Ret m \<Rightarrow> do {
         m \<leftarrow> exec [Lw RA (4 * 0) SP, Lw GP (4 * 1) SP, Lw TP (4 * 2) SP, Lw T0 (4 * 3) SP, Lw T1 (4 * 4) SP, Lw T2 (4 * 5) SP,
           Lw T3 (4 * 6) SP, Lw T4 (4 * 7) SP, Lw T5 (4 * 8) SP, Lw T6 (4 * 9) SP, Lw A0 (4 * 10) SP, Lw A1 (4 * 11) SP,
           Lw A2 (4 * 12) SP, Lw A3 (4 * 13) SP, Lw A4 (4 * 14) SP, Lw A5 (4 * 15) SP, Lw A6 (4 * 16) SP, Lw A7 (4 * 17) SP,
           Lw S0 (4 * 18) SP, Lw S1 (4 * 19) SP, Lw S2 (4 * 20) SP, Lw S3 (4 * 21) SP, Lw S4 (4 * 22) SP, Lw S5 (4 * 23) SP,
           Lw S6 (4 * 24) SP, Lw S7 (4 * 25) SP, Lw S8 (4 * 26) SP, Lw S9 (4 * 27) SP, Lw S10 (4 * 28) SP, Lw S11 (4 * 29) SP,
           Lw SP (4 * 30) SP] m;
         Some (Ret (sret m)) } }"

text \<open>The loop of \<open>boot\<close> over the uninitialised data; the branch compares signed.\<close>

partial_function (option) boot_loop :: "'w machine \<Rightarrow> 'w machine option" where
  "boot_loop m =
     (if sint (regs m T1) \<le> sint (regs m T0) then Some m
      else do { m \<leftarrow> exec [Sw Zero 0 T0, Addi T0 T0 4] m; boot_loop m })"

text \<open>\<open>boot\<close> up to the call of \<open>kernel_main\<close>; the symbols of the linker and the address behind the call are arguments.\<close>

definition boot :: "u32 \<Rightarrow> u32 \<Rightarrow> u32 \<Rightarrow> u32 \<Rightarrow> u32 \<Rightarrow> 'w machine \<Rightarrow> 'w machine option" where
  "boot bss bss_end stack_top kernel_main link m = do {
     m \<leftarrow> exec [Mv TP Zero, Mv T0 Zero, Mv T1 Zero, Mv T2 Zero, Mv T3 Zero, Mv T4 Zero, Mv T5 Zero, Mv T6 Zero, Mv RA Zero,
       Mv S0 Zero, Mv S1 Zero, Mv S2 Zero, Mv S3 Zero, Mv S4 Zero, Mv S5 Zero, Mv S6 Zero, Mv S7 Zero, Mv S8 Zero, Mv S9 Zero,
       Mv S10 Zero, Mv S11 Zero, Li T0 bss, Li T1 bss_end] m;
     m \<leftarrow> boot_loop m;
     m \<leftarrow> exec [Li SP stack_top] m;
     Some ((set_reg RA link m)\<lparr>pc := kernel_main\<rparr>) }"

text \<open>The addresses of the linker script src/kernel.ld.\<close>

abbreviation (input) "load_address \<equiv> (0x80200000 :: u32)"

definition stack_top :: u32 where
  "stack_top = 0x80400000"

section \<open>Saving and restoring registers\<close>

text \<open>A block of stores or loads relative to the stack pointer: the index of the word with the register.\<close>

definition store_all :: "(nat \<times> reg) list \<Rightarrow> instr list" where
  "store_all ps = map (\<lambda>(k, r). Sw (X r) (4 * of_nat k) SP) ps"

definition load_all :: "(nat \<times> reg) list \<Rightarrow> instr list" where
  "load_all ps = map (\<lambda>(k, r). Lw r (4 * of_nat k) SP) ps"

lemma exec_append: "exec (xs @ ys) m = do { m \<leftarrow> exec xs m; exec ys m }"
  by (induction xs arbitrary: m) (auto split: bind_splits)

lemma aligned_add: "4 dvd unat (a :: u32) \<Longrightarrow> 4 dvd unat (a + 4 * k)"
proof -
  assume a: "4 dvd unat a"
  have "4 dvd unat (4 * k :: u32)" unfolding unat_word_ariths by (simp add: dvd_mod)
  then show ?thesis unfolding unat_word_ariths(1) using a by (simp add: dvd_mod)
qed

lemma exec_store_all:
  "4 dvd unat (regs m SP) \<Longrightarrow>
    exec (store_all ps) m = Some (m\<lparr>words := fold (\<lambda>(k, r) w. w(regs m SP + 4 * of_nat k := regs m r)) ps (words m)\<rparr>)"
  by (induction ps arbitrary: m) (auto simp: store_all_def aligned_add)

lemma exec_load_all:
  "4 dvd unat (regs m SP) \<Longrightarrow> SP \<notin> snd ` set ps \<Longrightarrow>
    exec (load_all ps) m = Some (m\<lparr>regs := fold (\<lambda>(k, r) f. f(r := words m (regs m SP + 4 * of_nat k))) ps (regs m)\<rparr>)"
  by (induction ps arbitrary: m) (auto simp: load_all_def aligned_add set_reg_def)

lemma fold_upd_other: "a \<notin> f ` set ps \<Longrightarrow> fold (\<lambda>p w. w(f p := g p)) ps w a = w a"
  by (induction ps arbitrary: w) auto

lemma fold_upd_same: "inj_on f (set ps) \<Longrightarrow> distinct ps \<Longrightarrow> p \<in> set ps \<Longrightarrow> fold (\<lambda>p w. w(f p := g p)) ps w (f p) = g p"
proof (induction ps arbitrary: w)
  case (Cons q ps)
  show ?case
  proof (cases "p = q")
    case True
    then have "f p \<notin> f ` set ps" using Cons.prems by (auto simp: inj_on_def)
    then show ?thesis using True fold_upd_other [of "f q" f ps g "w(f q := g q)"] by (simp del: fun_upd_apply add: fun_upd_same)
  next
    case False
    then show ?thesis using Cons by (auto simp: inj_on_def)
  qed
qed simp

lemma word_index: "j < 2 ^ 30 \<Longrightarrow> k < 2 ^ 30 \<Longrightarrow> (4 * of_nat j :: u32) = 4 * of_nat k \<Longrightarrow> j = k"
proof -
  assume j: "j < 2 ^ 30" "k < 2 ^ 30" and e: "(4 * of_nat j :: u32) = 4 * of_nat k"
  have u: "unat (4 * of_nat i :: u32) = 4 * i" if "i < 2 ^ 30" for i
    using that by (simp add: unat_word_ariths unsigned_of_nat take_bit_nat_eq_self)
  show "j = k" using arg_cong [OF e, of unat] u [OF j(1)] u [OF j(2)] by simp
qed

text \<open>A frame that has been stored can be read back.\<close>

lemma stored_word:
  assumes "distinct (map fst ps)" "\<forall>k \<in> fst ` set ps. k < 2 ^ 30" "(k, r) \<in> set ps"
  shows "fold (\<lambda>(k, r) w. w(b + 4 * of_nat k := g r)) ps w (b + 4 * of_nat k :: u32) = g r"
proof -
  have "inj_on (\<lambda>p. b + 4 * of_nat (fst p)) (set ps)"
  proof (rule inj_onI)
    fix p q assume p: "p \<in> set ps" "q \<in> set ps" and "b + 4 * of_nat (fst p) = b + 4 * of_nat (fst q)"
    then have "(4 * of_nat (fst p) :: u32) = 4 * of_nat (fst q)" by simp
    then have "fst p = fst q" by (rule word_index [rotated 2]) (use assms(2) p in auto)
    then show "p = q" using assms(1) p by (meson eq_key_imp_eq_value distinct_map inj_on_eq_iff)
  qed
  from fold_upd_same [OF this _ assms(3), of "\<lambda>p. g (snd p)" w] assms(1) show ?thesis by (simp add: distinct_map case_prod_unfold)
qed

lemma other_word: "a \<notin> (\<lambda>p. b + 4 * of_nat (fst p)) ` set ps \<Longrightarrow> fold (\<lambda>(k, r) w. w(b + 4 * of_nat k := g r)) ps w a = w (a :: u32)"
  using fold_upd_other [of a "\<lambda>p. b + 4 * of_nat (fst p)" ps "\<lambda>p. g (snd p)" w] by (simp add: case_prod_unfold)

lemma loaded_reg:
  assumes "distinct (map snd ps)" "(k, r) \<in> set ps"
  shows "fold (\<lambda>(k, r) f. f(r := g k)) ps f r = g k"
proof -
  have "inj_on snd (set ps)" "distinct ps" using assms(1) by (auto simp: distinct_map)
  from fold_upd_same [OF this assms(2), of "\<lambda>p. g (fst p)" f] show ?thesis by (simp add: case_prod_unfold)
qed

lemma other_reg: "r \<notin> snd ` set ps \<Longrightarrow> fold (\<lambda>(k, r) f. f(r := g k)) ps f r = f r"
  using fold_upd_other [of r snd ps "\<lambda>p. g (fst p)" f] by (simp add: case_prod_unfold)

section \<open>Traps\<close>

text \<open>The registers of the trap frame, with their index in \<open>struct trap_frame\<close>.\<close>

definition trap_regs :: "(nat \<times> reg) list" where
  "trap_regs = zip [0..<30] [RA, GP, TP, T0, T1, T2, T3, T4, T5, T6, A0, A1, A2, A3, A4, A5, A6, A7, S0, S1, S2, S3, S4, S5, S6, S7, S8, S9, S10, S11]"

lemma trap_regs_ok: "distinct (map fst trap_regs)" "distinct (map snd trap_regs)" "\<forall>k \<in> fst ` set trap_regs. k < 30" "snd ` set trap_regs = - {SP}"
proof -
  show "snd ` set trap_regs = - {SP}"
  proof (rule set_eqI)
    fix r show "r \<in> snd ` set trap_regs \<longleftrightarrow> r \<in> - {SP}" by (cases r) (simp_all add: trap_regs_def upt_rec)
  qed
qed (simp_all add: trap_regs_def upt_rec)

text \<open>What the compiled code of \<open>handle_trap\<close> has to respect: the stack pointer is restored, as the calling convention says, and the trap
  frame above it is not changed, which \<open>handle_trap\<close> and \<open>handle_syscall\<close> do not.\<close>

definition keeps_frame :: "('w machine \<Rightarrow> (reg \<Rightarrow> u32) \<times> (u32 \<Rightarrow> u32)) \<Rightarrow> bool" where
  "keeps_frame code \<longleftrightarrow> (\<forall>m. fst (code m) SP = regs m SP \<and>
     (\<forall>k < 31. snd (code m) (regs m SP + 4 * of_nat k) = words m (regs m SP + 4 * of_nat k)))"

lemma kernel_entry_code:
  "kernel_entry d code m = do {
     m \<leftarrow> exec ([Csrw Sscratch SP, Addi SP SP (- 124)] @ store_all trap_regs @ [Csrr T0 Sscratch, Sw (X T0) 120 SP, Mv A0 (X SP)]) m;
     r \<leftarrow> call_handle_trap d code m;
     case r of Panic \<Rightarrow> Some Panic
     | Ret m \<Rightarrow> do { m \<leftarrow> exec (load_all trap_regs @ [Lw SP 120 SP]) m; Some (Ret (sret m)) } }"
proof -
  have u: "[0..<30] = [0, 1, 2, 3, 4, 5, 6, 7, 8, 9, 10, 11, 12, 13, 14, 15, 16, 17, 18, 19, 20, 21, 22, 23, 24, 25, 26, 27, 28, 29]"
    by (simp add: upt_rec)
  show ?thesis unfolding kernel_entry_def store_all_def load_all_def trap_regs_def u by simp
qed

lemma save_frame:
  assumes al: "4 dvd unat (regs m SP)"
  shows "\<exists>m2. exec ([Csrw Sscratch SP, Addi SP SP (- 124)] @ store_all trap_regs @ [Csrr T0 Sscratch, Sw (X T0) 120 SP, Mv A0 (X SP)]) m = Some m2 \<and>
    regs m2 SP = regs m SP - 124 \<and> (\<forall>(k, r) \<in> set trap_regs. words m2 (regs m SP - 124 + 4 * of_nat k) = regs m r) \<and>
    words m2 (regs m SP - 124 + 120) = regs m SP \<and> trap_of m2 = trap_of m"
proof -
  let ?b = "regs m SP - 124"
  have "?b = regs m SP + 4 * (- 31)" by simp
  then have al': "4 dvd unat ?b" using aligned_add [OF al, of "- 31"] by simp
  have al2: "4 dvd unat (?b + 120)" using aligned_add [OF al', of 30] by simp
  define m1 where "m1 = m\<lparr>csrs := (csrs m)(Sscratch := regs m SP), regs := (regs m)(SP := ?b)\<rparr>"
  have m1: "regs m1 SP = ?b" "csrs m1 Sscratch = regs m SP" "words m1 = words m" "\<And>r. r \<noteq> SP \<Longrightarrow> regs m1 r = regs m r" "trap_of m1 = trap_of m"
    by (simp_all add: m1_def trap_of_def)
  have "exec [Csrw Sscratch SP, Addi SP SP (- 124)] m = Some m1" by (simp add: m1_def set_csr_def set_reg_def)
  moreover define w where "w = fold (\<lambda>(k, r) w. w(?b + 4 * of_nat k := regs m1 r)) trap_regs (words m)"
  have "exec (store_all trap_regs) m1 = Some (m1\<lparr>words := w\<rparr>)" using exec_store_all [of m1 trap_regs] al' m1(1,3) by (simp add: w_def)
  moreover have "exec [Csrr T0 Sscratch, Sw (X T0) 120 SP, Mv A0 (X SP)] (m1\<lparr>words := w\<rparr>) =
      Some (m1\<lparr>words := w(?b + 120 := regs m SP), regs := (regs m1)(T0 := regs m SP, A0 := ?b)\<rparr>)" (is "_ = Some ?m2")
    using al2 m1(1,2) by (simp add: set_reg_def)
  ultimately have run: "exec ([Csrw Sscratch SP, Addi SP SP (- 124)] @ store_all trap_regs @ [Csrr T0 Sscratch, Sw (X T0) 120 SP, Mv A0 (X SP)]) m = Some ?m2"
    by (simp only: exec_append bind.bind_lunit)
  have "words ?m2 (?b + 4 * of_nat k) = regs m r" if k: "(k, r) \<in> set trap_regs" for k r
  proof -
    have "k < 30" "r \<noteq> SP" using trap_regs_ok(3,4) k by force+
    then have "(4 * of_nat k :: u32) \<noteq> 4 * of_nat 30" using word_index [of k 30] by force
    moreover have "w (?b + 4 * of_nat k) = regs m1 r" unfolding w_def by (rule stored_word) (use trap_regs_ok k in auto)
    ultimately show ?thesis using m1(4) \<open>r \<noteq> SP\<close> by simp
  qed
  then show ?thesis using run m1(1,5) by (intro exI [of _ ?m2]) (auto simp: trap_of_def)
qed

lemma restore_frame:
  assumes al: "4 dvd unat (regs m SP)" and w: "\<forall>(k, r) \<in> set trap_regs. words m (regs m SP + 4 * of_nat k) = f r" "words m (regs m SP + 120) = f SP"
  shows "exec (load_all trap_regs @ [Lw SP 120 SP]) m = Some (m\<lparr>regs := f\<rparr>)"
proof -
  define g where "g = fold (\<lambda>(k, r) f. f(r := words m (regs m SP + 4 * of_nat k))) trap_regs (regs m)"
  have "SP \<notin> snd ` set trap_regs" using trap_regs_ok(4) by simp
  then have load: "exec (load_all trap_regs) m = Some (m\<lparr>regs := g\<rparr>)" "g SP = regs m SP"
    using exec_load_all [OF al, of trap_regs] other_reg [of SP trap_regs "\<lambda>k. words m (regs m SP + 4 * of_nat k)"] by (simp_all add: g_def)
  have "4 dvd unat (regs m SP + 120)" using aligned_add [OF al, of 30] by simp
  moreover have "g(SP := f SP) = f"
  proof
    fix q
    show "(g(SP := f SP)) q = f q"
    proof (cases "q = SP")
      case False
      then have "q \<in> snd ` set trap_regs" using trap_regs_ok(4) by simp
      then obtain k where k: "(k, q) \<in> set trap_regs" by force
      then have "g q = words m (regs m SP + 4 * of_nat k)" unfolding g_def by (rule loaded_reg [OF trap_regs_ok(2)])
      then show ?thesis using w(1) k False by auto
    qed simp
  qed
  ultimately show ?thesis using load w(2) by (simp add: exec_append set_reg_def)
qed

lemma kernel_entry_ok:
  assumes al: "4 dvd unat (regs m SP)" and code: "keeps_frame code"
  shows "case handle_trap d (trap_of m) of None \<Rightarrow> kernel_entry d code m = None
    | Some Panic \<Rightarrow> kernel_entry d code m = Some Panic
    | Some (Ret s) \<Rightarrow> \<exists>m'. kernel_entry d code m = Some (Ret m') \<and> regs m' = regs m \<and> pc m' = sepc s \<and> dev m' = trap_world s \<and> keys m' = trap_input s"
proof -
  let ?b = "regs m SP - 124"
  have "?b = regs m SP + 4 * (- 31)" by simp
  then have al': "4 dvd unat ?b" using aligned_add [OF al, of "- 31"] by simp
  obtain m2 where m2: "exec ([Csrw Sscratch SP, Addi SP SP (- 124)] @ store_all trap_regs @ [Csrr T0 Sscratch, Sw (X T0) 120 SP, Mv A0 (X SP)]) m = Some m2"
    "regs m2 SP = ?b" "\<forall>(k, r) \<in> set trap_regs. words m2 (?b + 4 * of_nat k) = regs m r" "words m2 (?b + 120) = regs m SP" "trap_of m2 = trap_of m"
    using save_frame [OF al] by blast
  show ?thesis
  proof (cases "handle_trap d (trap_of m)")
    case None
    then show ?thesis unfolding kernel_entry_code using m2(1,5) by (simp add: call_handle_trap_def)
  next
    case (Some r)
    show ?thesis
    proof (cases r)
      case Panic
      then show ?thesis unfolding kernel_entry_code using m2(1,5) Some by (simp add: call_handle_trap_def)
    next
      case (Ret s)
      define m3 where "m3 = m2\<lparr>regs := fst (code m2), words := snd (code m2), csrs := (csrs m2)(Sepc := sepc s), dev := trap_world s, keys := trap_input s\<rparr>"
      have call: "call_handle_trap d code m2 = Some (Ret m3)" using m2(5) Some Ret by (simp add: call_handle_trap_def m3_def)
      have "fst (code m2) SP = regs m2 SP \<and> (\<forall>k < 31. snd (code m2) (regs m2 SP + 4 * of_nat k) = words m2 (regs m2 SP + 4 * of_nat k))"
        using code unfolding keeps_frame_def by (rule spec)
      then have c: "regs m3 SP = ?b" "k < 31 \<Longrightarrow> words m3 (?b + 4 * of_nat k) = words m2 (?b + 4 * of_nat k)" for k
        unfolding m2(2) m3_def by simp_all
      have "words m3 (?b + 4 * of_nat k) = regs m r" if "(k, r) \<in> set trap_regs" for k r
      proof -
        have "k < 31" using trap_regs_ok(3) that by force
        then show ?thesis using c(2) m2(3) that by auto
      qed
      then have "exec (load_all trap_regs @ [Lw SP 120 SP]) m3 = Some (m3\<lparr>regs := regs m\<rparr>)"
        using restore_frame [of m3 "regs m"] c(1) c(2) [of 30] al' m2(4) by auto
      then show ?thesis unfolding kernel_entry_code using m2(1) Some Ret call by (simp add: sret_def Let_def m3_def)
    qed
  qed
qed

section \<open>Switching contexts\<close>

definition ctx_regs :: "(nat \<times> reg) list" where
  "ctx_regs = zip [0..<13] [RA, S0, S1, S2, S3, S4, S5, S6, S7, S8, S9, S10, S11]"

lemma ctx_regs_ok: "distinct (map fst ctx_regs)" "distinct (map snd ctx_regs)" "fst ` set ctx_regs = {..<13}"
  "snd ` set ctx_regs = {RA, S0, S1, S2, S3, S4, S5, S6, S7, S8, S9, S10, S11}"
proof -
  have "map fst ctx_regs = [0..<13]" by (simp add: ctx_regs_def)
  then have "set (map fst ctx_regs) = set [0..<13]" by simp
  then show "fst ` set ctx_regs = {..<13}" unfolding set_map set_upt lessThan_atLeast0 .
qed (auto simp: ctx_regs_def upt_rec)

lemma switch_context_code:
  "switch_context m = do {
     m \<leftarrow> exec ([Addi SP SP (- 64)] @ store_all ctx_regs @ [Sw (X SP) 0 A0, Mv SP (X A1)] @ load_all (rev ctx_regs) @ [Addi SP SP 64]) m;
     Some (ret m) }"
proof -
  have u: "[0..<13] = [0, 1, 2, 3, 4, 5, 6, 7, 8, 9, 10, 11, 12]" by (simp add: upt_rec)
  show ?thesis unfolding switch_context_def store_all_def load_all_def ctx_regs_def u by simp
qed

text \<open>The words of a saved context, whose last stack pointer is \<open>b + 64\<close>.\<close>

definition context_saved :: "u32 \<Rightarrow> (reg \<Rightarrow> u32) \<Rightarrow> (u32 \<Rightarrow> u32) \<Rightarrow> bool" where
  "context_saved b f w \<longleftrightarrow> (\<forall>(k, r) \<in> set ctx_regs. w (b + 4 * of_nat k) = f r) \<and> b + 64 = f SP"

lemma switch_context_ok:
  assumes al: "4 dvd unat (regs m SP)" "4 dvd unat (regs m A0)" "4 dvd unat (regs m A1)"
    and slot: "\<forall>k < 13. regs m A0 \<noteq> regs m SP - 64 + 4 * of_nat k"
  shows "\<exists>m'. switch_context m = Some m' \<and> context_saved (regs m SP - 64) (regs m) (words m') \<and> words m' (regs m A0) = regs m SP - 64 \<and>
    (\<forall>a. a \<noteq> regs m A0 \<and> (\<forall>k < 13. a \<noteq> regs m SP - 64 + 4 * of_nat k) \<longrightarrow> words m' a = words m a) \<and>
    (\<forall>f. context_saved (regs m A1) f (words m') \<longrightarrow> (\<forall>r \<in> {RA, S0, S1, S2, S3, S4, S5, S6, S7, S8, S9, S10, S11, SP}. regs m' r = f r) \<and> pc m' = f RA)"
proof -
  let ?b = "regs m SP - 64"
  have "?b = regs m SP + 4 * (- 16)" by simp
  then have al': "4 dvd unat ?b" using aligned_add [OF al(1), of "- 16"] by simp
  define m1 where "m1 = m\<lparr>regs := (regs m)(SP := ?b)\<rparr>"
  have m1: "regs m1 SP = ?b" "words m1 = words m" "\<And>r. r \<noteq> SP \<Longrightarrow> regs m1 r = regs m r" by (simp_all add: m1_def)
  define w where "w = fold (\<lambda>(k, r) w. w(?b + 4 * of_nat k := regs m1 r)) ctx_regs (words m)"
  define W where "W = w(regs m A0 := ?b)"
  define m2 where "m2 = m1\<lparr>words := W, regs := (regs m)(SP := regs m A1)\<rparr>"
  have m2: "regs m2 SP = regs m A1" "words m2 = W" by (simp_all add: m2_def)
  define g where "g = fold (\<lambda>(k, r) f. f(r := W (regs m A1 + 4 * of_nat k))) (rev ctx_regs) (regs m2)"
  have e1: "exec [Addi SP SP (- 64)] m = Some m1" by (simp add: m1_def set_reg_def)
  have e2: "exec (store_all ctx_regs) m1 = Some (m1\<lparr>words := w\<rparr>)" using exec_store_all [of m1 ctx_regs] al' m1 by (simp add: w_def)
  have e3: "exec [Sw (X SP) 0 A0, Mv SP (X A1)] (m1\<lparr>words := w\<rparr>) = Some m2"
    using al(2) by (simp add: set_reg_def m1_def m2_def W_def)
  have sp: "SP \<notin> snd ` set (rev ctx_regs)" using ctx_regs_ok(4) by simp
  have e4: "exec (load_all (rev ctx_regs)) m2 = Some (m2\<lparr>regs := g\<rparr>)" using exec_load_all [of m2 "rev ctx_regs"] al(3) m2 sp by (simp add: g_def)
  have gsp: "g SP = regs m A1" unfolding g_def using other_reg [OF sp, of "\<lambda>k. W (regs m A1 + 4 * of_nat k)" "regs m2"] m2(1) by simp
  have e5: "exec [Addi SP SP 64] (m2\<lparr>regs := g\<rparr>) = Some (m2\<lparr>regs := g(SP := regs m A1 + 64)\<rparr>)" using gsp by (simp add: set_reg_def)
  let ?m = "ret (m2\<lparr>regs := g(SP := regs m A1 + 64)\<rparr>)"
  have run: "switch_context m = Some ?m"
    unfolding switch_context_code exec_append e1 e2 e3 e4 e5 bind.bind_lunit ..
  have idx: "\<forall>k \<in> fst ` set ctx_regs. k < 2 ^ 30" using ctx_regs_ok(3) by simp
  have saved: "W (?b + 4 * of_nat k) = regs m r" if k: "(k, r) \<in> set ctx_regs" for k r
  proof -
    have "k < 13" "r \<noteq> SP" using ctx_regs_ok(3,4) k by force+
    moreover have "w (?b + 4 * of_nat k) = regs m1 r" unfolding w_def by (rule stored_word [OF ctx_regs_ok(1) idx k])
    ultimately show ?thesis using slot m1(3) by (auto simp: W_def)
  qed
  have other: "W a = words m a" if a: "a \<noteq> regs m A0" "\<forall>k < 13. a \<noteq> ?b + 4 * of_nat k" for a
  proof -
    have "a \<notin> (\<lambda>k. ?b + 4 * of_nat k) ` fst ` set ctx_regs" unfolding ctx_regs_ok(3) using a(2) by auto
    then have "a \<notin> (\<lambda>p. ?b + 4 * of_nat (fst p)) ` set ctx_regs" by (simp add: image_image)
    then show ?thesis using a(1) other_word [of a ?b ctx_regs] by (simp add: W_def w_def)
  qed
  have load: "regs ?m r = W (regs m A1 + 4 * of_nat k)" if k: "(k, r) \<in> set ctx_regs" for k r
  proof -
    have "r \<noteq> SP" using ctx_regs_ok(4) k by force
    moreover have "distinct (map snd (rev ctx_regs))" using ctx_regs_ok(2) by (simp add: rev_map [symmetric])
    then have "g r = W (regs m A1 + 4 * of_nat k)" unfolding g_def by (rule loaded_reg) (use k in simp)
    ultimately show ?thesis by (simp add: ret_def)
  qed
  have res: "(\<forall>r \<in> {RA, S0, S1, S2, S3, S4, S5, S6, S7, S8, S9, S10, S11, SP}. regs ?m r = f r) \<and> pc ?m = f RA" if f: "context_saved (regs m A1) f W" for f
  proof -
    have "regs ?m r = f r" if r: "r \<in> snd ` set ctx_regs" for r
    proof -
      obtain k where "(k, r) \<in> set ctx_regs" using r by force
      then show ?thesis using load f by (auto simp: context_saved_def)
    qed
    moreover have "regs ?m SP = f SP" using f by (simp add: context_saved_def ret_def)
    moreover have "pc ?m = regs ?m RA" by (simp add: ret_def)
    ultimately show ?thesis unfolding ctx_regs_ok(4) by auto
  qed
  have ws: "words ?m = W" using m2(2) by (simp add: ret_def)
  have "context_saved ?b (regs m) W" using saved by (auto simp: context_saved_def)
  then show ?thesis using run other res unfolding ws [symmetric]
    by (intro exI [of _ ?m]) (simp add: ws W_def)
qed

section \<open>Clearing the uninitialised data\<close>

lemma dvd_sint: "4 dvd unat a \<longleftrightarrow> 4 dvd sint (a :: u32)"
proof -
  have "int (unat a) = sint a mod 2 ^ 32" using uint_sint [of a] by (simp add: take_bit_eq_mod)
  then have "4 dvd int (unat a) \<longleftrightarrow> 4 dvd sint a" by (simp add: dvd_mod_iff)
  then show ?thesis using int_dvd_int_iff [of 4 "unat a"] by simp
qed

lemma sint_next:
  assumes "4 dvd unat (a :: u32)" "4 dvd unat (b :: u32)" "sint a < sint b"
  shows "sint (a + 4) = sint a + 4" "sint a + 4 \<le> sint b"
proof -
  have d: "4 dvd sint b - sint a" using assms(1,2) unfolding dvd_sint by (rule dvd_diff [rotated])
  then show le: "sint a + 4 \<le> sint b" using assms(3) zdvd_imp_le [OF d] by simp
  have "sint b < 2 ^ 31" "- (2 ^ 31) \<le> sint a" using sint_lt [of b] sint_ge [of a] by simp_all
  then show "sint (a + 4) = sint a + 4" using le by (simp add: sint_word_add signed_take_bit_int_eq_self)
qed

lemma boot_loop_ok:
  fixes m :: "'w machine"
  assumes "4 dvd unat (regs m T0)" "4 dvd unat (regs m T1)" "sint (regs m T0) \<le> sint (regs m T1)"
  shows "boot_loop m = Some (m\<lparr>regs := (regs m)(T0 := regs m T1),
    words := (\<lambda>a. if 4 dvd unat a \<and> sint (regs m T0) \<le> sint a \<and> sint a < sint (regs m T1) then 0 else words m a)\<rparr>)"
  using assms
proof (induction "nat (sint (regs m T1) - sint (regs m T0))" arbitrary: m rule: less_induct)
  case less
  show ?case
  proof (cases "sint (regs m T1) \<le> sint (regs m T0)")
    case True
    then have e: "regs m T1 = regs m T0" using less.prems(3) by (intro signed_word_eqI) simp
    then have "(regs m)(T0 := regs m T1) = regs m" by simp
    moreover have "(\<lambda>a. if 4 dvd unat a \<and> sint (regs m T0) \<le> sint a \<and> sint a < sint (regs m T1) then 0 else words m a) = words m" using e by (auto simp: fun_eq_iff)
    ultimately show ?thesis using True by (subst boot_loop.simps) simp
  next
    case False
    note n = sint_next [OF less.prems(1,2)]
    let ?m = "m\<lparr>words := (words m)(regs m T0 := 0), regs := (regs m)(T0 := regs m T0 + 4)\<rparr>"
    have step: "boot_loop m = boot_loop ?m" using False less.prems(1) by (subst boot_loop.simps) (simp add: set_reg_def)
    have IH: "boot_loop ?m = Some (?m\<lparr>regs := (regs ?m)(T0 := regs ?m T1),
        words := (\<lambda>a. if 4 dvd unat a \<and> sint (regs ?m T0) \<le> sint a \<and> sint a < sint (regs ?m T1) then 0 else words ?m a)\<rparr>)"
      by (rule less.hyps) (use False n less.prems aligned_add [OF less.prems(1), of 1] in auto)
    have "(if 4 dvd unat a \<and> sint (regs m T0) + 4 \<le> sint a \<and> sint a < sint (regs m T1) then 0 else if a = regs m T0 then 0 else words m a) =
        (if 4 dvd unat a \<and> sint (regs m T0) \<le> sint a \<and> sint a < sint (regs m T1) then 0 else words m a)" for a
    proof (cases "a = regs m T0")
      case False
      then have "sint (regs m T0) \<noteq> sint a" using signed_word_eqI by metis
      then show ?thesis using sint_next(2) [OF less.prems(1), of a] False by auto
    qed (use False less.prems(1) in auto)
    then have "(\<lambda>a. if 4 dvd unat a \<and> sint (regs m T0) + 4 \<le> sint a \<and> sint a < sint (regs m T1) then 0 else if a = regs m T0 then 0 else words m a) =
        (\<lambda>a. if 4 dvd unat a \<and> sint (regs m T0) \<le> sint a \<and> sint a < sint (regs m T1) then 0 else words m a)" by (rule ext)
    then show ?thesis unfolding step IH using n(1) False by (simp cong: if_cong)
  qed
qed

lemma boot_clears:
  assumes "4 dvd unat bss" "4 dvd unat bss_end" "sint bss \<le> sint bss_end"
  shows "\<exists>m'. boot bss bss_end sp0 main link m = Some m' \<and> pc m' = main \<and> regs m' SP = sp0 \<and> regs m' RA = link \<and>
    (\<forall>r \<in> {TP, T2, T3, T4, T5, T6, S0, S1, S2, S3, S4, S5, S6, S7, S8, S9, S10, S11}. regs m' r = 0) \<and>
    (\<forall>a. words m' a = (if 4 dvd unat a \<and> sint bss \<le> sint a \<and> sint a < sint bss_end then 0 else words m a))"
proof -
  define f where "f = (regs m)(TP := 0, T0 := bss, T1 := bss_end, T2 := 0, T3 := 0, T4 := 0, T5 := 0, T6 := 0, RA := 0, S0 := 0, S1 := 0, S2 := 0,
    S3 := 0, S4 := 0, S5 := 0, S6 := 0, S7 := 0, S8 := 0, S9 := 0, S10 := 0, S11 := 0)"
  have "exec [Mv TP Zero, Mv T0 Zero, Mv T1 Zero, Mv T2 Zero, Mv T3 Zero, Mv T4 Zero, Mv T5 Zero, Mv T6 Zero, Mv RA Zero,
       Mv S0 Zero, Mv S1 Zero, Mv S2 Zero, Mv S3 Zero, Mv S4 Zero, Mv S5 Zero, Mv S6 Zero, Mv S7 Zero, Mv S8 Zero, Mv S9 Zero,
       Mv S10 Zero, Mv S11 Zero, Li T0 bss, Li T1 bss_end] m = Some (m\<lparr>regs := f\<rparr>)"
    by (simp add: set_reg_def f_def fun_upd_twist)
  moreover have "f T0 = bss" "f T1 = bss_end" by (simp_all add: f_def)
  ultimately show ?thesis using boot_loop_ok [of "m\<lparr>regs := f\<rparr>"] assms by (simp add: boot_def set_reg_def) (simp add: f_def)
qed

section \<open>Properties\<close>

text \<open>A machine for the witnesses.\<close>

definition demo_machine :: "(reg \<Rightarrow> u32) \<Rightarrow> (csr \<Rightarrow> u32) \<Rightarrow> u8 list machine" where
  "demo_machine f c = \<lparr>regs = f, csrs = c, words = (\<lambda>a. a), pc = 0, user_mode = True, dev = [65, 66],
     keys = input_buffer_init \<lparr>buffer = replicate 256 0, write_pos = 0, read_pos = 0, count = 0\<rparr>\<rparr>"

text \<open>C5: a trap is invisible to the interrupted code.  From any state with an aligned stack pointer, \<open>kernel_entry\<close> around
  \<open>handle_trap\<close> gives back all 31 registers; it resumes at the interrupted instruction after a keyboard interrupt, whose character is queued,
  and behind it after an environment call; every other cause ends in a panic.  The compiled code of \<open>handle_trap\<close> is only assumed to
  restore the stack pointer and to leave the trap frame alone.\<close>

theorem kernel_entry_transparent:
  assumes "4 dvd unat (regs m SP)" "keeps_frame code" "ring xs (keys m)" "reg_read d 5 (dev m) = (v, w1)" "reg_read d 0 w1 = (c, w2)"
  shows "if csrs m Scause = 0x80000009 then \<exists>m'. kernel_entry d code m = Some (Ret m') \<and> regs m' = regs m \<and> pc m' = csrs m Sepc \<and>
      ring (if v AND 1 \<noteq> 0 \<and> length xs < 256 then xs @ [c] else xs) (keys m')
    else if csrs m Scause = 8 then \<exists>m'. kernel_entry d code m = Some (Ret m') \<and> regs m' = regs m \<and> pc m' = csrs m Sepc + 4 \<and> keys m' = keys m
    else kernel_entry d code m = Some Panic"
proof -
  have "ring xs (trap_input (trap_of m))" "reg_read d 5 (trap_world (trap_of m)) = (v, w1)" using assms(3,4) by (simp_all add: trap_of_def)
  note h = handle_trap_correct [OF this assms(5)]
  note k = kernel_entry_ok [OF assms(1,2), of d]
  have f: "scause (trap_of m) = csrs m Scause" "sepc (trap_of m) = csrs m Sepc" "trap_input (trap_of m) = keys m" by (simp_all add: trap_of_def)
  show ?thesis
  proof (cases "csrs m Scause = 0x80000009")
    case True
    then obtain b where b: "handle_trap d (trap_of m) = Some (Ret ((trap_of m)\<lparr>trap_world := if v AND 1 \<noteq> 0 then w2 else w1, trap_input := b\<rparr>))"
      "ring (if v AND 1 \<noteq> 0 \<and> length xs < 256 then xs @ [c] else xs) b" using h unfolding f by (simp only: simp_thms if_True) blast
    then show ?thesis using True k f(2) by auto
  next
    case False
    then show ?thesis using h k unfolding f by (auto simp: f split: if_splits)
  qed
qed

theorem kernel_entry_transparent_witness:
  "\<exists>m'. kernel_entry sample_uart (\<lambda>m. (regs m, words m)) (demo_machine (\<lambda>r. 4096) ((\<lambda>_. 0)(Scause := 0x80000009, Sepc := 500))) = Some (Ret m') \<and>
     regs m' = (\<lambda>r. 4096) \<and> pc m' = 500 \<and> ring [65] (keys m')"
proof -
  let ?m = "demo_machine (\<lambda>r. 4096) ((\<lambda>_. 0)(Scause := 0x80000009, Sepc := 500))"
  have "4 dvd unat (regs ?m SP)" "keeps_frame (\<lambda>m :: u8 list machine. (regs m, words m))" "ring [] (keys ?m)"
    by (simp_all add: demo_machine_def keeps_frame_def ring_init)
  from kernel_entry_transparent [OF this, of sample_uart "0x21" "[65, 66]" 65 "[66]"] show ?thesis
    by (simp add: sample_uart_def demo_machine_def)
qed

text \<open>C6: a context that was suspended by \<open>switch_context\<close> is resumed by a later switch to the stack pointer that the first one
  stored: if its saved words are still there and the second switch does not store into them, the callee-saved registers and the stack pointer are those
  of the moment of suspension, and execution goes on behind the first call.\<close>

theorem switch_context_resumes:
  assumes al: "4 dvd unat (regs m SP)" "4 dvd unat (regs m A0)" "4 dvd unat (regs m A1)" "\<forall>k < 13. regs m A0 \<noteq> regs m SP - 64 + 4 * of_nat k"
    and al2: "4 dvd unat (regs n SP)" "4 dvd unat (regs n A0)" "\<forall>k < 13. regs n A0 \<noteq> regs n SP - 64 + 4 * of_nat k"
    and first: "switch_context m = Some m'"
    and between: "regs n A1 = words m' (regs m A0)" "\<forall>k < 13. words n (regs n A1 + 4 * of_nat k) = words m' (regs n A1 + 4 * of_nat k)"
    and apart: "\<forall>k < 13. regs n A1 + 4 * of_nat k \<noteq> regs n A0 \<and> (\<forall>j < 13. regs n A1 + 4 * of_nat k \<noteq> regs n SP - 64 + 4 * of_nat j)"
  shows "\<exists>n'. switch_context n = Some n' \<and> pc n' = regs m RA \<and>
    (\<forall>r \<in> {RA, S0, S1, S2, S3, S4, S5, S6, S7, S8, S9, S10, S11, SP}. regs n' r = regs m r)"
proof -
  obtain m'' where m: "switch_context m = Some m''" "context_saved (regs m SP - 64) (regs m) (words m'')" "words m'' (regs m A0) = regs m SP - 64"
    using switch_context_ok [OF al] by blast
  then have m': "context_saved (regs n A1) (regs m) (words m')" and a1: "regs n A1 = regs m SP - 64" using first between(1) by auto
  have "regs m SP - 64 = regs m SP + 4 * (- 16)" by simp
  then have al1: "4 dvd unat (regs n A1)" using aligned_add [OF al(1), of "- 16"] a1 by simp
  obtain n' where n: "switch_context n = Some n'"
    "\<forall>a. a \<noteq> regs n A0 \<and> (\<forall>k < 13. a \<noteq> regs n SP - 64 + 4 * of_nat k) \<longrightarrow> words n' a = words n a"
    "\<forall>f. context_saved (regs n A1) f (words n') \<longrightarrow> (\<forall>r \<in> {RA, S0, S1, S2, S3, S4, S5, S6, S7, S8, S9, S10, S11, SP}. regs n' r = f r) \<and> pc n' = f RA"
    using switch_context_ok [OF al2(1,2) al1 al2(3)] by blast
  have "words n' (regs n A1 + 4 * of_nat k) = words m' (regs n A1 + 4 * of_nat k)" if "k < 13" for k using n(2) between(2) apart that by simp
  moreover have "k < 13" if "(k, r) \<in> set ctx_regs" for k r using that ctx_regs_ok(3) by force
  ultimately have "context_saved (regs n A1) (regs m) (words n')" using m' unfolding context_saved_def by fastforce
  then show ?thesis using n(1,3) by blast
qed

theorem switch_context_resumes_witness:
  "\<exists>m' n'. switch_context (demo_machine ((\<lambda>r. 7)(SP := 4096, A0 := 8, A1 := 8192)) (\<lambda>_. 0)) = Some m' \<and>
     switch_context (m'\<lparr>regs := (regs m')(SP := 8192, A0 := 12, A1 := words m' 8)\<rparr>) = Some n' \<and> pc n' = 7 \<and> regs n' S3 = 7 \<and> regs n' SP = 4096"
proof -
  let ?m = "demo_machine ((\<lambda>r. 7)(SP := 4096, A0 := 8, A1 := 8192)) (\<lambda>_. 0)"
  have at: "unat (b + 4 * of_nat k :: u32) = unat b + 4 * k" if "k < 13" "unat b < 2 ^ 31" for b k
    using that by (simp add: unat_word_ariths unsigned_of_nat take_bit_nat_eq_self)
  have far: "(c :: u32) \<noteq> b + 4 * of_nat k" if "k < 13" "unat b < 2 ^ 31" "unat c < unat b \<or> unat b + 52 \<le> unat c" for b c k
    using at [OF that(1,2)] that(1,3) by auto
  have al: "4 dvd unat (regs ?m SP)" "4 dvd unat (regs ?m A0)" "4 dvd unat (regs ?m A1)" "\<forall>k < 13. regs ?m A0 \<noteq> regs ?m SP - 64 + 4 * of_nat k"
    using far [of _ 4032 8] by (simp_all add: demo_machine_def)
  obtain m' where m': "switch_context ?m = Some m'" "words m' (regs ?m A0) = regs ?m SP - 64" using switch_context_ok [OF al] by blast
  let ?n = "m'\<lparr>regs := (regs m')(SP := 8192, A0 := 12, A1 := words m' 8)\<rparr>"
  have w: "words m' 8 = 4032" using m'(2) by (simp add: demo_machine_def)
  have "\<exists>n'. switch_context ?n = Some n' \<and> pc n' = regs ?m RA \<and>
      (\<forall>r \<in> {RA, S0, S1, S2, S3, S4, S5, S6, S7, S8, S9, S10, S11, SP}. regs n' r = regs ?m r)"
  proof (rule switch_context_resumes [OF al _ _ _ m'(1)])
    show "\<forall>k < 13. regs ?n A1 + 4 * of_nat k \<noteq> regs ?n A0 \<and> (\<forall>j < 13. regs ?n A1 + 4 * of_nat k \<noteq> regs ?n SP - 64 + 4 * of_nat j)"
    proof (intro allI impI conjI)
      fix k j :: nat assume k: "k < 13"
      then have u: "unat (regs ?n A1 + 4 * of_nat k) = 4032 + 4 * k" using w at [of k 4032] by simp
      then show "regs ?n A1 + 4 * of_nat k \<noteq> regs ?n A0" by (simp add: word_unat_eq_iff)
      assume "j < 13"
      then have v: "unat (regs ?n SP - 64 + 4 * of_nat j) = 8128 + 4 * j" using at [of j 8128] by simp
      show "regs ?n A1 + 4 * of_nat k \<noteq> regs ?n SP - 64 + 4 * of_nat j"
      proof
        assume "regs ?n A1 + 4 * of_nat k = regs ?n SP - 64 + 4 * of_nat j"
        from arg_cong [OF this, of unat] show False unfolding u v using k by linarith
      qed
    qed
  qed (use w far [of _ 8128 12] m'(2) in \<open>simp_all add: demo_machine_def\<close>)
  then show ?thesis using m'(1) by (auto simp: demo_machine_def)
qed

text \<open>C40: \<open>boot\<close> terminates: it stores zero in every word between the symbols \<open>bss\<close> and \<open>bss_end\<close>, whatever their distance, changes no
  other word, and enters \<open>kernel_main\<close> with the stack pointer at \<open>__stack_top\<close>.\<close>

theorem boot_clears_bss:
  assumes "4 dvd unat bss" "4 dvd unat bss_end" "sint bss \<le> sint bss_end"
  shows "\<exists>m'. boot bss bss_end sp0 main link m = Some m' \<and> pc m' = main \<and> regs m' SP = sp0 \<and> regs m' RA = link \<and>
    (\<forall>r \<in> {TP, T2, T3, T4, T5, T6, S0, S1, S2, S3, S4, S5, S6, S7, S8, S9, S10, S11}. regs m' r = 0) \<and>
    (\<forall>a. words m' a = (if 4 dvd unat a \<and> sint bss \<le> sint a \<and> sint a < sint bss_end then 0 else words m a))"
  by (rule boot_clears [OF assms])

theorem boot_clears_bss_witness:
  "\<exists>m'. boot 0x80210000 0x80610000 0x80400000 0x80200100 0x80200080 (demo_machine (\<lambda>r. 7) (\<lambda>_. 0)) = Some m' \<and> regs m' SP = 0x80400000 \<and>
     words m' 0x80300000 = 0 \<and> words m' 0x80610000 = 0x80610000"
  using boot_clears_bss [of "0x80210000" "0x80610000" "0x80400000" "0x80200100" "0x80200080" "demo_machine (\<lambda>r. 7) (\<lambda>_. 0)"]
  by (auto simp: demo_machine_def)

text \<open>The linker script puts \<open>__stack_top\<close> two megabytes above the start of the image, but the uninitialised data contains the heap of four
  megabytes: as soon as the code and data before it are smaller than two megabytes, the stack lies in the middle of the uninitialised
  data, and the \<open>memset\<close> at the start of \<open>kernel_main\<close> clears all of the stack it is running on.\<close>

theorem boot_stack_in_bss:
  assumes "4 dvd unat bss" "4 dvd unat bss_end" "load_address \<le> bss" "bss < stack_top" "unat bss + 4194304 \<le> unat bss_end"
  shows "\<exists>m'. boot bss bss_end stack_top kernel_main link m = Some m' \<and> bss < regs m' SP \<and> regs m' SP < bss_end \<and>
    (\<forall>a. bss \<le> a \<and> a < regs m' SP \<longrightarrow> snd (memset bss 0 (bss_end - bss) mem) a = 0)"
proof -
  have u: "0x80200000 \<le> unat bss" "unat bss < 0x80400000" "unat stack_top = 0x80400000" using assms(3,4) by (simp_all add: word_le_nat_alt word_less_nat_alt stack_top_def)
  have s: "sint a = int (unat a) - 2 ^ 32" if "2 ^ 31 \<le> unat (a :: u32)" for a
  proof -
    have m: "uint a = sint a mod 2 ^ 32" using uint_sint [of a] by (simp add: take_bit_eq_mod)
    have r: "- (2 ^ 31) \<le> sint a" "sint a < 2 ^ 31" using sint_lt [of a] sint_ge [of a] by simp_all
    have v: "int (unat a) = uint a" by simp
    have "int (2 ^ 31) \<le> int (unat a)" using that by (simp only: of_nat_le_iff)
    then have g: "2 ^ 31 \<le> uint a" unfolding v by simp
    have n: "sint a < 0"
    proof (rule ccontr)
      assume "\<not> sint a < 0"
      then have "sint a mod 2 ^ 32 = sint a" using r by (intro mod_pos_pos_trivial) simp_all
      then show False using m g r by linarith
    qed
    have "(sint a + 2 ^ 32) mod 2 ^ 32 = sint a + 2 ^ 32" using r n by (intro mod_pos_pos_trivial) simp_all
    then have "uint a = sint a + 2 ^ 32" using m by simp
    then show ?thesis unfolding v by linarith
  qed
  have "2 ^ 31 \<le> unat bss" "2 ^ 31 \<le> unat bss_end" using u assms(5) by simp_all
  then have "sint bss \<le> sint bss_end" using s [of bss] s [of bss_end] assms(5) by linarith
  then obtain m' where m': "boot bss bss_end stack_top kernel_main link m = Some m'" "regs m' SP = stack_top"
    using boot_clears [OF assms(1,2)] by blast
  have d: "unat (bss_end - bss) = unat bss_end - unat bss" using unat_sub [of bss bss_end] assms(5) by (simp add: word_le_nat_alt)
  have "unat bss + unat (bss_end - bss) \<le> 2 ^ 32" using d assms(5) unsigned_less [of bss_end, where 'a = nat] by simp
  note ms = memset_correct [OF this]
  have "snd (memset bss 0 (bss_end - bss) mem) a = 0" if "bss \<le> a" "a < stack_top" for a
    using that u d assms(5) unfolding ms by (auto simp: word_le_nat_alt word_less_nat_alt)
  then show ?thesis using m' assms(4,5) u by (intro exI [of _ m']) (simp add: word_less_nat_alt)
qed

theorem boot_stack_in_bss_witness:
  "\<exists>m'. boot 0x80210000 0x80620000 stack_top 0x80200100 0x80200080 (demo_machine (\<lambda>r. 7) (\<lambda>_. 0)) = Some m' \<and> 0x80210000 < regs m' SP \<and> regs m' SP < 0x80620000"
  using boot_stack_in_bss [of "0x80210000" "0x80620000" "0x80200100" "0x80200080" "demo_machine (\<lambda>r. 7) (\<lambda>_. 0)"] by (auto simp: stack_top_def)

end
