(* ===== verification/Spec2Isabelle.thy ===== *)
theory Spec2Isabelle
  imports Rbtree_Props Cfs_Props Kmalloc_Props Fd_Props Epoll_Props Scheduler_Props Fs_Props Btree_Props Inode_Names_Props Inode_Trunc Trap Shell_Props Boot Demo Btree_Test Asm
begin

text \<open>
  fru1t-os, a small RISC-V (32 bit) teaching kernel: a verification of its data structures, schedulers and
  subsystems.

  \<^bold>\<open>How C is modelled.\<close>  A function of the source is a function of the same name on an explicit state, and the
  value \<open>None\<close> of its \<open>option\<close> result is behaviour that C leaves undefined: a null or freed pointer
  is followed, an array is accessed outside its bounds, or a machine load reads an address that cannot be read.  A theorem that ends in \<open>Some\<close> therefore says that
  the code returns, and that no such access happens.  A pointer to an object is an \<open>option\<close> of its address, with
  \<open>None\<close> as \<open>NULL\<close>, and objects of one type live in a partial heap of their own; unsigned integers are
  words of their width and wrap; \<open>int\<close> counters that cannot overflow are \<open>int\<close>.  A loop is a recursive function, with
  a termination proof or, when it runs over pointers and a malformed heap could make it endless, a partial function
  into \<open>option\<close>, where not returning is \<open>None\<close> as well; no fuel is used.  The shell and the start
  of the kernel are modelled with all text they print, through \<open>printf\<close> and the firmware; elsewhere messages are left out.

  \<^bold>\<open>The parts and their theories\<close>

  \<^item> Kernel_Prelude: words, pointers and partial heaps.

  \<^item> Red-black tree (src/rbtree.c, src/rbtree.h): Rbtree has every function at the pointer level, parent pointers and
    colours included.  Rbtree_Shape relates a heap of nodes to a functional tree, Rbtree_Insert, Rbtree_Fixup and Rbtree_Erase prove
    the rebalancing loops, Rbtree_Walk proves \<open>rb_first\<close> and \<open>rb_next\<close> and states the interface \<open>link_search\<close> of a search
    for the place of a new node, which the CFS queue and epoll implement.  Rbtree_Props: insertion and
    removal terminate, keep the red-black properties and change the in-order sequence by exactly one node.

  \<^item> CFS scheduler (src/cfs.c, src/cfs.h) on the tree and the process table (Process, src/kernel.h): Cfs has every function, Cfs_Inv the
    invariant of the run queue, Cfs_Tick the timer tick, Cfs_Props the properties of all
    reachable states: no task is lost, the task that is picked has the least virtual runtime, the counters are exact; and the
    exact meaning of the unsigned arithmetic where it wraps: a tick preempts a task that is behind all others.

  \<^item> Kernel heap (src/kernel.c, \<open>memory_init\<close> to \<open>print_memory_stats\<close>): Kmalloc has the first-fit allocator over block headers
    in a heap of 4 MB, Kmalloc_Props shows that it refines first fit on a list of blocks and states its contract as the locale
    \<open>allocator\<close>; Kbytes extends it to the bytes of the blocks (\<open>block_heap\<close>).  epoll, the file system and the B-tree use
    the allocator through these interfaces.

  \<^item> UART and keyboard buffer (src/kernel.c): Uart has the driver over a device that is a parameter of the model, and the ring buffer,
    an implementation of the locale \<open>bounded_queue\<close>.

  \<^item> File descriptors (src/fd.c, src/fd.h): Fd and Fd_Props; the functions in an operation table are functions on the state of
    the outside world.

  \<^item> epoll (src/epoll.c, src/epoll.h): Epoll composes the red-black tree, the heap and the descriptor table.  Epoll_Inv has the
    invariant of all instances, Epoll_Ctl the three operations of \<open>epoll_ctl\<close>, Epoll_Props the refinement of a map of
    interests, what \<open>epoll_wait\<close> reports and what \<open>epoll_close\<close> frees.

  \<^item> Round-robin scheduler (src/kernel.c, \<open>scheduler_init\<close> to \<open>context_switch\<close>): Scheduler has the process table and the context
    switch at the level of registers: its loads read the trap frames and, after they have overwritten their base register, any other
    address of a partial memory, where they may fault.  Scheduler_Props has the reachable states, the bound on waiting, and
    the faults of \<open>context_switch\<close> and \<open>process_exit\<close>.

  \<^item> String functions and RAM file system (src/kernel.c): Kstring has the string functions on byte lists that end with their
    object, Fs the 32 file slots over the heap, Fs_Props the refinement of a map from names to contents.

  \<^item> B-tree (src/btree.c, src/btree.h): Btree has every function.  Btree_Rep relates the nodes of the heap to an abstract tree of any
    height, Btree_Walk proves search, neighbours and traversal, Btree_Update insertion and deletion along a path and the
    destruction of a tree, Btree_Props the contract as a map and the overflow of \<open>btree_split_child\<close>, because of which
    code that starts from an empty tree only reaches trees of at most four keys.

  \<^item> Inode file system (src/inode.c, src/inode.h): Inode has every function, over the B-trees, the heap and its bytes.  Inode_Rep has the
    bitmaps and the invariant that every used block belongs to one place of one file, Inode_IO the loops that read and write block by
    block, Inode_Props that a write is read back and leaves the other files alone, what block allocation does, and the
    blocks that \<open>inode_free\<close> loses in a file with holes.  Inode_Dense shows that writing from the start leaves no holes, Inode_Trunc that truncation gives back exactly
    the blocks behind the new size, Inode_Dir that the two trees, as long as they are leaves, are two maps in one memory (locale \<open>shared_map\<close>), Inode_Names composes all of
    this to the operations by name, and Inode_Names_Props has their properties: they refine a map from hashes of names to contents, in the reachable states
    no block is lost, and there are at most four files, because the insertion of a fifth key is undefined.

  \<^item> \<open>printf\<close>, \<open>memset\<close> and \<open>snprintf\<close> (src/common.c, src/kernel.c): Printf has them with the loops over the divisor and the digits on
    words, and proves that every known conversion prints the reference numeral; a format that ends in \<open>%l\<close> is read past its end.

  \<^item> Page allocator and traps (src/kernel.c): Trap has \<open>alloc_pages\<close> and \<open>handle_trap\<close>, with a panic as an outcome of its own; a run of
    requests returns disjoint zeroed pages, unless a product of 32 bits wraps.

  \<^item> Assembly routines (src/asm_functions.s) and linker script (src/kernel.ld): Asm has the instructions that are used, on a machine with registers, control registers and aligned
    words of memory, and every routine as a list of instructions.  A trap leaves the registers of the interrupted program unchanged, if the compiled code of
    \<open>handle_trap\<close> follows the calling convention and does not write the trap frame (\<open>keeps_frame\<close>); \<open>switch_context\<close> resumes what it saved; \<open>boot\<close> clears
    the static data and terminates, but the stack that it sets up lies inside this data.

  \<^item> Shell (src/kernel.c, \<open>getchar_blocking\<close>, \<open>str_to_int\<close> and \<open>shell_init\<close> to \<open>shell_run\<close>): Shell has every function, with the line, the token buffer,
    the file system, the firmware with the outside world and a trace of the output in one state \<open>sys\<close>; \<open>putchar\<close> and \<open>sbi_console_getchar\<close> call the firmware, which is a
    parameter like the UART, and theorems about input suppose that it delivers the keys whatever is printed between them (\<open>delivers\<close>).  Heap_Room says when \<open>kmalloc\<close>
    cannot fail, as the locale \<open>roomy_heap\<close>, because the shell does not test all of its results: a line of at most 255 characters needs at most 22 bytes of
    heap for each of them, headers and rounding included, and one file of 1024 bytes, and 8 KB cover both.  Shell_Tokens proves the tokenizer against a split at
    blanks, Shell_Exec the commands, Shell_Props that a command line changes the files as its words say and gives all token
    blocks back, that the line buffer is never overrun, and that a session ends at \<open>exit\<close>.

  \<^item> Boot (src/kernel.c, \<open>kernel_main\<close>): \<open>memset\<close> works on the bytes of the memory, from which the static variables are then read; their addresses are a
    parameter, and \<open>layout_ok\<close> says that they lie between \<open>bss\<close> and \<open>bss_end\<close>.  Whatever the memory held, the kernel then starts in a state that satisfies the
    invariants above, with the two sample files, and a command line can print one of them; it comes to its final wait exactly if the tests, which are an argument, return.

  \<^item> Demonstrations and tests: Demo has the memory test, the file system test and the scripted shell session of src/kernel.c, and shows that they return and what they leave
    behind; Btree_Test has the first B-tree test of src/test_btree_fs.c, which is undefined at its fifth insertion.

  \<^bold>\<open>Interfaces\<close>: \<open>link_search\<close> (red-black tree and its users), \<open>allocator\<close>, \<open>block_heap\<close> and \<open>roomy_heap\<close> (kernel heap and its users), \<open>bounded_queue\<close>
  (keyboard buffer), \<open>shared_map\<close> (B-tree and i-node file system); each is interpreted on the model's own functions in the theory of the provider.

  \<^bold>\<open>Not modelled\<close>: the processes \<open>process_a\<close>, \<open>process_b\<close> and \<open>process_c\<close> of src/kernel.c, whose loops continue in another process at every \<open>yield\<close>, through
  a context switch that does not keep the stack pointer; the other tests of src/test_features.c and src/test_btree_fs.c, which only call the parts above
  on fixed data and print; the firmware behind \<open>sbi_call\<close>, which is a parameter; the stack of the C functions, which the linker script puts inside the data that \<open>kernel_main\<close> clears; declarations and constants of the header files that no function uses.
\<close>

end
